(* ===== verification/Kv_Prelude.thy ===== *)
theory Kv_Prelude
  imports Main "HOL-Library.Word" "HOL-Library.AList" "HOL-Library.Multiset"
begin

text \<open>
  Shared vocabulary of the development: the C++ integer types as words, the ways a
  C++ function of the program can stop without returning (\<open>fault\<close>), the sequencing of
  computations that may stop (\<open>bind_r\<close>, \<open>loop_r\<close>), checked access to a
  \<^verbatim>\<open>std::vector\<close>, the association-list reading of \<^verbatim>\<open>std::unordered_map\<close>, and the generic
  lemmas on words, lists and faults that the component theories use.
\<close>

section \<open>Types\<close>

type_synonym u8 = "8 word"
type_synonym u32 = "32 word"
type_synonym u64 = "64 word"

text \<open>\<^verbatim>\<open>std::vector<uint8_t>\<close>; a \<^verbatim>\<open>std::string\<close> made from such a vector is the same list.\<close>

type_synonym bytes = "u8 list"

text \<open>
  How a call can end without a value: \<open>Fatal\<close> is \<^verbatim>\<open>LOG_FATAL\<close>, which throws
  \<^verbatim>\<open>std::runtime_error\<close> and is caught nowhere; \<open>Assert\<close> is a failed \<^verbatim>\<open>assert\<close>;
  \<open>Undefined\<close> is undefined behaviour of C++ (a vector read out of range, a null
  pointer dereferenced, an uninitialised variable read).
\<close>

datatype fault = Fatal string | Assert string | Undefined string

type_synonym 'a res = "fault + 'a"

named_theorems wordnat \<open>comparison and arithmetic of words read as naturals\<close>
named_theorems res_intro \<open>introduction rules for computations that return\<close>

section \<open>Sequencing computations that may stop\<close>

definition bind_r :: "fault + 'a \<Rightarrow> ('a \<Rightarrow> fault + 'b) \<Rightarrow> fault + 'b" where
  "bind_r m f = (case m of Inl e \<Rightarrow> Inl e | Inr x \<Rightarrow> f x)"

definition guard_r :: "bool \<Rightarrow> fault \<Rightarrow> fault + unit" where
  "guard_r b e = (if b then Inr () else Inl e)"

text \<open>A range-based \<^verbatim>\<open>for\<close> loop whose body changes a state and may stop.\<close>

primrec loop_r :: "('a \<Rightarrow> 's \<Rightarrow> fault + 's) \<Rightarrow> 'a list \<Rightarrow> 's \<Rightarrow> fault + 's" where
  "loop_r f [] s = Inr s"
| "loop_r f (x # xs) s = bind_r (f x s) (loop_r f xs)"

text \<open>\<^verbatim>\<open>v[i]\<close> on a \<^verbatim>\<open>std::vector\<close>: undefined outside the vector.\<close>

definition nth_r :: "'a list \<Rightarrow> nat \<Rightarrow> fault + 'a" where
  "nth_r xs i = (if i < length xs then Inr (xs ! i) else Inl (Undefined ''vector index''))"

text \<open>The elements \<^verbatim>\<open>v[lo], ..., v[hi-1]\<close>, read one by one or as an iterator range.\<close>

definition range_r :: "'a list \<Rightarrow> nat \<Rightarrow> nat \<Rightarrow> fault + 'a list" where
  "range_r xs lo hi =
     (if hi \<le> length xs \<or> hi \<le> lo then Inr (take (hi - lo) (drop lo xs))
      else Inl (Undefined ''vector range''))"

text \<open>\<^verbatim>\<open>v.erase(v.begin(), v.begin() + n)\<close>.\<close>

definition erase_prefix_r :: "nat \<Rightarrow> 'a list \<Rightarrow> fault + 'a list" where
  "erase_prefix_r n xs =
     (if n \<le> length xs then Inr (drop n xs) else Inl (Undefined ''vector erase''))"

text \<open>\<^verbatim>\<open>*p\<close> on a pointer that may be null.\<close>

definition deref_r :: "'a option \<Rightarrow> fault + 'a" where
  "deref_r p = (case p of None \<Rightarrow> Inl (Undefined ''null pointer'') | Some x \<Rightarrow> Inr x)"

definition returns :: "fault + 'a \<Rightarrow> bool" where
  "returns m \<longleftrightarrow> (\<exists>x. m = Inr x)"

lemma bind_r_Inr [simp]: "bind_r (Inr x) f = f x"
  by (simp add: bind_r_def)

lemma bind_r_Inl [simp]: "bind_r (Inl e) f = Inl e"
  by (simp add: bind_r_def)

lemma bind_r_eq_Inr: "bind_r m f = Inr y \<longleftrightarrow> (\<exists>x. m = Inr x \<and> f x = Inr y)"
  by (cases m) auto

lemma bind_r_InrE [elim!]:
  assumes "bind_r m f = Inr y"
  obtains x where "m = Inr x" and "f x = Inr y"
  using assms by (auto simp: bind_r_eq_Inr)

lemma bind_r_returns [res_intro]:
  "m = Inr x \<Longrightarrow> f x = Inr y \<Longrightarrow> bind_r m f = Inr y"
  by simp

lemma bind_r_assoc [simp]: "bind_r (bind_r m f) g = bind_r m (\<lambda>x. bind_r (f x) g)"
  by (cases m) auto

lemma bind_r_cong [fundef_cong]:
  "m = m' \<Longrightarrow> (\<And>x. m' = Inr x \<Longrightarrow> f x = f' x) \<Longrightarrow> bind_r m f = bind_r m' f'"
  by (cases m') auto

lemma guard_r_Inr [simp]: "guard_r b e = Inr u \<longleftrightarrow> b"
  by (simp add: guard_r_def)

lemma guard_r_True [simp]: "guard_r True e = Inr ()"
  by (simp add: guard_r_def)

lemma guard_r_False [simp]: "guard_r False e = Inl e"
  by (simp add: guard_r_def)

lemma nth_r_Inr [simp]: "nth_r xs i = Inr x \<longleftrightarrow> i < length xs \<and> xs ! i = x"
  by (auto simp: nth_r_def)

lemma nth_r_ok [simp]: "i < length xs \<Longrightarrow> nth_r xs i = Inr (xs ! i)"
  by (simp add: nth_r_def)

lemma nth_r_oob: "length xs \<le> i \<Longrightarrow> nth_r xs i = Inl (Undefined ''vector index'')"
  by (simp add: nth_r_def)

lemma range_r_ok [simp]: "hi \<le> length xs \<Longrightarrow> range_r xs lo hi = Inr (take (hi - lo) (drop lo xs))"
  by (simp add: range_r_def)

lemma erase_prefix_r_ok [simp]: "n \<le> length xs \<Longrightarrow> erase_prefix_r n xs = Inr (drop n xs)"
  by (simp add: erase_prefix_r_def)

lemma erase_prefix_r_Inr [simp]: "erase_prefix_r n xs = Inr ys \<longleftrightarrow> n \<le> length xs \<and> ys = drop n xs"
  by (auto simp: erase_prefix_r_def)

lemma deref_r_Inr [simp]: "deref_r p = Inr x \<longleftrightarrow> p = Some x"
  by (simp add: deref_r_def split: option.splits)

lemma deref_r_Some [simp]: "deref_r (Some x) = Inr x"
  by (simp add: deref_r_def)

lemma deref_r_None [simp]: "deref_r None = Inl (Undefined ''null pointer'')"
  by (simp add: deref_r_def)

lemma returns_Inr [simp]: "returns (Inr x)"
  by (simp add: returns_def)

lemma returns_Inl [simp]: "\<not> returns (Inl e)"
  by (simp add: returns_def)

text \<open>Invariants and relations carried through a loop.\<close>

lemma loop_r_invariant:
  assumes "loop_r f xs s = Inr s'" and "P s"
    and "\<And>x s s'. x \<in> set xs \<Longrightarrow> P s \<Longrightarrow> f x s = Inr s' \<Longrightarrow> P s'"
  shows "P s'"
  using assms by (induction xs arbitrary: s) auto

lemma loop_r_relation:
  assumes "loop_r f xs s = Inr s'"
    and "\<And>s. R s s" and "\<And>s t u. R s t \<Longrightarrow> R t u \<Longrightarrow> R s u"
    and "\<And>x s s'. x \<in> set xs \<Longrightarrow> f x s = Inr s' \<Longrightarrow> R s s'"
  shows "R s s'"
  using assms(1,4)
proof (induction xs arbitrary: s)
  case Nil
  then show ?case using assms(2) by simp
next
  case (Cons x xs)
  from Cons.prems(1) obtain t where t: "f x s = Inr t" and rest: "loop_r f xs t = Inr s'"
    by auto
  have "R s t" using t by (rule Cons.prems(2) [rotated]) simp
  moreover have "R t s'" by (rule Cons.IH [OF rest]) (rule Cons.prems(2), simp_all)
  ultimately show ?case by (rule assms(3))
qed

lemma loop_r_returns:
  assumes "P s"
    and "\<And>x s. x \<in> set xs \<Longrightarrow> P s \<Longrightarrow> \<exists>s'. f x s = Inr s' \<and> P s'"
  shows "\<exists>s'. loop_r f xs s = Inr s' \<and> P s'"
  using assms
proof (induction xs arbitrary: s)
  case Nil
  then show ?case by simp
next
  case (Cons x xs)
  then obtain t where "f x s = Inr t" and "P t" by (meson list.set_intros(1))
  moreover then obtain s' where "loop_r f xs t = Inr s'" and "P s'"
    using Cons.IH [of t] Cons.prems(2) by auto
  ultimately show ?case by auto
qed

section \<open>Words read as naturals\<close>

declare word_less_nat_alt [wordnat]
declare word_le_nat_alt [wordnat]

lemma word_eq_unat [wordnat]: "(x :: 'a::len word) = y \<longleftrightarrow> unat x = unat y"
  by (simp add: word_unat_eq_iff)

lemma unat_add_small [wordnat]:
  "unat x + unat y < 2 ^ LENGTH('a) \<Longrightarrow> unat (x + y :: 'a::len word) = unat x + unat y"
  by (simp add: unat_word_ariths)

lemma unat_sub_le [wordnat]:
  "unat y \<le> unat x \<Longrightarrow> unat (x - y :: 'a::len word) = unat x - unat y"
  by (simp add: unat_sub word_le_nat_alt)

lemma unat_of_nat_small [wordnat]:
  "n < 2 ^ LENGTH('a) \<Longrightarrow> unat (of_nat n :: 'a::len word) = n"
  by (simp add: unat_of_nat take_bit_eq_mod)

lemma unat_lt64: "unat (x :: u64) < 18446744073709551616"
  using unsigned_less [of x] by simp

lemma unat_lt32: "unat (x :: u32) < 4294967296"
  using unsigned_less [of x] by simp

lemma unat_succ64 [wordnat]:
  "unat (x :: u64) < 18446744073709551615 \<Longrightarrow> unat (x + 1) = unat x + 1"
  by (subst unat_add_small) simp_all

lemma unat_pred64 [wordnat]:
  "0 < unat (x :: u64) \<Longrightarrow> unat (x - 1) = unat x - 1"
  by (subst unat_sub_le) simp_all

lemma unat_pred64_eq: "unat (x :: u64) = n \<Longrightarrow> 0 < n \<Longrightarrow> unat (x - 1) = n - 1"
  using unat_pred64 [of x] by simp

lemma unat_add_of_nat64:
  "unat (x :: u64) + n < 18446744073709551616 \<Longrightarrow> unat (x + of_nat n) = unat x + n"
proof -
  assume a: "unat x + n < 18446744073709551616"
  then have "unat (of_nat n :: u64) = n" by (subst unat_of_nat_small) simp_all
  with a show ?thesis by (subst unat_add_small) simp_all
qed

lemma unat_min [simp]: "unat (min x y :: 'a::len word) = min (unat x) (unat y)"
  by (simp add: min_def word_le_nat_alt)

lemma unat_max [simp]: "unat (max x y :: 'a::len word) = max (unat x) (unat y)"
  by (simp add: max_def word_le_nat_alt)

section \<open>Lists\<close>

lemma nth_take_append:
  "i < n \<Longrightarrow> n \<le> length xs \<Longrightarrow> (take n xs @ ys) ! i = xs ! i"
  by (simp add: nth_append)

lemma nth_take_append_ge:
  "n \<le> i \<Longrightarrow> n \<le> length xs \<Longrightarrow> (take n xs @ ys) ! i = ys ! (i - n)"
  by (simp add: nth_append)

section \<open>\<^verbatim>\<open>std::unordered_map\<close> as an association list\<close>

text \<open>
  A \<^verbatim>\<open>std::unordered_map\<close> is an association list with distinct keys: the list order
  stands for the iteration order, which C++ leaves unspecified; \<open>map_of\<close> is \<^verbatim>\<open>find\<close>,
  \<open>AList.update\<close> is \<^verbatim>\<open>m[k] = v\<close> (in place, or at the end for a new key) and
  \<open>AList.delete\<close> is \<^verbatim>\<open>erase\<close>.
\<close>

type_synonym ('k, 'v) umap = "('k \<times> 'v) list"

definition umap_ok :: "('k \<times> 'v) list \<Rightarrow> bool" where
  "umap_ok m \<longleftrightarrow> distinct (map fst m)"

text \<open>The interface the components use, and its laws; the order of iteration is not part of it.\<close>

locale finite_map =
  fixes lookup :: "'m \<Rightarrow> 'k \<Rightarrow> 'v option"
    and update :: "'k \<Rightarrow> 'v \<Rightarrow> 'm \<Rightarrow> 'm"
    and delete :: "'k \<Rightarrow> 'm \<Rightarrow> 'm"
    and keys :: "'m \<Rightarrow> 'k list"
    and invar :: "'m \<Rightarrow> bool"
  assumes lookup_update: "invar m \<Longrightarrow> lookup (update k v m) = (lookup m)(k \<mapsto> v)"
    and lookup_delete: "invar m \<Longrightarrow> lookup (delete k m) = (lookup m)(k := None)"
    and keys_dom: "invar m \<Longrightarrow> set (keys m) = dom (lookup m)"
    and keys_distinct: "invar m \<Longrightarrow> distinct (keys m)"
    and invar_update: "invar m \<Longrightarrow> invar (update k v m)"
    and invar_delete: "invar m \<Longrightarrow> invar (delete k m)"
begin

lemma length_keys: "invar m \<Longrightarrow> length (keys m) = card (dom (lookup m))"
  using keys_dom keys_distinct distinct_card by metis

lemma length_keys_update:
  "invar m \<Longrightarrow> length (keys (update k v m)) =
     (if lookup m k = None then Suc (length (keys m)) else length (keys m))"
proof -
  assume m: "invar m"
  have fin: "finite (dom (lookup m))" using keys_dom [OF m] by (metis List.finite_set)
  have "dom (lookup (update k v m)) = insert k (dom (lookup m))"
    using m by (auto simp: lookup_update)
  then show ?thesis
    using m fin by (auto simp: length_keys invar_update card_insert_if domIff)
qed

lemma length_keys_delete:
  "invar m \<Longrightarrow> length (keys (delete k m)) =
     (if lookup m k = None then length (keys m) else length (keys m) - 1)"
proof -
  assume m: "invar m"
  have fin: "finite (dom (lookup m))" using keys_dom [OF m] by (metis List.finite_set)
  have "dom (lookup (delete k m)) = dom (lookup m) - {k}"
    using m by (auto simp: lookup_delete split: if_splits)
  then show ?thesis
    using m fin by (auto simp: length_keys invar_delete card_Diff_singleton_if domIff)
qed

end

interpretation umap: finite_map map_of AList.update AList.delete "map fst" umap_ok
proof unfold_locales
  fix m :: "('k \<times> 'v) list" and k v
  show "map_of (AList.update k v m) = (map_of m)(k \<mapsto> v)" by (rule update_conv')
  show "map_of (AList.delete k m) = (map_of m)(k := None)" by (rule delete_conv')
  show "set (map fst m) = dom (map_of m)" by (simp add: dom_map_of_conv_image_fst)
  assume m: "umap_ok m"
  from m show "distinct (map fst m)" by (simp add: umap_ok_def)
  from m show "umap_ok (AList.update k v m)" by (simp add: umap_ok_def distinct_update)
  from m show "umap_ok (AList.delete k m)" by (simp add: umap_ok_def distinct_delete)
qed

section \<open>Simulation\<close>

text \<open>Every step of a concrete system is a sequence of steps of an abstract one; so is every run.\<close>

locale forward_simulation =
  fixes cstep :: "'c \<Rightarrow> 'c \<Rightarrow> bool" and astep :: "'a \<Rightarrow> 'a \<Rightarrow> bool" and rel :: "'a \<Rightarrow> 'c \<Rightarrow> bool"
  assumes simulates: "cstep c c' \<Longrightarrow> rel a c \<Longrightarrow> \<exists>a'. astep\<^sup>*\<^sup>* a a' \<and> rel a' c'"
begin

lemma run_simulates:
  assumes "cstep\<^sup>*\<^sup>* c c'" and "rel a c"
  shows "\<exists>a'. astep\<^sup>*\<^sup>* a a' \<and> rel a' c'"
  using assms(1)
proof (induction rule: rtranclp_induct)
  case base
  then show ?case using assms(2) by blast
next
  case (step d e)
  then show ?case using simulates [OF step(2)] by (meson rtranclp_trans)
qed

end

end
