(* ===== verification/Proto.thy ===== *)
theory Proto
  imports Kv_Prelude
begin

text \<open>
  The wire and log data of \<^verbatim>\<open>raft/proto.h\<close> and \<^verbatim>\<open>raft/proto.cpp\<close>, the return type
  \<^verbatim>\<open>Status\<close> of \<^verbatim>\<open>common/status.h\<close>, and the helpers of \<^verbatim>\<open>raft/util.cpp\<close>. Structs are
  records with the field names of the source behind a short prefix (\<open>e_\<close> for
  \<^verbatim>\<open>Entry\<close>, \<open>m_\<close> for \<^verbatim>\<open>Message\<close>, and so on), because Isabelle keeps one name space for
  all record fields. \<^verbatim>\<open>Ptr\<close> types are the values they point to: no code of the program
  changes an \<^verbatim>\<open>Entry\<close> or a \<^verbatim>\<open>Message\<close> after another object can hold a pointer to it.
\<close>

section \<open>Status\<close>

datatype Status = OK | NotFound string | NotSupported string | InvalidArgument string | IOError string

definition is_ok :: "Status \<Rightarrow> bool" where
  "is_ok s \<longleftrightarrow> s = OK"

definition is_not_found :: "Status \<Rightarrow> bool" where
  "is_not_found s = (case s of NotFound _ \<Rightarrow> True | _ \<Rightarrow> False)"

text \<open>\<^verbatim>\<open>ret.pop_back()\<close> drops the colon when there is no message.\<close>

definition status_text :: "string \<Rightarrow> string \<Rightarrow> string" where
  "status_text str msg = (if msg \<noteq> [] then str @ msg else butlast str)"

primrec Status_to_string :: "Status \<Rightarrow> string" where
  "Status_to_string OK = ''ok''"
| "Status_to_string (NotFound m) = status_text ''not found:'' m"
| "Status_to_string (NotSupported m) = status_text ''not supported:'' m"
| "Status_to_string (InvalidArgument m) = status_text ''invalid argument:'' m"
| "Status_to_string (IOError m) = status_text ''io error:'' m"

section \<open>Message and entry types\<close>

text \<open>
  \<^verbatim>\<open>typedef uint8_t MessageType\<close> with its named constants; \<open>MsgInvalid\<close> stands for the
  other values of the byte, which can arrive from the network.
\<close>

datatype MessageType =
    MsgHup | MsgBeat | MsgProp | MsgApp | MsgAppResp | MsgVote | MsgVoteResp | MsgSnap
  | MsgHeartbeat | MsgHeartbeatResp | MsgUnreachable | MsgSnapStatus | MsgCheckQuorum
  | MsgTransferLeader | MsgTimeoutNow | MsgReadIndex | MsgReadIndexResp | MsgPreVote
  | MsgPreVoteResp | MsgInvalid u8

primrec msg_type_to_string :: "MessageType \<Rightarrow> fault + string" where
  "msg_type_to_string MsgHup = Inr ''MsgHup''"
| "msg_type_to_string MsgBeat = Inr ''MsgBeat''"
| "msg_type_to_string MsgProp = Inr ''MsgProp''"
| "msg_type_to_string MsgApp = Inr ''MsgApp''"
| "msg_type_to_string MsgAppResp = Inr ''MsgAppResp''"
| "msg_type_to_string MsgVote = Inr ''MsgVote''"
| "msg_type_to_string MsgVoteResp = Inr ''MsgVoteResp''"
| "msg_type_to_string MsgSnap = Inr ''MsgSnap''"
| "msg_type_to_string MsgHeartbeat = Inr ''MsgHeartbeat''"
| "msg_type_to_string MsgHeartbeatResp = Inr ''MsgHeartbeatResp''"
| "msg_type_to_string MsgUnreachable = Inr ''MsgUnreachable''"
| "msg_type_to_string MsgSnapStatus = Inr ''MsgSnapStatus''"
| "msg_type_to_string MsgCheckQuorum = Inr ''MsgCheckQuorum''"
| "msg_type_to_string MsgTransferLeader = Inr ''MsgTransferLeader''"
| "msg_type_to_string MsgTimeoutNow = Inr ''MsgTimeoutNow''"
| "msg_type_to_string MsgReadIndex = Inr ''MsgReadIndex''"
| "msg_type_to_string MsgReadIndexResp = Inr ''MsgReadIndexResp''"
| "msg_type_to_string MsgPreVote = Inr ''MsgPreVote''"
| "msg_type_to_string MsgPreVoteResp = Inr ''MsgPreVoteResp''"
| "msg_type_to_string (MsgInvalid n) = Inl (Fatal ''invalid msg type'')"

text \<open>\<^verbatim>\<open>typedef uint8_t EntryType\<close>; \<open>EntryOther\<close> stands for the bytes other than 0 and 1.\<close>

datatype EntryType = EntryNormal | EntryConfChange | EntryOther u8

primrec entry_type_to_string :: "EntryType \<Rightarrow> fault + string" where
  "entry_type_to_string EntryNormal = Inr ''EntryNormal''"
| "entry_type_to_string EntryConfChange = Inr ''EntryConfChange''"
| "entry_type_to_string (EntryOther n) = Inl (Fatal ''invalid entry type'')"

primrec entry_type_code :: "EntryType \<Rightarrow> u8" where
  "entry_type_code EntryNormal = 0"
| "entry_type_code EntryConfChange = 1"
| "entry_type_code (EntryOther n) = n"

section \<open>Structs\<close>

record Entry =
  e_type :: EntryType
  e_term :: u64
  e_index :: u64
  e_data :: bytes

definition Entry_default :: Entry where
  "Entry_default = \<lparr>e_type = EntryNormal, e_term = 0, e_index = 0, e_data = []\<rparr>"

definition payload_size :: "Entry \<Rightarrow> u32" where
  "payload_size e = of_nat (length (e_data e))"

record ConfState =
  cs_nodes :: "u64 list"
  cs_learners :: "u64 list"

record SnapshotMetadata =
  sm_conf_state :: ConfState
  sm_index :: u64
  sm_term :: u64

record Snapshot =
  s_data :: bytes
  s_metadata :: SnapshotMetadata

definition Snapshot_default :: Snapshot where
  "Snapshot_default =
     \<lparr>s_data = [],
      s_metadata = \<lparr>sm_conf_state = \<lparr>cs_nodes = [], cs_learners = []\<rparr>, sm_index = 0, sm_term = 0\<rparr>\<rparr>"

definition snapshot_is_empty :: "Snapshot \<Rightarrow> bool" where
  "snapshot_is_empty s \<longleftrightarrow> sm_index (s_metadata s) = 0"

definition snapshot_equal :: "Snapshot \<Rightarrow> Snapshot \<Rightarrow> bool" where
  "snapshot_equal s t \<longleftrightarrow> s_data s = s_data t \<and> s_metadata s = s_metadata t"

record Message =
  m_type :: MessageType
  m_to :: u64
  m_from :: u64
  m_term :: u64
  m_log_term :: u64
  m_index :: u64
  m_entries :: "Entry list"
  m_commit :: u64
  m_snapshot :: Snapshot
  m_reject :: bool
  m_reject_hint :: u64
  m_context :: bytes

text \<open>\<^verbatim>\<open>proto::Message()\<close>: every field zero, the type \<^verbatim>\<open>MsgHup\<close>.\<close>

definition Message_default :: Message where
  "Message_default =
     \<lparr>m_type = MsgHup, m_to = 0, m_from = 0, m_term = 0, m_log_term = 0, m_index = 0,
      m_entries = [], m_commit = 0, m_snapshot = Snapshot_default, m_reject = False,
      m_reject_hint = 0, m_context = []\<rparr>"

definition message_is_local_msg :: "Message \<Rightarrow> bool" where
  "message_is_local_msg m \<longleftrightarrow>
     m_type m = MsgHup \<or> m_type m = MsgBeat \<or> m_type m = MsgUnreachable \<or>
     m_type m = MsgSnapStatus \<or> m_type m = MsgCheckQuorum"

definition is_response_msg :: "Message \<Rightarrow> bool" where
  "is_response_msg m \<longleftrightarrow>
     m_type m = MsgAppResp \<or> m_type m = MsgVoteResp \<or> m_type m = MsgHeartbeatResp \<or>
     m_type m = MsgUnreachable \<or> m_type m = MsgPreVoteResp"

record HardState =
  hs_term :: u64
  hs_vote :: u64
  hs_commit :: u64

definition HardState_default :: HardState where
  "HardState_default = \<lparr>hs_term = 0, hs_vote = 0, hs_commit = 0\<rparr>"

definition is_empty_state :: "HardState \<Rightarrow> bool" where
  "is_empty_state h \<longleftrightarrow> hs_term h = 0 \<and> hs_vote h = 0 \<and> hs_commit h = 0"

definition hard_state_equal :: "HardState \<Rightarrow> HardState \<Rightarrow> bool" where
  "hard_state_equal a b \<longleftrightarrow>
     hs_term a = hs_term b \<and> hs_vote a = hs_vote b \<and> hs_commit a = hs_commit b"

section \<open>The size of an entry on the wire\<close>

definition u8_serialize_size :: "u8 \<Rightarrow> u32" where
  "u8_serialize_size d = (if d < 128 then 1 else 2)"

definition u64_serialize_size :: "u64 \<Rightarrow> u32" where
  "u64_serialize_size d =
     (if d < 256 then (if d < 128 then 1 else 2)
      else if d < 65536 then 3
      else if d < 4294967296 then 5
      else 9)"

definition data_serialize_size :: "u32 \<Rightarrow> u32" where
  "data_serialize_size len =
     (if len \<le> 255 then 2 + len else if len \<le> 65535 then 3 + len else 5 + len)"

definition serialize_size :: "Entry \<Rightarrow> u32" where
  "serialize_size e =
     1 + u8_serialize_size (entry_type_code (e_type e)) + u64_serialize_size (e_term e)
       + u64_serialize_size (e_index e) + data_serialize_size (of_nat (length (e_data e)))"

section \<open>Helpers of util.cpp\<close>

text \<open>
  The loop of \<^verbatim>\<open>entry_limit_size\<close>: \<open>sz\<close> is the running total, a \<^verbatim>\<open>uint64_t\<close> to which
  \<^verbatim>\<open>uint32_t\<close> sizes are added.
\<close>

primrec entry_limit_loop :: "u64 \<Rightarrow> u64 \<Rightarrow> Entry list \<Rightarrow> Entry list" where
  "entry_limit_loop max_size sz [] = []"
| "entry_limit_loop max_size sz (e # es) =
     (let sz' = sz + ucast (serialize_size e)
      in if sz' > max_size then [] else e # entry_limit_loop max_size sz' es)"

definition entry_limit_size :: "u64 \<Rightarrow> Entry list \<Rightarrow> Entry list" where
  "entry_limit_size max_size entries =
     (case entries of [] \<Rightarrow> []
      | e # es \<Rightarrow> e # entry_limit_loop max_size (ucast (serialize_size e)) es)"

definition vote_resp_msg_type :: "MessageType \<Rightarrow> fault + MessageType" where
  "vote_resp_msg_type t =
     (if t = MsgVote then Inr MsgVoteResp
      else if t = MsgPreVote then Inr MsgPreVoteResp
      else Inl (Fatal ''not a vote message''))"

definition is_must_sync :: "HardState \<Rightarrow> HardState \<Rightarrow> nat \<Rightarrow> bool" where
  "is_must_sync st prevst entsnum \<longleftrightarrow>
     entsnum \<noteq> 0 \<or> hs_vote st \<noteq> hs_vote prevst \<or> hs_term st \<noteq> hs_term prevst"

section \<open>What the size limit keeps\<close>

text \<open>The total size of a list of entries, without wrap-around.\<close>

definition total_size :: "Entry list \<Rightarrow> nat" where
  "total_size es = sum_list (map (\<lambda>e. unat (serialize_size e)) es)"

lemma total_size_simps [simp]:
  "total_size [] = 0"
  "total_size (e # es) = unat (serialize_size e) + total_size es"
  "total_size (es @ fs) = total_size es + total_size fs"
  by (simp_all add: total_size_def)

lemma unat_ucast_size [simp]: "unat (ucast (s :: u32) :: u64) = unat s"
  using unat_lt32 [of s] by (simp add: unsigned_ucast_eq take_bit_eq_mod)

lemma entry_limit_loop_spec:
  assumes "unat sz + total_size es < 2 ^ 64"
  obtains n where "entry_limit_loop max_size sz es = take n es" and "n \<le> length es"
    and "n = 0 \<or> unat sz + total_size (take n es) \<le> unat max_size"
    and "n < length es \<Longrightarrow> unat max_size < unat sz + total_size (take (Suc n) es)"
  using assms
proof (induction es arbitrary: sz thesis)
  case Nil
  then show ?case by (metis (no_types, lifting) entry_limit_loop.simps(1) le_refl list.size(3) not_less_zero take_Nil)
next
  case (Cons e es)
  let ?size = "sz + ucast (serialize_size e) :: u64"
  have u: "unat ?size = unat sz + unat (serialize_size e)"
    using Cons.prems(2) by (subst unat_add_small) simp_all
  show ?case
  proof (cases "?size > max_size")
    case True
    then have "unat max_size < unat sz + unat (serialize_size e)"
      using u by (simp add: word_less_nat_alt)
    with True show ?thesis by (intro Cons.prems(1) [of 0]) (simp_all add: Let_def)
  next
    case False
    have "unat ?size + total_size es < 2 ^ 64" using Cons.prems(2) u by simp
    then obtain n where n: "entry_limit_loop max_size ?size es = take n es" "n \<le> length es"
      "n = 0 \<or> unat ?size + total_size (take n es) \<le> unat max_size"
      "n < length es \<Longrightarrow> unat max_size < unat ?size + total_size (take (Suc n) es)"
      by (rule Cons.IH [rotated]) blast
    have "unat ?size \<le> unat max_size" using False by (simp add: word_less_nat_alt not_less)
    with n u False show ?thesis
      by (intro Cons.prems(1) [of "Suc n"]) (auto simp: Let_def)
  qed
qed

lemma entry_limit_size_Nil [simp]: "entry_limit_size m [] = []"
  by (simp add: entry_limit_size_def)

lemma entry_limit_size_eq_Nil [simp]: "entry_limit_size m es = [] \<longleftrightarrow> es = []"
  by (simp add: entry_limit_size_def split: list.splits)

lemma entry_limit_size_prefix:
  "\<exists>n. entry_limit_size m es = take n es \<and> n \<le> length es"
proof -
  have loop: "\<exists>n. entry_limit_loop m s fs = take n fs \<and> n \<le> length fs" for s fs
  proof (induction fs arbitrary: s)
    case Nil
    then show ?case by simp
  next
    case (Cons f fs)
    let ?s = "s + ucast (serialize_size f)"
    from Cons.IH [of ?s] obtain n where "entry_limit_loop m ?s fs = take n fs" "n \<le> length fs"
      by blast
    then show ?case
      by (cases "?s > m") (auto simp: Let_def intro: exI [of _ 0] exI [of _ "Suc n"])
  qed
  show ?thesis
  proof (cases es)
    case Nil
    then show ?thesis by simp
  next
    case (Cons e fs)
    from loop [of "ucast (serialize_size e)" fs] obtain n where
      "entry_limit_loop m (ucast (serialize_size e)) fs = take n fs" "n \<le> length fs" by blast
    with Cons show ?thesis by (auto simp: entry_limit_size_def intro!: exI [of _ "Suc n"])
  qed
qed

text \<open>
  The size limit of a batch: \<^verbatim>\<open>entry_limit_size\<close> keeps the longest non-empty prefix of
  the entries whose total size stays within the limit; the first entry is always kept, even
  if it alone is larger. (The hypothesis says the running 64-bit total does not wrap.)
\<close>

lemma entry_limit_size_maximal:
  assumes "es \<noteq> []" and "total_size es < 2 ^ 64"
  shows "\<exists>n. entry_limit_size max_size es = take n es \<and> 1 \<le> n \<and> n \<le> length es \<and>
     (n = 1 \<or> total_size (take n es) \<le> unat max_size) \<and>
     (n < length es \<longrightarrow> unat max_size < total_size (take (Suc n) es))"
proof -
  obtain e fs where es: "es = e # fs" using assms(1) by (cases es) auto
  have "unat (ucast (serialize_size e) :: u64) + total_size fs < 2 ^ 64"
    using assms(2) es by simp
  then obtain n where
    "entry_limit_loop max_size (ucast (serialize_size e)) fs = take n fs" "n \<le> length fs"
    "n = 0 \<or> unat (ucast (serialize_size e) :: u64) + total_size (take n fs) \<le> unat max_size"
    "n < length fs \<Longrightarrow>
       unat max_size < unat (ucast (serialize_size e) :: u64) + total_size (take (Suc n) fs)"
    by (rule entry_limit_loop_spec) blast
  then show ?thesis
    by (intro exI [of _ "Suc n"]) (auto simp: es entry_limit_size_def)
qed

lemma total_size_take: "total_size (take n es) \<le> total_size es"
  by (induction es arbitrary: n) (auto simp: take_Cons')

lemma entry_limit_size_unlimited: "total_size es < 2 ^ 64 \<Longrightarrow> entry_limit_size (- 1) es = es"
proof (cases "es = []")
  case True
  then show ?thesis by (simp add: entry_limit_size_def)
next
  case False
  assume s: "total_size es < 2 ^ 64"
  obtain n where n: "entry_limit_size (- 1) es = take n es" "n \<le> length es" "n < length es \<Longrightarrow> unat (- 1 :: u64) < total_size (take (Suc n) es)"
    using entry_limit_size_maximal [OF False s] by blast
  have "unat (- 1 :: u64) = 2 ^ 64 - 1" by (simp add: unsigned_minus_1_eq_mask mask_eq_exp_minus_1)
  then have "n = length es" using n(2,3) s total_size_take [of "Suc n" es] by (cases "n < length es") auto
  then show ?thesis using n(1) by simp
qed

end
