(* ===== verification/Entry_Log.thy ===== *)
theory Entry_Log
  imports Proto
begin

text \<open>
  What a log is, independently of where its entries are kept: a run of entries with
  consecutive indexes. \<open>contiguous n es\<close> says that \<open>es\<close> is such a run starting at position
  \<open>n\<close>; the locale \<open>indexed_log\<close> is the contract that \<^verbatim>\<open>Storage\<close> (\<^verbatim>\<open>raft/storage.h\<close>) offers
  to \<^verbatim>\<open>RaftLog\<close>, and that \<^verbatim>\<open>RaftLog\<close> in turn offers to \<^verbatim>\<open>Raft\<close>: positions from
  \<open>first\<close> to \<open>last\<close> hold an entry whose index is its position.
\<close>

definition contiguous :: "nat \<Rightarrow> Entry list \<Rightarrow> bool" where
  "contiguous n es \<longleftrightarrow> (\<forall>i < length es. unat (e_index (es ! i)) = n + i)"

lemma contiguous_Nil [simp]: "contiguous n []"
  by (simp add: contiguous_def)

lemma contiguous_Cons [simp]:
  "contiguous n (e # es) \<longleftrightarrow> unat (e_index e) = n \<and> contiguous (Suc n) es"
  by (auto simp: contiguous_def nth_Cons less_Suc_eq_0_disj)

lemma contiguous_append [simp]:
  "contiguous n (es @ fs) \<longleftrightarrow> contiguous n es \<and> contiguous (n + length es) fs"
  by (induction es arbitrary: n) auto

lemma contiguous_take: "contiguous n es \<Longrightarrow> contiguous n (take k es)"
  by (simp add: contiguous_def)

lemma contiguous_drop: "contiguous n es \<Longrightarrow> contiguous (n + k) (drop k es)"
  by (simp add: contiguous_def add.assoc)

lemma contiguous_nth: "contiguous n es \<Longrightarrow> i < length es \<Longrightarrow> unat (e_index (es ! i)) = n + i"
  by (simp add: contiguous_def)

lemma contiguous_hd: "contiguous n es \<Longrightarrow> es \<noteq> [] \<Longrightarrow> unat (e_index (hd es)) = n"
  by (cases es) auto

lemma contiguous_last:
  "contiguous n es \<Longrightarrow> es \<noteq> [] \<Longrightarrow> unat (e_index (last es)) = n + length es - 1"
  by (cases es rule: rev_cases) (auto simp: contiguous_def)

lemma contiguous_shift: "contiguous n es \<Longrightarrow> n = m \<Longrightarrow> contiguous m es"
  by simp

section \<open>Segments of a log\<close>

text \<open>The entries at positions \<open>lo\<close> to \<open>hi - 1\<close> of a log given as a partial map.\<close>

definition seg :: "(nat \<Rightarrow> Entry option) \<Rightarrow> nat \<Rightarrow> nat \<Rightarrow> Entry list" where
  "seg at lo hi = map (\<lambda>i. the (at i)) [lo..<hi]"

lemma length_seg [simp]: "length (seg at lo hi) = hi - lo"
  by (simp add: seg_def)

lemma seg_empty [simp]: "hi \<le> lo \<Longrightarrow> seg at lo hi = []"
  by (simp add: seg_def)

lemma seg_append: "lo \<le> mid \<Longrightarrow> mid \<le> hi \<Longrightarrow> seg at lo mid @ seg at mid hi = seg at lo hi"
  using upt_add_eq_append [of lo mid "hi - mid"] by (simp add: seg_def flip: map_append)

lemma nth_seg: "i < hi - lo \<Longrightarrow> seg at lo hi ! i = the (at (lo + i))"
  by (simp add: seg_def)

lemma take_seg: "take n (seg at lo hi) = seg at lo (min hi (lo + n))"
  by (simp add: seg_def take_map min_def)

lemma seg_cong: "(\<And>i. lo \<le> i \<Longrightarrow> i < hi \<Longrightarrow> at i = at' i) \<Longrightarrow> seg at lo hi = seg at' lo hi"
  by (simp add: seg_def)

lemma seg_eqI:
  assumes "length es = hi - lo" and "\<And>i. i < hi - lo \<Longrightarrow> at (lo + i) = Some (es ! i)"
  shows "seg at lo hi = es"
  using assms by (intro nth_equalityI) (simp_all add: nth_seg)

text \<open>A size-limited read of a prefix decides a size-limited read of the whole.\<close>

lemma entry_limit_loop_append:
  "length (entry_limit_loop m s xs) < length xs \<Longrightarrow>
   entry_limit_loop m s (xs @ ys) = entry_limit_loop m s xs"
  by (induction xs arbitrary: s) (auto simp: Let_def)

lemma entry_limit_size_append:
  "length (entry_limit_size m xs) < length xs \<Longrightarrow>
   entry_limit_size m (xs @ ys) = entry_limit_size m xs"
  by (cases xs) (auto simp: entry_limit_size_def entry_limit_loop_append)

lemma entry_limit_size_full:
  "\<not> length (entry_limit_size m xs) < length xs \<Longrightarrow> entry_limit_size m xs = xs"
  using entry_limit_size_prefix [of m xs] by auto

lemma length_entry_limit_size: "length (entry_limit_size m xs) \<le> length xs"
  using entry_limit_size_prefix [of m xs] by auto

lemma contiguous_entry_limit_size: "contiguous n es \<Longrightarrow> contiguous n (entry_limit_size m es)"
  using entry_limit_size_prefix [of m es] by (auto simp: contiguous_take)

section \<open>The contract of a log\<close>

locale indexed_log =
  fixes inv :: "'s \<Rightarrow> bool"
    and first :: "'s \<Rightarrow> nat"
    and last :: "'s \<Rightarrow> nat"
    and at :: "'s \<Rightarrow> nat \<Rightarrow> Entry option"
  assumes at_dom: "inv s \<Longrightarrow> at s i \<noteq> None \<longleftrightarrow> first s \<le> i \<and> i \<le> last s"
    and at_index: "inv s \<Longrightarrow> at s i = Some e \<Longrightarrow> unat (e_index e) = i"
    and first_pos: "inv s \<Longrightarrow> 0 < first s"
    and first_last: "inv s \<Longrightarrow> first s \<le> last s + 1"
    and last_bound: "inv s \<Longrightarrow> last s < 2 ^ 64 - 1"
begin

lemma at_Some: "inv s \<Longrightarrow> first s \<le> i \<Longrightarrow> i \<le> last s \<Longrightarrow> \<exists>e. at s i = Some e \<and> unat (e_index e) = i"
  using at_dom at_index by (metis not_None_eq)

lemma contiguous_seg:
  assumes "inv s" and "first s \<le> lo" and "hi \<le> last s + 1"
  shows "contiguous lo (seg (at s) lo hi)"
  unfolding contiguous_def
proof (intro allI impI)
  fix i assume i: "i < length (seg (at s) lo hi)"
  then have "\<exists>e. at s (lo + i) = Some e \<and> unat (e_index e) = lo + i"
    using assms by (intro at_Some) auto
  with i show "unat (e_index (seg (at s) lo hi ! i)) = lo + i" by (auto simp: nth_seg)
qed

lemma at_before_first: "inv s \<Longrightarrow> i < first s \<Longrightarrow> at s i = None"
  using at_dom [of s i] by auto

lemma at_after_last: "inv s \<Longrightarrow> last s < i \<Longrightarrow> at s i = None"
  using at_dom [of s i] by auto

text \<open>Two logs that agree position by position agree on every segment and on both ends.\<close>

lemma same_at_last:
  assumes "inv s" and "inv t" and "at s = at t" and "first s \<le> last s"
  shows "last t = last s" and "first t = first s"
proof -
  have "at t i \<noteq> None \<longleftrightarrow> first s \<le> i \<and> i \<le> last s" for i
    using assms(1,3) at_dom [of s i] by simp
  then have iff: "(first t \<le> i \<and> i \<le> last t) = (first s \<le> i \<and> i \<le> last s)" for i
    using at_dom [OF assms(2), of i] by simp
  from iff [of "last s"] iff [of "first s"] iff [of "last t"] iff [of "first t"] assms(4)
  show "last t = last s" "first t = first s" by auto
qed

end

end
