(* ===== verification/Storage.thy ===== *)
theory Storage
  imports Entry_Log
begin

text \<open>
  \<^verbatim>\<open>MemoryStorage\<close> of \<^verbatim>\<open>raft/storage.h\<close> and \<^verbatim>\<open>raft/storage.cpp\<close>: the stable part of the log.
  \<^verbatim>\<open>entries_[0]\<close> is a dummy that carries the index and term of the last compacted entry.
  Every method is one definition; the mutex is left out (each method is one critical
  section, so calls are atomic). Results with a \<^verbatim>\<open>Status\<close> and an out parameter are a sum:
  \<open>Inl\<close> the status when it is not ok, \<open>Inr\<close> the out value when it is. The invariant
  \<open>ms_inv\<close> says that the entries are consecutive; it is established by the constructor
  and kept by every method, and gives the \<open>indexed_log\<close> contract.
\<close>

section \<open>State and operations\<close>

record MemoryStorage =
  ms_hard :: HardState
  ms_snap :: Snapshot
  ms_ents :: "Entry list"

definition MemoryStorage_new :: MemoryStorage where
  "MemoryStorage_new =
     \<lparr>ms_hard = HardState_default, ms_snap = Snapshot_default,
      ms_ents = [Entry_default]\<rparr>"

definition err_compacted :: Status where
  "err_compacted = InvalidArgument ''requested index is unavailable due to compaction''"

definition err_unavailable :: Status where
  "err_unavailable = InvalidArgument ''requested entry at index is unavailable''"

definition err_snap_out_of_date :: Status where
  "err_snap_out_of_date = InvalidArgument ''requested index is older than the existing snapshot''"

definition ms_initial_state :: "MemoryStorage \<Rightarrow> HardState \<times> ConfState" where
  "ms_initial_state s = (ms_hard s, sm_conf_state (s_metadata (ms_snap s)))"

definition ms_set_hard_state :: "HardState \<Rightarrow> MemoryStorage \<Rightarrow> MemoryStorage" where
  "ms_set_hard_state hs s = s\<lparr>ms_hard := hs\<rparr>"

definition ms_last_index :: "MemoryStorage \<Rightarrow> u64" where
  "ms_last_index s = e_index (ms_ents s ! 0) + of_nat (length (ms_ents s)) - 1"

definition ms_first_index :: "MemoryStorage \<Rightarrow> u64" where
  "ms_first_index s = e_index (ms_ents s ! 0) + 1"

definition ms_entries :: "u64 \<Rightarrow> u64 \<Rightarrow> u64 \<Rightarrow> MemoryStorage \<Rightarrow> fault + (Status + Entry list)" where
  "ms_entries low high max_size s =
     bind_r (guard_r (low < high) (Assert ''low < high'')) (\<lambda>_.
     let offset = e_index (ms_ents s ! 0) in
     if low \<le> offset then Inr (Inl err_compacted)
     else if high > ms_last_index s + 1 then Inl (Fatal ''entries' hi is out of bound last_index'')
     else if length (ms_ents s) = 1 then Inr (Inl err_unavailable)
     else bind_r (range_r (ms_ents s) (unat (low - offset)) (unat (high - offset))) (\<lambda>es.
          Inr (Inr (entry_limit_size max_size es))))"

definition ms_term :: "u64 \<Rightarrow> MemoryStorage \<Rightarrow> Status + u64" where
  "ms_term i s =
     (let offset = e_index (ms_ents s ! 0) in
      if i < offset then Inl err_compacted
      else if unat (i - offset) \<ge> length (ms_ents s) then Inl err_unavailable
      else Inr (e_term (ms_ents s ! unat (i - offset))))"

definition ms_snapshot :: "MemoryStorage \<Rightarrow> Snapshot" where
  "ms_snapshot s = ms_snap s"

definition ms_compact :: "u64 \<Rightarrow> MemoryStorage \<Rightarrow> fault + (Status \<times> MemoryStorage)" where
  "ms_compact compact_index s =
     (let es = ms_ents s; offset = e_index (es ! 0) in
      if compact_index \<le> offset then Inr (err_compacted, s)
      else if compact_index > ms_last_index s then Inl (Fatal ''compact is out of bound lastindex'')
      else let i = unat (compact_index - offset) in
        bind_r (nth_r es i) (\<lambda>ei.
        Inr (OK, s\<lparr>ms_ents :=
               (es ! 0)\<lparr>e_index := e_index ei, e_term := e_term ei\<rparr> # drop (i + 1) es\<rparr>)))"

definition ms_append :: "Entry list \<Rightarrow> MemoryStorage \<Rightarrow> fault + (Status \<times> MemoryStorage)" where
  "ms_append entries s =
     (if entries = [] then Inr (OK, s)
      else
        let first = ms_first_index s;
            last = e_index (entries ! 0) + of_nat (length entries) - 1 in
        if last < first then Inr (OK, s)
        else
          bind_r (if first > e_index (entries ! 0)
                  then erase_prefix_r (unat (first - e_index (entries ! 0))) entries
                  else Inr entries) (\<lambda>ents.
          bind_r (nth_r ents 0) (\<lambda>e0.
          let offset = unat (e_index e0 - e_index (ms_ents s ! 0)) in
          if length (ms_ents s) > offset
          then Inr (OK, s\<lparr>ms_ents := take offset (ms_ents s) @ ents\<rparr>)
          else if length (ms_ents s) = offset
          then Inr (OK, s\<lparr>ms_ents := ms_ents s @ ents\<rparr>)
          else Inl (Fatal ''missing log entry''))))"

definition ms_create_snapshot ::
  "u64 \<Rightarrow> ConfState option \<Rightarrow> bytes \<Rightarrow> MemoryStorage \<Rightarrow> fault + (Status \<times> Snapshot \<times> MemoryStorage)"
where
  "ms_create_snapshot index cs data s =
     (let snap = ms_snap s in
      if index \<le> sm_index (s_metadata snap) then Inr (err_snap_out_of_date, Snapshot_default, s)
      else if index > ms_last_index s then Inl (Fatal ''snapshot is out of bound lastindex'')
      else
        bind_r (nth_r (ms_ents s) (unat (index - e_index (ms_ents s ! 0)))) (\<lambda>e.
        let meta = (s_metadata snap)\<lparr>sm_index := index, sm_term := e_term e\<rparr>;
            meta = (case cs of None \<Rightarrow> meta | Some c \<Rightarrow> meta\<lparr>sm_conf_state := c\<rparr>);
            snap = snap\<lparr>s_metadata := meta, s_data := data\<rparr> in
        Inr (OK, snap, s\<lparr>ms_snap := snap\<rparr>)))"

definition ms_apply_snapshot :: "Snapshot \<Rightarrow> MemoryStorage \<Rightarrow> Status \<times> MemoryStorage" where
  "ms_apply_snapshot snapshot s =
     (if sm_index (s_metadata (ms_snap s)) \<ge> sm_index (s_metadata snapshot)
      then (err_snap_out_of_date, s)
      else (OK, s\<lparr>ms_snap := snapshot,
                  ms_ents := [Entry_default\<lparr>e_term := sm_term (s_metadata snapshot),
                                                e_index := sm_index (s_metadata snapshot)\<rparr>]\<rparr>))"

section \<open>The invariant and the contract\<close>

text \<open>
  \<open>ms_offset\<close> is the index of the dummy entry; \<open>ms_at\<close> reads the log position by position.
  The invariant keeps the index after the last entry representable in 64 bits.
\<close>

definition ms_offset :: "MemoryStorage \<Rightarrow> nat" where
  "ms_offset s = unat (e_index (ms_ents s ! 0))"

definition ms_inv :: "MemoryStorage \<Rightarrow> bool" where
  "ms_inv s \<longleftrightarrow> ms_ents s \<noteq> [] \<and> contiguous (ms_offset s) (ms_ents s) \<and>
     ms_offset s + length (ms_ents s) < 2 ^ 64"

definition ms_first :: "MemoryStorage \<Rightarrow> nat" where
  "ms_first s = ms_offset s + 1"

definition ms_last :: "MemoryStorage \<Rightarrow> nat" where
  "ms_last s = ms_offset s + length (ms_ents s) - 1"

definition ms_at :: "MemoryStorage \<Rightarrow> nat \<Rightarrow> Entry option" where
  "ms_at s i = (if ms_first s \<le> i \<and> i \<le> ms_last s then Some (ms_ents s ! (i - ms_offset s)) else None)"

lemma ms_invD:
  assumes "ms_inv s"
  shows "ms_ents s \<noteq> []" and "contiguous (ms_offset s) (ms_ents s)"
    and "ms_offset s + length (ms_ents s) < 2 ^ 64" and "Suc 0 \<le> length (ms_ents s)"
  using assms by (auto simp: ms_inv_def Suc_le_eq)

lemma ms_inv_new: "ms_inv MemoryStorage_new"
  by (simp add: ms_inv_def MemoryStorage_new_def ms_offset_def Entry_default_def)

interpretation ms: indexed_log ms_inv ms_first ms_last ms_at
proof unfold_locales
  fix s i e
  assume s: "ms_inv s"
  note D = ms_invD [OF s]
  show "ms_at s i \<noteq> None \<longleftrightarrow> ms_first s \<le> i \<and> i \<le> ms_last s" by (simp add: ms_at_def)
  show "0 < ms_first s" by (simp add: ms_first_def)
  show "ms_first s \<le> ms_last s + 1" using D by (simp add: ms_first_def ms_last_def)
  show "ms_last s < 2 ^ 64 - 1" using D by (simp add: ms_last_def)
  assume "ms_at s i = Some e"
  then have "ms_offset s < i" "i - ms_offset s < length (ms_ents s)" "e = ms_ents s ! (i - ms_offset s)"
    using D(4) by (auto simp: ms_at_def ms_first_def ms_last_def split: if_splits)
  then show "unat (e_index e) = i" using contiguous_nth [OF D(2), of "i - ms_offset s"] by simp
qed

lemma unat_ms_first_index [simp]: "ms_inv s \<Longrightarrow> unat (ms_first_index s) = ms_first s"
  using ms_invD [of s] by (simp add: ms_first_index_def ms_first_def ms_offset_def unat_succ64)

lemma unat_ms_last_index [simp]: "ms_inv s \<Longrightarrow> unat (ms_last_index s) = ms_last s"
proof -
  assume s: "ms_inv s"
  note D = ms_invD [OF s]
  have "unat (e_index (ms_ents s ! 0) + of_nat (length (ms_ents s))) =
        ms_offset s + length (ms_ents s)"
    unfolding ms_offset_def using D(3) by (intro unat_add_of_nat64) (simp add: ms_offset_def)
  then show ?thesis
    unfolding ms_last_index_def ms_last_def by (rule unat_pred64_eq) (use D(4) in linarith)
qed

lemma unat_e_index_0: "unat (e_index (ms_ents s ! 0)) = ms_offset s"
  by (simp add: ms_offset_def)

lemma ms_at_nth:
  "ms_inv s \<Longrightarrow> 0 < k \<Longrightarrow> k < length (ms_ents s) \<Longrightarrow> ms_at s (ms_offset s + k) = Some (ms_ents s ! k)"
  by (simp add: ms_at_def ms_first_def ms_last_def)

lemma seg_ms_at:
  assumes "ms_inv s" and "ms_first s \<le> lo" and "lo \<le> hi" and "hi \<le> ms_last s + 1"
  shows "seg (ms_at s) lo hi = take (hi - lo) (drop (lo - ms_offset s) (ms_ents s))"
proof (rule seg_eqI)
  note D = ms_invD [OF assms(1)]
  show "length (take (hi - lo) (drop (lo - ms_offset s) (ms_ents s))) = hi - lo"
    using assms D(4) by (simp add: ms_first_def ms_last_def)
  fix i assume "i < hi - lo"
  then show "ms_at s (lo + i) = Some (take (hi - lo) (drop (lo - ms_offset s) (ms_ents s)) ! i)"
    using assms ms_at_nth [OF assms(1), of "lo + i - ms_offset s"] D(4)
    by (simp add: ms_first_def ms_last_def)
qed

section \<open>Every method keeps the invariant\<close>

lemma ms_inv_update_free [simp]:
  "ms_inv (s\<lparr>ms_hard := h\<rparr>) = ms_inv s" "ms_inv (s\<lparr>ms_snap := p\<rparr>) = ms_inv s"
  "ms_at (s\<lparr>ms_hard := h\<rparr>) = ms_at s" "ms_at (s\<lparr>ms_snap := p\<rparr>) = ms_at s"
  "ms_offset (s\<lparr>ms_hard := h\<rparr>) = ms_offset s" "ms_offset (s\<lparr>ms_snap := p\<rparr>) = ms_offset s"
  by (simp_all add: ms_inv_def ms_offset_def ms_at_def ms_first_def ms_last_def fun_eq_iff)

lemma ms_term_eq:
  assumes "ms_inv s" and "ms_offset s \<le> unat i" and "unat i \<le> ms_last s"
  shows "ms_term i s = Inr (e_term (ms_ents s ! (unat i - ms_offset s)))"
proof -
  note D = ms_invD [OF assms(1)]
  have "unat (i - e_index (ms_ents s ! 0)) = unat i - ms_offset s"
    using assms(2) by (simp add: unat_sub_le ms_offset_def)
  then show ?thesis
    using assms D(4) by (auto simp: ms_term_def Let_def word_less_nat_alt ms_offset_def ms_last_def)
qed

lemma ms_term_at:
  "ms_inv s \<Longrightarrow> ms_at s (unat i) = Some e \<Longrightarrow> ms_term i s = Inr (e_term e)"
  using ms_term_eq [of s i] by (auto simp: ms_at_def ms_first_def split: if_splits)

lemma ms_term_compacted: "unat i < ms_offset s \<Longrightarrow> ms_term i s = Inl err_compacted"
  by (simp add: ms_term_def Let_def word_less_nat_alt ms_offset_def)

lemma ms_entries_eq:
  assumes "ms_inv s" and "ms_first s \<le> unat low" and "unat low < unat high"
    and "unat high \<le> ms_last s + 1"
  shows "ms_entries low high max_size s =
     Inr (Inr (entry_limit_size max_size (seg (ms_at s) (unat low) (unat high))))"
proof -
  note D = ms_invD [OF assms(1)]
  let ?o = "e_index (ms_ents s ! 0)"
  have o: "unat ?o = ms_offset s" by (simp add: ms_offset_def)
  have "unat (ms_last_index s + 1) = ms_last s + 1"
    using assms(1) ms.last_bound [OF assms(1)] by (simp add: unat_succ64)
  moreover have "unat (low - ?o) = unat low - ms_offset s" "unat (high - ?o) = unat high - ms_offset s"
    using assms by (auto simp: unat_sub_le o ms_first_def)
  moreover have "unat high - ms_offset s \<le> length (ms_ents s)"
    using assms(4) D(4) by (simp add: ms_last_def)
  moreover have "length (ms_ents s) \<noteq> 1"
    using assms D(4) by (auto simp: ms_first_def ms_last_def)
  ultimately show ?thesis
    using assms seg_ms_at [OF assms(1,2) _ assms(4)]
    by (auto simp: ms_entries_def Let_def word_less_nat_alt word_le_nat_alt o ms_first_def)
qed

lemma ms_entries_compacted:
  "unat low \<le> ms_offset s \<Longrightarrow> unat low < unat high \<Longrightarrow>
   ms_entries low high max_size s = Inr (Inl err_compacted)"
  by (simp add: ms_entries_def Let_def word_less_nat_alt word_le_nat_alt ms_offset_def)

text \<open>
  A batch for \<^verbatim>\<open>append\<close>: consecutive entries whose last index, plus one, fits in 64 bits.
\<close>

definition batch_ok :: "Entry list \<Rightarrow> bool" where
  "batch_ok es \<longleftrightarrow> es \<noteq> [] \<longrightarrow>
     contiguous (unat (e_index (es ! 0))) es \<and> unat (e_index (es ! 0)) + length es < 2 ^ 64"

lemma unat_batch_last:
  assumes "batch_ok es" and "es \<noteq> []"
  shows "unat (e_index (es ! 0) + of_nat (length es) - 1) = unat (e_index (es ! 0)) + length es - 1"
proof (rule unat_pred64_eq)
  show "unat (e_index (es ! 0) + of_nat (length es)) = unat (e_index (es ! 0)) + length es"
    using assms by (intro unat_add_of_nat64) (simp add: batch_ok_def)
  show "0 < unat (e_index (es ! 0)) + length es" using assms(2) by simp
qed

text \<open>
  The log after \<^verbatim>\<open>append\<close>, as a function of positions: the batch wins where it has an entry
  above the compacted part, everything after the batch is gone, the rest is as before.
\<close>

definition append_at :: "nat \<Rightarrow> Entry list \<Rightarrow> (nat \<Rightarrow> Entry option) \<Rightarrow> nat \<Rightarrow> Entry option" where
  "append_at first es at i =
     (let b = unat (e_index (es ! 0)) in
      if i < first then at i
      else if i < b then at i
      else if i < b + length es then Some (es ! (i - b))
      else None)"

lemma ms_offset_append:
  "xs \<noteq> [] \<Longrightarrow> ms_offset (s\<lparr>ms_ents := xs @ ys\<rparr>) = unat (e_index (xs ! 0))"
  by (simp add: ms_offset_def nth_append)

lemma ms_append_result:
  assumes s: "ms_inv s" and b: "batch_ok es" and ne: "es \<noteq> []"
    and gap: "unat (e_index (es ! 0)) \<le> ms_last s + 1"
    and new: "ms_first s < unat (e_index (es ! 0)) + length es"
  shows "ms_append es s = Inr (OK, s\<lparr>ms_ents :=
     take (max (ms_first s) (unat (e_index (es ! 0))) - ms_offset s) (ms_ents s) @
     drop (ms_first s - unat (e_index (es ! 0))) es\<rparr>)"
proof -
  note D = ms_invD [OF s]
  let ?b = "unat (e_index (es ! 0))" and ?f = "ms_first_index s" and ?o = "e_index (ms_ents s ! 0)"
  define ents where "ents = drop (ms_first s - ?b) es"
  have cont: "contiguous ?b es" and bnd: "?b + length es < 2 ^ 64"
    using b ne by (auto simp: batch_ok_def)
  have len: "Suc 0 \<le> length es" using ne by (simp add: Suc_le_eq)
  note last = unat_batch_last [OF b ne]
  have notshort: "\<not> (e_index (es ! 0) + of_nat (length es) - 1 < ?f)"
    using last new s by (simp add: word_less_nat_alt)
  have lt: "ms_first s - ?b < length es" using new len by linarith
  have trunc: "(if ?f > e_index (es ! 0) then erase_prefix_r (unat (?f - e_index (es ! 0))) es else Inr es) = Inr ents"
  proof (cases "?b < ms_first s")
    case True
    then have "unat (?f - e_index (es ! 0)) = ms_first s - ?b" using s by (simp add: unat_sub_le)
    with True s lt show ?thesis by (simp add: word_less_nat_alt ents_def)
  next
    case False
    then show ?thesis using s by (simp add: word_less_nat_alt ents_def)
  qed
  have e0: "nth_r ents 0 = Inr (ents ! 0)" using lt by (simp add: ents_def)
  have idx: "unat (e_index (ents ! 0)) = max (ms_first s) ?b"
    using contiguous_nth [OF cont lt] lt by (simp add: ents_def)
  have off: "unat (e_index (ents ! 0) - ?o) = max (ms_first s) ?b - ms_offset s"
    using idx by (subst unat_sub_le) (simp_all add: ms_offset_def ms_first_def)
  have "max (ms_first s) ?b - ms_offset s \<le> length (ms_ents s)"
    using gap D(4) by (simp add: ms_first_def ms_last_def)
  then show ?thesis
    using ne notshort trunc e0 off
    by (auto simp: ms_append_def Let_def ents_def)
qed

lemma ms_append_inv_at:
  assumes s: "ms_inv s" and b: "batch_ok es" and ne: "es \<noteq> []"
    and gap: "unat (e_index (es ! 0)) \<le> ms_last s + 1"
    and new: "ms_first s < unat (e_index (es ! 0)) + length es"
    and s': "ms_append es s = Inr (st, s')"
  shows "st = OK" and "ms_inv s'" and "ms_offset s' = ms_offset s"
    and "ms_at s' = append_at (ms_first s) es (ms_at s)"
    and "ms_last s' = unat (e_index (es ! 0)) + length es - 1"
proof -
  note D = ms_invD [OF s]
  let ?b = "unat (e_index (es ! 0))"
  define n where "n = max (ms_first s) ?b - ms_offset s"
  define d where "d = ms_first s - ?b"
  let ?xs = "take n (ms_ents s)" and ?ys = "drop d es"
  from ms_append_result [OF s b ne gap new] s' have
    st: "st = OK" and s'_eq: "s' = s\<lparr>ms_ents := ?xs @ ?ys\<rparr>" by (auto simp: n_def d_def)
  have cont: "contiguous ?b es" and bnd: "?b + length es < 2 ^ 64"
    using b ne by (auto simp: batch_ok_def)
  have n: "0 < n" "n \<le> length (ms_ents s)"
    using gap D(4) by (auto simp: n_def ms_first_def ms_last_def)
  have off: "ms_offset s' = ms_offset s"
    using n by (subst s'_eq, subst ms_offset_append) (auto simp: ms_offset_def)
  have nd: "ms_offset s + n = ?b + d" "d \<le> length es"
    using new by (auto simp: n_def d_def ms_first_def)
  have len: "ms_offset s + length (?xs @ ?ys) = ?b + length es"
    using n nd by simp
  have "contiguous (ms_offset s) (?xs @ ?ys)"
    using contiguous_take [OF D(2), of n] contiguous_drop [OF cont, of d] n nd by simp
  moreover have "?xs \<noteq> []" using n by auto
  ultimately show "st = OK" "ms_inv s'" "ms_offset s' = ms_offset s"
    using st off bnd len unfolding ms_inv_def by (simp_all add: s'_eq)
  have ents': "ms_ents s' = ?xs @ ?ys" by (simp add: s'_eq)
  show last': "ms_last s' = ?b + length es - 1"
    unfolding ms_last_def off ents' len by (rule refl)
  show "ms_at s' = append_at (ms_first s) es (ms_at s)"
  proof
    fix i
    have f': "ms_first s' = ms_first s" using off by (simp add: ms_first_def)
    consider "i < ms_first s" | "ms_first s \<le> i" "i < ?b" | "ms_first s \<le> i" "?b \<le> i" "i < ?b + length es"
      | "ms_first s \<le> i" "?b + length es \<le> i" by linarith
    then show "ms_at s' i = append_at (ms_first s) es (ms_at s) i"
    proof cases
      case 1
      then show ?thesis by (simp add: append_at_def ms_at_def f')
    next
      case 2
      then have "i - ms_offset s < n" by (auto simp: n_def ms_first_def)
      then have "(?xs @ ?ys) ! (i - ms_offset s) = ms_ents s ! (i - ms_offset s)"
        using n(2) by (intro nth_take_append)
      then show ?thesis using 2 gap new by (simp add: append_at_def ms_at_def f' last' off ents')
    next
      case 3
      then have "n \<le> i - ms_offset s" by (auto simp: n_def ms_first_def)
      then have k: "d + (i - ms_offset s - n) = i - ?b" using n(1) nd(1) 3 by linarith
      have "(?xs @ ?ys) ! (i - ms_offset s) = ?ys ! (i - ms_offset s - n)"
        using \<open>n \<le> i - ms_offset s\<close> n(2) by (rule nth_take_append_ge)
      then have "(?xs @ ?ys) ! (i - ms_offset s) = es ! (i - ?b)"
        using nd(2) by (simp only: nth_drop k)
      then show ?thesis using 3 by (simp add: append_at_def ms_at_def f' last' off ents')
    next
      case 4
      then have "\<not> i \<le> ?b + length es - 1" using new by linarith
      with 4 show ?thesis by (simp add: append_at_def ms_at_def f' last')
    qed
  qed
qed

lemma ms_append_old:
  assumes s: "ms_inv s" and b: "batch_ok es" and ne: "es \<noteq> []"
    and old: "unat (e_index (es ! 0)) + length es \<le> ms_first s"
  shows "ms_append es s = Inr (OK, s)"
proof -
  let ?b = "unat (e_index (es ! 0))"
  have len: "Suc 0 \<le> length es" using ne by (simp add: Suc_le_eq)
  have "e_index (es ! 0) + of_nat (length es) - 1 < ms_first_index s"
    using s old len unat_batch_last [OF b ne] by (simp add: word_less_nat_alt)
  then show ?thesis using ne by (simp add: ms_append_def Let_def)
qed

lemma ms_append_snap: "ms_append es s = Inr (st, s') \<Longrightarrow> ms_snap s' = ms_snap s"
  by (auto simp: ms_append_def Let_def bind_r_eq_Inr split: if_splits)

lemma ms_append_gap:
  assumes s: "ms_inv s" and b: "batch_ok es" and ne: "es \<noteq> []"
    and gap: "ms_last s + 1 < unat (e_index (es ! 0))"
  shows "ms_append es s = Inl (Fatal ''missing log entry'')"
proof -
  note D = ms_invD [OF s]
  let ?b = "unat (e_index (es ! 0))"
  have len: "Suc 0 \<le> length es" using ne by (simp add: Suc_le_eq)
  have first: "ms_first s \<le> ms_last s + 1" using ms.first_last [OF s] .
  then have "\<not> e_index (es ! 0) + of_nat (length es) - 1 < ms_first_index s"
    "\<not> e_index (es ! 0) < ms_first_index s"
    using s gap len unat_batch_last [OF b ne] by (simp_all add: word_less_nat_alt)
  moreover have "unat (e_index (es ! 0) - e_index (ms_ents s ! 0)) = ?b - ms_offset s"
    using gap first by (subst unat_sub_le) (simp_all add: ms_offset_def ms_first_def)
  moreover have "length (ms_ents s) < ?b - ms_offset s"
    using gap D(4) by (simp add: ms_last_def)
  ultimately show ?thesis using ne by (simp add: ms_append_def Let_def)
qed

lemma ms_compact_result:
  assumes s: "ms_inv s" and lo: "ms_offset s < unat k" and hi: "unat k \<le> ms_last s"
  shows "ms_compact k s = Inr (OK, s\<lparr>ms_ents :=
     (ms_ents s ! 0)\<lparr>e_index := e_index (ms_ents s ! (unat k - ms_offset s)),
                     e_term := e_term (ms_ents s ! (unat k - ms_offset s))\<rparr>
     # drop (unat k - ms_offset s + 1) (ms_ents s)\<rparr>)"
proof -
  note D = ms_invD [OF s]
  have "unat (k - e_index (ms_ents s ! 0)) = unat k - ms_offset s"
    using lo by (subst unat_sub_le) (simp_all add: ms_offset_def)
  moreover have "unat k - ms_offset s < length (ms_ents s)"
    using hi lo D(4) by (simp add: ms_last_def)
  moreover have "\<not> k \<le> e_index (ms_ents s ! 0)" "\<not> ms_last_index s < k"
    using lo hi s by (simp_all add: word_le_nat_alt word_less_nat_alt ms_offset_def)
  ultimately show ?thesis by (simp add: ms_compact_def Let_def)
qed

lemma ms_compact_inv_at:
  assumes s: "ms_inv s" and lo: "ms_offset s < unat k" and hi: "unat k \<le> ms_last s"
    and s': "ms_compact k s = Inr (st, s')"
  shows "st = OK" and "ms_inv s'" and "ms_offset s' = unat k" and "ms_last s' = ms_last s"
    and "ms_at s' = (\<lambda>i. if i \<le> unat k then None else ms_at s i)"
    and "e_term (ms_ents s' ! 0) = e_term (the (ms_at s (unat k)))"
proof -
  note D = ms_invD [OF s]
  define j where "j = unat k - ms_offset s"
  have j: "0 < j" "j < length (ms_ents s)" "ms_offset s + j = unat k"
    using lo hi D(4) by (auto simp: j_def ms_last_def)
  let ?ej = "ms_ents s ! j"
  from ms_compact_result [OF s lo hi] s' have st: "st = OK" and
    ents: "ms_ents s' = (ms_ents s ! 0)\<lparr>e_index := e_index ?ej, e_term := e_term ?ej\<rparr> # drop (j + 1) (ms_ents s)"
    by (auto simp: j_def)
  have idx: "unat (e_index ?ej) = unat k" using contiguous_nth [OF D(2) j(2)] j(3) by simp
  have off: "ms_offset s' = unat k" by (simp add: ms_offset_def ents idx)
  have len: "unat k + length (ms_ents s') = ms_offset s + length (ms_ents s)"
    using j by (simp add: ents)
  have "contiguous (Suc (unat k)) (drop (j + 1) (ms_ents s))"
    using contiguous_drop [OF D(2), of "j + 1"] j(3) by (simp add: add.commute)
  then show "st = OK" "ms_inv s'" "ms_offset s' = unat k"
    using st off len D(3) idx by (simp_all add: ms_inv_def) (simp_all add: ents idx)
  show last: "ms_last s' = ms_last s" unfolding ms_last_def off len ..
  show "ms_at s' = (\<lambda>i. if i \<le> unat k then None else ms_at s i)"
  proof
    fix i
    show "ms_at s' i = (if i \<le> unat k then None else ms_at s i)"
    proof (cases "unat k < i \<and> i \<le> ms_last s")
      case True
      then have "ms_ents s' ! (i - unat k) = drop (j + 1) (ms_ents s) ! (i - unat k - 1)"
        by (simp add: ents)
      also have "\<dots> = ms_ents s ! (j + 1 + (i - unat k - 1))" using j by (intro nth_drop) simp
      also have "j + 1 + (i - unat k - 1) = i - ms_offset s" using True j by linarith
      finally show ?thesis using True lo by (simp add: ms_at_def ms_first_def off last)
    next
      case False
      then show ?thesis by (auto simp: ms_at_def ms_first_def off last)
    qed
  qed
  show "e_term (ms_ents s' ! 0) = e_term (the (ms_at s (unat k)))"
    using ms_at_nth [OF s j(1,2)] j(3) by (simp add: ents)
qed

lemma ms_compact_old:
  "unat k \<le> ms_offset s \<Longrightarrow> ms_compact k s = Inr (err_compacted, s)"
  by (simp add: ms_compact_def Let_def word_le_nat_alt ms_offset_def)

lemma ms_apply_snapshot_inv:
  "ms_inv s \<Longrightarrow> unat (sm_index (s_metadata snap)) < 2 ^ 64 - 1 \<Longrightarrow> ms_inv (snd (ms_apply_snapshot snap s))"
  by (auto simp: ms_apply_snapshot_def ms_inv_def ms_offset_def)

lemma ms_create_snapshot_inv:
  "ms_inv s \<Longrightarrow> ms_create_snapshot i cs d s = Inr (st, snap, s') \<Longrightarrow> ms_inv s' \<and> ms_at s' = ms_at s"
  by (auto simp: ms_create_snapshot_def Let_def split: if_splits)

section \<open>Properties\<close>

text \<open>
  The storages the program builds: the constructor, then any sequence of the mutating methods; what is appended
  has consecutive indexes, as the entries the core hands out have, and
  indexes stay below the end of the 64-bit range.
\<close>

inductive ms_reachable :: "MemoryStorage \<Rightarrow> bool" where
  ms_new: "ms_reachable MemoryStorage_new"
| ms_set: "ms_reachable s \<Longrightarrow> ms_reachable (ms_set_hard_state hs s)"
| ms_app: "ms_reachable s \<Longrightarrow> batch_ok es \<Longrightarrow> ms_append es s = Inr (st, s') \<Longrightarrow> ms_reachable s'"
| ms_cmp: "ms_reachable s \<Longrightarrow> ms_compact k s = Inr (st, s') \<Longrightarrow> ms_reachable s'"
| ms_crt: "ms_reachable s \<Longrightarrow> ms_create_snapshot i cs d s = Inr (st, snap, s') \<Longrightarrow> ms_reachable s'"
| ms_apl: "ms_reachable s \<Longrightarrow> unat (sm_index (s_metadata snap)) < 2 ^ 64 - 1 \<Longrightarrow>
           ms_reachable (snd (ms_apply_snapshot snap s))"

lemma ms_append_inv:
  assumes "ms_inv s" and "batch_ok es" and r: "ms_append es s = Inr (st, s')"
  shows "ms_inv s'"
proof (cases "es = []")
  case True
  then show ?thesis using assms by (simp add: ms_append_def)
next
  case False
  consider "ms_last s + 1 < unat (e_index (es ! 0))"
    | "unat (e_index (es ! 0)) \<le> ms_last s + 1" "unat (e_index (es ! 0)) + length es \<le> ms_first s"
    | "unat (e_index (es ! 0)) \<le> ms_last s + 1" "ms_first s < unat (e_index (es ! 0)) + length es"
    by linarith
  then show ?thesis
    using ms_append_gap [OF assms(1,2) False] ms_append_old [OF assms(1,2) False]
      ms_append_inv_at(2) [OF assms(1,2) False] assms(1) r by cases auto
qed

lemma ms_compact_inv:
  assumes "ms_inv s" and r: "ms_compact k s = Inr (st, s')"
  shows "ms_inv s'"
proof (cases "unat k \<le> ms_offset s")
  case True
  then show ?thesis using assms ms_compact_old by simp
next
  case False
  have "unat k \<le> ms_last s"
  proof (rule ccontr)
    assume "\<not> unat k \<le> ms_last s"
    then have "ms_compact k s = Inl (Fatal ''compact is out of bound lastindex'')"
      using False assms(1)
      by (simp add: ms_compact_def Let_def word_le_nat_alt word_less_nat_alt ms_offset_def)
    with r show False by simp
  qed
  then show ?thesis using ms_compact_inv_at(2) [OF assms(1) _ _ r] False by simp
qed


definition entry_at :: "u64 \<Rightarrow> u64 \<Rightarrow> Entry" where
  "entry_at i t = \<lparr>e_type = EntryNormal, e_term = t, e_index = i, e_data = []\<rparr>"

text \<open>A batch with a gap inside is taken as it is.\<close>

lemma append_gap_inside:
  "ms_append [entry_at 1 1, entry_at 3 1] MemoryStorage_new = Inr (OK, MemoryStorage_new\<lparr>ms_ents := [Entry_default, entry_at 1 1, entry_at 3 1]\<rparr>)"
  "\<not> ms_inv (MemoryStorage_new\<lparr>ms_ents := [Entry_default, entry_at 1 1, entry_at 3 1]\<rparr>)"
  by (simp_all add: ms_append_def MemoryStorage_new_def entry_at_def Entry_default_def ms_first_index_def ms_inv_def ms_offset_def)


text \<open>
  \<^verbatim>\<open>MemoryStorage::append\<close> is the Raft log update: a batch of consecutive entries overwrites
  the log from its first index on and drops what was after it, entries that are already
  compacted are ignored, the compaction point does not move, and a batch that would leave a
  gap is refused with \<^verbatim>\<open>LOG_FATAL\<close>.
\<close>

lemma ms_append_correct:
  assumes "ms_inv s" and "batch_ok es" and "es \<noteq> []"
  shows "if ms_last s + 1 < unat (e_index (es ! 0))
     then ms_append es s = Inl (Fatal ''missing log entry'')
     else \<exists>s'. ms_append es s = Inr (OK, s') \<and> ms_inv s' \<and> ms_offset s' = ms_offset s \<and>
       (if unat (e_index (es ! 0)) + length es \<le> ms_first s then s' = s
        else ms_last s' = unat (e_index (es ! 0)) + length es - 1 \<and>
             ms_at s' = append_at (ms_first s) es (ms_at s))"
proof (cases "ms_last s + 1 < unat (e_index (es ! 0))")
  case True
  then show ?thesis using ms_append_gap [OF assms] by simp
next
  case nogap: False
  show ?thesis
  proof (cases "unat (e_index (es ! 0)) + length es \<le> ms_first s")
    case True
    then show ?thesis using nogap ms_append_old [OF assms] assms(1) by simp
  next
    case False
    with nogap have a: "unat (e_index (es ! 0)) \<le> ms_last s + 1"
      "ms_first s < unat (e_index (es ! 0)) + length es" by auto
    with ms_append_inv_at [OF assms a ms_append_result [OF assms a]] nogap False
    show ?thesis by (simp add: ms_append_result [OF assms a])
  qed
qed

definition storage_example :: MemoryStorage where
  "storage_example = MemoryStorage_new\<lparr>ms_ents := [entry_at 5 1, entry_at 6 1, entry_at 7 2]\<rparr>"

lemma storage_example_inv: "ms_inv storage_example"
  by (simp add: storage_example_def ms_inv_def ms_offset_def entry_at_def)

text \<open>
  \<^verbatim>\<open>MemoryStorage::compact\<close> forgets exactly the positions up to the compaction index: later
  positions, the last index and the term of the compacted position are unchanged, an index
  that is already compacted is reported and changes nothing.
\<close>

lemma ms_compact_correct:
  assumes "ms_inv s" and "unat k \<le> ms_last s"
  shows "if unat k \<le> ms_offset s then ms_compact k s = Inr (err_compacted, s)
     else \<exists>s'. ms_compact k s = Inr (OK, s') \<and> ms_inv s' \<and> ms_last s' = ms_last s \<and>
       ms_at s' = (\<lambda>i. if i \<le> unat k then None else ms_at s i) \<and>
       (\<forall>i. unat k \<le> unat i \<longrightarrow> ms_term i s' = ms_term i s)"
proof (cases "unat k \<le> ms_offset s")
  case True
  then show ?thesis using ms_compact_old by simp
next
  case False
  then have lo: "ms_offset s < unat k" by simp
  from ms_compact_result [OF assms(1) lo assms(2)] obtain s' where
    r: "ms_compact k s = Inr (OK, s')" by simp
  note C = ms_compact_inv_at [OF assms(1) lo assms(2) r]
  have "ms_term i s' = ms_term i s" if i: "unat k \<le> unat i" for i
  proof (cases "unat i \<le> ms_last s")
    case True
    have "ms_at s (unat k) \<noteq> None"
      using ms.at_dom [OF assms(1), of "unat k"] lo assms(2) by (simp add: ms_first_def)
    then have k: "ms_term k s = Inr (e_term (the (ms_at s (unat k))))"
      using ms_term_at [OF assms(1), of k] by auto
    show ?thesis
    proof (cases "i = k")
      case True
      have "ms_term k s' = Inr (e_term (ms_ents s' ! 0))"
        using ms_term_eq [OF C(2), of k] C(3,4) assms(2) by simp
      with True k C(6) show ?thesis by simp
    next
      case False
      then have "unat k < unat i" using i by (simp add: order_less_le word_unat_eq_iff)
      then obtain e where "ms_at s (unat i) = Some e" "ms_at s' (unat i) = Some e"
        using ms.at_dom [OF assms(1), of "unat i"] lo True C(5) by (auto simp: ms_first_def)
      then show ?thesis using ms_term_at assms(1) C(2) by simp
    qed
  next
    case False
    have "ms_term i t = Inl err_unavailable" if "ms_inv t" "ms_last t < unat i" "ms_offset t \<le> unat i" for t
      using that ms_invD(4) [OF that(1)]
      by (simp add: ms_term_def Let_def word_less_nat_alt ms_offset_def ms_last_def unat_sub_le)
    then show ?thesis using False i lo C(2,3,4) assms(1) by simp
  qed
  with False r C show ?thesis by simp
qed

end
