(* ===== verification/Unstable.thy ===== *)
theory Unstable
  imports Storage
begin

text \<open>
  \<^verbatim>\<open>Unstable\<close> of \<^verbatim>\<open>raft/unstable.h\<close> and \<^verbatim>\<open>raft/unstable.cpp\<close>: the entries (and at most one
  snapshot) that are not yet in stable storage. \<^verbatim>\<open>entries_[i]\<close> has log position
  \<^verbatim>\<open>offset_ + i\<close>. The pairs of out parameters \<^verbatim>\<open>(index, ok)\<close> are an option.
\<close>

section \<open>State and operations\<close>

record Unstable =
  u_snapshot :: "Snapshot option"
  u_entries :: "Entry list"
  u_offset :: u64

definition Unstable_new :: "u64 \<Rightarrow> Unstable" where
  "Unstable_new offset = \<lparr>u_snapshot = None, u_entries = [], u_offset = offset\<rparr>"

definition maybe_first_index :: "Unstable \<Rightarrow> u64 option" where
  "maybe_first_index u =
     (case u_snapshot u of Some snap \<Rightarrow> Some (sm_index (s_metadata snap) + 1) | None \<Rightarrow> None)"

definition maybe_last_index :: "Unstable \<Rightarrow> u64 option" where
  "maybe_last_index u =
     (if u_entries u \<noteq> [] then Some (u_offset u + of_nat (length (u_entries u)) - 1)
      else case u_snapshot u of Some snap \<Rightarrow> Some (sm_index (s_metadata snap)) | None \<Rightarrow> None)"

definition maybe_term :: "u64 \<Rightarrow> Unstable \<Rightarrow> fault + u64 option" where
  "maybe_term index u =
     (if index < u_offset u then
        (case u_snapshot u of
           None \<Rightarrow> Inr None
         | Some snap \<Rightarrow>
             if sm_index (s_metadata snap) = index then Inr (Some (sm_term (s_metadata snap)))
             else Inr None)
      else
        (case maybe_last_index u of
           None \<Rightarrow> Inr None
         | Some last_idx \<Rightarrow>
             if index > last_idx then Inr None
             else bind_r (nth_r (u_entries u) (unat (index - u_offset u))) (\<lambda>e. Inr (Some (e_term e)))))"

definition u_stable_to :: "u64 \<Rightarrow> u64 \<Rightarrow> Unstable \<Rightarrow> fault + Unstable" where
  "u_stable_to index t u =
     bind_r (maybe_term index u) (\<lambda>gt.
     case gt of
       None \<Rightarrow> Inr u
     | Some g \<Rightarrow>
         if g = t \<and> index \<ge> u_offset u
         then bind_r (erase_prefix_r (unat (index + 1 - u_offset u)) (u_entries u)) (\<lambda>es.
              Inr (u\<lparr>u_entries := es, u_offset := index + 1\<rparr>))
         else Inr u)"

definition u_stable_snap_to :: "u64 \<Rightarrow> Unstable \<Rightarrow> Unstable" where
  "u_stable_snap_to index u =
     (case u_snapshot u of
        Some snap \<Rightarrow> if sm_index (s_metadata snap) = index then u\<lparr>u_snapshot := None\<rparr> else u
      | None \<Rightarrow> u)"

definition u_restore :: "Snapshot \<Rightarrow> Unstable \<Rightarrow> Unstable" where
  "u_restore snapshot u =
     u\<lparr>u_offset := sm_index (s_metadata snapshot) + 1, u_entries := [], u_snapshot := Some snapshot\<rparr>"

definition u_slice :: "u64 \<Rightarrow> u64 \<Rightarrow> Unstable \<Rightarrow> fault + Entry list" where
  "u_slice low high u =
     bind_r (guard_r (high > low) (Assert ''high > low'')) (\<lambda>_.
     let upper = u_offset u + of_nat (length (u_entries u)) in
     if low < u_offset u \<or> high > upper then Inl (Fatal ''unstable.slice out of bound'')
     else range_r (u_entries u) (unat (low - u_offset u)) (unat (high - u_offset u)))"

definition truncate_and_append :: "Entry list \<Rightarrow> Unstable \<Rightarrow> fault + Unstable" where
  "truncate_and_append entries u =
     (if entries = [] then Inr u
      else
        let after = e_index (entries ! 0) in
        if after = u_offset u + of_nat (length (u_entries u))
        then Inr (u\<lparr>u_entries := u_entries u @ entries\<rparr>)
        else if after \<le> u_offset u
        then Inr (u\<lparr>u_offset := after, u_entries := entries\<rparr>)
        else bind_r (u_slice (u_offset u) after u) (\<lambda>sl. Inr (u\<lparr>u_entries := sl @ entries\<rparr>)))"

section \<open>Well-formedness\<close>

text \<open>
  The buffered entries are consecutive from \<^verbatim>\<open>offset_\<close>, the position after the last one fits
  in 64 bits, and a pending snapshot ends right before \<^verbatim>\<open>offset_\<close>.
\<close>

definition u_inv :: "Unstable \<Rightarrow> bool" where
  "u_inv u \<longleftrightarrow> contiguous (unat (u_offset u)) (u_entries u) \<and> 0 < unat (u_offset u) \<and>
     unat (u_offset u) + length (u_entries u) < 2 ^ 64 \<and>
     (\<forall>snap. u_snapshot u = Some snap \<longrightarrow> unat (u_offset u) = unat (sm_index (s_metadata snap)) + 1)"

definition u_end :: "Unstable \<Rightarrow> nat" where
  "u_end u = unat (u_offset u) + length (u_entries u)"

lemma u_invD:
  assumes "u_inv u"
  shows "contiguous (unat (u_offset u)) (u_entries u)" and "0 < unat (u_offset u)"
    and "unat (u_offset u) + length (u_entries u) < 2 ^ 64"
    and "u_snapshot u = Some snap \<Longrightarrow> unat (u_offset u) = unat (sm_index (s_metadata snap)) + 1"
  using assms by (auto simp: u_inv_def)

lemma unat_u_upper:
  "u_inv u \<Longrightarrow> unat (u_offset u + of_nat (length (u_entries u))) = u_end u"
  unfolding u_end_def using u_invD(3) by (intro unat_add_of_nat64) simp

lemma maybe_last_index_entries:
  assumes "u_inv u" and "u_entries u \<noteq> []"
  shows "\<exists>last. maybe_last_index u = Some last \<and> unat last = u_end u - 1"
proof -
  have "0 < u_end u" using assms(2) by (simp add: u_end_def)
  then have "unat (u_offset u + of_nat (length (u_entries u)) - 1) = u_end u - 1"
    by (rule unat_pred64_eq [OF unat_u_upper [OF assms(1)]])
  then show ?thesis using assms(2) by (simp add: maybe_last_index_def)
qed

lemma maybe_term_entry:
  assumes "u_inv u" and "unat (u_offset u) \<le> unat i" and "unat i < u_end u"
  shows "maybe_term i u = Inr (Some (e_term (u_entries u ! (unat i - unat (u_offset u)))))"
proof -
  have "u_entries u \<noteq> []" using assms(2,3) by (auto simp: u_end_def)
  with maybe_last_index_entries [OF assms(1)] obtain last where
    "maybe_last_index u = Some last" "unat last = u_end u - 1" by blast
  moreover have "unat (i - u_offset u) = unat i - unat (u_offset u)"
    using assms(2) by (rule unat_sub_le)
  moreover have "unat i - unat (u_offset u) < length (u_entries u)"
    using assms(2,3) by (simp add: u_end_def)
  ultimately show ?thesis
    using assms(2,3) by (simp add: maybe_term_def word_less_nat_alt)
qed

lemma maybe_term_above:
  assumes "u_inv u" and "u_end u \<le> unat i"
  shows "maybe_term i u = Inr None"
proof (cases "u_entries u = []")
  case False
  with maybe_last_index_entries [OF assms(1)] obtain last where
    "maybe_last_index u = Some last" "unat last = u_end u - 1" by blast
  moreover have "u_end u - 1 < unat i" "unat (u_offset u) \<le> unat i"
    using u_invD(2) [OF assms(1)] assms(2) by (auto simp: u_end_def)
  ultimately show ?thesis by (simp add: maybe_term_def word_less_nat_alt)
next
  case True
  show ?thesis
  proof (cases "u_snapshot u")
    case None
    with True show ?thesis
      using assms(2) by (simp add: maybe_term_def word_less_nat_alt u_end_def maybe_last_index_def)
  next
    case (Some snap)
    with True show ?thesis
      using assms(2) u_invD(4) [OF assms(1) Some]
      by (simp add: maybe_term_def word_less_nat_alt u_end_def maybe_last_index_def)
  qed
qed

lemma maybe_term_below:
  assumes "unat i < unat (u_offset u)"
  shows "maybe_term i u = Inr (case u_snapshot u of None \<Rightarrow> None
     | Some snap \<Rightarrow> if sm_index (s_metadata snap) = i then Some (sm_term (s_metadata snap)) else None)"
  using assms by (simp add: maybe_term_def word_less_nat_alt split: option.splits)

lemma u_slice_eq:
  assumes "u_inv u" and "unat (u_offset u) \<le> unat low" and "unat low < unat high" and "unat high \<le> u_end u"
  shows "u_slice low high u =
     Inr (take (unat high - unat low) (drop (unat low - unat (u_offset u)) (u_entries u)))"
proof -
  have "unat (low - u_offset u) = unat low - unat (u_offset u)"
    "unat (high - u_offset u) = unat high - unat (u_offset u)"
    using assms(2,3) by (auto intro: unat_sub_le)
  moreover have "unat high - unat (u_offset u) \<le> length (u_entries u)"
    using assms(4) by (simp add: u_end_def)
  ultimately show ?thesis
    using assms unat_u_upper [OF assms(1)]
    by (simp add: u_slice_def Let_def word_less_nat_alt)
qed

lemma u_slice_fatal:
  assumes "u_inv u" and "unat low < unat high" and "u_end u < unat high"
  shows "u_slice low high u = Inl (Fatal ''unstable.slice out of bound'')"
  using assms unat_u_upper [OF assms(1)] by (simp add: u_slice_def Let_def word_less_nat_alt)

text \<open>
  The three branches of \<^verbatim>\<open>truncate_and_append\<close> compute one thing: keep the buffered entries
  below the batch, then the batch.
\<close>

lemma truncate_and_append_result:
  assumes u: "u_inv u" and b: "batch_ok es" and ne: "es \<noteq> []"
    and gap: "unat (e_index (es ! 0)) \<le> u_end u"
  shows "truncate_and_append es u = Inr (u\<lparr>u_offset := min (u_offset u) (e_index (es ! 0)),
     u_entries := take (unat (e_index (es ! 0)) - unat (u_offset u)) (u_entries u) @ es\<rparr>)"
proof -
  let ?a = "e_index (es ! 0)" and ?o = "u_offset u"
  have up: "unat (?o + of_nat (length (u_entries u))) = u_end u" by (rule unat_u_upper [OF u])
  consider "unat ?a = u_end u" | "unat ?a < u_end u" "unat ?a \<le> unat ?o" | "unat ?o < unat ?a" "unat ?a < u_end u"
    using gap by linarith
  then show ?thesis
  proof cases
    case 1
    then have "?a = ?o + of_nat (length (u_entries u))" using up by (simp add: word_unat_eq_iff)
    moreover have "min ?o ?a = ?o" using 1 by (simp add: min_def word_le_nat_alt u_end_def)
    ultimately show ?thesis using ne 1 by (simp add: truncate_and_append_def Let_def u_end_def)
  next
    case 2
    then have "?a \<noteq> ?o + of_nat (length (u_entries u))" using up by auto
    moreover have "min ?o ?a = ?a" using 2 by (intro min.absorb2) (simp add: word_le_nat_alt)
    ultimately show ?thesis using ne 2 by (simp add: truncate_and_append_def Let_def word_le_nat_alt)
  next
    case 3
    then have "?a \<noteq> ?o + of_nat (length (u_entries u))" using up by auto
    moreover have "min ?o ?a = ?o" using 3 by (simp add: min_def word_le_nat_alt)
    ultimately show ?thesis
      using ne 3 u_slice_eq [OF u, of ?o ?a]
      by (simp add: truncate_and_append_def Let_def word_le_nat_alt)
  qed
qed

lemma truncate_and_append_inv:
  assumes u: "u_inv u" and b: "batch_ok es" and ne: "es \<noteq> []"
    and gap: "unat (e_index (es ! 0)) \<le> u_end u" and pos: "0 < unat (e_index (es ! 0))"
    and snap: "\<And>snap. u_snapshot u = Some snap \<Longrightarrow> unat (u_offset u) \<le> unat (e_index (es ! 0))"
    and r: "truncate_and_append es u = Inr u'"
  shows "u_inv u'" and "u_end u' = unat (e_index (es ! 0)) + length es" and "u_snapshot u' = u_snapshot u"
proof -
  let ?a = "unat (e_index (es ! 0))" and ?o = "unat (u_offset u)"
  have cont: "contiguous ?a es" and bnd: "?a + length es < 2 ^ 64" using b ne by (auto simp: batch_ok_def)
  let ?xs = "take (?a - ?o) (u_entries u)"
  have u': "u' = u\<lparr>u_offset := min (u_offset u) (e_index (es ! 0)), u_entries := ?xs @ es\<rparr>"
    using truncate_and_append_result [OF u b ne gap] r by simp
  have len: "min ?o ?a + length ?xs = ?a" using gap by (simp add: u_end_def)
  have "contiguous (min ?o ?a) ?xs"
  proof (cases "?o \<le> ?a")
    case True
    then show ?thesis using contiguous_take [OF u_invD(1) [OF u]] by simp
  next
    case False
    then show ?thesis by simp
  qed
  with cont have c: "contiguous (min ?o ?a) (?xs @ es)" by (simp only: contiguous_append len simp_thms)
  show e: "u_end u' = ?a + length es" using len by (simp add: u_end_def u')
  show "u_snapshot u' = u_snapshot u" by (simp add: u')
  show "u_inv u'"
    unfolding u_inv_def
  proof (intro conjI allI impI)
    show "contiguous (unat (u_offset u')) (u_entries u')" using c by (simp add: u')
    show "0 < unat (u_offset u')" using pos u_invD(2) [OF u] by (simp add: u')
    show "unat (u_offset u') + length (u_entries u') < 2 ^ 64" using e bnd by (simp add: u_end_def)
    fix p assume "u_snapshot u' = Some p"
    then have p: "u_snapshot u = Some p" by (simp add: u')
    show "unat (u_offset u') = unat (sm_index (s_metadata p)) + 1"
      using snap [OF p] u_invD(4) [OF u p] by (simp add: u')
  qed
qed

lemma u_restore_inv:
  "unat (sm_index (s_metadata snap)) < 2 ^ 64 - 2 \<Longrightarrow> u_inv (u_restore snap u)"
  by (simp add: u_inv_def u_restore_def unat_succ64)

end
