(* ===== verification/Raft_Log.thy ===== *)
theory Raft_Log
  imports Unstable
begin

text \<open>
  \<^verbatim>\<open>RaftLog\<close> of \<^verbatim>\<open>raft/raft_log.h\<close> and \<^verbatim>\<open>raft/raft_log.cpp\<close>: stable storage, the unstable tail on
  top of it, and the commit and apply positions. Every method is one definition. A method
  with an out parameter and a \<^verbatim>\<open>Status\<close> returns a sum, as in \<open>Storage\<close>. The abstraction
  \<open>log_at\<close> reads the two parts as one log; under \<open>log_wf\<close> the methods are shown to compute
  on that one log, and \<open>RaftLog\<close> satisfies the contract \<open>indexed_log\<close> again.
\<close>

section \<open>State and operations\<close>

record RaftLog =
  rl_storage :: MemoryStorage
  rl_unstable :: Unstable
  rl_committed :: u64
  rl_applied :: u64
  rl_max_next_ents_size :: u64

definition unlimited :: u64 where
  "unlimited = - 1"

definition RaftLog_new :: "MemoryStorage \<Rightarrow> u64 \<Rightarrow> RaftLog" where
  "RaftLog_new storage max_next_ents_size =
     \<lparr>rl_storage = storage, rl_unstable = Unstable_new (ms_last_index storage + 1),
      rl_committed = ms_first_index storage - 1, rl_applied = ms_first_index storage - 1,
      rl_max_next_ents_size = max_next_ents_size\<rparr>"

definition first_index :: "RaftLog \<Rightarrow> u64" where
  "first_index l =
     (case maybe_first_index (rl_unstable l) of Some i \<Rightarrow> i | None \<Rightarrow> ms_first_index (rl_storage l))"

definition last_index :: "RaftLog \<Rightarrow> u64" where
  "last_index l =
     (case maybe_last_index (rl_unstable l) of Some i \<Rightarrow> i | None \<Rightarrow> ms_last_index (rl_storage l))"

text \<open>\<^verbatim>\<open>RaftLog::term\<close>.\<close>

definition term_of :: "u64 \<Rightarrow> RaftLog \<Rightarrow> fault + (Status + u64)" where
  "term_of index l =
     (let dummy_index = first_index l - 1 in
      if index < dummy_index \<or> index > last_index l then Inr (Inr 0)
      else bind_r (maybe_term index (rl_unstable l)) (\<lambda>t.
           case t of Some t \<Rightarrow> Inr (Inr t) | None \<Rightarrow> Inr (ms_term index (rl_storage l))))"

definition match_term :: "u64 \<Rightarrow> u64 \<Rightarrow> RaftLog \<Rightarrow> fault + bool" where
  "match_term index t l =
     bind_r (term_of index l) (\<lambda>r. Inr (case r of Inl _ \<Rightarrow> False | Inr t' \<Rightarrow> t = t'))"

definition last_term :: "RaftLog \<Rightarrow> fault + u64" where
  "last_term l =
     bind_r (term_of (last_index l) l) (\<lambda>r.
     case r of Inl _ \<Rightarrow> Inl (Assert ''status.is_ok()'') | Inr t \<Rightarrow> Inr t)"

definition is_up_to_date :: "u64 \<Rightarrow> u64 \<Rightarrow> RaftLog \<Rightarrow> fault + bool" where
  "is_up_to_date lasti t l =
     bind_r (last_term l) (\<lambda>lt. Inr (t > lt \<or> (t = lt \<and> lasti \<ge> last_index l)))"

primrec find_conflict :: "Entry list \<Rightarrow> RaftLog \<Rightarrow> fault + u64" where
  "find_conflict [] l = Inr 0"
| "find_conflict (e # es) l =
     bind_r (match_term (e_index e) (e_term e) l) (\<lambda>m.
     if \<not> m then Inr (e_index e) else find_conflict es l)"

definition commit_to :: "u64 \<Rightarrow> RaftLog \<Rightarrow> fault + RaftLog" where
  "commit_to to_commit l =
     (if rl_committed l < to_commit
      then if last_index l < to_commit then Inl (Fatal ''to_commit is out of range [lastIndex]'')
           else Inr (l\<lparr>rl_committed := to_commit\<rparr>)
      else Inr l)"

definition log_append :: "Entry list \<Rightarrow> RaftLog \<Rightarrow> fault + (u64 \<times> RaftLog)" where
  "log_append entries l =
     (if entries = [] then Inr (last_index l, l)
      else
        let after = e_index (entries ! 0) - 1 in
        if after < rl_committed l then Inl (Fatal ''after is out of range [committed]'')
        else bind_r (truncate_and_append entries (rl_unstable l)) (\<lambda>u.
             let l' = l\<lparr>rl_unstable := u\<rparr> in Inr (last_index l', l')))"

text \<open>The result is the out parameter \<^verbatim>\<open>last_new_index\<close> when \<^verbatim>\<open>ok\<close> is true.\<close>

definition maybe_append ::
  "u64 \<Rightarrow> u64 \<Rightarrow> u64 \<Rightarrow> Entry list \<Rightarrow> RaftLog \<Rightarrow> fault + (u64 option \<times> RaftLog)"
where
  "maybe_append index log_term committed entries l =
     bind_r (match_term index log_term l) (\<lambda>m.
     if m then
       let lastnewi = index + of_nat (length entries) in
       bind_r (find_conflict entries l) (\<lambda>ci.
       bind_r (if ci = 0 then Inr l
               else if ci \<le> rl_committed l then Inl (Fatal ''entry conflict with committed entry'')
               else bind_r (erase_prefix_r (unat (ci - (index + 1))) entries) (\<lambda>ents.
                    bind_r (log_append ents l) (\<lambda>r. Inr (snd r)))) (\<lambda>l1.
       bind_r (commit_to (min committed lastnewi) l1) (\<lambda>l2.
       Inr (Some lastnewi, l2))))
     else Inr (None, l))"

definition must_check_out_of_bounds :: "u64 \<Rightarrow> u64 \<Rightarrow> RaftLog \<Rightarrow> fault + Status" where
  "must_check_out_of_bounds low high l =
     bind_r (guard_r (high \<ge> low) (Assert ''high >= low'')) (\<lambda>_.
     let first = first_index l in
     if low < first then Inr err_compacted
     else
       let len = last_index l + 1 - first in
       if low < first \<or> high > first + len then Inl (Fatal ''slice out of bound'')
       else Inr OK)"

definition slice :: "u64 \<Rightarrow> u64 \<Rightarrow> u64 \<Rightarrow> RaftLog \<Rightarrow> fault + (Status + Entry list)" where
  "slice low high max_size l =
     bind_r (must_check_out_of_bounds low high l) (\<lambda>status.
     if status \<noteq> OK then Inr (Inl status)
     else if low = high then Inr (Inr [])
     else
       let offset = u_offset (rl_unstable l) in
       bind_r (if low < offset then ms_entries low (min high offset) max_size (rl_storage l)
               else Inr (Inr [])) (\<lambda>r.
       case r of
         Inl status \<Rightarrow> Inr (Inl status)
       | Inr entries \<Rightarrow>
           if low < offset \<and> length entries < unat (min high offset - low) then Inr (Inr entries)
           else
             bind_r (if high > offset then u_slice (max low offset) high (rl_unstable l) else Inr []) (\<lambda>us.
             Inr (Inr (entry_limit_size max_size (entries @ us))))))"

text \<open>\<^verbatim>\<open>RaftLog::entries\<close>.\<close>

definition entries_from :: "u64 \<Rightarrow> u64 \<Rightarrow> RaftLog \<Rightarrow> fault + (Status + Entry list)" where
  "entries_from index max_size l =
     (if index > last_index l then Inr (Inr []) else slice index (last_index l + 1) max_size l)"

text \<open>
  \<^verbatim>\<open>all_entries\<close> calls itself as long as \<^verbatim>\<open>entries\<close> reports a compacted index, and ends the process once a
  retry has returned; \<open>None\<close> is a call that never returns.
\<close>

partial_function (option) all_entries :: "RaftLog \<Rightarrow> (fault + Entry list) option" where
  "all_entries l =
     (case entries_from (first_index l) unlimited l of
        Inl e \<Rightarrow> Some (Inl e)
      | Inr (Inr entries) \<Rightarrow> Some (Inr entries)
      | Inr (Inl status) \<Rightarrow>
          if Status_to_string status =
             Status_to_string (InvalidArgument ''requested index is unavailable due to compaction'')
          then Option.bind (all_entries l) (\<lambda>r.
               case r of Inl e \<Rightarrow> Some (Inl e) | Inr _ \<Rightarrow> Some (Inl (Fatal (Status_to_string status))))
          else Some (Inl (Fatal (Status_to_string status))))"

definition next_entries :: "RaftLog \<Rightarrow> fault + Entry list" where
  "next_entries l =
     (let off = max (rl_applied l + 1) (first_index l) in
      if rl_committed l + 1 > off
      then bind_r (slice off (rl_committed l + 1) (rl_max_next_ents_size l) l) (\<lambda>r.
           case r of Inl _ \<Rightarrow> Inl (Fatal ''unexpected error when getting unapplied entries'')
           | Inr es \<Rightarrow> Inr es)
      else Inr [])"

definition has_next_entries :: "RaftLog \<Rightarrow> bool" where
  "has_next_entries l =
     (let off = max (rl_applied l + 1) (first_index l) in rl_committed l + 1 > off)"

text \<open>
  \<^verbatim>\<open>RaftLog::maybe_commit\<close> ignores the status of \<^verbatim>\<open>term\<close>: if it is not ok, the comparison
  reads an uninitialised variable.
\<close>

definition log_maybe_commit :: "u64 \<Rightarrow> u64 \<Rightarrow> RaftLog \<Rightarrow> fault + (bool \<times> RaftLog)" where
  "log_maybe_commit max_index t l =
     (if max_index > rl_committed l
      then bind_r (term_of max_index l) (\<lambda>r.
           case r of
             Inl _ \<Rightarrow> Inl (Undefined ''uninitialised term'')
           | Inr t' \<Rightarrow>
               if t' = t then bind_r (commit_to max_index l) (\<lambda>l'. Inr (True, l'))
               else Inr (False, l))
      else Inr (False, l))"

definition log_restore :: "Snapshot \<Rightarrow> RaftLog \<Rightarrow> RaftLog" where
  "log_restore snapshot l =
     l\<lparr>rl_committed := sm_index (s_metadata snapshot),
       rl_unstable := u_restore snapshot (rl_unstable l)\<rparr>"

definition log_snapshot :: "RaftLog \<Rightarrow> Snapshot" where
  "log_snapshot l =
     (case u_snapshot (rl_unstable l) of Some snap \<Rightarrow> snap | None \<Rightarrow> ms_snapshot (rl_storage l))"

text \<open>An index out of range is only logged (\<^verbatim>\<open>LOG_ERROR\<close>).\<close>

definition applied_to :: "u64 \<Rightarrow> RaftLog \<Rightarrow> RaftLog" where
  "applied_to index l = (if index = 0 then l else l\<lparr>rl_applied := index\<rparr>)"

definition stable_to :: "u64 \<Rightarrow> u64 \<Rightarrow> RaftLog \<Rightarrow> fault + RaftLog" where
  "stable_to index t l =
     bind_r (u_stable_to index t (rl_unstable l)) (\<lambda>u. Inr (l\<lparr>rl_unstable := u\<rparr>))"

definition stable_snap_to :: "u64 \<Rightarrow> RaftLog \<Rightarrow> RaftLog" where
  "stable_snap_to index l = l\<lparr>rl_unstable := u_stable_snap_to index (rl_unstable l)\<rparr>"

section \<open>One log out of two parts\<close>

text \<open>
  \<open>log_base\<close> is the position before the first available entry (the pending snapshot's index,
  or the storage's dummy), \<open>log_at\<close> the entry at a position: unstable from \<^verbatim>\<open>offset_\<close> on,
  stable below.
\<close>

definition log_base :: "RaftLog \<Rightarrow> nat" where
  "log_base l = (case u_snapshot (rl_unstable l) of
       Some snap \<Rightarrow> unat (sm_index (s_metadata snap)) | None \<Rightarrow> ms_offset (rl_storage l))"

definition log_base_term :: "RaftLog \<Rightarrow> u64" where
  "log_base_term l = (case u_snapshot (rl_unstable l) of
       Some snap \<Rightarrow> sm_term (s_metadata snap) | None \<Rightarrow> e_term (ms_ents (rl_storage l) ! 0))"

definition log_off :: "RaftLog \<Rightarrow> nat" where
  "log_off l = unat (u_offset (rl_unstable l))"

definition log_first :: "RaftLog \<Rightarrow> nat" where
  "log_first l = log_base l + 1"

definition log_last :: "RaftLog \<Rightarrow> nat" where
  "log_last l = u_end (rl_unstable l) - 1"

definition log_at :: "RaftLog \<Rightarrow> nat \<Rightarrow> Entry option" where
  "log_at l i =
     (if log_off l \<le> i
      then if i < u_end (rl_unstable l) then Some (u_entries (rl_unstable l) ! (i - log_off l)) else None
      else if log_base l < i then ms_at (rl_storage l) i else None)"

definition term_at :: "RaftLog \<Rightarrow> nat \<Rightarrow> u64" where
  "term_at l i =
     (if i = log_base l then log_base_term l
      else case log_at l i of Some e \<Rightarrow> e_term e | None \<Rightarrow> 0)"

text \<open>
  Well-formedness of the two parts together, and the full invariant: the commit position
  lies inside the log and the application never runs ahead of it.
\<close>

definition log_wf :: "RaftLog \<Rightarrow> bool" where
  "log_wf l \<longleftrightarrow> ms_inv (rl_storage l) \<and> u_inv (rl_unstable l) \<and>
     (u_snapshot (rl_unstable l) = None \<longrightarrow>
        ms_first (rl_storage l) \<le> log_off l \<and> log_off l \<le> ms_last (rl_storage l) + 1 \<and>
        (u_entries (rl_unstable l) = [] \<longrightarrow> log_off l = ms_last (rl_storage l) + 1))"

definition log_inv :: "RaftLog \<Rightarrow> bool" where
  "log_inv l \<longleftrightarrow> log_wf l \<and> log_base l \<le> unat (rl_committed l) \<and>
     unat (rl_committed l) \<le> log_last l \<and> unat (rl_applied l) \<le> unat (rl_committed l)"

lemma log_wfD:
  assumes "log_wf l"
  shows "ms_inv (rl_storage l)" and "u_inv (rl_unstable l)" and "log_base l < log_off l"
    and "u_snapshot (rl_unstable l) = None \<Longrightarrow> log_off l \<le> ms_last (rl_storage l) + 1"
    and "u_snapshot (rl_unstable l) = None \<Longrightarrow> u_entries (rl_unstable l) = [] \<Longrightarrow>
           log_off l = ms_last (rl_storage l) + 1"
    and "u_snapshot (rl_unstable l) = Some snap \<Longrightarrow> log_off l = log_base l + 1"
  using assms
  by (auto simp: log_wf_def log_base_def log_off_def ms_first_def dest: u_invD split: option.splits)

lemma log_invD:
  assumes "log_inv l"
  shows "log_wf l" and "log_base l \<le> unat (rl_committed l)" and "unat (rl_committed l) \<le> log_last l"
    and "unat (rl_applied l) \<le> unat (rl_committed l)"
  using assms by (auto simp: log_inv_def)

lemma u_end_log: "u_end (rl_unstable l) = log_off l + length (u_entries (rl_unstable l))"
  by (simp add: u_end_def log_off_def)

lemma u_end_bound: "log_wf l \<Longrightarrow> u_end (rl_unstable l) < 2 ^ 64"
  using log_wfD(2) u_invD(3) by (simp add: u_end_def)

lemma u_end_pos: "log_wf l \<Longrightarrow> 0 < u_end (rl_unstable l)"
  using log_wfD(3) by (fastforce simp: u_end_log)

lemma log_last_Suc: "log_wf l \<Longrightarrow> Suc (log_last l) = u_end (rl_unstable l)"
  using u_end_pos by (simp add: log_last_def)

lemma unat_first_index: "log_wf l \<Longrightarrow> unat (first_index l) = log_first l"
proof (cases "u_snapshot (rl_unstable l)")
  case None
  assume "log_wf l"
  with None show ?thesis
    using log_wfD(1) by (simp add: first_index_def maybe_first_index_def log_first_def log_base_def ms_first_def)
next
  case (Some snap)
  assume wf: "log_wf l"
  then have "unat (sm_index (s_metadata snap)) < 18446744073709551615"
    using u_end_bound [OF wf] log_wfD(6) [OF wf Some] Some by (simp add: log_base_def u_end_log)
  with Some show ?thesis
    by (simp add: first_index_def maybe_first_index_def log_first_def log_base_def unat_succ64)
qed

lemma unat_last_index: "log_wf l \<Longrightarrow> unat (last_index l) = log_last l"
proof -
  assume wf: "log_wf l"
  note W = log_wfD [OF wf]
  show ?thesis
  proof (cases "u_entries (rl_unstable l) = []")
    case False
    with maybe_last_index_entries [OF W(2)] show ?thesis
      by (auto simp: last_index_def log_last_def)
  next
    case True
    then show ?thesis
      using W(1,5,6) by (cases "u_snapshot (rl_unstable l)")
        (auto simp: last_index_def maybe_last_index_def log_last_def u_end_log log_base_def)
  qed
qed

lemma unat_last_index_Suc: "log_wf l \<Longrightarrow> unat (last_index l + 1) = log_last l + 1"
  using unat_last_index [of l] u_end_bound [of l] log_last_Suc [of l] by (subst unat_succ64) auto

interpretation rl: indexed_log log_wf log_first log_last log_at
proof unfold_locales
  fix l i e
  assume l: "log_wf l"
  note W = log_wfD [OF l]
  show dom: "log_at l i \<noteq> None \<longleftrightarrow> log_first l \<le> i \<and> i \<le> log_last l"
  proof (cases "log_off l \<le> i")
    case True
    then show ?thesis using W(3) log_last_Suc [OF l] by (auto simp: log_at_def log_first_def)
  next
    case False
    show ?thesis
    proof (cases "u_snapshot (rl_unstable l)")
      case None
      then have "ms_at (rl_storage l) i \<noteq> None \<longleftrightarrow> log_base l < i"
        using False ms.at_dom [OF W(1), of i] W(4) by (auto simp: log_base_def ms_first_def)
      then show ?thesis
        using False log_last_Suc [OF l] by (auto simp: log_at_def log_first_def u_end_log)
    next
      case (Some snap)
      then show ?thesis using False W(6) by (auto simp: log_at_def log_first_def)
    qed
  qed
  show "0 < log_first l" by (simp add: log_first_def)
  show "log_first l \<le> log_last l + 1"
    using W(3) log_last_Suc [OF l] by (simp add: log_first_def u_end_log)
  show "log_last l < 2 ^ 64 - 1" using u_end_bound [OF l] log_last_Suc [OF l] by simp
  assume e: "log_at l i = Some e"
  show "unat (e_index e) = i"
  proof (cases "log_off l \<le> i")
    case True
    then show ?thesis
      using e contiguous_nth [OF u_invD(1) [OF W(2)], of "i - log_off l"]
      by (auto simp: log_at_def u_end_def log_off_def split: if_splits)
  next
    case False
    then show ?thesis using e ms.at_index [OF W(1)] by (auto simp: log_at_def split: if_splits)
  qed
qed

section \<open>Reading the log\<close>

lemma unat_dummy_index: "log_wf l \<Longrightarrow> unat (first_index l - 1) = log_base l"
  using unat_pred64_eq [OF unat_first_index] by (simp add: log_first_def)

lemma term_at_out:
  "log_wf l \<Longrightarrow> i < log_base l \<or> log_last l < i \<Longrightarrow> term_at l i = 0"
  using rl.at_dom [of l i] rl.first_last [of l]
  by (auto simp: term_at_def log_first_def split: option.splits)

lemma term_of_eq: "log_wf l \<Longrightarrow> term_of i l = Inr (Inr (term_at l (unat i)))"
proof -
  assume wf: "log_wf l"
  note W = log_wfD [OF wf]
  let ?i = "unat i"
  consider (out) "?i < log_base l \<or> log_last l < ?i"
    | (tail) "log_off l \<le> ?i" "?i \<le> log_last l"
    | (body) "log_base l \<le> ?i" "?i < log_off l" "?i \<le> log_last l" by linarith
  then show ?thesis
  proof cases
    case out
    then show ?thesis
      using wf term_at_out [OF wf out]
      by (auto simp: term_of_def Let_def word_less_nat_alt unat_dummy_index unat_last_index)
  next
    case tail
    then have "?i < u_end (rl_unstable l)" using log_last_Suc [OF wf] by simp
    with tail maybe_term_entry [OF W(2), of i] W(3) show ?thesis
      by (simp add: term_of_def Let_def word_less_nat_alt unat_dummy_index unat_last_index wf
          log_off_def term_at_def log_at_def)
  next
    case body
    note below = maybe_term_below [of i "rl_unstable l", folded log_off_def, OF body(2)]
    show ?thesis
    proof (cases "u_snapshot (rl_unstable l)")
      case (Some snap)
      then have "?i = log_base l" using W(6) body by simp
      moreover then have "sm_index (s_metadata snap) = i" using Some by (simp add: log_base_def word_unat_eq_iff)
      ultimately show ?thesis
        using Some below body
        by (simp add: term_of_def Let_def word_less_nat_alt unat_dummy_index unat_last_index wf
            term_at_def log_base_term_def)
    next
      case None
      then have base: "log_base l = ms_offset (rl_storage l)" by (simp add: log_base_def)
      moreover have "?i \<le> ms_last (rl_storage l)" using body W(4) [OF None] by simp
      ultimately have t: "ms_term i (rl_storage l) =
          Inr (e_term (ms_ents (rl_storage l) ! (?i - ms_offset (rl_storage l))))"
        using body W(1) by (intro ms_term_eq) simp_all
      have "term_at l ?i = e_term (ms_ents (rl_storage l) ! (?i - ms_offset (rl_storage l)))"
        using None body base \<open>?i \<le> ms_last (rl_storage l)\<close>
        by (auto simp: term_at_def log_base_term_def log_at_def ms_at_def ms_first_def)
      with t None below body show ?thesis
        by (simp add: term_of_def Let_def word_less_nat_alt unat_dummy_index unat_last_index wf)
    qed
  qed
qed

lemma match_term_eq: "log_wf l \<Longrightarrow> match_term i t l = Inr (t = term_at l (unat i))"
  by (simp add: match_term_def term_of_eq)

lemma last_term_eq: "log_wf l \<Longrightarrow> last_term l = Inr (term_at l (log_last l))"
  by (simp add: last_term_def term_of_eq unat_last_index)

lemma is_up_to_date_eq:
  "log_wf l \<Longrightarrow> is_up_to_date i t l =
     Inr (unat (term_at l (log_last l)) < unat t \<or>
          (t = term_at l (log_last l) \<and> log_last l \<le> unat i))"
  by (simp add: is_up_to_date_def last_term_eq word_less_nat_alt word_le_nat_alt unat_last_index)

lemma find_conflict_eq:
  "log_wf l \<Longrightarrow> find_conflict es l =
     Inr (case find (\<lambda>e. e_term e \<noteq> term_at l (unat (e_index e))) es of None \<Rightarrow> 0 | Some e \<Rightarrow> e_index e)"
  by (induction es) (auto simp: match_term_eq)

lemma seg_log_at_tail:
  assumes "log_wf l" and "log_off l \<le> lo" and "lo \<le> hi" and "hi \<le> log_last l + 1"
  shows "seg (log_at l) lo hi = take (hi - lo) (drop (lo - log_off l) (u_entries (rl_unstable l)))"
  using assms log_last_Suc [OF assms(1)]
  by (intro seg_eqI) (auto simp: log_at_def u_end_log)

lemma seg_log_at_body:
  assumes "log_base l < lo" and "hi \<le> log_off l"
  shows "seg (log_at l) lo hi = seg (ms_at (rl_storage l)) lo hi"
  using assms by (intro seg_cong) (simp add: log_at_def)

lemma must_check_ok:
  assumes "log_wf l" and "log_first l \<le> unat low" and "unat low \<le> unat high" and "unat high \<le> log_last l + 1"
  shows "must_check_out_of_bounds low high l = Inr OK"
proof -
  have "first_index l + (last_index l + 1 - first_index l) = last_index l + 1" by simp
  moreover have "\<not> low < first_index l" "high \<ge> low" "\<not> high > last_index l + 1"
    using assms
    by (simp_all add: word_less_nat_alt word_le_nat_alt unat_first_index unat_last_index_Suc)
  ultimately show ?thesis by (simp add: must_check_out_of_bounds_def Let_def)
qed

lemma slice_compacted:
  assumes "log_wf l" and "unat low < log_first l" and "unat low \<le> unat high"
  shows "slice low high m l = Inr (Inl err_compacted)"
  using assms
  by (simp add: slice_def must_check_out_of_bounds_def Let_def word_less_nat_alt word_le_nat_alt
      unat_first_index err_compacted_def)

lemma slice_fatal:
  assumes "log_wf l" and "log_first l \<le> unat low" and "unat low \<le> unat high" and "log_last l + 1 < unat high"
  shows "slice low high m l = Inl (Fatal ''slice out of bound'')"
proof -
  have "first_index l + (last_index l + 1 - first_index l) = last_index l + 1" by simp
  moreover have "\<not> low < first_index l" "high \<ge> low" "high > last_index l + 1"
    using assms
    by (simp_all add: word_less_nat_alt word_le_nat_alt unat_first_index unat_last_index_Suc)
  ultimately show ?thesis by (simp add: slice_def must_check_out_of_bounds_def Let_def)
qed

lemma slice_eq:
  assumes wf: "log_wf l" and lo: "log_first l \<le> unat low" and le: "unat low \<le> unat high"
    and hi: "unat high \<le> log_last l + 1"
  shows "slice low high m l = Inr (Inr (entry_limit_size m (seg (log_at l) (unat low) (unat high))))"
proof (cases "low = high")
  case True
  then show ?thesis using must_check_ok [OF assms] by (simp add: slice_def)
next
  case False
  note W = log_wfD [OF wf]
  let ?o = "u_offset (rl_unstable l)"
  have o: "unat ?o = log_off l" by (simp add: log_off_def)
  have lt: "unat low < unat high" using False le by (simp add: order_less_le word_unat_eq_iff)
  have chk: "must_check_out_of_bounds low high l = Inr OK" by (rule must_check_ok [OF assms])
  have us: "(if high > ?o then u_slice (max low ?o) high (rl_unstable l) else Inr []) =
      Inr (seg (log_at l) (max (unat low) (log_off l)) (unat high))"
  proof (cases "log_off l < unat high")
    case True
    have "u_slice (max low ?o) high (rl_unstable l) = Inr (take (unat high - max (unat low) (log_off l))
        (drop (max (unat low) (log_off l) - log_off l) (u_entries (rl_unstable l))))"
      using u_slice_eq [OF W(2), of "max low ?o" high] True lt hi log_last_Suc [OF wf] by (simp add: o)
    also have "\<dots> = Inr (seg (log_at l) (max (unat low) (log_off l)) (unat high))"
      using True lt hi by (subst seg_log_at_tail [OF wf]) auto
    finally show ?thesis using True by (simp add: word_less_nat_alt o)
  next
    case False
    then show ?thesis by (simp add: word_less_nat_alt o)
  qed
  show ?thesis
  proof (cases "unat low < log_off l")
    case below: True
    let ?mid = "min (unat high) (log_off l)"
    have none: "u_snapshot (rl_unstable l) = None"
      using W(6) below lo by (cases "u_snapshot (rl_unstable l)") (auto simp: log_first_def)
    have base: "log_base l = ms_offset (rl_storage l)" using none by (simp add: log_base_def)
    have st: "ms_entries low (min high ?o) m (rl_storage l) =
        Inr (Inr (entry_limit_size m (seg (log_at l) (unat low) ?mid)))"
      using ms_entries_eq [OF W(1), of low "min high ?o" m] below lt lo W(4) [OF none] base
      by (subst seg_log_at_body) (auto simp: o ms_first_def log_first_def)
    have len: "unat (min high ?o - low) = length (seg (log_at l) (unat low) ?mid)"
      using below lt by (subst unat_sub_le) (simp_all add: o)
    have app: "seg (log_at l) (unat low) (unat high) =
        seg (log_at l) (unat low) ?mid @ seg (log_at l) (max (unat low) (log_off l)) (unat high)"
      using below lt by (cases "log_off l < unat high") (auto simp: seg_append max_def min_def)
    show ?thesis
      using chk False below st len us entry_limit_size_append [of m "seg (log_at l) (unat low) ?mid"]
        entry_limit_size_full [of m "seg (log_at l) (unat low) ?mid"]
      by (auto simp: slice_def Let_def word_less_nat_alt o app)
  next
    case above: False
    then have "seg (log_at l) (max (unat low) (log_off l)) (unat high) = seg (log_at l) (unat low) (unat high)"
      by (simp add: max_def)
    then show ?thesis
      using chk False above us by (simp add: slice_def Let_def word_less_nat_alt o)
  qed
qed

section \<open>Writing the log\<close>

lemma log_base_update [simp]:
  "log_base (l\<lparr>rl_committed := c\<rparr>) = log_base l" "log_base (l\<lparr>rl_applied := a\<rparr>) = log_base l"
  "log_last (l\<lparr>rl_committed := c\<rparr>) = log_last l" "log_last (l\<lparr>rl_applied := a\<rparr>) = log_last l"
  "log_at (l\<lparr>rl_committed := c\<rparr>) = log_at l" "log_at (l\<lparr>rl_applied := a\<rparr>) = log_at l"
  "log_wf (l\<lparr>rl_committed := c\<rparr>) = log_wf l" "log_wf (l\<lparr>rl_applied := a\<rparr>) = log_wf l"
  "log_first (l\<lparr>rl_committed := c\<rparr>) = log_first l" "log_first (l\<lparr>rl_applied := a\<rparr>) = log_first l"
  "last_index (l\<lparr>rl_committed := c\<rparr>) = last_index l" "last_index (l\<lparr>rl_applied := a\<rparr>) = last_index l"
  "log_base_term (l\<lparr>rl_committed := c\<rparr>) = log_base_term l" "log_base_term (l\<lparr>rl_applied := a\<rparr>) = log_base_term l"
  "term_at (l\<lparr>rl_committed := c\<rparr>) = term_at l" "term_at (l\<lparr>rl_applied := a\<rparr>) = term_at l"
  by (simp_all add: log_base_def log_last_def log_at_def log_wf_def log_off_def log_first_def
      last_index_def term_at_def log_base_term_def fun_eq_iff cong: option.case_cong if_cong)

lemma log_append_eq:
  assumes wf: "log_wf l" and b: "batch_ok es" and ne: "es \<noteq> []"
    and com: "log_base l \<le> unat (rl_committed l)" "unat (rl_committed l) < unat (e_index (es ! 0))"
    and gap: "unat (e_index (es ! 0)) \<le> log_last l + 1"
  obtains l' u' where "log_append es l = Inr (last_index l', l')" and "l' = l\<lparr>rl_unstable := u'\<rparr>"
    and "log_wf l'" and "log_base l' = log_base l"
    and "log_last l' = unat (e_index (es ! 0)) + length es - 1"
    and "log_at l' = append_at (log_first l) es (log_at l)" and "log_base_term l' = log_base_term l"
proof -
  note W = log_wfD [OF wf]
  let ?b = "unat (e_index (es ! 0))" and ?o = "log_off l"
  have ubound: "?b \<le> u_end (rl_unstable l)" using gap log_last_Suc [OF wf] by simp
  define u' where "u' = (rl_unstable l)\<lparr>u_offset := min (u_offset (rl_unstable l)) (e_index (es ! 0)),
     u_entries := take (?b - ?o) (u_entries (rl_unstable l)) @ es\<rparr>"
  have r: "truncate_and_append es (rl_unstable l) = Inr u'"
    using truncate_and_append_result [OF W(2) b ne ubound] by (simp add: u'_def log_off_def)
  have snap: "unat (u_offset (rl_unstable l)) \<le> ?b" if "u_snapshot (rl_unstable l) = Some snap" for snap
    using W(6) [OF that] com by (simp add: log_off_def)
  have pos: "0 < ?b" using com(2) by simp
  have U: "u_inv u'" "u_end u' = ?b + length es" "u_snapshot u' = u_snapshot (rl_unstable l)"
    using truncate_and_append_inv [OF W(2) b ne ubound pos _ r] snap by blast+
  let ?l = "l\<lparr>rl_unstable := u'\<rparr>"
  have "unat (e_index (es ! 0) - 1) = ?b - 1" using unat_pred64 [OF pos] .
  then have "\<not> e_index (es ! 0) - 1 < rl_committed l" using com(2) by (simp add: word_less_nat_alt)
  then have 1: "log_append es l = Inr (last_index ?l, ?l)"
    using ne r by (simp add: log_append_def Let_def)
  have base: "log_base ?l = log_base l" "log_base_term ?l = log_base_term l"
    using U(3) by (simp_all add: log_base_def log_base_term_def cong: option.case_cong)
  have off: "log_off ?l = min ?o ?b" by (simp add: log_off_def u'_def)
  have wf': "log_wf ?l"
    using wf U ne com off by (auto simp: log_wf_def ms_first_def log_base_def u'_def)
  have last: "log_last ?l = ?b + length es - 1" using U(2) by (simp add: log_last_def)
  have at: "log_at ?l = append_at (log_first l) es (log_at l)"
  proof
    fix i
    have len: "min ?o ?b + length (take (?b - ?o) (u_entries (rl_unstable l))) = ?b"
      using ubound by (simp add: u_end_log)
    have mb: "min ?o ?b + (?b - ?o) = ?b" by (simp add: min_def)
    have ents: "u_entries (rl_unstable ?l) = take (?b - ?o) (u_entries (rl_unstable l)) @ es"
      by (simp add: u'_def)
    have uend: "u_end (rl_unstable ?l) = ?b + length es" using U(2) by simp
    consider (low) "i < ?b" "i < ?o" | (keep) "i < ?b" "?o \<le> i"
      | (new) "?b \<le> i" "i < ?b + length es" | (gone) "?b + length es \<le> i" by linarith
    then show "log_at ?l i = append_at (log_first l) es (log_at l) i"
    proof cases
      case low
      then show ?thesis by (simp add: log_at_def append_at_def Let_def min_le_iff_disj off base)
    next
      case keep
      then have "u_entries (rl_unstable ?l) ! (i - ?o) = u_entries (rl_unstable l) ! (i - ?o)"
        using ubound unfolding ents by (intro nth_take_append) (auto simp: u_end_log)
      moreover have "min ?o ?b = ?o" using keep by simp
      ultimately show ?thesis using keep ubound by (simp add: log_at_def append_at_def Let_def min_le_iff_disj off U(2))
    next
      case new
      then have "u_entries (rl_unstable ?l) ! (i - min ?o ?b) = es ! (i - ?b)"
        unfolding ents using len mb by (auto simp: nth_append)
      moreover have "log_first l \<le> i" using new com by (simp add: log_first_def)
      ultimately show ?thesis using new by (simp add: log_at_def append_at_def Let_def min_le_iff_disj off U(2))
    next
      case gone
      then have "log_first l \<le> i" "min ?o ?b \<le> i" using com by (auto simp: log_first_def)
      then show ?thesis using gone by (simp add: log_at_def append_at_def Let_def min_le_iff_disj off U(2))
    qed
  qed
  show ?thesis by (rule that [OF 1 refl wf' base(1) last at base(2)])
qed

lemma commit_to_eq:
  assumes "log_wf l" and "unat c \<le> log_last l"
  shows "commit_to c l = Inr (l\<lparr>rl_committed := max (rl_committed l) c\<rparr>)"
proof (cases "rl_committed l < c")
  case True
  then show ?thesis
    using assms by (simp add: commit_to_def max.absorb2 word_less_nat_alt unat_last_index)
next
  case False
  then show ?thesis by (simp add: commit_to_def max.absorb1)
qed

lemma commit_to_fatal:
  "log_inv l \<Longrightarrow> log_last l < unat c \<Longrightarrow> commit_to c l = Inl (Fatal ''to_commit is out of range [lastIndex]'')"
  using log_invD [of l] by (simp add: commit_to_def word_less_nat_alt unat_last_index)

lemma log_maybe_commit_eq:
  assumes "log_inv l" and "t \<noteq> 0"
  shows "log_maybe_commit i t l =
     Inr (if unat (rl_committed l) < unat i \<and> term_at l (unat i) = t
          then (True, l\<lparr>rl_committed := i\<rparr>) else (False, l))"
proof -
  note I = log_invD [OF assms(1)]
  show ?thesis
  proof (cases "unat (rl_committed l) < unat i \<and> term_at l (unat i) = t")
    case True
    then have "unat i \<le> log_last l" using term_at_out [OF I(1), of "unat i"] assms(2) by fastforce
    moreover have "max (rl_committed l) i = i" using True by (simp add: max_def word_le_nat_alt)
    ultimately show ?thesis
      using True by (simp add: log_maybe_commit_def term_of_eq I(1) word_less_nat_alt commit_to_eq)
  next
    case False
    then show ?thesis by (auto simp: log_maybe_commit_def term_of_eq I(1) word_less_nat_alt)
  qed
qed

lemma log_restore_inv:
  assumes "ms_inv (rl_storage l)" and "unat (sm_index (s_metadata snap)) < 2 ^ 64 - 2"
    and "unat (rl_applied l) \<le> unat (sm_index (s_metadata snap))"
  shows "log_inv (log_restore snap l)" and "log_base (log_restore snap l) = unat (sm_index (s_metadata snap))"
    and "log_last (log_restore snap l) = unat (sm_index (s_metadata snap))"
    and "log_at (log_restore snap l) = (\<lambda>_. None)"
  using assms u_restore_inv [OF assms(2), of "rl_unstable l"]
  by (simp_all add: log_inv_def log_wf_def log_restore_def log_base_def u_restore_def log_last_def
      u_end_def unat_succ64 log_at_def log_off_def fun_eq_iff)

lemma RaftLog_new_inv:
  assumes "ms_inv s"
  shows "log_inv (RaftLog_new s m)" and "log_base (RaftLog_new s m) = ms_offset s"
    and "log_last (RaftLog_new s m) = ms_last s" and "log_at (RaftLog_new s m) = ms_at s"
proof -
  have last: "unat (ms_last_index s + 1) = ms_last s + 1"
    using assms ms.last_bound [OF assms] by (simp add: unat_succ64)
  have first: "unat (ms_first_index s - 1) = ms_offset s"
    using unat_pred64_eq [OF unat_ms_first_index [OF assms]] by (simp add: ms_first_def)
  have wf: "log_wf (RaftLog_new s m)"
    using assms last ms.last_bound [OF assms] ms.first_last [OF assms]
    by (simp add: log_wf_def RaftLog_new_def Unstable_new_def u_inv_def log_off_def)
  show base: "log_base (RaftLog_new s m) = ms_offset s"
    and l: "log_last (RaftLog_new s m) = ms_last s"
    using last by (simp_all add: log_base_def RaftLog_new_def Unstable_new_def log_last_def u_end_def)
  show "log_inv (RaftLog_new s m)"
    using wf base l first ms.first_last [OF assms]
    by (simp add: log_inv_def ms_first_def) (simp add: RaftLog_new_def first)
  show "log_at (RaftLog_new s m) = ms_at s"
    using last ms.at_dom [OF assms] unfolding fun_eq_iff
    by (auto simp: log_at_def base) (auto simp: RaftLog_new_def Unstable_new_def log_off_def u_end_def ms_at_def ms_first_def)
qed

section \<open>Appending what a leader sent\<close>

text \<open>
  \<open>sent_ok index es\<close>: the entries of a \<^verbatim>\<open>MsgApp\<close> follow position \<open>index\<close> without a gap, carry
  real terms (a term is never 0) and their last index, plus one, fits in 64 bits.
\<close>

definition sent_ok :: "u64 \<Rightarrow> Entry list \<Rightarrow> bool" where
  "sent_ok index es \<longleftrightarrow> contiguous (unat index + 1) es \<and> (\<forall>e \<in> set es. e_term e \<noteq> 0) \<and>
     unat index + length es < 2 ^ 64 - 1"

text \<open>How many of the sent entries the log already has.\<close>

primrec matched :: "RaftLog \<Rightarrow> Entry list \<Rightarrow> nat" where
  "matched l [] = 0"
| "matched l (e # es) = (if e_term e = term_at l (unat (e_index e)) then Suc (matched l es) else 0)"

lemma matched_le: "matched l es \<le> length es"
  by (induction es) auto

lemma matched_prefix:
  "contiguous n es \<Longrightarrow> j < matched l es \<Longrightarrow> e_term (es ! j) = term_at l (n + j)"
  by (induction es arbitrary: n j) (auto split: if_splits simp: nth_Cons split: nat.splits)

lemma matched_stop:
  "contiguous n es \<Longrightarrow> matched l es < length es \<Longrightarrow>
   e_term (es ! matched l es) \<noteq> term_at l (n + matched l es)"
proof (induction es arbitrary: n)
  case Nil
  then show ?case by simp
next
  case (Cons e es)
  show ?case
  proof (cases "e_term e = term_at l (unat (e_index e))")
    case True
    then show ?thesis using Cons.prems Cons.IH [of "Suc n"] by simp
  next
    case False
    then show ?thesis using Cons.prems by simp
  qed
qed

lemma matched_all:
  "contiguous n es \<Longrightarrow> (\<And>j. j < length es \<Longrightarrow> e_term (es ! j) = term_at l (n + j)) \<Longrightarrow> matched l es = length es"
  using matched_stop [of n es l] matched_le [of l es] by force

lemma find_conflict_matched:
  "log_wf l \<Longrightarrow> find_conflict es l =
     Inr (if matched l es < length es then e_index (es ! matched l es) else 0)"
  by (induction es) (auto simp: match_term_eq)

lemma matched_in_log:
  assumes wf: "log_wf l" and ok: "sent_ok index es" and idx: "unat index \<le> log_last l"
  shows "unat index + matched l es \<le> log_last l"
proof (cases "matched l es")
  case 0
  then show ?thesis using idx by simp
next
  case (Suc k)
  then have k: "k < matched l es" by simp
  have "e_term (es ! k) = term_at l (unat index + 1 + k)"
    using ok k by (intro matched_prefix) (simp_all add: sent_ok_def)
  moreover have "e_term (es ! k) \<noteq> 0"
    using ok k matched_le [of l es] by (simp add: sent_ok_def)
  ultimately have "\<not> log_last l < unat index + 1 + k" using term_at_out [OF wf] by metis
  then show ?thesis using Suc by simp
qed

lemma sent_ok_drop:
  assumes "sent_ok index es" and "k < length es"
  shows "batch_ok (drop k es)" and "unat (e_index (drop k es ! 0)) = unat index + 1 + k"
    and "unat (e_index (es ! k)) = unat index + 1 + k"
proof -
  have c: "contiguous (unat index + 1) es" using assms(1) by (simp add: sent_ok_def)
  show e: "unat (e_index (es ! k)) = unat index + 1 + k" using contiguous_nth [OF c assms(2)] .
  show e': "unat (e_index (drop k es ! 0)) = unat index + 1 + k" using e assms(2) by simp
  show "batch_ok (drop k es)"
    using contiguous_drop [OF c, of k] assms e' unfolding batch_ok_def by (simp add: sent_ok_def)
qed

lemma term_at_append:
  assumes "log_base l' = log_base l" and "log_base_term l' = log_base_term l"
    and "log_at l' = append_at (log_first l) es (log_at l)"
  shows "i < unat (e_index (es ! 0)) \<Longrightarrow> term_at l' i = term_at l i"
    and "log_base l < unat (e_index (es ! 0)) \<Longrightarrow> j < length es \<Longrightarrow>
         term_at l' (unat (e_index (es ! 0)) + j) = e_term (es ! j)"
  using assms by (auto simp: term_at_def append_at_def Let_def log_first_def)

text \<open>
  The three outcomes of \<^verbatim>\<open>maybe_append\<close>: no match, everything already there, a tail written
  from the first conflict on.
\<close>

lemma maybe_append_nomatch:
  "log_wf l \<Longrightarrow> log_term \<noteq> term_at l (unat index) \<Longrightarrow> maybe_append index log_term c es l = Inr (None, l)"
  by (simp add: maybe_append_def match_term_eq)

lemma unat_lastnewi: "sent_ok index es \<Longrightarrow> unat (index + of_nat (length es)) = unat index + length es"
  by (intro unat_add_of_nat64) (simp add: sent_ok_def)

lemma maybe_append_known:
  assumes inv: "log_inv l" and ok: "sent_ok index es" and idx: "unat index \<le> log_last l"
    and all: "matched l es = length es"
  shows "maybe_append index (term_at l (unat index)) c es l =
     Inr (Some (index + of_nat (length es)),
          l\<lparr>rl_committed := max (rl_committed l) (min c (index + of_nat (length es)))\<rparr>)"
proof -
  note I = log_invD [OF inv]
  have "unat (min c (index + of_nat (length es))) \<le> log_last l"
    using matched_in_log [OF I(1) ok idx] all unat_lastnewi [OF ok] by simp
  then show ?thesis
    using all by (simp add: maybe_append_def match_term_eq I(1) find_conflict_matched commit_to_eq Let_def)
qed

lemma maybe_append_conflict:
  assumes inv: "log_inv l" and ok: "sent_ok index es" and idx: "unat index \<le> log_last l"
    and k: "matched l es < length es" and com: "unat (rl_committed l) < unat index + 1 + matched l es"
  obtains l' u' where
    "maybe_append index (term_at l (unat index)) c es l = Inr (Some (index + of_nat (length es)), l')"
    and "l' = l\<lparr>rl_unstable := u', rl_committed := max (rl_committed l) (min c (index + of_nat (length es)))\<rparr>"
    and "log_wf l'" and "log_base l' = log_base l" and "log_base_term l' = log_base_term l"
    and "log_last l' = unat index + length es"
    and "log_at l' = append_at (log_first l) (drop (matched l es) es) (log_at l)"
proof -
  note I = log_invD [OF inv]
  let ?k = "matched l es"
  note D = sent_ok_drop [OF ok k]
  have ne: "drop ?k es \<noteq> []" using k by simp
  have g: "unat (e_index (drop ?k es ! 0)) \<le> log_last l + 1"
    using matched_in_log [OF I(1) ok idx] D(2) by simp
  have cm: "unat (rl_committed l) < unat (e_index (drop ?k es ! 0))" using com D(2) by simp
  obtain l1 u' where l1: "log_append (drop ?k es) l = Inr (last_index l1, l1)" "l1 = l\<lparr>rl_unstable := u'\<rparr>"
    "log_wf l1" "log_base l1 = log_base l" "log_last l1 = unat (e_index (drop ?k es ! 0)) + length (drop ?k es) - 1"
    "log_at l1 = append_at (log_first l) (drop ?k es) (log_at l)" "log_base_term l1 = log_base_term l"
    by (rule log_append_eq [OF I(1) D(1) ne I(2) cm g])
  have last: "log_last l1 = unat index + length es" using l1(5) D(2) k by simp
  have ci: "e_index (es ! ?k) \<noteq> 0" using D(3) by (auto simp: word_unat_eq_iff)
  have nle: "\<not> e_index (es ! ?k) \<le> rl_committed l" using D(3) com by (simp add: word_le_nat_alt)
  have "unat (index + 1) = unat index + 1" using ok by (intro unat_succ64) (simp add: sent_ok_def)
  then have n: "unat (e_index (es ! ?k) - (index + 1)) = ?k"
    using D(3) by (subst unat_sub_le) simp_all
  have "unat (min c (index + of_nat (length es))) \<le> log_last l1"
    using last unat_lastnewi [OF ok] by simp
  then have cmt: "commit_to (min c (index + of_nat (length es))) l1 =
      Inr (l1\<lparr>rl_committed := max (rl_committed l) (min c (index + of_nat (length es)))\<rparr>)"
    using commit_to_eq [OF l1(3)] l1(2) by simp
  have "maybe_append index (term_at l (unat index)) c es l = Inr (Some (index + of_nat (length es)),
      l1\<lparr>rl_committed := max (rl_committed l) (min c (index + of_nat (length es)))\<rparr>)"
    using k ci nle n l1(1) cmt
    by (simp add: maybe_append_def match_term_eq I(1) find_conflict_matched Let_def)
  then show ?thesis
    by (rule that [of _ u']) (use l1 last in simp_all)
qed

lemma maybe_append_cases:
  assumes inv: "log_inv l" and ok: "sent_ok index es" and idx: "unat index \<le> log_last l"
    and m: "log_term = term_at l (unat index)" and com: "unat (rl_committed l) \<le> unat index"
  obtains l' where "maybe_append index log_term c es l = Inr (Some (index + of_nat (length es)), l')"
    and "log_inv l'" and "log_base l' = log_base l" and "rl_applied l' = rl_applied l"
    and "rl_storage l' = rl_storage l"
    and "rl_committed l' = max (rl_committed l) (min c (index + of_nat (length es)))"
    and "\<forall>i \<le> unat index + matched l es. log_at l' i = log_at l i \<and> term_at l' i = term_at l i"
    and "\<forall>j < length es. term_at l' (unat index + 1 + j) = e_term (es ! j)"
    and "matched l es = length es \<longrightarrow> log_at l' = log_at l"
    and "matched l es < length es \<longrightarrow> log_last l' = unat index + length es"
proof (cases "matched l es < length es")
  case True
  note I = log_invD [OF inv]
  note D = sent_ok_drop [OF ok True]
  have cm: "unat (rl_committed l) < unat index + 1 + matched l es" using com by simp
  obtain l' u' where L: "maybe_append index (term_at l (unat index)) c es l = Inr (Some (index + of_nat (length es)), l')"
    "l' = l\<lparr>rl_unstable := u', rl_committed := max (rl_committed l) (min c (index + of_nat (length es)))\<rparr>"
    "log_wf l'" "log_base l' = log_base l" "log_base_term l' = log_base_term l"
    "log_last l' = unat index + length es"
    "log_at l' = append_at (log_first l) (drop (matched l es) es) (log_at l)"
    by (rule maybe_append_conflict [OF inv ok idx True cm])
  note T = term_at_append [OF L(4,5,7)]
  have c: "contiguous (unat index + 1) es" using ok by (simp add: sent_ok_def)
  have keep: "log_at l' i = log_at l i \<and> term_at l' i = term_at l i" if "i \<le> unat index + matched l es" for i
    using that D(2) T(1) [of i] by (simp add: L(7) append_at_def Let_def)
  have new: "term_at l' (unat index + 1 + j) = e_term (es ! j)" if j: "j < length es" for j
  proof (cases "j < matched l es")
    case True
    then show ?thesis using keep [of "unat index + 1 + j"] matched_prefix [OF c True] by simp
  next
    case False
    then show ?thesis using T(2) [of "j - matched l es"] D(2) j I(2) com by simp
  qed
  have "unat (max (rl_committed l) (min c (index + of_nat (length es)))) \<le> log_last l'"
    using L(6) unat_lastnewi [OF ok] com by simp
  then have "log_inv l'" using L(3,4) I(2,4) unfolding log_inv_def by (simp add: L(2) le_max_iff_disj)
  with L keep new m True show ?thesis by (intro that [of l']) simp_all
next
  case False
  then have all: "matched l es = length es" using matched_le [of l es] by simp
  note I = log_invD [OF inv]
  let ?l = "l\<lparr>rl_committed := max (rl_committed l) (min c (index + of_nat (length es)))\<rparr>"
  have c: "contiguous (unat index + 1) es" using ok by (simp add: sent_ok_def)
  have "unat index + length es \<le> log_last l" using matched_in_log [OF I(1) ok idx] all by simp
  then have "log_inv ?l" using I unat_lastnewi [OF ok] by (simp add: log_inv_def le_max_iff_disj min_le_iff_disj)
  moreover have "term_at l (unat index + 1 + j) = e_term (es ! j)" if "j < length es" for j
    using matched_prefix [OF c, of j l] that all by simp
  ultimately show ?thesis
    using maybe_append_known [OF inv ok idx all, of c] m all by (intro that [of ?l]) simp_all
qed

section \<open>Properties\<close>

definition log_example :: RaftLog where
  "log_example = \<lparr>rl_storage = storage_example,
     rl_unstable = \<lparr>u_snapshot = None, u_entries = [entry_at 7 2, entry_at 8 2], u_offset = 7\<rparr>,
     rl_committed = 6, rl_applied = 5, rl_max_next_ents_size = 1000\<rparr>"

lemma log_example_inv: "log_inv log_example"
  using storage_example_inv
  by (simp add: log_inv_def log_wf_def log_example_def u_inv_def log_off_def log_base_def log_last_def
      u_end_def ms_first_def ms_last_def ms_offset_def storage_example_def entry_at_def)

lemma log_example_values:
  "log_base log_example = 5" "log_first log_example = 6" "log_last log_example = 8"
  by (simp_all add: log_example_def log_base_def log_first_def log_last_def u_end_def ms_offset_def
      storage_example_def entry_at_def)

text \<open>
  C25. Reading the log: \<^verbatim>\<open>RaftLog::slice\<close>, which stitches stable storage and the unstable tail
  together, returns exactly the size-limited segment of the one log, reports a range that
  starts in the compacted part, and stops on a range that runs past the end.
\<close>

theorem slice_correct:
  assumes "log_inv l" and "unat low \<le> unat high"
  shows "slice low high max_size l =
     (if unat low < log_first l then Inr (Inl err_compacted)
      else if log_last l + 1 < unat high then Inl (Fatal ''slice out of bound'')
      else Inr (Inr (entry_limit_size max_size (seg (log_at l) (unat low) (unat high)))))"
  using assms log_invD(1) [OF assms(1)] slice_compacted slice_fatal slice_eq by simp

theorem slice_correct_witness:
  "slice 6 9 1000 log_example = Inr (Inr (entry_limit_size 1000 (seg (log_at log_example) 6 9)))"
  using slice_correct [OF log_example_inv, of 6 9 1000] log_example_values by simp

text \<open>
  C11. Log matching on a follower: when the entry before the sent ones matches,
  \<^verbatim>\<open>RaftLog::maybe_append\<close> ends with a log that agrees with every sent entry, leaves
  everything up to the last agreeing entry as it was (so nothing committed is lost), drops
  nothing when all sent entries were already there, and raises the commit index to the
  smaller of the leader's commit and the last sent index; when it does not match, nothing changes.
\<close>

theorem maybe_append_correct:
  assumes "log_inv l" and "sent_ok index es" and "unat index \<le> log_last l"
    and "unat (rl_committed l) \<le> unat index"
  shows "if log_term \<noteq> term_at l (unat index) then maybe_append index log_term c es l = Inr (None, l)
     else \<exists>l'. maybe_append index log_term c es l = Inr (Some (index + of_nat (length es)), l') \<and>
       log_inv l' \<and>
       (\<forall>j < length es. term_at l' (unat index + 1 + j) = e_term (es ! j)) \<and>
       (\<forall>i \<le> unat index. log_at l' i = log_at l i) \<and>
       ((\<forall>j < length es. term_at l (unat index + 1 + j) = e_term (es ! j)) \<longrightarrow> log_at l' = log_at l) \<and>
       rl_committed l' = max (rl_committed l) (min c (index + of_nat (length es)))"
proof (cases "log_term = term_at l (unat index)")
  case False
  then show ?thesis using maybe_append_nomatch log_invD(1) [OF assms(1)] by simp
next
  case True
  obtain l' where L: "maybe_append index log_term c es l = Inr (Some (index + of_nat (length es)), l')"
    "log_inv l'" "log_base l' = log_base l" "rl_applied l' = rl_applied l" "rl_storage l' = rl_storage l"
    "rl_committed l' = max (rl_committed l) (min c (index + of_nat (length es)))"
    "\<forall>i \<le> unat index + matched l es. log_at l' i = log_at l i \<and> term_at l' i = term_at l i"
    "\<forall>j < length es. term_at l' (unat index + 1 + j) = e_term (es ! j)"
    "matched l es = length es \<longrightarrow> log_at l' = log_at l"
    "matched l es < length es \<longrightarrow> log_last l' = unat index + length es"
    by (rule maybe_append_cases [OF assms(1,2,3) True assms(4), of c])
  have "contiguous (unat index + 1) es" using assms(2) by (simp add: sent_ok_def)
  then have "log_at l' = log_at l" if "\<forall>j < length es. term_at l (unat index + 1 + j) = e_term (es ! j)"
    using that matched_all [of "unat index + 1" es l] L(9) by simp
  with True L(1,2,6,7,8) show ?thesis by auto
qed

theorem maybe_append_correct_witness:
  "\<exists>l'. maybe_append 7 2 8 [entry_at 8 3, entry_at 9 3] log_example = Inr (Some 9, l') \<and> log_inv l' \<and>
     (\<forall>j < 2. term_at l' (8 + j) = 3) \<and> (\<forall>i \<le> 7. log_at l' i = log_at log_example i) \<and> rl_committed l' = 8"
proof -
  let ?es = "[entry_at 8 3, entry_at 9 3]"
  have ok: "sent_ok 7 ?es" by (simp add: sent_ok_def entry_at_def)
  have t: "term_at log_example 7 = 2"
    by (simp add: term_at_def log_at_def log_example_values)
      (simp add: log_example_def log_off_def u_end_def entry_at_def)
  have c: "rl_committed log_example = 6" by (simp add: log_example_def)
  have all3: "(\<forall>j < length ?es. P j) = (P 0 \<and> P 1)" for P
    by (auto simp: less_Suc_eq)
  have two: "(\<forall>j < (2::nat). P j) = (P 0 \<and> P 1)" for P
    by (auto simp: numeral_2_eq_2 less_Suc_eq)
  show ?thesis
    using maybe_append_correct [OF log_example_inv ok, of 2 8] log_example_values t c
    unfolding all3 two by (auto simp: entry_at_def)
qed

lemma next_entries_eq:
  assumes "log_inv l"
  shows "next_entries l = Inr (entry_limit_size (rl_max_next_ents_size l)
       (seg (log_at l) (max (unat (rl_applied l) + 1) (log_first l)) (unat (rl_committed l) + 1))) \<and>
     (has_next_entries l \<longleftrightarrow> next_entries l \<noteq> Inr [])"
proof -
  note I = log_invD [OF assms]
  have b: "unat (rl_committed l) < 18446744073709551615" "unat (rl_applied l) < 18446744073709551615"
    using I rl.last_bound [OF I(1)] by auto
  let ?off = "max (rl_applied l + 1) (first_index l)"
  have u: "unat ?off = max (unat (rl_applied l) + 1) (log_first l)"
    "unat (rl_committed l + 1) = unat (rl_committed l) + 1"
    using b by (simp_all add: unat_succ64 unat_first_index I(1))
  have h: "has_next_entries l \<longleftrightarrow> unat ?off < unat (rl_committed l) + 1"
    by (simp only: has_next_entries_def Let_def word_less_nat_alt u(2))
  show ?thesis
  proof (cases "has_next_entries l")
    case True
    then have lt: "unat ?off < unat (rl_committed l) + 1" using h by simp
    have "slice ?off (rl_committed l + 1) (rl_max_next_ents_size l) l =
        Inr (Inr (entry_limit_size (rl_max_next_ents_size l) (seg (log_at l) (unat ?off) (unat (rl_committed l) + 1))))"
      using slice_eq [OF I(1), of ?off "rl_committed l + 1"] lt u I(3) by simp
    moreover have "rl_committed l + 1 > ?off" using lt u(2) by (simp only: word_less_nat_alt)
    moreover have "seg (log_at l) (unat ?off) (unat (rl_committed l) + 1) \<noteq> []"
      using lt by (simp only: length_greater_0_conv [symmetric] length_seg)
    ultimately show ?thesis
      using True by (simp add: next_entries_def Let_def u(1) del: unat_max)
  next
    case False
    then have ge: "\<not> rl_committed l + 1 > ?off" by (simp only: has_next_entries_def Let_def not_False_eq_True)
    have "length (seg (log_at l) (unat ?off) (unat (rl_committed l) + 1)) = 0"
      using h False unfolding length_seg by linarith
    then have "seg (log_at l) (unat ?off) (unat (rl_committed l) + 1) = []" by (simp only: length_0_conv)
    with False ge show ?thesis by (simp only: next_entries_def Let_def u(1)) simp
  qed
qed

text \<open>
  \<^verbatim>\<open>all_entries\<close> returns: on every well-formed log it ends, without the retry and without stopping the
  process, with all entries from the first to the last index, as long as their total size fits 64 bits.
\<close>

lemma all_entries_returns:
  assumes "log_wf l" and "total_size (seg (log_at l) (log_first l) (log_last l + 1)) < 2 ^ 64"
  shows "all_entries l = Some (Inr (seg (log_at l) (log_first l) (log_last l + 1)))"
proof (cases "log_last l < log_first l")
  case True
  then have "first_index l > last_index l"
    using unat_first_index [OF assms(1)] unat_last_index [OF assms(1)] by (simp add: word_less_nat_alt)
  moreover have "seg (log_at l) (log_first l) (log_last l + 1) = []" using True by (simp add: seg_def)
  ultimately show ?thesis by (subst all_entries.simps) (simp add: entries_from_def)
next
  case False
  note u = unat_first_index [OF assms(1)] unat_last_index [OF assms(1)] unat_last_index_Suc [OF assms(1)]
  have "slice (first_index l) (last_index l + 1) unlimited l = Inr (Inr (seg (log_at l) (log_first l) (log_last l + 1)))"
    using slice_eq [OF assms(1), of "first_index l" "last_index l + 1" unlimited] entry_limit_size_unlimited [OF assms(2)] False u by (simp add: unlimited_def)
  moreover have "\<not> first_index l > last_index l" using False u by (simp add: word_less_nat_alt)
  ultimately show ?thesis by (subst all_entries.simps) (simp add: entries_from_def)
qed

end
