(* ===== verification/Printed_Text.thy ===== *)
theory Printed_Text
  imports Kv_Prelude
begin

text \<open>
  Text the program prints: characters of a literal as bytes, \<^verbatim>\<open>%lu\<close> and \<^verbatim>\<open>%d\<close>, and \<^verbatim>\<open>snprintf\<close> into a local
  array. Decimal numbers can be read back, and their length is bounded by the size of the number.
\<close>

definition bytes_of_string :: "string \<Rightarrow> bytes" where
  "bytes_of_string s = map of_char s"

fun decimal :: "nat \<Rightarrow> bytes" where
  "decimal n = (if n < 10 then [48 + of_nat n] else decimal (n div 10) @ [48 + of_nat (n mod 10)])"

declare decimal.simps [simp del]

text \<open>
  \<^verbatim>\<open>snprintf\<close> into a local array of \<open>n\<close> bytes: what is defined of the array, and the length the
  whole text would have.
\<close>

definition snprintf :: "nat \<Rightarrow> bytes \<Rightarrow> bytes \<times> u32" where
  "snprintf n text = (take (n - 1) text @ [0], of_nat (length text))"

definition undecimal :: "bytes \<Rightarrow> nat" where
  "undecimal ds = foldl (\<lambda>a d. 10 * a + (unat d - 48)) 0 ds"

lemma unat_digit: "n < 10 \<Longrightarrow> unat (48 + of_nat n :: u8) = 48 + n"
  by (subst unat_add_small) (simp_all add: unat_of_nat_small)

lemma decimal_digits: "d \<in> set (decimal n) \<Longrightarrow> 48 \<le> unat d \<and> unat d \<le> 57"
proof (induction n rule: decimal.induct)
  case (1 n)
  show ?case
  proof (cases "n < 10")
    case True
    then show ?thesis using 1(2) unat_digit [OF True] by (subst (asm) decimal.simps) auto
  next
    case False
    then consider "d \<in> set (decimal (n div 10))" | "d = 48 + of_nat (n mod 10)"
      using 1(2) by (subst (asm) (2) decimal.simps) auto
    then show ?thesis using 1(1) [OF False] unat_digit [of "n mod 10"] by cases auto
  qed
qed

lemma undecimal_decimal: "undecimal (decimal n) = n"
proof (induction n rule: decimal.induct)
  case (1 n)
  show ?case
  proof (cases "n < 10")
    case True
    then show ?thesis by (subst decimal.simps) (simp add: undecimal_def unat_digit)
  next
    case False
    have "undecimal (decimal (n div 10) @ [48 + of_nat (n mod 10)]) = 10 * undecimal (decimal (n div 10)) + n mod 10"
      using unat_digit [of "n mod 10"] by (simp add: undecimal_def)
    with 1 False show ?thesis by (subst decimal.simps) simp
  qed
qed

lemma length_decimal: "n < 10 ^ k \<Longrightarrow> length (decimal n) \<le> max 1 k"
proof (induction n arbitrary: k rule: decimal.induct)
  case (1 n)
  show ?case
  proof (cases "n < 10")
    case True
    then show ?thesis by (subst decimal.simps) simp
  next
    case False
    then obtain j where k: "k = Suc j" using 1(2) by (cases k) auto
    then have "j \<noteq> 0" using False 1(2) by (cases j) auto
    moreover have "n div 10 < 10 ^ j" using 1(2) k by (simp add: less_mult_imp_div_less)
    ultimately show ?thesis using 1(1) [OF False, of j] False k by (subst decimal.simps) simp
  qed
qed

lemma length_decimal_u64: "length (decimal (unat (w :: u64))) \<le> 20"
proof -
  have "unat w < 2 ^ 64" using unsigned_less [of w] by simp
  then have "unat w < 10 ^ 20" by (rule less_trans) simp
  then show ?thesis using length_decimal [of "unat w" 20] by simp
qed

text \<open>A text shorter than the array is there in full.\<close>

lemma snprintf_fits:
  assumes "length text < n" and "n < 2 ^ 32"
  shows "case snprintf n text of (buffer, m) \<Rightarrow> unat m = length text \<and> range_r buffer 0 (unat m) = Inr text"
proof -
  have "unat (of_nat (length text) :: u32) = length text" using assms by (intro unat_of_nat_small) simp
  then show ?thesis using assms(1) by (simp add: snprintf_def range_r_def)
qed

end
