(* ===== verification/Progress.thy ===== *)
theory Progress
  imports Printed_Text
begin

text \<open>
  The leader's view of one follower: \<^verbatim>\<open>InFlights\<close> and \<^verbatim>\<open>Progress\<close> of \<^verbatim>\<open>raft/progress.h\<close> and
  \<^verbatim>\<open>raft/progress.cpp\<close>. \<^verbatim>\<open>InFlights\<close> is a ring buffer of 32-bit positions over a growing vector;
  it is shown to implement a bounded queue of indexes, the locale \<open>flow_window\<close>. The second part
  has the flow-control state machine of \<^verbatim>\<open>Progress\<close> and its invariant.
\<close>

section \<open>InFlights\<close>

record InFlights =
  inf_start :: u32
  inf_count :: u32
  inf_size :: u32
  inf_buffer :: "u64 list"

definition InFlights_new :: "u64 \<Rightarrow> InFlights" where
  "InFlights_new max_inflight_msgs =
     \<lparr>inf_start = 0, inf_count = 0, inf_size = ucast max_inflight_msgs, inf_buffer = []\<rparr>"

definition inf_reset :: "InFlights \<Rightarrow> InFlights" where
  "inf_reset f = f\<lparr>inf_start := 0, inf_count := 0\<rparr>"

definition inf_is_full :: "InFlights \<Rightarrow> bool" where
  "inf_is_full f \<longleftrightarrow> inf_size f = inf_count f"

text \<open>\<^verbatim>\<open>buffer.resize(n)\<close>: cut, or filled up with zeros.\<close>

definition vec_resize :: "nat \<Rightarrow> u64 list \<Rightarrow> u64 list" where
  "vec_resize n xs = take n xs @ replicate (n - length xs) 0"

definition inf_add :: "u64 \<Rightarrow> InFlights \<Rightarrow> fault + InFlights" where
  "inf_add inflight f =
     (if inf_is_full f then Inl (Fatal ''cannot add into a full inflights'')
      else
        let next0 = ucast (inf_start f + inf_count f) :: u64;
            next = (if next0 \<ge> ucast (inf_size f) then next0 - ucast (inf_size f) else next0);
            buf = (if unat next \<ge> length (inf_buffer f)
                   then let n0 = of_nat (length (inf_buffer f) * 2) :: u32;
                            new_size = (if n0 = 0 then 1 else if n0 > inf_size f then inf_size f else n0)
                        in vec_resize (unat new_size) (inf_buffer f)
                   else inf_buffer f)
        in if unat next < length buf
           then Inr (f\<lparr>inf_buffer := buf[unat next := inflight], inf_count := inf_count f + 1\<rparr>)
           else Inl (Undefined ''vector index''))"

text \<open>
  The loop of \<^verbatim>\<open>free_to\<close>: \<open>n\<close> iterations are left, \<open>idx\<close> is the ring position and \<open>i\<close> the number
  of entries passed.
\<close>

primrec inf_free_loop :: "u64 \<Rightarrow> u32 \<Rightarrow> u64 list \<Rightarrow> nat \<Rightarrow> u32 \<Rightarrow> nat \<Rightarrow> fault + (u32 \<times> nat)" where
  "inf_free_loop to sz buf 0 idx i = Inr (idx, i)"
| "inf_free_loop to sz buf (Suc n) idx i =
     bind_r (nth_r buf (unat idx)) (\<lambda>b.
     if to < b then Inr (idx, i)
     else let idx1 = idx + 1; idx2 = (if idx1 \<ge> sz then idx1 - sz else idx1)
          in inf_free_loop to sz buf n idx2 (Suc i))"

definition inf_free_to :: "u64 \<Rightarrow> InFlights \<Rightarrow> fault + InFlights" where
  "inf_free_to to f =
     (if inf_count f = 0 then Inr f
      else bind_r (nth_r (inf_buffer f) (unat (inf_start f))) (\<lambda>b0.
        if to < b0 then Inr f
        else bind_r (inf_free_loop to (inf_size f) (inf_buffer f) (unat (inf_count f)) (inf_start f) 0) (\<lambda>(idx, i).
          let count = inf_count f - of_nat i
          in Inr (f\<lparr>inf_count := count, inf_start := (if count = 0 then 0 else idx)\<rparr>))))"

definition inf_free_first_one :: "InFlights \<Rightarrow> fault + InFlights" where
  "inf_free_first_one f = bind_r (nth_r (inf_buffer f) (unat (inf_start f))) (\<lambda>b. inf_free_to b f)"

section \<open>Progress\<close>

datatype ProgressState = ProgressStateProbe | ProgressStateReplicate | ProgressStateSnapshot

record Progress =
  pr_match :: u64
  pr_next :: u64
  pr_state :: ProgressState
  pr_paused :: bool
  pr_pending_snapshot :: u64
  pr_recent_active :: bool
  pr_inflights :: InFlights
  pr_is_learner :: bool

definition Progress_new :: "u64 \<Rightarrow> Progress" where
  "Progress_new max_inflight =
     \<lparr>pr_match = 0, pr_next = 0, pr_state = ProgressStateProbe, pr_paused = False,
      pr_pending_snapshot = 0, pr_recent_active = False, pr_inflights = InFlights_new max_inflight,
      pr_is_learner = False\<rparr>"

definition reset_state :: "ProgressState \<Rightarrow> Progress \<Rightarrow> Progress" where
  "reset_state st p =
     p\<lparr>pr_paused := False, pr_pending_snapshot := 0, pr_state := st, pr_inflights := inf_reset (pr_inflights p)\<rparr>"

definition become_replicate :: "Progress \<Rightarrow> Progress" where
  "become_replicate p = (reset_state ProgressStateReplicate p)\<lparr>pr_next := pr_match p + 1\<rparr>"

definition become_probe :: "Progress \<Rightarrow> Progress" where
  "become_probe p =
     (if pr_state p = ProgressStateSnapshot
      then (reset_state ProgressStateProbe p)\<lparr>pr_next := max (pr_match p + 1) (pr_pending_snapshot p + 1)\<rparr>
      else (reset_state ProgressStateProbe p)\<lparr>pr_next := pr_match p + 1\<rparr>)"

definition become_snapshot :: "u64 \<Rightarrow> Progress \<Rightarrow> Progress" where
  "become_snapshot snapshoti p =
     (reset_state ProgressStateSnapshot p)\<lparr>pr_pending_snapshot := snapshoti\<rparr>"

definition is_paused :: "Progress \<Rightarrow> bool" where
  "is_paused p = (case pr_state p of
       ProgressStateProbe \<Rightarrow> pr_paused p
     | ProgressStateReplicate \<Rightarrow> inf_is_full (pr_inflights p)
     | ProgressStateSnapshot \<Rightarrow> True)"

text \<open>What \<^verbatim>\<open>string\<close> prints, and the string it makes of its array.\<close>

primrec progress_state_to_string :: "ProgressState \<Rightarrow> string" where
  "progress_state_to_string ProgressStateProbe = ''ProgressStateProbe''"
| "progress_state_to_string ProgressStateReplicate = ''ProgressStateReplicate''"
| "progress_state_to_string ProgressStateSnapshot = ''ProgressStateSnapshot''"

definition progress_text :: "Progress \<Rightarrow> bytes" where
  "progress_text pr =
     bytes_of_string ''next = '' @ decimal (unat (pr_next pr)) @
     bytes_of_string '', match = '' @ decimal (unat (pr_match pr)) @
     bytes_of_string '', state = '' @ bytes_of_string (progress_state_to_string (pr_state pr)) @
     bytes_of_string '', waiting = '' @ decimal (if is_paused pr then 1 else 0) @
     bytes_of_string '', pendingSnapshot = '' @ decimal (unat (pr_pending_snapshot pr))"

definition Progress_string :: "Progress \<Rightarrow> fault + bytes" where
  "Progress_string pr = (case snprintf 256 (progress_text pr) of (buffer, n) \<Rightarrow> range_r buffer 0 (unat n))"

text \<open>The text always fits the array of 256 bytes.\<close>

lemma Progress_string_fits: "Progress_string pr = Inr (progress_text pr) \<and> length (progress_text pr) \<le> 143"
proof -
  have "length (decimal (if is_paused pr then 1 else 0)) = 1" by (subst decimal.simps) simp
  moreover have "length (progress_state_to_string (pr_state pr)) \<le> 22" by (cases "pr_state pr") simp_all
  ultimately have "length (progress_text pr) \<le> 143"
    using length_decimal_u64 [of "pr_next pr"] length_decimal_u64 [of "pr_match pr"] length_decimal_u64 [of "pr_pending_snapshot pr"]
    by (simp add: progress_text_def bytes_of_string_def)
  then show ?thesis using snprintf_fits [of "progress_text pr" 256] by (auto simp: Progress_string_def split: prod.splits)
qed

definition set_pause :: "Progress \<Rightarrow> Progress" where
  "set_pause p = p\<lparr>pr_paused := True\<rparr>"

definition resume :: "Progress \<Rightarrow> Progress" where
  "resume p = p\<lparr>pr_paused := False\<rparr>"

definition maybe_update :: "u64 \<Rightarrow> Progress \<Rightarrow> bool \<times> Progress" where
  "maybe_update n p =
     (let updated = pr_match p < n;
          p1 = (if updated then resume (p\<lparr>pr_match := n\<rparr>) else p);
          p2 = (if pr_next p1 < n + 1 then p1\<lparr>pr_next := n + 1\<rparr> else p1)
      in (updated, p2))"

definition optimistic_update :: "u64 \<Rightarrow> Progress \<Rightarrow> Progress" where
  "optimistic_update n p = p\<lparr>pr_next := n + 1\<rparr>"

definition maybe_decreases_to :: "u64 \<Rightarrow> u64 \<Rightarrow> Progress \<Rightarrow> bool \<times> Progress" where
  "maybe_decreases_to rejected last_idx p =
     (if pr_state p = ProgressStateReplicate
      then if rejected \<le> pr_match p then (False, p)
           else (True, p\<lparr>pr_next := pr_match p + 1\<rparr>)
      else if pr_next p - 1 \<noteq> rejected then (False, p)
      else
        let next = min rejected (last_idx + 1);
            next' = (if next < 1 then 1 else next)
        in (True, resume (p\<lparr>pr_next := next'\<rparr>)))"

definition need_snapshot_abort :: "Progress \<Rightarrow> bool" where
  "need_snapshot_abort p \<longleftrightarrow> pr_state p = ProgressStateSnapshot \<and> pr_match p \<ge> pr_pending_snapshot p"

definition snapshot_failure :: "Progress \<Rightarrow> Progress" where
  "snapshot_failure p = p\<lparr>pr_pending_snapshot := 0\<rparr>"

section \<open>The contract of the window\<close>

text \<open>
  What the sender relies on: a first-in first-out queue of indexes with a fixed capacity. The
  laws say what each operation does to the queue; the lemmas below are about every such window.
\<close>

locale flow_window =
  fixes invar :: "'f \<Rightarrow> bool" and window :: "'f \<Rightarrow> u64 list" and capacity :: "'f \<Rightarrow> nat"
    and add :: "u64 \<Rightarrow> 'f \<Rightarrow> fault + 'f" and free_to :: "u64 \<Rightarrow> 'f \<Rightarrow> fault + 'f"
    and free_first_one :: "'f \<Rightarrow> fault + 'f" and full :: "'f \<Rightarrow> bool" and reset :: "'f \<Rightarrow> 'f"
  assumes window_capacity: "invar f \<Longrightarrow> length (window f) \<le> capacity f"
    and full_window: "invar f \<Longrightarrow> full f \<longleftrightarrow> length (window f) = capacity f"
    and add_law: "invar f \<Longrightarrow> \<not> full f \<Longrightarrow>
      \<exists>f'. add x f = Inr f' \<and> invar f' \<and> window f' = window f @ [x] \<and> capacity f' = capacity f"
    and add_full: "full f \<Longrightarrow> add x f = Inl (Fatal ''cannot add into a full inflights'')"
    and free_law: "invar f \<Longrightarrow>
      \<exists>f'. free_to x f = Inr f' \<and> invar f' \<and> window f' = dropWhile (\<lambda>y. y \<le> x) (window f) \<and>
           capacity f' = capacity f"
    and free_first_law: "invar f \<Longrightarrow> window f \<noteq> [] \<Longrightarrow>
      \<exists>f'. free_first_one f = Inr f' \<and> invar f' \<and> capacity f' = capacity f \<and>
           window f' = dropWhile (\<lambda>y. y \<le> hd (window f)) (window f)"
    and reset_law: "invar f \<Longrightarrow> invar (reset f) \<and> window (reset f) = [] \<and> capacity (reset f) = capacity f"
begin

text \<open>Acknowledging an index at or above everything in flight empties the window.\<close>

lemma free_all:
  assumes "invar f" and "\<forall>y \<in> set (window f). y \<le> x"
  obtains f' where "free_to x f = Inr f'" and "invar f'" and "window f' = []"
  using free_law [OF assms(1), of x] assms(2) by (auto simp: dropWhile_eq_Nil_conv)

text \<open>A full window accepts again after its first entry is freed.\<close>

lemma free_first_room:
  assumes "invar f" and "full f" and "0 < capacity f"
  obtains f' where "free_first_one f = Inr f'" and "invar f'" and "\<not> full f'"
proof -
  have len: "length (window f) = capacity f" using full_window assms(1,2) by blast
  then have ne: "window f \<noteq> []" using assms(3) by auto
  then obtain f' where f': "free_first_one f = Inr f'" "invar f'" "capacity f' = capacity f"
    "window f' = dropWhile (\<lambda>y. y \<le> hd (window f)) (window f)"
    using free_first_law [OF assms(1)] by blast
  obtain y ys where w: "window f = y # ys" using ne by (cases "window f") auto
  have "length (dropWhile (\<lambda>y. y \<le> hd (window f)) (window f)) \<le> length ys"
    unfolding w using length_dropWhile_le [of "\<lambda>z. z \<le> y" ys] by simp
  then have "length (window f') < capacity f'" using f'(3,4) w len by simp
  then have "\<not> full f'" using full_window [OF f'(2)] by simp
  with f' show ?thesis by (intro that) auto
qed

text \<open>After a reset, \<open>capacity\<close> many indexes can be added, and one more cannot.\<close>

lemma adds_until_full:
  assumes "invar f" and "length (window f) + length xs = capacity f"
  obtains f' where "loop_r add xs f = Inr f'" and "invar f'" and "window f' = window f @ xs" and "full f'"
  using assms
proof (induction xs arbitrary: f thesis)
  case Nil
  then show ?case using full_window by auto
next
  case (Cons x xs)
  then have "\<not> full f" using full_window by auto
  then obtain g where g: "add x f = Inr g" "invar g" "window g = window f @ [x]" "capacity g = capacity f"
    using add_law [OF Cons.prems(2)] by blast
  obtain f' where "loop_r add xs g = Inr f'" "invar f'" "window f' = window g @ xs" "full f'"
    using Cons.IH [of g] g Cons.prems(3) by auto
  with g show ?case by (intro Cons.prems(1)) auto
qed

end

section \<open>The ring buffer is such a window\<close>

definition ring_pos :: "InFlights \<Rightarrow> nat \<Rightarrow> nat" where
  "ring_pos f i = (unat (inf_start f) + i) mod unat (inf_size f)"

definition inf_window :: "InFlights \<Rightarrow> u64 list" where
  "inf_window f = map (\<lambda>i. inf_buffer f ! ring_pos f i) [0..<unat (inf_count f)]"

definition inf_capacity :: "InFlights \<Rightarrow> nat" where
  "inf_capacity f = unat (inf_size f)"

text \<open>
  The vector is shorter than the ring only while the window has not wrapped. The bound on the
  size keeps \<^verbatim>\<open>start + count\<close> and \<^verbatim>\<open>buffer.size() * 2\<close> inside 32 bits.
\<close>

definition inf_inv :: "InFlights \<Rightarrow> bool" where
  "inf_inv f \<longleftrightarrow> unat (inf_size f) \<le> 2 ^ 31 \<and> unat (inf_count f) \<le> unat (inf_size f) \<and>
     length (inf_buffer f) \<le> unat (inf_size f) \<and>
     (unat (inf_start f) < unat (inf_size f) \<or> inf_start f = 0) \<and>
     (unat (inf_start f) + unat (inf_count f) \<le> length (inf_buffer f) \<or>
      length (inf_buffer f) = unat (inf_size f))"

lemma inf_invD:
  assumes "inf_inv f"
  shows "unat (inf_size f) \<le> 2147483648" and "unat (inf_count f) \<le> unat (inf_size f)"
    and "length (inf_buffer f) \<le> unat (inf_size f)"
    and "0 < unat (inf_size f) \<Longrightarrow> unat (inf_start f) < unat (inf_size f)"
    and "unat (inf_start f) + unat (inf_count f) \<le> length (inf_buffer f) \<or>
      length (inf_buffer f) = unat (inf_size f)"
  using assms by (auto simp: inf_inv_def)

lemma length_inf_window [simp]: "length (inf_window f) = unat (inf_count f)"
  by (simp add: inf_window_def)

lemma inf_window_nth: "i < unat (inf_count f) \<Longrightarrow> inf_window f ! i = inf_buffer f ! ring_pos f i"
  by (simp add: inf_window_def)

lemma ring_pos_bound:
  "inf_inv f \<Longrightarrow> i < unat (inf_count f) \<Longrightarrow> ring_pos f i < length (inf_buffer f)"
proof -
  assume f: "inf_inv f" and i: "i < unat (inf_count f)"
  note D = inf_invD [OF f]
  have pos: "0 < unat (inf_size f)" using i D(2) by simp
  from D(5) show ?thesis
  proof
    assume a: "unat (inf_start f) + unat (inf_count f) \<le> length (inf_buffer f)"
    then have "unat (inf_start f) + i < unat (inf_size f)" using i D(3) by simp
    with a i show ?thesis by (simp add: ring_pos_def)
  next
    assume "length (inf_buffer f) = unat (inf_size f)"
    with pos show ?thesis by (simp add: ring_pos_def)
  qed
qed

lemma unat_ucast32 [simp]: "unat (ucast (x :: u32) :: u64) = unat x"
  using unat_lt32 [of x] by (simp add: unsigned_ucast_eq take_bit_eq_mod)

lemma mod_once: "a < 2 * n \<Longrightarrow> a mod n = (if n \<le> (a::nat) then a - n else a)"
  by (auto simp: le_mod_geq not_le)

text \<open>\<^verbatim>\<open>next\<close> of \<^verbatim>\<open>add\<close> is the ring position after the window.\<close>

lemma inf_next_pos:
  fixes f :: InFlights
  defines "n0 \<equiv> ucast (inf_start f + inf_count f) :: u64"
  assumes f: "inf_inv f" and nf: "unat (inf_count f) < unat (inf_size f)"
  shows "unat (if n0 \<ge> ucast (inf_size f) then n0 - ucast (inf_size f) else n0) = ring_pos f (unat (inf_count f))"
proof -
  note D = inf_invD [OF f]
  have s: "unat (inf_start f) < unat (inf_size f)" using D(4) nf by simp
  have "unat (inf_start f + inf_count f) = unat (inf_start f) + unat (inf_count f)"
    using s nf D(1) by (subst unat_add_small) simp_all
  then have n0: "unat n0 = unat (inf_start f) + unat (inf_count f)" by (simp add: n0_def)
  show ?thesis
    using n0 s nf by (simp add: ring_pos_def mod_once word_le_nat_alt unat_sub_le)
qed

text \<open>The vector \<^verbatim>\<open>add\<close> writes to, given the position it writes.\<close>

definition inf_grown :: "nat \<Rightarrow> InFlights \<Rightarrow> u64 list" where
  "inf_grown p f =
     (if p \<ge> length (inf_buffer f)
      then let n0 = of_nat (length (inf_buffer f) * 2) :: u32;
               new_size = (if n0 = 0 then 1 else if n0 > inf_size f then inf_size f else n0)
           in vec_resize (unat new_size) (inf_buffer f)
      else inf_buffer f)"

lemma ring_pos_next:
  assumes f: "inf_inv f" and nf: "unat (inf_count f) < unat (inf_size f)"
  shows "ring_pos f (unat (inf_count f)) < unat (inf_size f)"
    and "length (inf_buffer f) \<le> ring_pos f (unat (inf_count f)) \<Longrightarrow>
      unat (inf_start f) + unat (inf_count f) = length (inf_buffer f) \<and>
      ring_pos f (unat (inf_count f)) = length (inf_buffer f)"
    and "i < unat (inf_count f) \<Longrightarrow> ring_pos f i \<noteq> ring_pos f (unat (inf_count f))"
proof -
  note D = inf_invD [OF f]
  have s: "unat (inf_start f) < unat (inf_size f)" using D(4) nf by simp
  show lt: "ring_pos f (unat (inf_count f)) < unat (inf_size f)"
    using s by (simp add: ring_pos_def)
  show "length (inf_buffer f) \<le> ring_pos f (unat (inf_count f)) \<Longrightarrow>
      unat (inf_start f) + unat (inf_count f) = length (inf_buffer f) \<and>
      ring_pos f (unat (inf_count f)) = length (inf_buffer f)"
    using lt D(3,5) s nf by (auto simp: ring_pos_def mod_once split: if_splits)
  show "i < unat (inf_count f) \<Longrightarrow> ring_pos f i \<noteq> ring_pos f (unat (inf_count f))"
    using s nf by (auto simp: ring_pos_def mod_once)
qed

lemma unat_doubled:
  fixes n :: nat and sz :: u32
  assumes "n < unat sz" and "unat sz \<le> 2147483648"
  shows "unat (let n0 = of_nat (n * 2) :: u32
     in if n0 = 0 then 1 else if n0 > sz then sz else n0) = (if n = 0 then 1 else min (2 * n) (unat sz))"
proof -
  have u: "unat (of_nat (n * 2) :: u32) = n * 2" using assms by (intro unat_of_nat_small) simp
  then have z: "(of_nat (n * 2) :: u32) = 0 \<longleftrightarrow> n = 0" by (simp only: word_unat_eq_iff) simp
  show ?thesis
    unfolding Let_def z using u by (simp add: word_less_nat_alt del: of_nat_mult)
qed

lemma inf_grown_eq:
  assumes f: "inf_inv f" and nf: "unat (inf_count f) < unat (inf_size f)"
  defines "p \<equiv> ring_pos f (unat (inf_count f))"
  shows "p < length (inf_grown p f)" and "length (inf_grown p f) \<le> unat (inf_size f)"
    and "j < length (inf_buffer f) \<Longrightarrow> inf_grown p f ! j = inf_buffer f ! j"
    and "unat (inf_start f) + unat (inf_count f) + 1 \<le> length (inf_grown p f) \<or>
      length (inf_grown p f) = unat (inf_size f)"
proof -
  note D = inf_invD [OF f] and R = ring_pos_next [OF f nf]
  let ?len = "length (inf_buffer f)"
  have "p < length (inf_grown p f) \<and> length (inf_grown p f) \<le> unat (inf_size f) \<and>
    (\<forall>j < ?len. inf_grown p f ! j = inf_buffer f ! j) \<and>
    (unat (inf_start f) + unat (inf_count f) + 1 \<le> length (inf_grown p f) \<or>
      length (inf_grown p f) = unat (inf_size f))"
  proof (cases "?len \<le> p")
    case False
    then have "inf_grown p f = inf_buffer f" by (simp add: inf_grown_def)
    moreover have "unat (inf_start f) + unat (inf_count f) + 1 \<le> ?len \<or> ?len = unat (inf_size f)"
      using False D(3,4,5) nf by (auto simp: p_def ring_pos_def mod_once split: if_splits)
    ultimately show ?thesis using False D(3) by simp
  next
    case True
    then have p: "p = ?len" "unat (inf_start f) + unat (inf_count f) = ?len" using R(2) by (simp_all add: p_def)
    have lt: "?len < unat (inf_size f)" using R(1) p(1) by (simp add: p_def)
    have "inf_grown p f = vec_resize (if ?len = 0 then 1 else min (2 * ?len) (unat (inf_size f))) (inf_buffer f)"
      using True unat_doubled [OF lt D(1)] by (simp add: inf_grown_def Let_def)
    moreover have "?len < (if ?len = 0 then 1 else min (2 * ?len) (unat (inf_size f)))" using lt by simp
    moreover have "(if ?len = 0 then 1 else min (2 * ?len) (unat (inf_size f))) \<le> unat (inf_size f)"
      using lt by simp
    ultimately show ?thesis using p by (simp add: vec_resize_def nth_append)
  qed
  then show "p < length (inf_grown p f)" and "length (inf_grown p f) \<le> unat (inf_size f)"
    and "j < length (inf_buffer f) \<Longrightarrow> inf_grown p f ! j = inf_buffer f ! j"
    and "unat (inf_start f) + unat (inf_count f) + 1 \<le> length (inf_grown p f) \<or>
      length (inf_grown p f) = unat (inf_size f)"
    by auto
qed

lemma inf_add_unfold:
  assumes f: "inf_inv f" and nf: "unat (inf_count f) < unat (inf_size f)"
  shows "inf_add x f = (let p = ring_pos f (unat (inf_count f)) in
     Inr (f\<lparr>inf_buffer := (inf_grown p f)[p := x], inf_count := inf_count f + 1\<rparr>))"
proof -
  have "\<not> inf_is_full f" using nf by (auto simp: inf_is_full_def)
  then show ?thesis
    using inf_next_pos [OF f nf] inf_grown_eq(1) [OF f nf]
    by (simp add: inf_add_def inf_grown_def Let_def)
qed

lemma not_full: "inf_inv f \<Longrightarrow> \<not> inf_is_full f \<longleftrightarrow> unat (inf_count f) < unat (inf_size f)"
  using inf_invD(2) [of f] by (auto simp: inf_is_full_def word_unat_eq_iff)

lemma inf_add_eq:
  assumes f: "inf_inv f" and nf: "\<not> inf_is_full f"
  obtains f' where "inf_add x f = Inr f'" and "inf_inv f'" and "inf_window f' = inf_window f @ [x]"
    and "inf_size f' = inf_size f" and "unat (inf_count f') = Suc (unat (inf_count f))"
proof -
  have lt: "unat (inf_count f) < unat (inf_size f)" using not_full [OF f] nf by simp
  note D = inf_invD [OF f] and R = ring_pos_next [OF f lt] and G = inf_grown_eq [OF f lt]
  let ?p = "ring_pos f (unat (inf_count f))"
  let ?f = "f\<lparr>inf_buffer := (inf_grown ?p f)[?p := x], inf_count := inf_count f + 1\<rparr>"
  have c: "unat (inf_count f + 1) = Suc (unat (inf_count f))"
    using lt D(1) by (subst unat_add_small) simp_all
  have rp: "ring_pos ?f i = ring_pos f i" for i by (simp add: ring_pos_def)
  have inv: "inf_inv ?f" using f G(2,4) c lt by (simp add: inf_inv_def)
  have "inf_window ?f = inf_window f @ [x]"
  proof (rule nth_equalityI)
    show "length (inf_window ?f) = length (inf_window f @ [x])" using c by simp
  next
    fix i assume "i < length (inf_window ?f)"
    then have i: "i < Suc (unat (inf_count f))" using c by simp
    show "inf_window ?f ! i = (inf_window f @ [x]) ! i"
    proof (cases "i < unat (inf_count f)")
      case True
      have "inf_window ?f ! i = (inf_grown ?p f)[?p := x] ! ring_pos f i"
        using i c rp by (simp add: inf_window_nth)
      also have "\<dots> = inf_buffer f ! ring_pos f i" using R(3) [OF True] G(3) ring_pos_bound [OF f True] by simp
      finally show ?thesis using True by (simp add: nth_append inf_window_nth)
    next
      case False
      then have "i = unat (inf_count f)" using i by simp
      then show ?thesis using c rp G(1) by (simp add: nth_append inf_window_nth)
    qed
  qed
  moreover have "inf_add x f = Inr ?f" using inf_add_unfold [OF f lt] by (simp add: Let_def)
  ultimately show ?thesis using inv c by (intro that [of ?f]) simp_all
qed

text \<open>The loop of \<^verbatim>\<open>free_to\<close> walks the window from its \<open>i\<close>-th entry on.\<close>

lemma ring_pos_step:
  assumes f: "inf_inv f" and pos: "0 < unat (inf_size f)" and idx: "unat idx = ring_pos f i"
  shows "unat (if idx + 1 \<ge> inf_size f then idx + 1 - inf_size f else idx + 1) = ring_pos f (Suc i)"
proof -
  have lt: "unat idx < unat (inf_size f)" using idx pos by (simp add: ring_pos_def)
  then have "unat (idx + 1) = unat idx + 1" using inf_invD(1) [OF f] by (subst unat_add_small) simp_all
  moreover have "ring_pos f (Suc i) = (unat idx + 1) mod unat (inf_size f)"
    using idx by (simp add: ring_pos_def mod_Suc_eq)
  ultimately show ?thesis
    using lt pos by (simp add: mod_once word_le_nat_alt unat_sub_le)
qed

lemma inf_free_loop_eq:
  assumes f: "inf_inv f" and "i + n = unat (inf_count f)" and "unat idx = ring_pos f i"
  shows "\<exists>idx'. inf_free_loop to (inf_size f) (inf_buffer f) n idx i =
       Inr (idx', i + length (takeWhile (\<lambda>y. y \<le> to) (drop i (inf_window f)))) \<and>
     unat idx' = ring_pos f (i + length (takeWhile (\<lambda>y. y \<le> to) (drop i (inf_window f))))"
  using assms(2,3)
proof (induction n arbitrary: i idx)
  case 0
  then show ?case by simp
next
  case (Suc n)
  then have i: "i < unat (inf_count f)" by simp
  have pos: "0 < unat (inf_size f)" using i inf_invD(2) [OF f] by simp
  have b: "nth_r (inf_buffer f) (unat idx) = Inr (inf_window f ! i)"
    using ring_pos_bound [OF f i] Suc.prems(2) i by (simp add: inf_window_nth)
  have d: "drop i (inf_window f) = inf_window f ! i # drop (Suc i) (inf_window f)"
    using i by (simp add: Cons_nth_drop_Suc)
  show ?case
  proof (cases "to < inf_window f ! i")
    case True
    then show ?thesis using b d Suc.prems(2) by simp
  next
    case False
    then show ?thesis
      using Suc.IH [of "Suc i", OF _ ring_pos_step [OF f pos Suc.prems(2)]] Suc.prems(1) b d
      by (simp add: Let_def not_less)
  qed
qed

text \<open>Dropping \<open>k\<close> entries from the front of the ring.\<close>

lemma inf_drop:
  assumes f: "inf_inv f" and k: "k \<le> unat (inf_count f)" and idx: "unat idx = ring_pos f k"
    and pos: "0 < unat (inf_count f)"
  defines "c \<equiv> inf_count f - of_nat k"
  defines "g \<equiv> f\<lparr>inf_count := c, inf_start := (if c = 0 then 0 else idx)\<rparr>"
  shows "inf_inv g" and "inf_window g = drop k (inf_window f)"
proof -
  note D = inf_invD [OF f]
  have sz: "0 < unat (inf_size f)" using pos D(2) by simp
  have "unat (of_nat k :: u32) = k" using k D(1,2) by (intro unat_of_nat_small) simp
  then have c: "unat c = unat (inf_count f) - k" using k by (simp add: c_def unat_sub_le)
  have c0: "c = 0 \<longleftrightarrow> k = unat (inf_count f)" using c k by (auto simp: word_unat_eq_iff)
  show "inf_inv g"
  proof (cases "c = 0")
    case True
    then show ?thesis using f by (simp add: inf_inv_def g_def)
  next
    case False
    then have lt: "k < unat (inf_count f)" using c0 k by simp
    have "unat idx < unat (inf_size f)" using idx sz by (simp add: ring_pos_def)
    moreover have "unat idx + unat c \<le> length (inf_buffer f) \<or> length (inf_buffer f) = unat (inf_size f)"
      using D(3,5) lt c idx by (auto simp: ring_pos_def)
    moreover have "unat c \<le> unat (inf_size f)" using c D(2) by simp
    ultimately show ?thesis using f False by (simp add: inf_inv_def g_def)
  qed
  have rp: "ring_pos g i = ring_pos f (k + i)" if "c \<noteq> 0" for i
    using that idx by (simp add: ring_pos_def g_def mod_add_left_eq add.assoc)
  have buf: "inf_buffer g = inf_buffer f" "inf_count g = c" by (simp_all add: g_def)
  show "inf_window g = drop k (inf_window f)"
  proof (rule nth_equalityI)
    show "length (inf_window g) = length (drop k (inf_window f))" using c by (simp add: g_def)
    fix i assume "i < length (inf_window g)"
    then have i: "i < unat c" by (simp add: buf)
    then have "c \<noteq> 0" by auto
    moreover have "k + i < unat (inf_count f)" using i c by simp
    ultimately show "inf_window g ! i = drop k (inf_window f) ! i"
      using i rp by (simp add: inf_window_nth buf)
  qed
qed

lemma dropWhile_takeWhile_drop: "dropWhile P xs = drop (length (takeWhile P xs)) xs"
  by (rule dropWhile_eq_drop)

lemma inf_free_to_eq:
  assumes f: "inf_inv f"
  obtains f' where "inf_free_to to f = Inr f'" and "inf_inv f'"
    and "inf_window f' = dropWhile (\<lambda>y. y \<le> to) (inf_window f)" and "inf_size f' = inf_size f"
proof (cases "unat (inf_count f) = 0")
  case True
  then have "inf_count f = 0" by (simp add: word_unat_eq_iff)
  then show ?thesis using f by (intro that [of f]) (simp_all add: inf_free_to_def inf_window_def)
next
  case False
  then have pos: "0 < unat (inf_count f)" and ne: "inf_count f \<noteq> 0" by auto
  have st: "unat (inf_start f) = ring_pos f 0"
    using inf_invD(2,4) [OF f] pos by (simp add: ring_pos_def)
  have b: "nth_r (inf_buffer f) (unat (inf_start f)) = Inr (inf_window f ! 0)"
    using ring_pos_bound [OF f pos] st pos by (simp add: inf_window_nth)
  obtain ws where w: "inf_window f = inf_window f ! 0 # ws"
    using pos length_inf_window [of f] by (cases "inf_window f") auto
  let ?k = "length (takeWhile (\<lambda>y. y \<le> to) (inf_window f))"
  show ?thesis
  proof (cases "to < inf_window f ! 0")
    case True
    have "dropWhile (\<lambda>y. y \<le> to) (inf_window f) = inf_window f" using True by (subst w, subst (2) w) simp
    then show ?thesis using True b ne f by (intro that [of f]) (simp_all add: inf_free_to_def)
  next
    case F: False
    obtain idx where idx: "inf_free_loop to (inf_size f) (inf_buffer f) (unat (inf_count f)) (inf_start f) 0 = Inr (idx, ?k)"
      "unat idx = ring_pos f ?k"
      using inf_free_loop_eq [OF f _ st, of "unat (inf_count f)" to] by auto
    let ?g = "f\<lparr>inf_count := inf_count f - of_nat ?k, inf_start := (if inf_count f - of_nat ?k = 0 then 0 else idx)\<rparr>"
    have k: "?k \<le> unat (inf_count f)" using length_takeWhile_le [of _ "inf_window f"] by simp
    note G = inf_drop [OF f k idx(2) pos]
    have "inf_free_to to f = Inr ?g" using F b ne idx(1) by (simp add: inf_free_to_def Let_def)
    then show ?thesis
      using G by (intro that [of ?g]) (simp_all add: dropWhile_takeWhile_drop)
  qed
qed

lemma inf_free_first_one_eq:
  assumes f: "inf_inv f" and ne: "inf_window f \<noteq> []"
  shows "inf_free_first_one f = inf_free_to (hd (inf_window f)) f"
proof -
  have pos: "0 < unat (inf_count f)" using ne length_inf_window [of f] by (metis length_greater_0_conv)
  have "unat (inf_start f) = ring_pos f 0"
    using inf_invD(2,4) [OF f] pos by (simp add: ring_pos_def)
  then show ?thesis
    using ring_pos_bound [OF f pos] pos ne by (simp add: inf_free_first_one_def hd_conv_nth inf_window_nth)
qed

interpretation inflights: flow_window inf_inv inf_window inf_capacity inf_add inf_free_to
  inf_free_first_one inf_is_full inf_reset
proof unfold_locales
  fix f :: InFlights and x
  show "inf_is_full f \<Longrightarrow> inf_add x f = Inl (Fatal ''cannot add into a full inflights'')"
    by (simp add: inf_add_def)
  assume f: "inf_inv f"
  show "length (inf_window f) \<le> inf_capacity f" using inf_invD(2) [OF f] by (simp add: inf_capacity_def)
  show "inf_is_full f = (length (inf_window f) = inf_capacity f)"
    by (auto simp: inf_is_full_def inf_capacity_def word_unat_eq_iff)
  show "\<not> inf_is_full f \<Longrightarrow> \<exists>f'. inf_add x f = Inr f' \<and> inf_inv f' \<and> inf_window f' = inf_window f @ [x] \<and>
      inf_capacity f' = inf_capacity f"
    by (rule inf_add_eq [OF f, of x]) (simp_all add: inf_capacity_def)
  show free: "\<exists>f'. inf_free_to x f = Inr f' \<and> inf_inv f' \<and>
      inf_window f' = dropWhile (\<lambda>y. y \<le> x) (inf_window f) \<and> inf_capacity f' = inf_capacity f" for x
    by (rule inf_free_to_eq [OF f, of x]) (simp add: inf_capacity_def)
  show "inf_window f \<noteq> [] \<Longrightarrow> \<exists>f'. inf_free_first_one f = Inr f' \<and> inf_inv f' \<and> inf_capacity f' = inf_capacity f \<and>
      inf_window f' = dropWhile (\<lambda>y. y \<le> hd (inf_window f)) (inf_window f)"
    using free [of "hd (inf_window f)"] inf_free_first_one_eq [OF f] by auto
  show "inf_inv (inf_reset f) \<and> inf_window (inf_reset f) = [] \<and> inf_capacity (inf_reset f) = inf_capacity f"
    using f by (simp add: inf_reset_def inf_inv_def inf_window_def inf_capacity_def)
qed

section \<open>The invariant of a progress\<close>

text \<open>
  What the leader may assume of a follower's progress: the window is well formed, the next
  index to send lies above the highest index known to match, and indexes stay below the top
  of the 64-bit range.
\<close>

definition pr_inv :: "Progress \<Rightarrow> bool" where
  "pr_inv p \<longleftrightarrow> inf_inv (pr_inflights p) \<and> unat (pr_match p) < unat (pr_next p) \<and>
     unat (pr_pending_snapshot p) < 2 ^ 64 - 1"

lemma pr_invD:
  assumes "pr_inv p"
  shows "inf_inv (pr_inflights p)" and "unat (pr_match p) < unat (pr_next p)"
    and "unat (pr_match p) < 18446744073709551615" and "unat (pr_pending_snapshot p) < 18446744073709551615"
    and "unat (pr_match p + 1) = unat (pr_match p) + 1"
  using assms unat_lt64 [of "pr_next p"] by (auto simp: pr_inv_def unat_succ64)

lemma InFlights_new_inv: "unat n \<le> 2 ^ 31 \<Longrightarrow> inf_inv (InFlights_new n)"
  by (simp add: inf_inv_def InFlights_new_def unsigned_ucast_eq take_bit_eq_mod)

lemma reset_state_inv [simp]: "inf_inv (pr_inflights p) \<Longrightarrow> inf_inv (pr_inflights (reset_state s p))"
  by (simp add: reset_state_def inflights.reset_law)

lemma reset_state_sel [simp]:
  "pr_match (reset_state s p) = pr_match p" "pr_state (reset_state s p) = s"
  "pr_pending_snapshot (reset_state s p) = 0" "pr_paused (reset_state s p) = False"
  "pr_next (reset_state s p) = pr_next p" "pr_is_learner (reset_state s p) = pr_is_learner p"
  by (simp_all add: reset_state_def)

lemma become_probe_inv: "pr_inv p \<Longrightarrow> pr_inv (become_probe p)"
  using pr_invD(5) [of p] by (simp add: become_probe_def pr_inv_def less_max_iff_disj)

lemma become_replicate_inv: "pr_inv p \<Longrightarrow> pr_inv (become_replicate p)"
  using pr_invD(5) [of p] by (simp add: become_replicate_def pr_inv_def)

lemma become_snapshot_inv: "pr_inv p \<Longrightarrow> unat i < 2 ^ 64 - 1 \<Longrightarrow> pr_inv (become_snapshot i p)"
  by (simp add: become_snapshot_def pr_inv_def)

lemma resume_inv [simp]: "pr_inv (resume p) = pr_inv p"
  by (simp add: resume_def pr_inv_def)

lemma set_pause_inv [simp]: "pr_inv (set_pause p) = pr_inv p"
  by (simp add: set_pause_def pr_inv_def)

lemma maybe_update_inv:
  assumes "pr_inv p" and "unat n < 2 ^ 64 - 1"
  shows "pr_inv (snd (maybe_update n p))"
proof -
  have "unat (n + 1) = unat n + 1" using assms(2) by (intro unat_succ64) simp
  then show ?thesis
    using assms by (auto simp: maybe_update_def Let_def pr_inv_def resume_def word_less_nat_alt)
qed

lemma optimistic_update_inv:
  "pr_inv p \<Longrightarrow> unat (pr_match p) \<le> unat n \<Longrightarrow> unat n < 2 ^ 64 - 1 \<Longrightarrow> pr_inv (optimistic_update n p)"
  by (simp add: optimistic_update_def pr_inv_def unat_succ64)

text \<open>
  A rejection in the probing states can move \<^verbatim>\<open>next\<close> down to \<^verbatim>\<open>match\<close> only if the follower
  rejects at or below an index it has acknowledged; the hypothesis excludes that.
\<close>

lemma maybe_decreases_to_inv:
  assumes "pr_inv p" and "pr_state p \<noteq> ProgressStateReplicate \<Longrightarrow>
    unat (pr_match p) < unat rejected \<and> unat (pr_match p) \<le> unat last_idx \<and> unat last_idx < 2 ^ 64 - 1"
  shows "pr_inv (snd (maybe_decreases_to rejected last_idx p))"
proof (cases "pr_state p = ProgressStateReplicate")
  case True
  then show ?thesis using pr_invD [OF assms(1)] assms(1) by (simp add: maybe_decreases_to_def pr_inv_def)
next
  case False
  have "unat (last_idx + 1) = unat last_idx + 1" using assms(2) [OF False] by (intro unat_succ64) simp
  then have "unat (pr_match p) < unat (min rejected (last_idx + 1))" using assms(2) [OF False] by simp
  moreover then have "\<not> min rejected (last_idx + 1) < 1" by (simp add: word_less_nat_alt del: unat_min)
  ultimately show ?thesis
    using assms(1) False by (simp add: maybe_decreases_to_def Let_def pr_inv_def resume_def)
qed

section \<open>Properties\<close>

definition inflights_example :: InFlights where
  "inflights_example = \<lparr>inf_start = 2, inf_count = 2, inf_size = 3, inf_buffer = [30, 15, 20]\<rparr>"

lemma inflights_example_inv: "inf_inv inflights_example"
  by (simp add: inflights_example_def inf_inv_def)

lemma inflights_example_window: "inf_window inflights_example = [20, 30]"
  by (simp add: inflights_example_def inf_window_def ring_pos_def upt_rec)

text \<open>
  C24. The ring buffer of \<^verbatim>\<open>InFlights\<close> implements a bounded first-in first-out window: from any
  well-formed state \<^verbatim>\<open>add\<close> appends the index unless the window is at capacity, where it stops;
  \<^verbatim>\<open>free_to\<close> drops exactly the leading indexes that are at most \<^verbatim>\<open>to\<close>; \<^verbatim>\<open>reset\<close> empties it; and
  all of them keep the ring well formed and never read or write outside the vector.
\<close>

theorem inflights_refine_window:
  assumes "inf_inv f"
  shows "(if length (inf_window f) = unat (inf_size f)
      then inf_add x f = Inl (Fatal ''cannot add into a full inflights'')
      else \<exists>f'. inf_add x f = Inr f' \<and> inf_inv f' \<and> inf_size f' = inf_size f \<and> inf_window f' = inf_window f @ [x])
    \<and> (\<exists>f'. inf_free_to to f = Inr f' \<and> inf_inv f' \<and> inf_size f' = inf_size f \<and>
        inf_window f' = dropWhile (\<lambda>y. y \<le> to) (inf_window f))
    \<and> inf_inv (inf_reset f) \<and> inf_window (inf_reset f) = []"
proof -
  have full: "length (inf_window f) = unat (inf_size f) \<longleftrightarrow> inf_is_full f"
    using inflights.full_window [OF assms] by (simp add: inf_capacity_def)
  have "\<exists>f'. inf_add x f = Inr f' \<and> inf_inv f' \<and> inf_size f' = inf_size f \<and> inf_window f' = inf_window f @ [x]"
    if "\<not> inf_is_full f"
    by (rule inf_add_eq [OF assms that, of x]) blast
  moreover have "\<exists>f'. inf_free_to to f = Inr f' \<and> inf_inv f' \<and> inf_size f' = inf_size f \<and>
        inf_window f' = dropWhile (\<lambda>y. y \<le> to) (inf_window f)"
    by (rule inf_free_to_eq [OF assms, of to]) blast
  ultimately show ?thesis
    unfolding full using inflights.add_full inflights.reset_law [OF assms] by simp
qed

theorem inflights_refine_window_witness:
  "(\<exists>f'. inf_add 40 inflights_example = Inr f' \<and> inf_window f' = [20, 30, 40]) \<and>
   (\<exists>f'. inf_free_to 25 inflights_example = Inr f' \<and> inf_window f' = [30])"
proof -
  have "unat (inf_size inflights_example) = 3" by (simp add: inflights_example_def)
  then show ?thesis
    using inflights_refine_window [OF inflights_example_inv, of 40 25] inflights_example_window by auto
qed

text \<open>
  C28. A stalled follower is never stuck: when the window of a replicating follower is full, the
  slot that \<^verbatim>\<open>free_first_one\<close> frees on a heartbeat response unblocks sending.
\<close>

theorem free_first_one_unblocks:
  assumes "inf_inv (pr_inflights p)" and "pr_state p = ProgressStateReplicate" and "is_paused p"
    and "0 < unat (inf_size (pr_inflights p))"
  shows "\<exists>f'. inf_free_first_one (pr_inflights p) = Inr f' \<and> inf_inv f' \<and> \<not> is_paused (p\<lparr>pr_inflights := f'\<rparr>)"
proof -
  have "inf_is_full (pr_inflights p)" using assms(2,3) by (simp add: is_paused_def)
  then obtain f' where "inf_free_first_one (pr_inflights p) = Inr f'" "inf_inv f'" "\<not> inf_is_full f'"
    using inflights.free_first_room [OF assms(1)] assms(4) by (auto simp: inf_capacity_def)
  then show ?thesis using assms(2) by (auto simp: is_paused_def)
qed

theorem free_first_one_unblocks_witness:
  "\<exists>f'. inf_free_first_one \<lparr>inf_start = 0, inf_count = 2, inf_size = 2, inf_buffer = [7, 9]\<rparr> = Inr f' \<and>
     inf_inv f' \<and> \<not> inf_is_full f'"
proof -
  let ?p = "(Progress_new 2)\<lparr>pr_state := ProgressStateReplicate,
    pr_inflights := \<lparr>inf_start = 0, inf_count = 2, inf_size = 2, inf_buffer = [7, 9]\<rparr>\<rparr>"
  have "inf_inv (pr_inflights ?p)" "pr_state ?p = ProgressStateReplicate" "is_paused ?p"
    "0 < unat (inf_size (pr_inflights ?p))"
    by (simp_all add: inf_inv_def is_paused_def inf_is_full_def)
  from free_first_one_unblocks [OF this] show ?thesis by (simp add: is_paused_def)
qed

end
