(* ===== verification/Config.thy ===== *)
theory Config
  imports Storage
begin

text \<open>
  \<^verbatim>\<open>Config\<close> of \<^verbatim>\<open>raft/config.h\<close> and \<^verbatim>\<open>Config::validate\<close> of \<^verbatim>\<open>raft/config.cpp\<close>, which checks the
  parameters in order and fills in two defaults on the way; the defaults it has set before it
  fails stay set, so the result is the pair of the status and the configuration.
\<close>

datatype ReadOnlyOption = ReadOnlySafe | ReadOnlyLeaseBased

record Config =
  c_id :: u64
  c_peers :: "u64 list"
  c_learners :: "u64 list"
  c_election_tick :: u32
  c_heartbeat_tick :: u32
  c_storage :: "MemoryStorage option"
  c_applied :: u64
  c_max_size_per_msg :: u64
  c_max_committed_size_per_ready :: u64
  c_max_uncommitted_entries_size :: u64
  c_max_inflight_msgs :: u64
  c_check_quorum :: bool
  c_pre_vote :: bool
  c_read_only_option :: ReadOnlyOption
  c_disable_proposal_forwarding :: bool

definition Config_default :: Config where
  "Config_default =
     \<lparr>c_id = 0, c_peers = [], c_learners = [], c_election_tick = 0, c_heartbeat_tick = 0,
      c_storage = None, c_applied = 0, c_max_size_per_msg = 0, c_max_committed_size_per_ready = 0,
      c_max_uncommitted_entries_size = 0, c_max_inflight_msgs = 0, c_check_quorum = False,
      c_pre_vote = False, c_read_only_option = ReadOnlySafe, c_disable_proposal_forwarding = False\<rparr>"

definition validate :: "Config \<Rightarrow> Status \<times> Config" where
  "validate c =
     (if c_id c = 0 then (InvalidArgument ''cannot use none as id'', c)
      else if c_heartbeat_tick c \<le> 0
      then (InvalidArgument ''heartbeat tick must be greater than 0'', c)
      else if c_election_tick c \<le> c_heartbeat_tick c
      then (InvalidArgument ''election tick must be greater than heartbeat tick'', c)
      else if c_storage c = None then (InvalidArgument ''storage cannot be nil'', c)
      else
        let c1 = (if c_max_uncommitted_entries_size c = 0
                  then c\<lparr>c_max_uncommitted_entries_size := - 1\<rparr> else c);
            c2 = (if c_max_committed_size_per_ready c1 = 0
                  then c1\<lparr>c_max_committed_size_per_ready := c_max_size_per_msg c1\<rparr> else c1)
        in if c_max_inflight_msgs c2 \<le> 0
           then (InvalidArgument ''max inflight messages must be greater than 0'', c2)
           else if c_read_only_option c2 = ReadOnlyLeaseBased \<and> \<not> c_check_quorum c2
           then (InvalidArgument ''check_quorum must be enabled when read_only_option is ReadOnlyLeaseBased'', c2)
           else (OK, c2))"

text \<open>What the rest of the program relies on in a configuration that passed.\<close>

definition config_ok :: "Config \<Rightarrow> bool" where
  "config_ok c \<longleftrightarrow> c_id c \<noteq> 0 \<and> 0 < unat (c_heartbeat_tick c) \<and>
     unat (c_heartbeat_tick c) < unat (c_election_tick c) \<and> c_storage c \<noteq> None \<and>
     c_max_inflight_msgs c \<noteq> 0 \<and> (c_read_only_option c = ReadOnlyLeaseBased \<longrightarrow> c_check_quorum c)"

text \<open>
  \<^verbatim>\<open>Config::validate\<close> accepts exactly the usable configurations, replaces only the two size
  limits that are left at zero, never changes a configuration it has accepted before, and
  leaves no accepted configuration with a zero limit on uncommitted entries.
\<close>

lemma validate_correct:
  "(fst (validate c) = OK \<longleftrightarrow> config_ok c) \<and>
   (config_ok c \<longrightarrow>
      snd (validate c) =
        c\<lparr>c_max_uncommitted_entries_size :=
            (if c_max_uncommitted_entries_size c = 0 then - 1 else c_max_uncommitted_entries_size c),
          c_max_committed_size_per_ready :=
            (if c_max_committed_size_per_ready c = 0 then c_max_size_per_msg c
             else c_max_committed_size_per_ready c)\<rparr> \<and>
      config_ok (snd (validate c)) \<and> validate (snd (validate c)) = (OK, snd (validate c)) \<and>
      c_max_uncommitted_entries_size (snd (validate c)) \<noteq> 0)"
proof -
  have eq: "(fst (validate c) = OK \<longleftrightarrow> config_ok c)" for c
    by (auto simp: validate_def config_ok_def Let_def word_less_nat_alt word_le_nat_alt word_unat_eq_iff)
  have upd: "snd (validate c) =
        c\<lparr>c_max_uncommitted_entries_size :=
            (if c_max_uncommitted_entries_size c = 0 then - 1 else c_max_uncommitted_entries_size c),
          c_max_committed_size_per_ready :=
            (if c_max_committed_size_per_ready c = 0 then c_max_size_per_msg c
             else c_max_committed_size_per_ready c)\<rparr>" if "config_ok c" for c
    using that
    by (auto simp: validate_def config_ok_def Let_def word_less_nat_alt word_le_nat_alt word_unat_eq_iff)
  have ok: "config_ok (snd (validate c))" if "config_ok c" for c
    using that upd [OF that] by (simp add: config_ok_def)
  have idem: "validate (snd (validate c)) = (OK, snd (validate c))" if "config_ok c" for c
    using eq [of "snd (validate c)"] upd [OF ok [OF that]] ok [OF that] upd [OF that]
    by (intro prod_eqI) simp_all
  show ?thesis using eq upd ok idem by simp
qed

end
