(* ===== verification/Read_Only.thy ===== *)
theory Read_Only
  imports Proto Config
begin

text \<open>
  Pending linearizable reads: \<^verbatim>\<open>ReadState\<close>, \<^verbatim>\<open>ReadIndexStatus\<close> and \<^verbatim>\<open>ReadOnly\<close> of \<^verbatim>\<open>raft/readonly.h\<close>
  and \<^verbatim>\<open>raft/readonly.cpp\<close>. The pending requests are in a map by context and in a queue in the
  order of arrival; the invariant \<open>ro_inv\<close> says that the two hold the same requests.
\<close>

section \<open>State and operations\<close>

record ReadState =
  rst_index :: u64
  rst_request_ctx :: bytes

definition read_state_equal :: "ReadState \<Rightarrow> ReadState \<Rightarrow> bool" where
  "read_state_equal a b \<longleftrightarrow> rst_index a = rst_index b \<and> rst_request_ctx a = rst_request_ctx b"

text \<open>\<^verbatim>\<open>acks\<close> is a \<^verbatim>\<open>std::unordered_set\<close>, kept as a list without repetitions.\<close>

record ReadIndexStatus =
  ri_req :: Message
  ri_index :: u64
  ri_acks :: "u64 list"

record ReadOnly =
  ro_option :: ReadOnlyOption
  ro_pending :: "(bytes, ReadIndexStatus) umap"
  ro_queue :: "bytes list"

definition ReadOnly_new :: "ReadOnlyOption \<Rightarrow> ReadOnly" where
  "ReadOnly_new option = \<lparr>ro_option = option, ro_pending = [], ro_queue = []\<rparr>"

definition last_pending_request_ctx :: "bytes \<Rightarrow> ReadOnly \<Rightarrow> bytes" where
  "last_pending_request_ctx ctx r = (if ro_queue r = [] then ctx else ctx @ last (ro_queue r))"

definition recv_ack :: "Message \<Rightarrow> ReadOnly \<Rightarrow> u32 \<times> ReadOnly" where
  "recv_ack msg r =
     (case map_of (ro_pending r) (m_context msg) of
        None \<Rightarrow> (0, r)
      | Some st \<Rightarrow>
          let st' = st\<lparr>ri_acks := List.insert (m_from msg) (ri_acks st)\<rparr>
          in (of_nat (length (ri_acks st')) + 1,
              r\<lparr>ro_pending := AList.update (m_context msg) st' (ro_pending r)\<rparr>))"

text \<open>The loop of \<^verbatim>\<open>advance\<close> over the queue: the statuses passed and whether \<open>ctx\<close> was found.\<close>

primrec advance_scan ::
  "bytes \<Rightarrow> (bytes, ReadIndexStatus) umap \<Rightarrow> bytes list \<Rightarrow> fault + (ReadIndexStatus list \<times> bool)"
where
  "advance_scan ctx pending [] = Inr ([], False)"
| "advance_scan ctx pending (okctx # q) =
     (case map_of pending okctx of
        None \<Rightarrow> Inl (Fatal ''cannot find corresponding read state from pending map'')
      | Some st \<Rightarrow>
          if okctx = ctx then Inr ([st], True)
          else bind_r (advance_scan ctx pending q) (\<lambda>(rss, found). Inr (st # rss, found)))"

definition erase_read :: "ReadIndexStatus \<Rightarrow> (bytes, ReadIndexStatus) umap \<Rightarrow> fault + (bytes, ReadIndexStatus) umap" where
  "erase_read rs pending =
     bind_r (nth_r (m_entries (ri_req rs)) 0) (\<lambda>e. Inr (AList.delete (e_data e) pending))"

definition advance :: "Message \<Rightarrow> ReadOnly \<Rightarrow> fault + (ReadIndexStatus list \<times> ReadOnly)" where
  "advance msg r =
     bind_r (advance_scan (m_context msg) (ro_pending r) (ro_queue r)) (\<lambda>(rss, found).
     if found
     then bind_r (erase_prefix_r (unat (of_nat (length rss) :: u32)) (ro_queue r)) (\<lambda>q.
          bind_r (loop_r erase_read rss (ro_pending r)) (\<lambda>pending.
          Inr (rss, r\<lparr>ro_queue := q, ro_pending := pending\<rparr>)))
     else Inr (rss, r))"

definition add_request :: "u64 \<Rightarrow> Message \<Rightarrow> ReadOnly \<Rightarrow> fault + ReadOnly" where
  "add_request index msg r =
     bind_r (nth_r (m_entries msg) 0) (\<lambda>e.
     case map_of (ro_pending r) (e_data e) of
       Some _ \<Rightarrow> Inr r
     | None \<Rightarrow>
         let st = \<lparr>ri_req = msg, ri_index = index, ri_acks = []\<rparr>
         in Inr (r\<lparr>ro_pending := AList.update (e_data e) st (ro_pending r),
                   ro_queue := ro_queue r @ [e_data e]\<rparr>))"

section \<open>The invariant\<close>

text \<open>
  The queue has no repetitions and holds the keys of the map, every request is filed under the
  data of its first entry, and the queue fits the 32-bit counter of \<^verbatim>\<open>advance\<close>.
\<close>

definition ro_inv :: "ReadOnly \<Rightarrow> bool" where
  "ro_inv r \<longleftrightarrow> umap_ok (ro_pending r) \<and> distinct (ro_queue r) \<and>
     set (ro_queue r) = dom (map_of (ro_pending r)) \<and> length (ro_queue r) < 2 ^ 32 \<and>
     (\<forall>k st. map_of (ro_pending r) k = Some st \<longrightarrow>
        (\<exists>e es. m_entries (ri_req st) = e # es \<and> e_data e = k) \<and> distinct (ri_acks st))"

lemma ro_invD:
  assumes "ro_inv r"
  shows "umap_ok (ro_pending r)" and "distinct (ro_queue r)"
    and "set (ro_queue r) = dom (map_of (ro_pending r))" and "length (ro_queue r) < 2 ^ 32"
    and "map_of (ro_pending r) k = Some st \<Longrightarrow> \<exists>e es. m_entries (ri_req st) = e # es \<and> e_data e = k"
    and "map_of (ro_pending r) k = Some st \<Longrightarrow> distinct (ri_acks st)"
  using assms by (auto simp: ro_inv_def)

lemma ReadOnly_new_inv: "ro_inv (ReadOnly_new opt)"
  by (simp add: ro_inv_def ReadOnly_new_def umap_ok_def)

lemma recv_ack_inv: "ro_inv r \<Longrightarrow> ro_inv (snd (recv_ack msg r))"
  by (auto simp: recv_ack_def ro_inv_def Let_def umap.invar_update update_conv' split: option.splits if_splits)

lemma add_request_inv:
  assumes "ro_inv r" and "add_request i msg r = Inr r'" and "Suc (length (ro_queue r)) < 2 ^ 32"
  shows "ro_inv r'"
  using assms
  by (cases "m_entries msg")
    (auto simp: add_request_def ro_inv_def Let_def umap.invar_update update_conv' split: option.splits if_splits)

text \<open>The scan stops behind the first queue position that holds the context.\<close>

lemma advance_scan_found:
  assumes "set (pre @ [ctx]) \<subseteq> dom (map_of pending)" and "ctx \<notin> set pre"
  shows "advance_scan ctx pending (pre @ ctx # post) =
     Inr (map (\<lambda>k. the (map_of pending k)) (pre @ [ctx]), True)"
  using assms by (induction pre) (auto simp: dom_def)

lemma erase_reads:
  assumes "\<forall>k \<in> set ks. \<exists>e es. m_entries (ri_req (f k)) = e # es \<and> e_data e = k"
  shows "loop_r erase_read (map f ks) pending = Inr (fold AList.delete ks pending)"
  using assms by (induction ks arbitrary: pending) (auto simp: erase_read_def)

lemma fold_delete:
  "umap_ok pending \<Longrightarrow> umap_ok (fold AList.delete ks pending) \<and>
     map_of (fold AList.delete ks pending) = (map_of pending) |` (- set ks)"
proof (induction ks arbitrary: pending)
  case (Cons k ks)
  then show ?case
    using Cons.IH [OF umap.invar_delete [OF Cons.prems, of k]]
    by (auto simp: umap.lookup_delete fun_eq_iff restrict_map_def)
qed (simp add: restrict_map_def)

lemma advance_found:
  assumes r: "ro_inv r" and q: "ro_queue r = pre @ m_context msg # post"
  obtains r' where "advance msg r = Inr (map (\<lambda>k. the (map_of (ro_pending r) k)) (pre @ [m_context msg]), r')"
    and "ro_inv r'" and "ro_queue r' = post"
    and "map_of (ro_pending r') = map_of (ro_pending r) |` set post"
proof -
  note D = ro_invD [OF r]
  let ?ks = "pre @ [m_context msg]"
  let ?f = "\<lambda>k. the (map_of (ro_pending r) k)"
  let ?r = "r\<lparr>ro_queue := post, ro_pending := fold AList.delete ?ks (ro_pending r)\<rparr>"
  have sub: "set ?ks \<subseteq> dom (map_of (ro_pending r))" using D(3) q by auto
  have "m_context msg \<notin> set pre" using D(2) q by simp
  then have scan: "advance_scan (m_context msg) (ro_pending r) (ro_queue r) = Inr (map ?f ?ks, True)"
    unfolding q by (rule advance_scan_found [OF sub])
  have "unat (of_nat (length ?ks) :: u32) = length ?ks"
    using D(4) q by (intro unat_of_nat_small) simp
  then have er: "erase_prefix_r (unat (of_nat (length (map ?f ?ks)) :: u32)) (ro_queue r) = Inr post"
    using q by simp
  have "\<forall>k \<in> set ?ks. \<exists>e es. m_entries (ri_req (?f k)) = e # es \<and> e_data e = k"
    using sub D(5) by (fastforce simp: dom_def)
  then have del: "loop_r erase_read (map ?f ?ks) (ro_pending r) = Inr (fold AList.delete ?ks (ro_pending r))"
    by (rule erase_reads)
  note F = fold_delete [OF D(1), of ?ks]
  have "- set ?ks \<inter> dom (map_of (ro_pending r)) = set post" using D(2,3) q by auto
  then have m: "map_of (fold AList.delete ?ks (ro_pending r)) = map_of (ro_pending r) |` set post"
    using F by (auto simp: fun_eq_iff restrict_map_def dom_def)
  have dm: "dom (map_of (ro_pending r) |` set post) = set post" using D(3) q by auto
  have e: "\<exists>e es. m_entries (ri_req st) = e # es \<and> e_data e = k" "distinct (ri_acks st)"
    if "(map_of (ro_pending r) |` set post) k = Some st" for k st
    using that D(5,6) [of k st] by (auto simp: restrict_map_def split: if_splits)
  have "ro_inv ?r" unfolding ro_inv_def using D(1,2,4) F m dm e q by simp
  with scan er del m show ?thesis by (intro that [of ?r]) (simp_all add: advance_def)
qed

section \<open>Properties\<close>

definition read_example :: ReadOnly where
  "read_example =
     \<lparr>ro_option = ReadOnlySafe,
      ro_pending = [([1], \<lparr>ri_req = Message_default\<lparr>m_entries := [Entry_default\<lparr>e_data := [1]\<rparr>]\<rparr>, ri_index = 5, ri_acks = []\<rparr>),
                    ([2], \<lparr>ri_req = Message_default\<lparr>m_entries := [Entry_default\<lparr>e_data := [2]\<rparr>]\<rparr>, ri_index = 6, ri_acks = [3]\<rparr>)],
      ro_queue = [[1], [2]]\<rparr>"

lemma read_example_inv: "ro_inv read_example"
  by (auto simp: ro_inv_def read_example_def umap_ok_def split: if_splits)

text \<open>
  C31. Reads are answered in the order they arrived: an acknowledged context releases the pending
  reads up to and including its own, oldest first, removes exactly those from the queue and the
  map, and leaves the later ones pending.
\<close>

theorem advance_releases_prefix:
  assumes "ro_inv r" and "i < length (ro_queue r)" and "m_context msg = ro_queue r ! i"
  shows "\<exists>r'. advance msg r =
       Inr (map (\<lambda>k. the (map_of (ro_pending r) k)) (take (Suc i) (ro_queue r)), r') \<and>
     ro_inv r' \<and> ro_queue r' = drop (Suc i) (ro_queue r) \<and>
     map_of (ro_pending r') = map_of (ro_pending r) |` set (drop (Suc i) (ro_queue r))"
proof -
  have q: "ro_queue r = take i (ro_queue r) @ m_context msg # drop (Suc i) (ro_queue r)"
    using assms(2,3) by (simp add: id_take_nth_drop)
  have t: "take (Suc i) (ro_queue r) = take i (ro_queue r) @ [m_context msg]"
    using assms(2,3) by (simp add: take_Suc_conv_app_nth)
  show ?thesis
    by (rule advance_found [OF assms(1) q]) (auto simp only: t)
qed

theorem advance_releases_prefix_witness:
  "\<exists>r'. advance (Message_default\<lparr>m_context := [1]\<rparr>) read_example =
       Inr ([the (map_of (ro_pending read_example) [1])], r') \<and> ro_inv r' \<and> ro_queue r' = [[2]] \<and>
     map_of (ro_pending r') = map_of (ro_pending read_example) |` {[2]}"
  using advance_releases_prefix [OF read_example_inv, of 0 "Message_default\<lparr>m_context := [1]\<rparr>"]
  by (simp add: read_example_def)

text \<open>
  Counting acknowledgements: an acknowledgement for an unknown context counts nothing and
  changes nothing; for a pending one the result is one (the node itself) plus the number of
  different nodes that have acknowledged it, and repeating the acknowledgement does not change it.
\<close>

lemma recv_ack_counts:
  assumes "ro_inv r" and "map_of (ro_pending r) (m_context msg) = Some st"
    and "card (insert (m_from msg) (set (ri_acks st))) < 2 ^ 32 - 1"
  shows "unat (fst (recv_ack msg r)) = Suc (card (insert (m_from msg) (set (ri_acks st)))) \<and>
     ro_inv (snd (recv_ack msg r)) \<and>
     fst (recv_ack msg (snd (recv_ack msg r))) = fst (recv_ack msg r) \<and>
     (\<forall>m'. m_context m' \<notin> set (ro_queue r) \<longrightarrow> recv_ack m' r = (0, r))"
proof -
  let ?acks = "List.insert (m_from msg) (ri_acks st)"
  have d: "distinct ?acks" using ro_invD(6) [OF assms(1,2)] by simp
  have len: "length ?acks = card (insert (m_from msg) (set (ri_acks st)))"
    using distinct_card [OF d] by simp
  have u: "unat (of_nat (length ?acks) :: u32) = length ?acks"
    using assms(3) len by (intro unat_of_nat_small) simp
  have cnt: "fst (recv_ack msg r) = of_nat (length ?acks) + 1"
    using assms(2) by (simp add: recv_ack_def Let_def)
  have "unat (fst (recv_ack msg r)) = Suc (length ?acks)"
    using u assms(3) len unfolding cnt by (subst unat_add_small) simp_all
  moreover have "fst (recv_ack msg (snd (recv_ack msg r))) = fst (recv_ack msg r)"
    using assms(2) by (simp add: recv_ack_def Let_def update_conv')
  moreover have "recv_ack m' r = (0, r)" if "m_context m' \<notin> set (ro_queue r)" for m'
    using that ro_invD(3) [OF assms(1)] by (auto simp: recv_ack_def split: option.splits)
  ultimately show ?thesis using len recv_ack_inv [OF assms(1)] by simp
qed

end
