(* ===== verification/Raft.thy ===== *)
theory Raft
  imports Raft_Log Progress Read_Only
begin

text \<open>
  The class \<^verbatim>\<open>Raft\<close> of \<^verbatim>\<open>raft/raft.h\<close> and \<^verbatim>\<open>raft/raft.cpp\<close>: one definition per method, in a state
  passing style, with every fault a call can have. A field \<^verbatim>\<open>x_\<close> of the class is \<open>r_x\<close>. The
  \<^verbatim>\<open>std::function\<close> members \<^verbatim>\<open>step_\<close> and \<^verbatim>\<open>tick_\<close> only ever hold one of three and one of two
  methods, which are the values of \<open>StepFn\<close> and \<open>TickFn\<close>. \<^verbatim>\<open>LOG_INFO\<close> and \<^verbatim>\<open>LOG_WARN\<close> evaluate their
  arguments, so the calls among them that can fail are part of the model; \<^verbatim>\<open>LOG_DEBUG\<close> is empty
  unless \<^verbatim>\<open>DEBUG\<close> is defined and its arguments cannot fail. A \<^verbatim>\<open>ProgressPtr\<close> is shared between the map
  and the caller; writing through it is \<open>put_progress\<close>.
\<close>

section \<open>State\<close>

datatype RaftState = Follower | Candidate | Leader | PreCandidate

datatype StepFn = StepFollower | StepCandidate | StepLeader

datatype TickFn = TickElection | TickHeartbeat

text \<open>
  \<^verbatim>\<open>RandomDevice\<close>: the numbers of the generator are a function of their position, reduced to the
  range of the distribution, both ends included.
\<close>

record RandomDevice =
  rd_min :: u32
  rd_max :: u32
  rd_seq :: "nat \<Rightarrow> u32"
  rd_pos :: nat

definition gen :: "RandomDevice \<Rightarrow> u32 \<times> RandomDevice" where
  "gen d = (rd_min d + rd_seq d (rd_pos d) mod (rd_max d - rd_min d + 1), d\<lparr>rd_pos := Suc (rd_pos d)\<rparr>)"

record Raft =
  r_id :: u64
  r_term :: u64
  r_vote :: u64
  r_read_states :: "ReadState list"
  r_raft_log :: RaftLog
  r_max_msg_size :: u64
  r_max_uncommitted_size :: u64
  r_max_inflight :: u64
  r_prs :: "(u64, Progress) umap"
  r_learner_prs :: "(u64, Progress) umap"
  r_match_buf :: "u64 list"
  r_state :: RaftState
  r_is_learner :: bool
  r_votes :: "(u64, bool) umap"
  r_msgs :: "Message list"
  r_lead :: u64
  r_lead_transferee :: u64
  r_pending_conf_index :: u64
  r_uncommitted_size :: u64
  r_read_only :: ReadOnly
  r_election_elapsed :: u32
  r_heartbeat_elapsed :: u32
  r_check_quorum :: bool
  r_pre_vote :: bool
  r_heartbeat_timeout :: u32
  r_election_timeout :: u32
  r_randomized_election_timeout :: u32
  r_disable_proposal_forwarding :: bool
  r_tick :: "TickFn option"
  r_step :: "StepFn option"
  r_random_device :: RandomDevice

section \<open>Members and quorum\<close>

definition quorum :: "Raft \<Rightarrow> u32" where
  "quorum r = of_nat (length (r_prs r) div 2 + 1)"

definition get_progress :: "u64 \<Rightarrow> Raft \<Rightarrow> Progress option" where
  "get_progress nid r =
     (case map_of (r_prs r) nid of Some p \<Rightarrow> Some p | None \<Rightarrow> map_of (r_learner_prs r) nid)"

text \<open>Writing through the pointer that \<^verbatim>\<open>get_progress\<close> returned.\<close>

definition put_progress :: "u64 \<Rightarrow> Progress \<Rightarrow> Raft \<Rightarrow> Raft" where
  "put_progress nid p r =
     (if map_of (r_prs r) nid \<noteq> None then r\<lparr>r_prs := AList.update nid p (r_prs r)\<rparr>
      else if map_of (r_learner_prs r) nid \<noteq> None
      then r\<lparr>r_learner_prs := AList.update nid p (r_learner_prs r)\<rparr>
      else r)"

definition set_progress :: "u64 \<Rightarrow> u64 \<Rightarrow> u64 \<Rightarrow> bool \<Rightarrow> Raft \<Rightarrow> fault + Raft" where
  "set_progress nid match next is_learner r =
     (let progress = (Progress_new (r_max_inflight r))\<lparr>pr_next := next, pr_match := match\<rparr> in
      if \<not> is_learner
      then Inr (r\<lparr>r_learner_prs := AList.delete nid (r_learner_prs r),
                  r_prs := AList.update nid progress (r_prs r)\<rparr>)
      else if map_of (r_prs r) nid \<noteq> None
      then Inl (Fatal ''unexpected changing from voter to learner'')
      else Inr (r\<lparr>r_learner_prs := AList.update nid (progress\<lparr>pr_is_learner := True\<rparr>) (r_learner_prs r)\<rparr>))"

definition del_progress :: "u64 \<Rightarrow> Raft \<Rightarrow> Raft" where
  "del_progress nid r =
     r\<lparr>r_prs := AList.delete nid (r_prs r), r_learner_prs := AList.delete nid (r_learner_prs r)\<rparr>"

definition promotable :: "Raft \<Rightarrow> bool" where
  "promotable r \<longleftrightarrow> map_of (r_prs r) (r_id r) \<noteq> None"

definition nodes :: "Raft \<Rightarrow> u64 list" where
  "nodes r = sort (map fst (r_prs r))"

text \<open>
  The loop compares an iterator of \<^verbatim>\<open>learner_prs_\<close> with \<^verbatim>\<open>prs_.end()\<close>. The end iterators of the two
  maps are the same null position in the library the program is built with, so the loop visits
  all learners.
\<close>

definition learner_nodes :: "Raft \<Rightarrow> u64 list" where
  "learner_nodes r = sort (map fst (r_learner_prs r))"

text \<open>The ids \<^verbatim>\<open>for_each_progress\<close> visits, in order; no callback adds or removes members.\<close>

definition progress_ids :: "Raft \<Rightarrow> u64 list" where
  "progress_ids r = map fst (r_prs r) @ map fst (r_learner_prs r)"

record SoftState =
  ss_lead :: u64
  ss_state :: RaftState

definition soft_state :: "Raft \<Rightarrow> SoftState" where
  "soft_state r = \<lparr>ss_lead = r_lead r, ss_state = r_state r\<rparr>"

definition hard_state :: "Raft \<Rightarrow> HardState" where
  "hard_state r = \<lparr>hs_term = r_term r, hs_vote = r_vote r, hs_commit = rl_committed (r_raft_log r)\<rparr>"

definition load_state :: "HardState \<Rightarrow> Raft \<Rightarrow> fault + Raft" where
  "load_state st r =
     (if hs_commit st < rl_committed (r_raft_log r) \<or> hs_commit st > last_index (r_raft_log r)
      then Inl (Fatal ''state.commit is out of range'')
      else Inr (r\<lparr>r_raft_log := (r_raft_log r)\<lparr>rl_committed := hs_commit st\<rparr>,
                  r_term := hs_term st, r_vote := hs_vote st\<rparr>))"

section \<open>Sending\<close>

definition is_vote_msg :: "MessageType \<Rightarrow> bool" where
  "is_vote_msg t \<longleftrightarrow> t = MsgVote \<or> t = MsgVoteResp \<or> t = MsgPreVote \<or> t = MsgPreVoteResp"

definition send :: "Message \<Rightarrow> Raft \<Rightarrow> fault + Raft" where
  "send msg r =
     (let msg = msg\<lparr>m_from := r_id r\<rparr> in
      if is_vote_msg (m_type msg)
      then if m_term msg = 0 then Inl (Fatal ''term should be set when sending'')
           else Inr (r\<lparr>r_msgs := r_msgs r @ [msg]\<rparr>)
      else if m_term msg \<noteq> 0 then Inl (Fatal ''term should not be set when sending'')
      else
        let msg = (if m_type msg \<noteq> MsgProp \<and> m_type msg \<noteq> MsgReadIndex
                   then msg\<lparr>m_term := r_term r\<rparr> else msg)
        in Inr (r\<lparr>r_msgs := r_msgs r @ [msg]\<rparr>))"

text \<open>The append message of \<^verbatim>\<open>maybe_send_append\<close> and what it does to the progress.\<close>

definition note_sent :: "Entry list \<Rightarrow> Progress \<Rightarrow> fault + Progress" where
  "note_sent entries pr =
     (if entries = [] then Inr pr
      else case pr_state pr of
        ProgressStateReplicate \<Rightarrow>
          let last_idx = e_index (last entries); pr = optimistic_update last_idx pr
          in bind_r (inf_add last_idx (pr_inflights pr)) (\<lambda>f. Inr (pr\<lparr>pr_inflights := f\<rparr>))
      | ProgressStateProbe \<Rightarrow> Inr (set_pause pr)
      | ProgressStateSnapshot \<Rightarrow> Inl (Fatal ''is sending append in unhandled state''))"

definition maybe_send_append :: "u64 \<Rightarrow> bool \<Rightarrow> Raft \<Rightarrow> fault + (bool \<times> Raft)" where
  "maybe_send_append to send_if_empty r =
     bind_r (deref_r (get_progress to r)) (\<lambda>pr.
     if is_paused pr then Inr (False, r)
     else
       bind_r (term_of (pr_next pr - 1) (r_raft_log r)) (\<lambda>status_term.
       bind_r (entries_from (pr_next pr) (r_max_msg_size r) (r_raft_log r)) (\<lambda>status_entries.
       let entries = (case status_entries of Inl _ \<Rightarrow> [] | Inr es \<Rightarrow> es) in
       if entries = [] \<and> \<not> send_if_empty then Inr (False, r)
       else case (status_term, status_entries) of
         (Inr t, Inr _) \<Rightarrow>
           bind_r (note_sent entries pr) (\<lambda>pr'.
           bind_r (send (Message_default\<lparr>m_to := to, m_type := MsgApp, m_index := pr_next pr - 1,
                           m_log_term := t, m_entries := entries,
                           m_commit := rl_committed (r_raft_log r)\<rparr>)
                        (put_progress to pr' r)) (\<lambda>r'. Inr (True, r')))
       | _ \<Rightarrow>
           if \<not> pr_recent_active pr then Inr (False, r)
           else
             let snap = log_snapshot (r_raft_log r) in
             if snapshot_is_empty snap then Inl (Fatal ''need non-empty snapshot'')
             else bind_r (send (Message_default\<lparr>m_to := to, m_type := MsgSnap, m_snapshot := snap\<rparr>)
                               (put_progress to (become_snapshot (sm_index (s_metadata snap)) pr) r))
                         (\<lambda>r'. Inr (True, r')))))"

definition send_append :: "u64 \<Rightarrow> Raft \<Rightarrow> fault + Raft" where
  "send_append to r = bind_r (maybe_send_append to True r) (\<lambda>(_, r'). Inr r')"

definition send_heartbeat :: "u64 \<Rightarrow> bytes \<Rightarrow> Raft \<Rightarrow> fault + Raft" where
  "send_heartbeat to ctx r =
     bind_r (deref_r (get_progress to r)) (\<lambda>pr.
     send (Message_default\<lparr>m_to := to, m_type := MsgHeartbeat,
             m_commit := min (pr_match pr) (rl_committed (r_raft_log r)), m_context := ctx\<rparr>) r)"

definition bcast_append :: "Raft \<Rightarrow> fault + Raft" where
  "bcast_append r =
     loop_r (\<lambda>id r. if id = r_id r then Inr r else send_append id r) (progress_ids r) r"

definition bcast_heartbeat_with_ctx :: "bytes \<Rightarrow> Raft \<Rightarrow> fault + Raft" where
  "bcast_heartbeat_with_ctx ctx r =
     loop_r (\<lambda>id r. if id = r_id r then Inr r else send_heartbeat id ctx r) (progress_ids r) r"

definition bcast_heartbeat :: "Raft \<Rightarrow> fault + Raft" where
  "bcast_heartbeat r = bcast_heartbeat_with_ctx (last_pending_request_ctx [] (r_read_only r)) r"

definition send_timeout_now :: "u64 \<Rightarrow> Raft \<Rightarrow> fault + Raft" where
  "send_timeout_now to r = send (Message_default\<lparr>m_to := to, m_type := MsgTimeoutNow\<rparr>) r"

section \<open>Commit and append\<close>

definition maybe_commit :: "Raft \<Rightarrow> fault + (bool \<times> Raft)" where
  "maybe_commit r =
     (let buf = sort (map (\<lambda>(_, p). pr_match p) (r_prs r)); r = r\<lparr>r_match_buf := buf\<rparr> in
      bind_r (nth_r buf (unat (of_nat (length buf) - ucast (quorum r) :: u64))) (\<lambda>mci.
      bind_r (log_maybe_commit mci (r_term r) (r_raft_log r)) (\<lambda>(b, l). Inr (b, r\<lparr>r_raft_log := l\<rparr>))))"

definition payload_sum :: "Entry list \<Rightarrow> u32" where
  "payload_sum entries = foldl (\<lambda>s e. s + payload_size e) 0 entries"

definition increase_uncommitted_size :: "Entry list \<Rightarrow> Raft \<Rightarrow> bool \<times> Raft" where
  "increase_uncommitted_size entries r =
     (let s = ucast (payload_sum entries) :: u64 in
      if r_uncommitted_size r > 0 \<and> r_uncommitted_size r + s > r_max_uncommitted_size r then (False, r)
      else (True, r\<lparr>r_uncommitted_size := r_uncommitted_size r + s\<rparr>))"

definition reduce_uncommitted_size :: "Entry list \<Rightarrow> Raft \<Rightarrow> Raft" where
  "reduce_uncommitted_size entries r =
     (if r_uncommitted_size r = 0 then r
      else
        let s = ucast (payload_sum entries) :: u64 in
        if s > r_uncommitted_size r then r\<lparr>r_uncommitted_size := 0\<rparr>
        else r\<lparr>r_uncommitted_size := r_uncommitted_size r - s\<rparr>)"

text \<open>The entries of a proposal, stamped with the term and consecutive indexes after \<open>li\<close>.\<close>

primrec stamp_entries :: "u64 \<Rightarrow> u64 \<Rightarrow> Entry list \<Rightarrow> Entry list" where
  "stamp_entries t li [] = []"
| "stamp_entries t li (e # es) =
     \<lparr>e_type = e_type e, e_term = t, e_index = li + 1, e_data = e_data e\<rparr> # stamp_entries t (li + 1) es"

definition append_entry :: "Entry list \<Rightarrow> Raft \<Rightarrow> fault + (bool \<times> Raft)" where
  "append_entry entries r =
     (let ents = stamp_entries (r_term r) (last_index (r_raft_log r)) entries;
          (ok, r) = increase_uncommitted_size ents r in
      if \<not> ok then Inr (False, r)
      else
        bind_r (log_append ents (r_raft_log r)) (\<lambda>(li, l).
        let r = r\<lparr>r_raft_log := l\<rparr> in
        bind_r (deref_r (get_progress (r_id r) r)) (\<lambda>pr.
        bind_r (maybe_commit (put_progress (r_id r) (snd (maybe_update li pr)) r)) (\<lambda>(_, r).
        Inr (True, r)))))"

section \<open>Roles\<close>

definition abort_leader_transfer :: "Raft \<Rightarrow> Raft" where
  "abort_leader_transfer r = r\<lparr>r_lead_transferee := 0\<rparr>"

definition past_election_timeout :: "Raft \<Rightarrow> bool" where
  "past_election_timeout r \<longleftrightarrow> r_election_elapsed r \<ge> r_randomized_election_timeout r"

definition reset_randomized_election_timeout :: "Raft \<Rightarrow> fault + Raft" where
  "reset_randomized_election_timeout r =
     (let (g, d) = gen (r_random_device r); t = r_election_timeout r + g in
      if t \<le> 2 * r_election_timeout r
      then Inr (r\<lparr>r_randomized_election_timeout := t, r_random_device := d\<rparr>)
      else Inl (Assert ''randomized_election_timeout_ <= 2 * election_timeout_''))"

text \<open>The callback of \<^verbatim>\<open>reset\<close>: a fresh progress, matched only for the node itself.\<close>

definition fresh_progress :: "u64 \<Rightarrow> u64 \<Rightarrow> u64 \<Rightarrow> u64 \<Rightarrow> Progress \<Rightarrow> Progress" where
  "fresh_progress self max_inflight li nid p =
     (let q = (Progress_new max_inflight)\<lparr>pr_next := li + 1, pr_is_learner := pr_is_learner p\<rparr>
      in if nid = self then q\<lparr>pr_match := li\<rparr> else q)"

definition fresh_progresses :: "Raft \<Rightarrow> (u64, Progress) umap \<Rightarrow> (u64, Progress) umap" where
  "fresh_progresses r =
     map (\<lambda>(k, p). (k, fresh_progress (r_id r) (r_max_inflight r) (last_index (r_raft_log r)) k p))"

definition reset :: "u64 \<Rightarrow> Raft \<Rightarrow> fault + Raft" where
  "reset t r =
     (let r = (if r_term r \<noteq> t then r\<lparr>r_term := t, r_vote := 0\<rparr> else r);
          r = r\<lparr>r_lead := 0, r_election_elapsed := 0, r_heartbeat_elapsed := 0\<rparr> in
      bind_r (reset_randomized_election_timeout r) (\<lambda>r.
      let r = (abort_leader_transfer r)\<lparr>r_votes := []\<rparr>;
          r = r\<lparr>r_prs := fresh_progresses r (r_prs r), r_learner_prs := fresh_progresses r (r_learner_prs r)\<rparr>
      in Inr (r\<lparr>r_pending_conf_index := 0, r_uncommitted_size := 0,
                r_read_only := (r_read_only r)\<lparr>ro_pending := [], ro_queue := []\<rparr>\<rparr>)))"

definition become_follower :: "u64 \<Rightarrow> u64 \<Rightarrow> Raft \<Rightarrow> fault + Raft" where
  "become_follower t lead r =
     bind_r (reset t (r\<lparr>r_step := Some StepFollower\<rparr>)) (\<lambda>r.
     Inr (r\<lparr>r_tick := Some TickElection, r_lead := lead, r_state := Follower\<rparr>))"

definition become_candidate :: "Raft \<Rightarrow> fault + Raft" where
  "become_candidate r =
     (if r_state r = Leader then Inl (Fatal ''invalid transition [leader -> candidate]'')
      else
        bind_r (reset (r_term r + 1) (r\<lparr>r_step := Some StepCandidate\<rparr>)) (\<lambda>r.
        Inr (r\<lparr>r_tick := Some TickElection, r_vote := r_id r, r_state := Candidate\<rparr>)))"

definition become_pre_candidate :: "Raft \<Rightarrow> fault + Raft" where
  "become_pre_candidate r =
     (if r_state r = Leader then Inl (Fatal ''invalid transition [leader -> pre-candidate]'')
      else Inr (r\<lparr>r_step := Some StepCandidate, r_votes := [], r_tick := Some TickElection, r_lead := 0,
                  r_state := PreCandidate\<rparr>))"

definition become_leader :: "Raft \<Rightarrow> fault + Raft" where
  "become_leader r =
     (if r_state r = Follower then Inl (Fatal ''invalid transition [follower -> leader]'')
      else
        bind_r (reset (r_term r) (r\<lparr>r_step := Some StepLeader\<rparr>)) (\<lambda>r.
        let r = r\<lparr>r_tick := Some TickHeartbeat, r_lead := r_id r, r_state := Leader\<rparr> in
        case map_of (r_prs r) (r_id r) of
          None \<Rightarrow> Inl (Assert ''it != prs_.end()'')
        | Some p \<Rightarrow>
            let r = r\<lparr>r_prs := AList.update (r_id r) (become_replicate p) (r_prs r),
                      r_pending_conf_index := last_index (r_raft_log r)\<rparr> in
            bind_r (append_entry [Entry_default] r) (\<lambda>(ok, r).
            if \<not> ok then Inl (Fatal ''empty entry was dropped'')
            else Inr (reduce_uncommitted_size [Entry_default] r))))"

definition granted_votes :: "(u64, bool) umap \<Rightarrow> u32" where
  "granted_votes votes = of_nat (length (filter snd votes))"

definition poll :: "u64 \<Rightarrow> MessageType \<Rightarrow> bool \<Rightarrow> Raft \<Rightarrow> fault + (u32 \<times> Raft)" where
  "poll nid type v r =
     bind_r (msg_type_to_string type) (\<lambda>_.
     let votes = (if map_of (r_votes r) nid = None then AList.update nid v (r_votes r) else r_votes r)
     in Inr (granted_votes votes, r\<lparr>r_votes := votes\<rparr>))"

definition kCampaignPreElection :: string where
  "kCampaignPreElection = ''CampaignPreElection''"

definition kCampaignElection :: string where
  "kCampaignElection = ''CampaignElection''"

definition kCampaignTransfer :: string where
  "kCampaignTransfer = ''CampaignTransfer''"

text \<open>The body of the loop of \<^verbatim>\<open>campaign\<close> over the voters.\<close>

definition send_vote_request :: "MessageType \<Rightarrow> u64 \<Rightarrow> string \<Rightarrow> u64 \<Rightarrow> Raft \<Rightarrow> fault + Raft" where
  "send_vote_request vote_msg t campaign_type nid r =
     (if nid = r_id r then Inr r
      else
        bind_r (last_term (r_raft_log r)) (\<lambda>lt.
        bind_r (msg_type_to_string vote_msg) (\<lambda>_.
        send (Message_default\<lparr>m_term := t, m_to := nid, m_type := vote_msg,
                m_index := last_index (r_raft_log r), m_log_term := lt,
                m_context := (if campaign_type = kCampaignTransfer then bytes_of_string kCampaignTransfer else [])\<rparr>) r)))"

function (sequential) campaign :: "string \<Rightarrow> Raft \<Rightarrow> fault + Raft" where
  "campaign campaign_type r =
     bind_r (if campaign_type = kCampaignPreElection
             then bind_r (become_pre_candidate r) (\<lambda>r. Inr (MsgPreVote, r_term r + 1, r))
             else bind_r (become_candidate r) (\<lambda>r. Inr (MsgVote, r_term r, r))) (\<lambda>(vote_msg, t, r).
     bind_r (vote_resp_msg_type vote_msg) (\<lambda>resp.
     bind_r (poll (r_id r) resp True r) (\<lambda>(granted, r).
     if quorum r = granted
     then if campaign_type = kCampaignPreElection then campaign kCampaignElection r
          else become_leader r
     else loop_r (send_vote_request vote_msg t campaign_type) (map fst (r_prs r)) r)))"
  by pat_completeness auto

termination
  by (relation "measure (\<lambda>(c, r). if c = kCampaignPreElection then 1 else 0)")
    (auto simp: kCampaignPreElection_def kCampaignElection_def)

declare campaign.simps [simp del]

text \<open>\<^verbatim>\<open>while (maybe_send_append(to, false))\<close>.\<close>

definition send_room :: "u64 \<Rightarrow> Raft \<Rightarrow> nat" where
  "send_room to r =
     (case get_progress to r of
        None \<Rightarrow> 0
      | Some p \<Rightarrow> (case pr_state p of
            ProgressStateProbe \<Rightarrow> if pr_paused p then 0 else 1
          | ProgressStateReplicate \<Rightarrow> unat (inf_size (pr_inflights p) - inf_count (pr_inflights p))
          | ProgressStateSnapshot \<Rightarrow> 0))"

lemma get_put_progress:
  "get_progress k r = Some p \<Longrightarrow> get_progress k (put_progress k q r) = Some q"
  by (auto simp: get_progress_def put_progress_def update_conv' split: option.splits)

lemma get_progress_msgs [simp]: "get_progress k (r\<lparr>r_msgs := ms\<rparr>) = get_progress k r"
  by (simp add: get_progress_def cong: option.case_cong)

text \<open>The message as it leaves the node, and the one effect of \<^verbatim>\<open>send\<close>.\<close>

definition stamped :: "Message \<Rightarrow> Raft \<Rightarrow> Message" where
  "stamped msg r =
     (if is_vote_msg (m_type msg) \<or> m_type msg = MsgProp \<or> m_type msg = MsgReadIndex
      then msg\<lparr>m_from := r_id r\<rparr> else msg\<lparr>m_from := r_id r, m_term := r_term r\<rparr>)"

lemma send_eq: "send msg r = Inr r' \<longleftrightarrow>
    (m_term msg = 0 \<longleftrightarrow> \<not> is_vote_msg (m_type msg)) \<and> r' = r\<lparr>r_msgs := r_msgs r @ [stamped msg r]\<rparr>"
  by (auto simp: send_def stamped_def Let_def)

lemma get_progress_send: "send m r = Inr r' \<Longrightarrow> get_progress k r' = get_progress k r"
  by (auto simp: send_eq)

lemma unat_room_less:
  assumes "(a :: u32) \<noteq> b"
  shows "unat (a - (b + 1)) < unat (a - b)"
proof -
  have "a - b \<noteq> 0" using assms by simp
  then have "1 \<le> unat (a - b)" using word_unat_eq_iff [of "a - b" 0] by simp
  moreover have "a - (b + 1) = a - b - 1" by simp
  ultimately show ?thesis using unat_sub_le [of 1 "a - b"] by (simp only: unat_1)
qed

lemma inf_add_count:
  "inf_add x f = Inr f' \<Longrightarrow>
     inf_size f' = inf_size f \<and> inf_count f' = inf_count f + 1 \<and> inf_size f \<noteq> inf_count f"
  by (auto simp: inf_add_def inf_is_full_def Let_def split: if_splits)

lemma note_sent_room:
  assumes "note_sent es p = Inr q" and "es \<noteq> []" and "\<not> is_paused p" and "get_progress to r = Some p"
    and "get_progress to r' = Some q"
  shows "send_room to r' < send_room to r"
  using assms
  by (cases "pr_state p")
    (auto simp: note_sent_def is_paused_def send_room_def set_pause_def Let_def optimistic_update_def
      dest!: inf_add_count intro: unat_room_less)

text \<open>The two ways a message leaves \<^verbatim>\<open>maybe_send_append\<close>, with the change of the progress.\<close>

lemma maybe_send_append_cases:
  assumes "maybe_send_append to b r = Inr (s, r')"
  obtains (nothing) "\<not> s" and "r' = r"
  | (app) p q es t where "s" and "get_progress to r = Some p" and "\<not> is_paused p" and "es \<noteq> [] \<or> b"
      and "term_of (pr_next p - 1) (r_raft_log r) = Inr (Inr t)"
      and "entries_from (pr_next p) (r_max_msg_size r) (r_raft_log r) = Inr (Inr es)"
      and "note_sent es p = Inr q"
      and "send (Message_default\<lparr>m_to := to, m_type := MsgApp, m_index := pr_next p - 1, m_log_term := t,
             m_entries := es, m_commit := rl_committed (r_raft_log r)\<rparr>) (put_progress to q r) = Inr r'"
  | (snap) p where "s" and "get_progress to r = Some p" and "\<not> is_paused p"
      and "send (Message_default\<lparr>m_to := to, m_type := MsgSnap, m_snapshot := log_snapshot (r_raft_log r)\<rparr>)
             (put_progress to (become_snapshot (sm_index (s_metadata (log_snapshot (r_raft_log r)))) p) r) = Inr r'"
proof -
  obtain p where p: "get_progress to r = Some p"
    using assms by (auto simp: maybe_send_append_def)
  show thesis
  proof (cases "is_paused p")
    case True
    then have n: "\<not> s" "r' = r" using assms p by (simp_all add: maybe_send_append_def)
    show thesis by (rule nothing) (rule n)+
  next
    case False
    obtain st se where e: "term_of (pr_next p - 1) (r_raft_log r) = Inr st"
      "entries_from (pr_next p) (r_max_msg_size r) (r_raft_log r) = Inr se"
      using assms p False by (auto simp: maybe_send_append_def)
    note A = assms [unfolded maybe_send_append_def p e deref_r_Some bind_r_Inr Let_def]
    consider (n) "\<not> s" "r' = r"
      | (a) t es where "st = Inr t" "se = Inr es"
      | (b) "s" "send (Message_default\<lparr>m_to := to, m_type := MsgSnap, m_snapshot := log_snapshot (r_raft_log r)\<rparr>)
             (put_progress to (become_snapshot (sm_index (s_metadata (log_snapshot (r_raft_log r)))) p) r) = Inr r'"
      using A False by (cases st; cases se) (auto split: if_splits)
    then show thesis
    proof cases
      case n
      then show thesis by (rule nothing)
    next
      case (a t es)
      show thesis
      proof (cases "es = [] \<and> \<not> b")
        case True
        then have n: "\<not> s" "r' = r" using A False a by simp_all
        show thesis by (rule nothing) (rule n)+
      next
        case N: False
        then show thesis using A p e False a by (auto intro: app)
      qed
    next
      case b
      then show thesis using p False by (auto intro: snap)
    qed
  qed
qed

lemma maybe_send_append_room:
  assumes "maybe_send_append to False r = Inr (True, r')"
  shows "send_room to r' < send_room to r"
  using assms
proof (cases rule: maybe_send_append_cases)
  case (app p q es t)
  have "get_progress to r' = Some q"
    using get_progress_send [OF app(8)] get_put_progress [OF app(2)] by simp
  with app show ?thesis using note_sent_room by blast
next
  case (snap p)
  let ?q = "become_snapshot (sm_index (s_metadata (log_snapshot (r_raft_log r)))) p"
  have "get_progress to r' = Some ?q"
    using get_progress_send [OF snap(4)] get_put_progress [OF snap(2)] by simp
  then have "send_room to r' = 0" by (simp add: send_room_def become_snapshot_def)
  moreover have "0 < send_room to r"
    using snap(2,3) by (cases "pr_state p") (auto simp: send_room_def is_paused_def inf_is_full_def unat_gt_0)
  ultimately show ?thesis by simp
qed simp

function (sequential) send_append_loop :: "u64 \<Rightarrow> Raft \<Rightarrow> fault + Raft" where
  "send_append_loop to r =
     bind_r (maybe_send_append to False r) (\<lambda>(sent, r'). if sent then send_append_loop to r' else Inr r')"
  by pat_completeness auto

termination
  by (relation "measure (\<lambda>(to, r). send_room to r)") (auto simp: maybe_send_append_room)

declare send_append_loop.simps [simp del]

section \<open>Follower side\<close>

definition handle_append_entries :: "Message \<Rightarrow> Raft \<Rightarrow> fault + Raft" where
  "handle_append_entries msg r =
     (if m_index msg < rl_committed (r_raft_log r)
      then send (Message_default\<lparr>m_to := m_from msg, m_type := MsgAppResp,
                   m_index := rl_committed (r_raft_log r)\<rparr>) r
      else
        bind_r (maybe_append (m_index msg) (m_log_term msg) (m_commit msg) (m_entries msg) (r_raft_log r)) (\<lambda>(ok, l).
        let r = r\<lparr>r_raft_log := l\<rparr> in
        case ok of
          Some last_idx \<Rightarrow>
            send (Message_default\<lparr>m_to := m_from msg, m_type := MsgAppResp, m_index := last_idx\<rparr>) r
        | None \<Rightarrow>
            bind_r (term_of (m_index msg) (r_raft_log r)) (\<lambda>_.
            send (Message_default\<lparr>m_to := m_from msg, m_type := MsgAppResp, m_index := m_index msg,
                    m_reject := True, m_reject_hint := last_index (r_raft_log r)\<rparr>) r)))"

text \<open>\<^verbatim>\<open>msg->context = std::move(msg->context)\<close> leaves the context of the response empty.\<close>

definition handle_heartbeat :: "Message \<Rightarrow> Raft \<Rightarrow> fault + Raft" where
  "handle_heartbeat msg r =
     bind_r (commit_to (m_commit msg) (r_raft_log r)) (\<lambda>l.
     send (Message_default\<lparr>m_to := m_from msg, m_type := MsgHeartbeatResp\<rparr>) (r\<lparr>r_raft_log := l\<rparr>))"

definition restore_one :: "bool \<Rightarrow> u64 \<Rightarrow> Raft \<Rightarrow> fault + Raft" where
  "restore_one is_learner node r =
     (let next = last_index (r_raft_log r) + 1;
          match = (if node = r_id r then next - 1 else 0);
          r = (if node = r_id r then r\<lparr>r_is_learner := is_learner\<rparr> else r) in
      bind_r (set_progress node match next is_learner r) (\<lambda>r.
      bind_r (deref_r (get_progress (r_id r) r)) (\<lambda>_. Inr r)))"

definition restore_node :: "u64 list \<Rightarrow> bool \<Rightarrow> Raft \<Rightarrow> fault + Raft" where
  "restore_node ns is_learner r = loop_r (restore_one is_learner) ns r"

definition restore :: "Snapshot \<Rightarrow> Raft \<Rightarrow> fault + (bool \<times> Raft)" where
  "restore s r =
     (let meta = s_metadata s; l = r_raft_log r in
      if sm_index meta \<le> rl_committed l then Inr (False, r)
      else
        bind_r (match_term (sm_index meta) (sm_term meta) l) (\<lambda>m.
        if m then
          bind_r (last_term l) (\<lambda>_.
          bind_r (commit_to (sm_index meta) l) (\<lambda>l. Inr (False, r\<lparr>r_raft_log := l\<rparr>)))
        else if \<not> r_is_learner r \<and> r_id r \<in> set (cs_learners (sm_conf_state meta)) then Inr (False, r)
        else
          bind_r (last_term l) (\<lambda>_.
          let r = r\<lparr>r_raft_log := log_restore s l, r_prs := [], r_learner_prs := []\<rparr> in
          bind_r (restore_node (cs_nodes (sm_conf_state meta)) False r) (\<lambda>r.
          bind_r (restore_node (cs_learners (sm_conf_state meta)) True r) (\<lambda>r.
          Inr (True, r))))))"

text \<open>Both branches set \<^verbatim>\<open>msg->index\<close> instead of \<^verbatim>\<open>m->index\<close>, so the response has index 0.\<close>

definition handle_snapshot :: "Message \<Rightarrow> Raft \<Rightarrow> fault + Raft" where
  "handle_snapshot msg r =
     bind_r (restore (m_snapshot msg) r) (\<lambda>(_, r).
     send (Message_default\<lparr>m_to := m_from msg, m_type := MsgAppResp\<rparr>) r)"

definition dropped :: Status where
  "dropped = InvalidArgument ''raft proposal dropped''"

definition ok_with :: "fault + Raft \<Rightarrow> fault + (Status \<times> Raft)" where
  "ok_with m = bind_r m (\<lambda>r. Inr (OK, r))"

definition forward_to_leader :: "Message \<Rightarrow> Raft \<Rightarrow> fault + (Status \<times> Raft)" where
  "forward_to_leader msg r = ok_with (send (msg\<lparr>m_to := r_lead r\<rparr>) r)"

definition step_follower :: "Message \<Rightarrow> Raft \<Rightarrow> fault + (Status \<times> Raft)" where
  "step_follower msg r =
     (case m_type msg of
        MsgProp \<Rightarrow>
          if r_lead r = 0 then Inr (dropped, r)
          else if r_disable_proposal_forwarding r then Inr (dropped, r)
          else forward_to_leader msg r
      | MsgApp \<Rightarrow> ok_with (handle_append_entries msg (r\<lparr>r_election_elapsed := 0, r_lead := m_from msg\<rparr>))
      | MsgHeartbeat \<Rightarrow> ok_with (handle_heartbeat msg (r\<lparr>r_election_elapsed := 0, r_lead := m_from msg\<rparr>))
      | MsgSnap \<Rightarrow> ok_with (handle_snapshot msg (r\<lparr>r_election_elapsed := 0, r_lead := m_from msg\<rparr>))
      | MsgTransferLeader \<Rightarrow> if r_lead r = 0 then Inr (OK, r) else forward_to_leader msg r
      | MsgTimeoutNow \<Rightarrow> if promotable r then ok_with (campaign kCampaignTransfer r) else Inr (OK, r)
      | MsgReadIndex \<Rightarrow> if r_lead r = 0 then Inr (OK, r) else forward_to_leader msg r
      | MsgReadIndexResp \<Rightarrow>
          (case m_entries msg of
             [e] \<Rightarrow> Inr (OK, r\<lparr>r_read_states := r_read_states r @
                              [\<lparr>rst_index = m_index msg, rst_request_ctx = e_data e\<rparr>]\<rparr>)
           | _ \<Rightarrow> Inr (OK, r))
      | _ \<Rightarrow> Inr (OK, r))"

section \<open>Candidate side\<close>

definition handle_vote_resp :: "Message \<Rightarrow> Raft \<Rightarrow> fault + Raft" where
  "handle_vote_resp msg r =
     bind_r (poll (m_from msg) (m_type msg) (\<not> m_reject msg) r) (\<lambda>(gr32, r).
     let gr = ucast gr32 :: u64 in
     if ucast (quorum r) = gr
     then if r_state r = PreCandidate then campaign kCampaignElection r
          else
            bind_r (guard_r (r_state r = Candidate) (Assert ''state_ == RaftState::Candidate'')) (\<lambda>_.
            bind_r (become_leader r) bcast_append)
     else if ucast (quorum r) = of_nat (length (r_votes r)) - gr then become_follower (r_term r) 0 r
     else Inr r)"

definition step_candidate :: "Message \<Rightarrow> Raft \<Rightarrow> fault + (Status \<times> Raft)" where
  "step_candidate msg r =
     (case m_type msg of
        MsgProp \<Rightarrow> Inr (dropped, r)
      | MsgApp \<Rightarrow> ok_with (bind_r (become_follower (m_term msg) (m_from msg) r) (handle_append_entries msg))
      | MsgHeartbeat \<Rightarrow> ok_with (bind_r (become_follower (m_term msg) (m_from msg) r) (handle_heartbeat msg))
      | MsgSnap \<Rightarrow> ok_with (bind_r (become_follower (m_term msg) (m_from msg) r) (handle_snapshot msg))
      | MsgPreVoteResp \<Rightarrow> ok_with (handle_vote_resp msg r)
      | MsgVoteResp \<Rightarrow> ok_with (handle_vote_resp msg r)
      | _ \<Rightarrow> Inr (OK, r))"

section \<open>Leader side\<close>

definition check_quorum_active :: "Raft \<Rightarrow> bool" where
  "check_quorum_active r \<longleftrightarrow>
     length (filter (\<lambda>(k, p). k = r_id r \<or> (pr_recent_active p \<and> \<not> pr_is_learner p)) (r_prs r @ r_learner_prs r))
       \<ge> unat (quorum r)"

text \<open>The loop over the proposed entries: at most one unapplied configuration change is let through.\<close>

primrec prop_entries :: "u64 \<Rightarrow> u64 \<Rightarrow> Entry list \<Rightarrow> u64 \<Rightarrow> Entry list \<times> u64" where
  "prop_entries applied li [] pci = ([], pci)"
| "prop_entries applied li (e # es) pci =
     (if e_type e = EntryConfChange
      then if pci > applied
           then let (es', pci') = prop_entries applied (li + 1) es pci in (Entry_default # es', pci')
           else let (es', pci') = prop_entries applied (li + 1) es (li + 1) in (e # es', pci')
      else let (es', pci') = prop_entries applied (li + 1) es pci in (e # es', pci'))"

definition leader_prop :: "Message \<Rightarrow> Raft \<Rightarrow> fault + (Status \<times> Raft)" where
  "leader_prop msg r =
     (if m_entries msg = [] then Inl (Fatal ''stepped empty MsgProp'')
      else if map_of (r_prs r) (r_id r) = None then Inr (dropped, r)
      else if r_lead_transferee r \<noteq> 0 then Inr (dropped, r)
      else
        let (es, pci) = prop_entries (rl_applied (r_raft_log r)) (last_index (r_raft_log r))
                          (m_entries msg) (r_pending_conf_index r) in
        bind_r (append_entry es (r\<lparr>r_pending_conf_index := pci\<rparr>)) (\<lambda>(ok, r).
        if \<not> ok then Inr (dropped, r) else ok_with (bcast_append r)))"

definition answer_read :: "u64 \<Rightarrow> Message \<Rightarrow> Raft \<Rightarrow> fault + Raft" where
  "answer_read index req r =
     (if m_from req = 0 \<or> m_from req = r_id r
      then bind_r (nth_r (m_entries req) 0) (\<lambda>e.
           Inr (r\<lparr>r_read_states := r_read_states r @ [\<lparr>rst_index = index, rst_request_ctx = e_data e\<rparr>]\<rparr>))
      else send (Message_default\<lparr>m_to := m_from req, m_type := MsgReadIndexResp, m_index := index,
                   m_entries := m_entries req\<rparr>) r)"

definition leader_read_index :: "Message \<Rightarrow> Raft \<Rightarrow> fault + (Status \<times> Raft)" where
  "leader_read_index msg r =
     (let committed = rl_committed (r_raft_log r) in
      if quorum r > 1
      then
        bind_r (term_of committed (r_raft_log r)) (\<lambda>st.
        if (case st of Inl _ \<Rightarrow> 0 | Inr t \<Rightarrow> t) \<noteq> r_term r then Inr (OK, r)
        else case ro_option (r_read_only r) of
          ReadOnlySafe \<Rightarrow>
            bind_r (add_request committed msg (r_read_only r)) (\<lambda>ro.
            bind_r (nth_r (m_entries msg) 0) (\<lambda>e.
            ok_with (bcast_heartbeat_with_ctx (e_data e) (r\<lparr>r_read_only := ro\<rparr>))))
        | ReadOnlyLeaseBased \<Rightarrow> ok_with (answer_read committed msg r))
      else
        bind_r (nth_r (m_entries msg) 0) (\<lambda>e.
        Inr (OK, r\<lparr>r_read_states := r_read_states r @ [\<lparr>rst_index = committed, rst_request_ctx = e_data e\<rparr>]\<rparr>)))"

definition leader_app_resp :: "Message \<Rightarrow> Progress \<Rightarrow> Raft \<Rightarrow> fault + (Status \<times> Raft)" where
  "leader_app_resp msg pr r =
     (let from = m_from msg; pr = pr\<lparr>pr_recent_active := True\<rparr> in
      if m_reject msg
      then
        let (dec, pr) = maybe_decreases_to (m_index msg) (m_reject_hint msg) pr in
        if dec
        then ok_with (send_append from
               (put_progress from (if pr_state pr = ProgressStateReplicate then become_probe pr else pr) r))
        else Inr (OK, put_progress from pr r)
      else
        let old_paused = is_paused pr; (upd, pr) = maybe_update (m_index msg) pr in
        if \<not> upd then Inr (OK, put_progress from pr r)
        else
          bind_r (case pr_state pr of
              ProgressStateProbe \<Rightarrow> Inr (become_replicate pr)
            | ProgressStateSnapshot \<Rightarrow> Inr (if need_snapshot_abort pr then become_probe pr else pr)
            | ProgressStateReplicate \<Rightarrow>
                bind_r (inf_free_to (m_index msg) (pr_inflights pr)) (\<lambda>f. Inr (pr\<lparr>pr_inflights := f\<rparr>))) (\<lambda>pr.
          bind_r (maybe_commit (put_progress from pr r)) (\<lambda>(com, r).
          bind_r (if com then bcast_append r else if old_paused then send_append from r else Inr r) (\<lambda>r.
          bind_r (send_append_loop from r) (\<lambda>r.
          bind_r (deref_r (get_progress from r)) (\<lambda>pr.
          if from = r_lead_transferee r \<and> pr_match pr = last_index (r_raft_log r)
          then ok_with (send_timeout_now from r) else Inr (OK, r)))))))"

definition leader_heartbeat_resp :: "Message \<Rightarrow> Progress \<Rightarrow> Raft \<Rightarrow> fault + (Status \<times> Raft)" where
  "leader_heartbeat_resp msg pr r =
     (let from = m_from msg; pr = resume (pr\<lparr>pr_recent_active := True\<rparr>) in
      bind_r (if pr_state pr = ProgressStateReplicate \<and> inf_is_full (pr_inflights pr)
              then bind_r (inf_free_first_one (pr_inflights pr)) (\<lambda>f. Inr (pr\<lparr>pr_inflights := f\<rparr>))
              else Inr pr) (\<lambda>pr.
      let r = put_progress from pr r in
      bind_r (if pr_match pr < last_index (r_raft_log r) then send_append from r else Inr r) (\<lambda>r.
      if ro_option (r_read_only r) \<noteq> ReadOnlySafe \<or> m_context msg = [] then Inr (OK, r)
      else
        let (ack_count, ro) = recv_ack msg (r_read_only r); r = r\<lparr>r_read_only := ro\<rparr> in
        if ack_count < quorum r then Inr (OK, r)
        else
          bind_r (advance msg (r_read_only r)) (\<lambda>(rss, ro).
          ok_with (loop_r (\<lambda>rs. answer_read (ri_index rs) (ri_req rs)) rss (r\<lparr>r_read_only := ro\<rparr>))))))"

definition leader_snap_status :: "Message \<Rightarrow> Progress \<Rightarrow> Raft \<Rightarrow> Raft" where
  "leader_snap_status msg pr r =
     (if pr_state pr \<noteq> ProgressStateSnapshot then r
      else put_progress (m_from msg)
             (set_pause (if \<not> m_reject msg then become_probe pr else become_probe (snapshot_failure pr))) r)"

definition leader_unreachable :: "Message \<Rightarrow> Progress \<Rightarrow> Raft \<Rightarrow> Raft" where
  "leader_unreachable msg pr r =
     (if pr_state pr = ProgressStateReplicate then put_progress (m_from msg) (become_probe pr) r else r)"

definition leader_transfer :: "Message \<Rightarrow> Progress \<Rightarrow> Raft \<Rightarrow> fault + (Status \<times> Raft)" where
  "leader_transfer msg pr r =
     (if pr_is_learner pr then Inr (OK, r)
      else
        let transferee = m_from msg; last_transferee = r_lead_transferee r in
        if last_transferee \<noteq> 0 \<and> last_transferee = transferee then Inr (OK, r)
        else
          let r = (if last_transferee \<noteq> 0 then abort_leader_transfer r else r) in
          if transferee = r_id r then Inr (OK, r)
          else
            let r = r\<lparr>r_election_elapsed := 0, r_lead_transferee := transferee\<rparr> in
            if pr_match pr = last_index (r_raft_log r) then ok_with (send_timeout_now transferee r)
            else ok_with (send_append transferee r))"

definition leader_with_progress :: "Message \<Rightarrow> Raft \<Rightarrow> fault + (Status \<times> Raft)" where
  "leader_with_progress msg r =
     (case get_progress (m_from msg) r of
        None \<Rightarrow> Inr (OK, r)
      | Some pr \<Rightarrow>
          (case m_type msg of
             MsgAppResp \<Rightarrow> leader_app_resp msg pr r
           | MsgHeartbeatResp \<Rightarrow> leader_heartbeat_resp msg pr r
           | MsgSnapStatus \<Rightarrow> Inr (OK, leader_snap_status msg pr r)
           | MsgUnreachable \<Rightarrow> Inr (OK, leader_unreachable msg pr r)
           | MsgTransferLeader \<Rightarrow> leader_transfer msg pr r
           | _ \<Rightarrow> Inr (OK, r)))"

definition step_leader :: "Message \<Rightarrow> Raft \<Rightarrow> fault + (Status \<times> Raft)" where
  "step_leader msg r =
     (case m_type msg of
        MsgBeat \<Rightarrow> ok_with (bcast_heartbeat r)
      | MsgCheckQuorum \<Rightarrow>
          if \<not> check_quorum_active r then ok_with (become_follower (r_term r) 0 r) else Inr (OK, r)
      | MsgProp \<Rightarrow> leader_prop msg r
      | MsgReadIndex \<Rightarrow> leader_read_index msg r
      | _ \<Rightarrow> leader_with_progress msg r)"

section \<open>step and tick\<close>

definition num_of_pending_conf :: "Entry list \<Rightarrow> u32" where
  "num_of_pending_conf entries = of_nat (length (filter (\<lambda>e. e_type e = EntryConfChange) entries))"

definition step_dispatch :: "Message \<Rightarrow> Raft \<Rightarrow> fault + (Status \<times> Raft)" where
  "step_dispatch msg r =
     (case r_step r of
        None \<Rightarrow> Inl (Fatal ''bad_function_call'')
      | Some StepFollower \<Rightarrow> step_follower msg r
      | Some StepCandidate \<Rightarrow> step_candidate msg r
      | Some StepLeader \<Rightarrow> step_leader msg r)"

definition step_hup :: "Raft \<Rightarrow> fault + (Status \<times> Raft)" where
  "step_hup r =
     (if r_state r \<noteq> Leader
      then
        let l = r_raft_log r in
        bind_r (slice (rl_applied l + 1) (rl_committed l + 1) unlimited l) (\<lambda>res.
        case res of
          Inl _ \<Rightarrow> Inl (Fatal ''unexpected error getting unapplied entries'')
        | Inr entries \<Rightarrow>
            if num_of_pending_conf entries > 0 \<and> rl_committed l > rl_applied l then Inr (OK, r)
            else ok_with (campaign (if r_pre_vote r then kCampaignPreElection else kCampaignElection) r))
      else Inr (OK, r))"

definition step_vote :: "Message \<Rightarrow> Raft \<Rightarrow> fault + (Status \<times> Raft)" where
  "step_vote msg r =
     (if r_is_learner r
      then bind_r (last_term (r_raft_log r)) (\<lambda>_. bind_r (msg_type_to_string (m_type msg)) (\<lambda>_. Inr (OK, r)))
      else
        let can_vote = r_vote r = m_from msg \<or> (r_vote r = 0 \<and> r_lead r = 0) \<or>
                       (m_type msg = MsgPreVote \<and> m_term msg > r_term r) in
        bind_r (if can_vote then is_up_to_date (m_index msg) (m_log_term msg) (r_raft_log r) else Inr False) (\<lambda>grant.
        bind_r (last_term (r_raft_log r)) (\<lambda>_.
        bind_r (msg_type_to_string (m_type msg)) (\<lambda>_.
        bind_r (vote_resp_msg_type (m_type msg)) (\<lambda>resp.
        if grant
        then
          bind_r (send (Message_default\<lparr>m_to := m_from msg, m_term := m_term msg, m_type := resp\<rparr>) r) (\<lambda>r.
          Inr (OK, if m_type msg = MsgVote then r\<lparr>r_election_elapsed := 0, r_vote := m_from msg\<rparr> else r))
        else
          ok_with (send (Message_default\<lparr>m_to := m_from msg, m_term := r_term r, m_type := resp,
                           m_reject := True\<rparr>) r))))))"

definition step_current :: "Message \<Rightarrow> Raft \<Rightarrow> fault + (Status \<times> Raft)" where
  "step_current msg r =
     (case m_type msg of
        MsgHup \<Rightarrow> step_hup r
      | MsgVote \<Rightarrow> step_vote msg r
      | MsgPreVote \<Rightarrow> step_vote msg r
      | _ \<Rightarrow> step_dispatch msg r)"

definition in_lease :: "Raft \<Rightarrow> bool" where
  "in_lease r \<longleftrightarrow> r_check_quorum r \<and> r_lead r \<noteq> 0 \<and> r_election_elapsed r < r_election_timeout r"

text \<open>
  A message of a higher term: \<open>None\<close> when a vote request is ignored because the leader's lease
  still runs, otherwise the node at the term it goes on with.
\<close>

definition step_higher_term :: "Message \<Rightarrow> Raft \<Rightarrow> fault + (Raft option)" where
  "step_higher_term msg r =
     (if (m_type msg = MsgVote \<or> m_type msg = MsgPreVote) \<and>
         m_context msg \<noteq> bytes_of_string kCampaignTransfer \<and> in_lease r
      then bind_r (last_term (r_raft_log r)) (\<lambda>_. bind_r (msg_type_to_string (m_type msg)) (\<lambda>_. Inr None))
      else if m_type msg = MsgPreVote \<or> (m_type msg = MsgPreVoteResp \<and> \<not> m_reject msg) then Inr (Some r)
      else
        bind_r (msg_type_to_string (m_type msg)) (\<lambda>_.
        bind_r (become_follower (m_term msg)
                 (if m_type msg = MsgApp \<or> m_type msg = MsgHeartbeat \<or> m_type msg = MsgSnap
                  then m_from msg else 0) r) (\<lambda>r. Inr (Some r))))"

definition step_lower_term :: "Message \<Rightarrow> Raft \<Rightarrow> fault + (Status \<times> Raft)" where
  "step_lower_term msg r =
     (if (r_check_quorum r \<or> r_pre_vote r) \<and> (m_type msg = MsgHeartbeat \<or> m_type msg = MsgApp)
      then ok_with (send (Message_default\<lparr>m_to := m_from msg, m_type := MsgAppResp\<rparr>) r)
      else if m_type msg = MsgPreVote
      then
        bind_r (last_term (r_raft_log r)) (\<lambda>_.
        bind_r (msg_type_to_string (m_type msg)) (\<lambda>_.
        ok_with (send (Message_default\<lparr>m_to := m_from msg, m_type := MsgPreVoteResp, m_reject := True,
                         m_term := r_term r\<rparr>) r)))
      else bind_r (msg_type_to_string (m_type msg)) (\<lambda>_. Inr (OK, r)))"

definition step :: "Message \<Rightarrow> Raft \<Rightarrow> fault + (Status \<times> Raft)" where
  "step msg r =
     (if m_term msg = 0 then step_current msg r
      else if m_term msg > r_term r
      then
        bind_r (step_higher_term msg r) (\<lambda>res.
        case res of None \<Rightarrow> Inr (OK, r) | Some r \<Rightarrow> step_current msg r)
      else if m_term msg < r_term r then step_lower_term msg r
      else step_current msg r)"

definition tick_election :: "Raft \<Rightarrow> fault + Raft" where
  "tick_election r =
     (let r = r\<lparr>r_election_elapsed := r_election_elapsed r + 1\<rparr> in
      if promotable r \<and> past_election_timeout r
      then bind_r (step (Message_default\<lparr>m_from := r_id r, m_type := MsgHup\<rparr>) (r\<lparr>r_election_elapsed := 0\<rparr>))
             (\<lambda>(_, r). Inr r)
      else Inr r)"

text \<open>The two halves of \<^verbatim>\<open>tick_heartbeat\<close>: the election timer of a leader, then the heartbeat timer.\<close>

definition tick_check_quorum :: "Raft \<Rightarrow> fault + Raft" where
  "tick_check_quorum r =
     (if r_election_elapsed r \<ge> r_election_timeout r
      then
        let r = r\<lparr>r_election_elapsed := 0\<rparr> in
        bind_r (if r_check_quorum r
                then bind_r (step (Message_default\<lparr>m_from := r_id r, m_type := MsgCheckQuorum\<rparr>) r) (\<lambda>(_, r). Inr r)
                else Inr r) (\<lambda>r.
        Inr (if r_state r = Leader \<and> r_lead_transferee r \<noteq> 0 then abort_leader_transfer r else r))
      else Inr r)"

definition tick_beat :: "Raft \<Rightarrow> fault + Raft" where
  "tick_beat r =
     (if r_state r \<noteq> Leader then Inr r
      else if r_heartbeat_elapsed r \<ge> r_heartbeat_timeout r
      then bind_r (step (Message_default\<lparr>m_from := r_id r, m_type := MsgBeat\<rparr>) (r\<lparr>r_heartbeat_elapsed := 0\<rparr>))
             (\<lambda>(_, r). Inr r)
      else Inr r)"

definition tick_heartbeat :: "Raft \<Rightarrow> fault + Raft" where
  "tick_heartbeat r =
     bind_r (tick_check_quorum (r\<lparr>r_heartbeat_elapsed := r_heartbeat_elapsed r + 1,
                                   r_election_elapsed := r_election_elapsed r + 1\<rparr>)) tick_beat"

definition tick :: "Raft \<Rightarrow> fault + Raft" where
  "tick r =
     (case r_tick r of
        None \<Rightarrow> Inr r
      | Some TickElection \<Rightarrow> tick_election r
      | Some TickHeartbeat \<Rightarrow> tick_heartbeat r)"

section \<open>Membership and construction\<close>

text \<open>The tail of \<^verbatim>\<open>add_node_or_learner\<close>: a node that was just added counts as recently active.\<close>

definition mark_added :: "u64 \<Rightarrow> bool \<Rightarrow> Raft \<Rightarrow> fault + Raft" where
  "mark_added nid is_learner r =
     (let r = (if r_id r = nid then r\<lparr>r_is_learner := is_learner\<rparr> else r) in
      bind_r (deref_r (get_progress nid r)) (\<lambda>pr.
      Inr (put_progress nid (pr\<lparr>pr_recent_active := True\<rparr>) r)))"

definition add_node_or_learner :: "u64 \<Rightarrow> bool \<Rightarrow> Raft \<Rightarrow> fault + Raft" where
  "add_node_or_learner nid is_learner r =
     (case get_progress nid r of
        None \<Rightarrow> bind_r (set_progress nid 0 (last_index (r_raft_log r) + 1) is_learner r) (mark_added nid is_learner)
      | Some pr \<Rightarrow>
          if is_learner \<and> \<not> pr_is_learner pr then Inr r
          else if is_learner = pr_is_learner pr then Inr r
          else mark_added nid is_learner
                 (r\<lparr>r_learner_prs := AList.delete nid (r_learner_prs r),
                    r_prs := AList.update nid (pr\<lparr>pr_is_learner := False\<rparr>) (r_prs r)\<rparr>))"

definition add_node :: "u64 \<Rightarrow> Raft \<Rightarrow> fault + Raft" where
  "add_node nid r = add_node_or_learner nid False r"

definition remove_node :: "u64 \<Rightarrow> Raft \<Rightarrow> fault + Raft" where
  "remove_node nid r =
     (let r = del_progress nid r in
      if r_prs r = [] \<and> r_learner_prs r = [] then Inr r
      else
        bind_r (maybe_commit r) (\<lambda>(com, r).
        bind_r (if com then bcast_append r else Inr r) (\<lambda>r.
        Inr (if r_state r = Leader \<and> r_lead_transferee r = nid then abort_leader_transfer r else r))))"

definition init_peer :: "u64 \<Rightarrow> Raft \<Rightarrow> fault + Raft" where
  "init_peer peer r =
     Inr (r\<lparr>r_prs := AList.update peer ((Progress_new (r_max_inflight r))\<lparr>pr_next := 1\<rparr>) (r_prs r)\<rparr>)"

definition init_learner :: "u64 \<Rightarrow> Raft \<Rightarrow> fault + Raft" where
  "init_learner learner r =
     (if map_of (r_prs r) learner \<noteq> None then Inl (Fatal ''node is in both learner and peer list'')
      else
        let r = r\<lparr>r_learner_prs := AList.update learner
                    ((Progress_new (r_max_inflight r))\<lparr>pr_next := 1, pr_is_learner := True\<rparr>) (r_learner_prs r)\<rparr>
        in Inr (if r_id r = learner then r\<lparr>r_is_learner := True\<rparr> else r))"

text \<open>The initialiser list of the constructor; \<open>seq\<close> are the numbers of the random device.\<close>

definition Raft_init :: "Config \<Rightarrow> MemoryStorage \<Rightarrow> (nat \<Rightarrow> u32) \<Rightarrow> Raft" where
  "Raft_init c storage seq =
     \<lparr>r_id = c_id c, r_term = 0, r_vote = 0, r_read_states = [],
      r_raft_log = RaftLog_new storage (c_max_committed_size_per_ready c),
      r_max_msg_size = c_max_size_per_msg c, r_max_uncommitted_size = c_max_uncommitted_entries_size c,
      r_max_inflight = c_max_inflight_msgs c, r_prs = [], r_learner_prs = [], r_match_buf = [],
      r_state = Follower, r_is_learner = False, r_votes = [], r_msgs = [], r_lead = 0,
      r_lead_transferee = 0, r_pending_conf_index = 0, r_uncommitted_size = 0,
      r_read_only = ReadOnly_new (c_read_only_option c), r_election_elapsed = 0, r_heartbeat_elapsed = 0,
      r_check_quorum = c_check_quorum c, r_pre_vote = c_pre_vote c, r_heartbeat_timeout = c_heartbeat_tick c,
      r_election_timeout = c_election_tick c, r_randomized_election_timeout = 0,
      r_disable_proposal_forwarding = c_disable_proposal_forwarding c, r_tick = None, r_step = None,
      r_random_device = \<lparr>rd_min = 0, rd_max = c_election_tick c, rd_seq = seq, rd_pos = 0\<rparr>\<rparr>"

definition Raft_new :: "Config \<Rightarrow> (nat \<Rightarrow> u32) \<Rightarrow> fault + Raft" where
  "Raft_new c seq =
     bind_r (deref_r (c_storage c)) (\<lambda>storage.
     let r = Raft_init c storage seq; (hs, cs) = ms_initial_state storage in
     bind_r (if cs_nodes cs \<noteq> [] \<or> cs_learners cs \<noteq> []
             then if c_peers c \<noteq> [] \<or> c_learners c \<noteq> []
                  then Inl (Fatal ''cannot specify both newRaft(peers, learners) and ConfState.(Nodes, Learners)'')
                  else Inr (cs_nodes cs, cs_learners cs)
             else Inr (c_peers c, c_learners c)) (\<lambda>(peers, learners).
     bind_r (loop_r init_peer peers r) (\<lambda>r.
     bind_r (loop_r init_learner learners r) (\<lambda>r.
     bind_r (if \<not> is_empty_state hs then load_state hs r else Inr r) (\<lambda>r.
     let r = (if c_applied c > 0 then r\<lparr>r_raft_log := applied_to (c_applied c) (r_raft_log r)\<rparr> else r) in
     bind_r (become_follower (r_term r) 0 r) (\<lambda>r.
     bind_r (last_term (r_raft_log r)) (\<lambda>_. Inr r)))))))"

end
