(* ===== verification/Quorum.thy ===== *)
theory Quorum
  imports Kv_Prelude
begin

text \<open>
  Majorities. The first part is the arithmetic behind \<^verbatim>\<open>Raft::maybe_commit\<close>: the element at position
  \<open>n - q\<close> of a sorted list is the greatest value that at least \<open>q\<close> elements reach. The second part
  states what elections rely on as a locale, the intersection of any two quorums, and gives it for
  majorities of a member list.
\<close>

section \<open>Order statistics\<close>

lemma length_filter_take_drop: "length (filter P xs) = length (filter P (take i xs)) + length (filter P (drop i xs))"
  by (metis append_take_drop_id filter_append length_append)

lemma sorted_reach:
  fixes xs :: "'a::linorder list"
  assumes "sorted xs" and "i < length xs"
  shows "length xs - i \<le> length (filter (\<lambda>x. w \<le> x) xs) \<longleftrightarrow> w \<le> xs ! i"
proof
  assume w: "w \<le> xs ! i"
  have "w \<le> x" if "x \<in> set (drop i xs)" for x
  proof -
    from that obtain j where "j < length xs - i" "x = xs ! (i + j)" by (auto simp: in_set_conv_nth)
    then have "xs ! i \<le> x" using assms(1) by (auto intro: sorted_nth_mono)
    with w show ?thesis by simp
  qed
  then have "filter (\<lambda>x. w \<le> x) (drop i xs) = drop i xs" by simp
  then show "length xs - i \<le> length (filter (\<lambda>x. w \<le> x) xs)"
    using length_filter_take_drop [of "\<lambda>x. w \<le> x" xs i] by simp
next
  assume a: "length xs - i \<le> length (filter (\<lambda>x. w \<le> x) xs)"
  show "w \<le> xs ! i"
  proof (rule ccontr)
    assume n: "\<not> w \<le> xs ! i"
    have "\<not> w \<le> x" if "x \<in> set (take (Suc i) xs)" for x
    proof -
      from that obtain j where "j \<le> i" "x = xs ! j" by (auto simp: in_set_conv_nth less_Suc_eq_le)
      then have "x \<le> xs ! i" using assms by (auto intro: sorted_nth_mono)
      with n show ?thesis by auto
    qed
    then have "filter (\<lambda>x. w \<le> x) (take (Suc i) xs) = []" by (simp add: filter_empty_conv)
    then have "length (filter (\<lambda>x. w \<le> x) xs) \<le> length xs - Suc i"
      using length_filter_take_drop [of "\<lambda>x. w \<le> x" xs "Suc i"] length_filter_le [of _ "drop (Suc i) xs"] by simp
    with a assms(2) show False by simp
  qed
qed

lemma length_filter_sort: "length (filter P (sort xs)) = length (filter P xs)"
  by (simp add: filter_sort)

section \<open>Quorum systems\<close>

text \<open>Any two quorums of the same members have a member in common.\<close>

locale quorum_system =
  fixes members :: "'c \<Rightarrow> 'n set" and is_quorum :: "'c \<Rightarrow> 'n set \<Rightarrow> bool"
  assumes quorum_members: "is_quorum c Q \<Longrightarrow> Q \<subseteq> members c"
    and quorum_overlap: "is_quorum c Q \<Longrightarrow> is_quorum c Q' \<Longrightarrow> Q \<inter> Q' \<noteq> {}"
begin

text \<open>If everybody has one vote, two candidates cannot both collect a quorum.\<close>

lemma one_winner:
  assumes "is_quorum c Q" and "is_quorum c Q'" and "\<And>n. n \<in> Q \<Longrightarrow> vote n = a" and "\<And>n. n \<in> Q' \<Longrightarrow> vote n = b"
  shows "a = b"
  using quorum_overlap [OF assms(1,2)] assms(3,4) by blast

text \<open>What a quorum knows, every other quorum has a member that knows it.\<close>

lemma quorum_hears:
  assumes "is_quorum c Q" and "is_quorum c Q'" and "\<And>n. n \<in> Q \<Longrightarrow> P n"
  obtains n where "n \<in> Q'" and "P n"
  using quorum_overlap [OF assms(1,2)] assms(3) by blast

end

definition majority :: "'n list \<Rightarrow> 'n set \<Rightarrow> bool" where
  "majority ns Q \<longleftrightarrow> distinct ns \<and> Q \<subseteq> set ns \<and> length ns div 2 + 1 \<le> card Q"

lemma majority_overlap:
  assumes "majority ns Q" and "majority ns Q'"
  shows "Q \<inter> Q' \<noteq> {}"
proof
  assume e: "Q \<inter> Q' = {}"
  have fin: "finite Q" "finite Q'" using assms by (auto simp: majority_def intro: finite_subset)
  have "card (Q \<union> Q') = card Q + card Q'" using fin e by (rule card_Un_disjoint)
  moreover have "card (Q \<union> Q') \<le> card (set ns)" using assms by (intro card_mono) (auto simp: majority_def)
  moreover have "card (set ns) = length ns" using assms(1) by (simp add: majority_def distinct_card)
  moreover have "length ns div 2 + 1 \<le> card Q" "length ns div 2 + 1 \<le> card Q'" using assms by (simp_all add: majority_def)
  ultimately show False by linarith
qed

interpretation majorities: quorum_system set majority
  by unfold_locales (use majority_overlap in \<open>auto simp: majority_def\<close>)

end
