(* ===== verification/Protocol.thy ===== *)
theory Protocol
  imports Raft Quorum
begin

text \<open>
  The protocol the class \<^verbatim>\<open>Raft\<close> implements, as an abstract specification: a node is its term, vote,
  role, log, commit and applied position, a message is what it promises, and a step is one action of one node.
  Progress, flow control, timers, read requests and the representation of the log do not appear. The
  state also carries a history (who voted for whom, the log of each candidate and of each leader, who
  acknowledged what), which no action looks at.
\<close>

section \<open>Logs\<close>

text \<open>The term of position \<open>k\<close>; positions count from 1, and outside of the log the term is 0.\<close>

definition tm :: "Entry list \<Rightarrow> nat \<Rightarrow> u64" where
  "tm g k = (if 0 < k \<and> k \<le> length g then e_term (g ! (k - 1)) else 0)"

lemma tm_0 [simp]: "tm g 0 = 0"
  by (simp add: tm_def)

lemma tm_take: "k \<le> m \<Longrightarrow> tm (take m g) k = tm g k"
  by (auto simp: tm_def)

lemma tm_append: "k \<le> length g \<Longrightarrow> tm (g @ h) k = tm g k"
  by (auto simp: tm_def nth_append)

lemma tm_append_new: "length g < k \<Longrightarrow> k \<le> length g + length h \<Longrightarrow> tm (g @ h) k = e_term (h ! (k - length g - 1))"
  by (auto simp: tm_def nth_append)

lemma tm_mem: "0 < k \<Longrightarrow> k \<le> length g \<Longrightarrow> \<exists>e \<in> set g. e_term e = tm g k"
  by (intro bexI [of _ "g ! (k - 1)"]) (auto simp: tm_def)

lemma tm_cong: "take k g = take k h \<Longrightarrow> j \<le> k \<Longrightarrow> tm g j = tm h j"
  using tm_take [of j k g] tm_take [of j k h] by simp

lemma take_shorter: "take k g = take k h \<Longrightarrow> j \<le> k \<Longrightarrow> take j g = take j h"
  by (metis min.absorb1 take_take)

lemma take_eq_length: "take k g = take k h \<Longrightarrow> k \<le> length h \<Longrightarrow> k \<le> length g"
  by (metis length_take min.absorb_iff2)

lemma take_eq_append: "k \<le> length g \<Longrightarrow> take k (g @ h) = take k g"
  by simp

definition terms_sorted :: "Entry list \<Rightarrow> bool" where
  "terms_sorted g \<longleftrightarrow> sorted (map e_term g)"

lemma tm_mono: "terms_sorted g \<Longrightarrow> j \<le> k \<Longrightarrow> k \<le> length g \<Longrightarrow> tm g j \<le> tm g k"
  by (cases "j = 0") (auto simp: terms_sorted_def tm_def intro!: sorted_nth_mono [of "map e_term g" "j - 1" "k - 1", simplified])

lemma terms_sorted_take: "terms_sorted g \<Longrightarrow> terms_sorted (take m g)"
  by (simp add: terms_sorted_def sorted_wrt_take flip: take_map)

lemma terms_sorted_append:
  "terms_sorted g \<Longrightarrow> (\<forall>e \<in> set g. e_term e \<le> t) \<Longrightarrow> (\<forall>e \<in> set h. e_term e = t) \<Longrightarrow> terms_sorted (g @ h)"
proof -
  assume g: "terms_sorted g" "\<forall>e \<in> set g. e_term e \<le> t" and h: "\<forall>e \<in> set h. e_term e = t"
  have "map e_term h = replicate (length h) t" using h by (induction h) auto
  then show ?thesis using g by (auto simp: terms_sorted_def sorted_append)
qed

text \<open>
  What a follower makes of its log when it accepts the entries of \<open>g\<close> after position \<open>n\<close>: nothing if
  it has them all, otherwise everything from the first position that differs is replaced.
\<close>

definition agreed :: "Entry list \<Rightarrow> nat \<Rightarrow> Entry list \<Rightarrow> nat" where
  "agreed lg n g = n + length (takeWhile (\<lambda>k. k \<le> length lg \<and> tm lg k = tm g k) [Suc n..<Suc (length g)])"

definition merge :: "Entry list \<Rightarrow> nat \<Rightarrow> Entry list \<Rightarrow> Entry list" where
  "merge lg n g = (if agreed lg n g = length g then lg else take (agreed lg n g) lg @ drop (agreed lg n g) g)"

lemma agreed_le: "n \<le> length g \<Longrightarrow> agreed lg n g \<le> length g"
  using length_takeWhile_le [of "\<lambda>k. k \<le> length lg \<and> tm lg k = tm g k" "[Suc n..<Suc (length g)]"]
  by (simp add: agreed_def del: upt_Suc)

lemma agreed_same:
  assumes "n < k" and "k \<le> agreed lg n g"
  shows "k \<le> length lg \<and> tm lg k = tm g k"
proof -
  let ?P = "\<lambda>k. k \<le> length lg \<and> tm lg k = tm g k" and ?xs = "[Suc n..<Suc (length g)]"
  have "k - Suc n < length (takeWhile ?P ?xs)" using assms by (auto simp: agreed_def simp del: upt_Suc)
  then have "?P (takeWhile ?P ?xs ! (k - Suc n))" using set_takeWhileD [of _ ?P ?xs] nth_mem by blast
  moreover have "takeWhile ?P ?xs ! (k - Suc n) = ?xs ! (k - Suc n)"
    using \<open>k - Suc n < _\<close> by (rule takeWhile_nth)
  moreover have "k - Suc n < length ?xs"
    using \<open>k - Suc n < _\<close> length_takeWhile_le [of ?P ?xs] by linarith
  ultimately show ?thesis using assms(1) by (simp del: upt_Suc)
qed

lemma agreed_stop:
  assumes "n \<le> length g" and "agreed lg n g < length g" and "Suc (agreed lg n g) \<le> length lg"
  shows "tm lg (Suc (agreed lg n g)) \<noteq> tm g (Suc (agreed lg n g))"
proof -
  let ?P = "\<lambda>k. k \<le> length lg \<and> tm lg k = tm g k" and ?xs = "[Suc n..<Suc (length g)]"
  let ?m = "length (takeWhile ?P ?xs)"
  have m: "?m < length ?xs" using assms(1,2) by (simp add: agreed_def del: upt_Suc)
  have "\<not> ?P (?xs ! ?m)" by (rule nth_length_takeWhile [OF m])
  moreover have "?xs ! ?m = Suc (agreed lg n g)" using m by (simp add: agreed_def del: upt_Suc)
  ultimately show ?thesis using assms(3) by simp
qed

section \<open>State\<close>

record pnode =
  pn_term :: u64
  pn_vote :: u64
  pn_role :: RaftState
  pn_votes :: "u64 set"
  pn_match :: "u64 \<Rightarrow> nat"
  pn_log :: "Entry list"
  pn_commit :: nat
  pn_applied :: nat

text \<open>
  A vote request (term, candidate, last position, its term), a granted vote (term, voter, candidate),
  entries of a leader (term, its log up to the last entry sent, the position before the first one, the
  commit position), an acknowledgement (term, sender, position), a heartbeat (term, receiver, commit).
\<close>

datatype pmsg =
    VoteReq u64 u64 nat u64
  | VoteOk u64 u64 u64
  | App u64 "Entry list" nat nat
  | Ack u64 u64 nat
  | Beat u64 u64 nat

record world =
  w_node :: "u64 \<Rightarrow> pnode"
  w_msgs :: "pmsg set"
  w_vote :: "u64 \<Rightarrow> u64 \<Rightarrow> u64"
  w_cand :: "u64 \<Rightarrow> u64 \<Rightarrow> Entry list option"
  w_lead :: "u64 \<Rightarrow> (u64 \<times> Entry list) option"
  w_ack :: "(u64 \<times> u64 \<times> nat) set"

abbreviation nterm :: "world \<Rightarrow> u64 \<Rightarrow> u64" where
  "nterm w i \<equiv> pn_term (w_node w i)"

abbreviation nlog :: "world \<Rightarrow> u64 \<Rightarrow> Entry list" where
  "nlog w i \<equiv> pn_log (w_node w i)"

definition put :: "u64 \<Rightarrow> pnode \<Rightarrow> world \<Rightarrow> world" where
  "put i p w = w\<lparr>w_node := (w_node w)(i := p)\<rparr>"

definition tell :: "pmsg \<Rightarrow> world \<Rightarrow> world" where
  "tell m w = w\<lparr>w_msgs := insert m (w_msgs w)\<rparr>"

definition ack :: "u64 \<Rightarrow> u64 \<Rightarrow> nat \<Rightarrow> world \<Rightarrow> world" where
  "ack v t k w = w\<lparr>w_ack := insert (v, t, k) (w_ack w)\<rparr>"

definition voted :: "u64 \<Rightarrow> u64 \<Rightarrow> u64 \<Rightarrow> world \<Rightarrow> world" where
  "voted v t c w = w\<lparr>w_vote := (w_vote w)(v := (w_vote w v)(t := c))\<rparr>"

definition stands :: "u64 \<Rightarrow> u64 \<Rightarrow> Entry list \<Rightarrow> world \<Rightarrow> world" where
  "stands t c g w = w\<lparr>w_cand := (w_cand w)(t := (w_cand w t)(c \<mapsto> g))\<rparr>"

definition leads :: "u64 \<Rightarrow> u64 \<Rightarrow> Entry list \<Rightarrow> world \<Rightarrow> world" where
  "leads t i g w = w\<lparr>w_lead := (w_lead w)(t \<mapsto> (i, g))\<rparr>"

lemma world_simps [simp]:
  "w_node (put i p w) = (w_node w)(i := p)" "w_msgs (put i p w) = w_msgs w" "w_vote (put i p w) = w_vote w"
  "w_cand (put i p w) = w_cand w" "w_lead (put i p w) = w_lead w" "w_ack (put i p w) = w_ack w"
  "w_node (tell m w) = w_node w" "w_msgs (tell m w) = insert m (w_msgs w)" "w_vote (tell m w) = w_vote w"
  "w_cand (tell m w) = w_cand w" "w_lead (tell m w) = w_lead w" "w_ack (tell m w) = w_ack w"
  "w_node (ack v t k w) = w_node w" "w_msgs (ack v t k w) = w_msgs w" "w_vote (ack v t k w) = w_vote w"
  "w_cand (ack v t k w) = w_cand w" "w_lead (ack v t k w) = w_lead w" "w_ack (ack v t k w) = insert (v, t, k) (w_ack w)"
  "w_node (voted v t c w) = w_node w" "w_msgs (voted v t c w) = w_msgs w"
  "w_vote (voted v t c w) = (w_vote w)(v := (w_vote w v)(t := c))"
  "w_cand (voted v t c w) = w_cand w" "w_lead (voted v t c w) = w_lead w" "w_ack (voted v t c w) = w_ack w"
  "w_node (stands t c g w) = w_node w" "w_msgs (stands t c g w) = w_msgs w" "w_vote (stands t c g w) = w_vote w"
  "w_cand (stands t c g w) = (w_cand w)(t := (w_cand w t)(c \<mapsto> g))" "w_lead (stands t c g w) = w_lead w"
  "w_ack (stands t c g w) = w_ack w"
  "w_node (leads t i g w) = w_node w" "w_msgs (leads t i g w) = w_msgs w" "w_vote (leads t i g w) = w_vote w"
  "w_cand (leads t i g w) = w_cand w" "w_lead (leads t i g w) = (w_lead w)(t \<mapsto> (i, g))" "w_ack (leads t i g w) = w_ack w"
  by (simp_all add: put_def tell_def ack_def voted_def stands_def leads_def)

section \<open>Actions\<close>

definition at_least_as_new :: "nat \<Rightarrow> u64 \<Rightarrow> Entry list \<Rightarrow> bool" where
  "at_least_as_new li lt g \<longleftrightarrow> tm g (length g) < lt \<or> lt = tm g (length g) \<and> length g \<le> li"

inductive pstep :: "u64 list \<Rightarrow> u64 \<Rightarrow> world \<Rightarrow> world \<Rightarrow> bool" for ns :: "u64 list" and i :: u64 where
  new_term: "p = w_node w i \<Longrightarrow> pn_term p < t \<Longrightarrow>
    pstep ns i w (put i (p\<lparr>pn_term := t, pn_vote := 0, pn_role := Follower\<rparr>) w)"
| step_down: "p = w_node w i \<Longrightarrow> pstep ns i w (put i (p\<lparr>pn_role := Follower\<rparr>) w)"
| campaign: "p = w_node w i \<Longrightarrow> pn_term p < t \<Longrightarrow>
    pstep ns i w (stands t i (pn_log p) (voted i t i
      (put i (p\<lparr>pn_term := t, pn_vote := i, pn_role := Candidate, pn_votes := {}\<rparr>) w)))"
| tally: "p = w_node w i \<Longrightarrow> pn_role p = Candidate \<Longrightarrow> v = i \<or> VoteOk (pn_term p) v i \<in> w_msgs w \<Longrightarrow>
    pstep ns i w (put i (p\<lparr>pn_votes := insert v (pn_votes p)\<rparr>) w)"
| ask: "p = w_node w i \<Longrightarrow> pn_role p = Candidate \<Longrightarrow>
    pstep ns i w (tell (VoteReq (pn_term p) i (length (pn_log p)) (tm (pn_log p) (length (pn_log p)))) w)"
| win: "p = w_node w i \<Longrightarrow> pn_role p = Candidate \<Longrightarrow> majority ns (pn_votes p) \<Longrightarrow>
    pstep ns i w (ack i (pn_term p) (length (pn_log p)) (leads (pn_term p) i (pn_log p)
      (put i (p\<lparr>pn_role := Leader, pn_match := (\<lambda>v. if v = i then length (pn_log p) else 0)\<rparr>) w)))"
| propose: "p = w_node w i \<Longrightarrow> pn_role p = Leader \<Longrightarrow> \<forall>e \<in> set es. e_term e = pn_term p \<Longrightarrow> g = pn_log p @ es \<Longrightarrow>
    pstep ns i w (ack i (pn_term p) (length g) (leads (pn_term p) i g
      (put i (p\<lparr>pn_log := g, pn_match := (pn_match p)(i := length g)\<rparr>) w)))"
| hear: "p = w_node w i \<Longrightarrow> pn_role p = Leader \<Longrightarrow> Ack (pn_term p) v k \<in> w_msgs w \<Longrightarrow>
    pstep ns i w (put i (p\<lparr>pn_match := (pn_match p)(v := max (pn_match p v) k)\<rparr>) w)"
| commit: "p = w_node w i \<Longrightarrow> pn_role p = Leader \<Longrightarrow> pn_commit p \<le> k \<Longrightarrow> k \<le> length (pn_log p) \<Longrightarrow>
    tm (pn_log p) k = pn_term p \<Longrightarrow> majority ns {v \<in> set ns. k \<le> pn_match p v} \<Longrightarrow>
    pstep ns i w (put i (p\<lparr>pn_commit := k\<rparr>) w)"
| send: "p = w_node w i \<Longrightarrow> pn_role p = Leader \<Longrightarrow> n \<le> m \<Longrightarrow> m \<le> length (pn_log p) \<Longrightarrow>
    pstep ns i w (tell (App (pn_term p) (take m (pn_log p)) n (pn_commit p)) w)"
| beat: "p = w_node w i \<Longrightarrow> pn_role p = Leader \<Longrightarrow>
    pstep ns i w (tell (Beat (pn_term p) v (min (pn_match p v) (pn_commit p))) w)"
| accept: "p = w_node w i \<Longrightarrow> pn_role p = Follower \<Longrightarrow> App (pn_term p) g n c \<in> w_msgs w \<Longrightarrow>
    n \<le> length (pn_log p) \<Longrightarrow> tm (pn_log p) n = tm g n \<Longrightarrow>
    pstep ns i w (tell (Ack (pn_term p) i (length g)) (ack i (pn_term p) (length g)
      (put i (p\<lparr>pn_log := merge (pn_log p) n g, pn_commit := max (pn_commit p) (min c (length g))\<rparr>) w)))"
| stale: "p = w_node w i \<Longrightarrow> pn_role p = Follower \<Longrightarrow> App (pn_term p) g n c \<in> w_msgs w \<Longrightarrow> n < pn_commit p \<Longrightarrow>
    pstep ns i w (tell (Ack (pn_term p) i (pn_commit p)) (ack i (pn_term p) (pn_commit p) w))"
| heed: "p = w_node w i \<Longrightarrow> pn_role p = Follower \<Longrightarrow> Beat (pn_term p) i c \<in> w_msgs w \<Longrightarrow> c \<le> length (pn_log p) \<Longrightarrow>
    pstep ns i w (put i (p\<lparr>pn_commit := max (pn_commit p) c\<rparr>) w)"
| grant: "p = w_node w i \<Longrightarrow> VoteReq (pn_term p) c li lt \<in> w_msgs w \<Longrightarrow> pn_vote p = 0 \<or> pn_vote p = c \<Longrightarrow>
    at_least_as_new li lt (pn_log p) \<Longrightarrow>
    pstep ns i w (tell (VoteOk (pn_term p) i c) (voted i (pn_term p) c (put i (p\<lparr>pn_vote := c\<rparr>) w)))"

| apply_entries: "p = w_node w i \<Longrightarrow> pn_applied p \<le> k \<Longrightarrow> k \<le> pn_commit p \<Longrightarrow>
    pstep ns i w (put i (p\<lparr>pn_applied := k\<rparr>) w)"

inductive_cases pstepE: "pstep ns i w w'"

end
