(* ===== verification/Protocol_Safety.thy ===== *)
theory Protocol_Safety
  imports Protocol
begin

text \<open>
  Safety of the abstract protocol. The invariant says, for every term, which log prefixes may still be
  acknowledged by a majority; logs of later leaders contain all of them. From it follow that logs which
  agree on the term of a position agree up to it, that a leader has everything committed before, and
  that committed prefixes never differ.
\<close>

section \<open>What may still be chosen\<close>

definition acked :: "world \<Rightarrow> u64 \<Rightarrow> u64 \<Rightarrow> nat \<Rightarrow> bool" where
  "acked w v t k \<longleftrightarrow> (\<exists>k' \<ge> k. (v, t, k') \<in> w_ack w)"

text \<open>Position \<open>k\<close> of the leader of \<open>t\<close> is acknowledged by a majority, or may still be.\<close>

definition choosable :: "u64 list \<Rightarrow> world \<Rightarrow> u64 \<Rightarrow> nat \<Rightarrow> bool" where
  "choosable ns w t k \<longleftrightarrow> (\<exists>Q. majority ns Q \<and> (\<forall>v \<in> Q. acked w v t k \<or> nterm w v \<le> t))"

definition leader_log :: "world \<Rightarrow> u64 \<Rightarrow> Entry list \<Rightarrow> bool" where
  "leader_log w t h \<longleftrightarrow> (\<exists>l. w_lead w t = Some (l, h))"

definition pending :: "u64 list \<Rightarrow> world \<Rightarrow> u64 \<Rightarrow> nat \<Rightarrow> Entry list \<Rightarrow> bool" where
  "pending ns w t k h \<longleftrightarrow> leader_log w t h \<and> k \<le> length h \<and> tm h k = t \<and> choosable ns w t k"

definition chosen :: "u64 list \<Rightarrow> world \<Rightarrow> u64 \<Rightarrow> nat \<Rightarrow> Entry list \<Rightarrow> bool" where
  "chosen ns w t k h \<longleftrightarrow> leader_log w t h \<and> k \<le> length h \<and> tm h k = t \<and>
     (\<exists>Q. majority ns Q \<and> (\<forall>v \<in> Q. acked w v t k))"

text \<open>The first \<open>c\<close> entries of \<open>g\<close> have been chosen, in term \<open>t\<close> at the latest.\<close>

definition settled :: "u64 list \<Rightarrow> world \<Rightarrow> u64 \<Rightarrow> Entry list \<Rightarrow> nat \<Rightarrow> bool" where
  "settled ns w t g c \<longleftrightarrow> (\<exists>u \<le> t. \<exists>k h. chosen ns w u k h \<and> c \<le> k \<and> take c g = take c h)"

text \<open>Every prefix of \<open>g\<close> is a prefix of the log of the leader of its last term.\<close>

definition traced :: "world \<Rightarrow> Entry list \<Rightarrow> bool" where
  "traced w g \<longleftrightarrow> (\<forall>k. 0 < k \<longrightarrow> k \<le> length g \<longrightarrow>
     (\<exists>h. leader_log w (tm g k) h \<and> k \<le> length h \<and> take k g = take k h))"

definition good_log :: "world \<Rightarrow> u64 \<Rightarrow> Entry list \<Rightarrow> bool" where
  "good_log w t g \<longleftrightarrow> traced w g \<and> terms_sorted g \<and> (\<forall>e \<in> set g. e_term e \<le> t)"

lemma chosen_pending: "chosen ns w t k h \<Longrightarrow> pending ns w t k h"
  by (auto simp: chosen_def pending_def choosable_def)

lemma leader_log_unique: "leader_log w t g \<Longrightarrow> leader_log w t h \<Longrightarrow> g = h"
  by (auto simp: leader_log_def)

lemma tracedE:
  assumes "traced w g" and "0 < k" and "k \<le> length g"
  obtains h where "leader_log w (tm g k) h" and "k \<le> length h" and "take k g = take k h"
  using assms by (auto simp: traced_def)

lemma traced_match:
  assumes "traced w g" and "traced w g'" and "k \<le> length g" and "k \<le> length g'" and "tm g k = tm g' k"
  shows "take k g = take k g'"
proof (cases "k = 0")
  case False
  then have k: "0 < k" by simp
  obtain h where "leader_log w (tm g k) h" "take k g = take k h" using assms(1) k assms(3) by (rule tracedE)
  moreover obtain h' where "leader_log w (tm g' k) h'" "take k g' = take k h'" using assms(2) k assms(4) by (rule tracedE)
  ultimately show ?thesis using assms(5) leader_log_unique by metis
qed simp

lemma traced_take: "traced w g \<Longrightarrow> traced w (take m g)"
  by (auto simp: traced_def tm_take min_def split: if_splits)

lemma good_log_take: "good_log w t g \<Longrightarrow> good_log w t (take m g)"
  by (auto simp: good_log_def traced_take terms_sorted_take dest: in_set_takeD)

lemma good_log_tm: "good_log w t g \<Longrightarrow> k \<le> length g \<Longrightarrow> tm g k \<le> t"
  using tm_mem [of k g] by (cases "k = 0") (auto simp: good_log_def)

lemma settled_shorter: "settled ns w t g c \<Longrightarrow> c' \<le> c \<Longrightarrow> settled ns w t g c'"
  unfolding settled_def using take_shorter by (meson order_trans)

lemma settled_cong: "settled ns w t g c \<Longrightarrow> take c g' = take c g \<Longrightarrow> settled ns w t g' c"
  by (simp add: settled_def)

section \<open>Accepting entries\<close>

lemma merge_cases:
  assumes "traced w lg" and "traced w g" and "n \<le> length lg" and "n \<le> length g" and "tm lg n = tm g n"
  obtains (keep) "merge lg n g = lg" and "take (length g) lg = g"
    | (replace) p where "merge lg n g = g" and "p < length g" and "take p lg = take p g"
        and "Suc p \<le> length lg \<Longrightarrow> tm lg (Suc p) \<noteq> tm g (Suc p)"
proof -
  let ?p = "agreed lg n g"
  have le: "?p \<le> length g" using assms(4) by (rule agreed_le)
  have p: "?p \<le> length lg \<and> tm lg ?p = tm g ?p"
  proof (cases "n < ?p")
    case True
    then show ?thesis using agreed_same by blast
  next
    case False
    then have "?p = n" by (simp add: agreed_def)
    then show ?thesis using assms(3,5) by simp
  qed
  have t: "take ?p lg = take ?p g" using assms(1,2) p le by (intro traced_match) auto
  show thesis
  proof (cases "?p = length g")
    case True
    show thesis by (rule keep) (use t True in \<open>simp_all add: merge_def\<close>)
  next
    case False
    show thesis
    proof (rule replace)
      show "merge lg n g = g" using False t by (simp add: merge_def)
      show "?p < length g" "take ?p lg = take ?p g" using False le t by simp_all
      show "tm lg (Suc ?p) \<noteq> tm g (Suc ?p)" if "Suc ?p \<le> length lg"
        using assms(4) False le that by (intro agreed_stop) auto
    qed
  qed
qed

lemma merge_prefix: "n \<le> length lg \<Longrightarrow> c \<le> n \<Longrightarrow> take c (merge lg n g) = take c lg"
  by (auto simp: merge_def agreed_def)

text \<open>What the log has in common with the leader's, it keeps.\<close>

lemma merge_keeps:
  assumes "traced w lg" and "traced w g" and "n \<le> length lg" and "n \<le> length g" and "tm lg n = tm g n"
    and "g = take (length g) H" and "take k lg = take k H" and "k \<le> length H"
  shows "take k (merge lg n g) = take k H"
  using assms(1-5)
proof (cases rule: merge_cases)
  case keep
  then show ?thesis using assms(7) by simp
next
  case (replace p)
  have "k \<le> length g"
  proof (rule ccontr)
    assume n: "\<not> k \<le> length g"
    have "k \<le> length lg" using assms(7,8) by (rule take_eq_length)
    then have "tm lg (Suc p) \<noteq> tm g (Suc p)" using replace n by auto
    moreover have "tm lg (Suc p) = tm H (Suc p)" using n replace(2) by (intro tm_cong [OF assms(7)]) simp
    moreover have "tm g (Suc p) = tm H (Suc p)"
      using replace(2) by (subst assms(6)) (simp add: tm_take)
    ultimately show False by simp
  qed
  then show ?thesis using replace(1) assms(6) by (metis min.absorb1 take_take)
qed

lemma merge_accepts:
  assumes "traced w lg" and "traced w g" and "n \<le> length lg" and "n \<le> length g" and "tm lg n = tm g n"
  shows "take (length g) (merge lg n g) = g" and "merge lg n g = lg \<or> merge lg n g = g"
  using assms by (cases rule: merge_cases; simp)+

section \<open>The invariant\<close>

definition voter_inv :: "u64 list \<Rightarrow> u64 \<Rightarrow> world \<Rightarrow> u64 \<Rightarrow> bool" where
  "voter_inv ns t0 w v \<longleftrightarrow> t0 \<le> nterm w v \<and> (\<forall>t. nterm w v < t \<longrightarrow> w_vote w v t = 0) \<and>
     (w_vote w v (nterm w v) = 0 \<or> w_vote w v (nterm w v) = pn_vote (w_node w v)) \<and>
     (pn_role (w_node w v) = Candidate \<or> pn_role (w_node w v) = Leader \<longrightarrow>
        t0 < nterm w v \<and> w_vote w v (nterm w v) = v \<and> pn_vote (w_node w v) = v) \<and>
     (pn_role (w_node w v) = Candidate \<longrightarrow> pn_votes (w_node w v) \<subseteq> set ns \<and>
        (\<forall>u \<in> pn_votes (w_node w v). w_vote w u (nterm w v) = v))"

definition votes_inv :: "u64 list \<Rightarrow> u64 \<Rightarrow> world \<Rightarrow> bool" where
  "votes_inv ns t0 w \<longleftrightarrow> distinct ns \<and> 0 \<notin> set ns \<and> (\<forall>v \<in> set ns. voter_inv ns t0 w v) \<and>
     (\<forall>t v c. VoteOk t v c \<in> w_msgs w \<longrightarrow> v \<in> set ns \<and> c \<noteq> 0 \<and> w_vote w v t = c)"

lemma voter_invD:
  assumes "voter_inv ns t0 w v"
  shows "t0 \<le> nterm w v" and "nterm w v < t \<Longrightarrow> w_vote w v t = 0"
    and "w_vote w v (nterm w v) = 0 \<or> w_vote w v (nterm w v) = pn_vote (w_node w v)"
    and "pn_role (w_node w v) = Candidate \<or> pn_role (w_node w v) = Leader \<Longrightarrow>
           t0 < nterm w v \<and> w_vote w v (nterm w v) = v \<and> pn_vote (w_node w v) = v"
    and "pn_role (w_node w v) = Candidate \<Longrightarrow> u \<in> pn_votes (w_node w v) \<Longrightarrow> u \<in> set ns \<and> w_vote w u (nterm w v) = v"
  using assms unfolding voter_inv_def by blast+

lemma votes_invD:
  assumes "votes_inv ns t0 w"
  shows "distinct ns" and "0 \<notin> set ns" and "v \<in> set ns \<Longrightarrow> voter_inv ns t0 w v"
    and "VoteOk t v c \<in> w_msgs w \<Longrightarrow> v \<in> set ns \<and> c \<noteq> 0 \<and> w_vote w v t = c"
  using assms unfolding votes_inv_def by blast+

definition cands_inv :: "u64 list \<Rightarrow> world \<Rightarrow> bool" where
  "cands_inv ns w \<longleftrightarrow>
     (\<forall>v \<in> set ns. pn_role (w_node w v) = Candidate \<longrightarrow> w_cand w (nterm w v) v = Some (nlog w v)) \<and>
     (\<forall>t c g. w_cand w t c = Some g \<longrightarrow> c \<in> set ns \<and> t \<le> nterm w c \<and> good_log w t g \<and> (\<forall>e \<in> set g. e_term e < t)) \<and>
     (\<forall>t c li lt. VoteReq t c li lt \<in> w_msgs w \<longrightarrow>
        (\<exists>g. w_cand w t c = Some g \<and> li = length g \<and> lt = tm g (length g))) \<and>
     (\<forall>v \<in> set ns. \<forall>t c. w_vote w v t = c \<longrightarrow> c \<noteq> 0 \<longrightarrow> w_cand w t c \<noteq> None)"

definition leads_inv :: "u64 list \<Rightarrow> u64 \<Rightarrow> world \<Rightarrow> bool" where
  "leads_inv ns t0 w \<longleftrightarrow>
     (\<forall>t l h. w_lead w t = Some (l, h) \<longrightarrow> good_log w t h \<and>
        (t0 < t \<longrightarrow> l \<in> set ns \<and> (t < nterm w l \<or> t = nterm w l \<and> pn_role (w_node w l) \<noteq> Candidate) \<and>
           (\<exists>Q. majority ns Q \<and> (\<forall>v \<in> Q. w_vote w v t = l)))) \<and>
     (\<forall>v \<in> set ns. pn_role (w_node w v) = Leader \<longrightarrow> w_lead w (nterm w v) = Some (v, nlog w v)) \<and>
     (\<forall>v \<in> set ns. good_log w (nterm w v) (nlog w v))"

definition acks_inv :: "u64 list \<Rightarrow> world \<Rightarrow> bool" where
  "acks_inv ns w \<longleftrightarrow>
     (\<forall>v t k. (v, t, k) \<in> w_ack w \<longrightarrow> v \<in> set ns \<and> t \<le> nterm w v \<and>
        (\<exists>h. leader_log w t h \<and> k \<le> length h \<and> (nterm w v = t \<longrightarrow> take k (nlog w v) = take k h))) \<and>
     (\<forall>t v k. Ack t v k \<in> w_msgs w \<longrightarrow> (v, t, k) \<in> w_ack w) \<and>
     (\<forall>v \<in> set ns. pn_role (w_node w v) = Leader \<longrightarrow>
        (\<forall>u. pn_match (w_node w v) u \<noteq> 0 \<longrightarrow> acked w u (nterm w v) (pn_match (w_node w v) u)))"

definition keep_inv :: "u64 list \<Rightarrow> world \<Rightarrow> bool" where
  "keep_inv ns w \<longleftrightarrow> (\<forall>v \<in> set ns. \<forall>t k h. acked w v t k \<longrightarrow> pending ns w t k h \<longrightarrow> take k (nlog w v) = take k h)"

definition grant_inv :: "u64 list \<Rightarrow> world \<Rightarrow> bool" where
  "grant_inv ns w \<longleftrightarrow> (\<forall>v \<in> set ns. \<forall>t' c g t k h. w_vote w v t' = c \<longrightarrow> c \<noteq> 0 \<longrightarrow> w_cand w t' c = Some g \<longrightarrow> t < t' \<longrightarrow>
     acked w v t k \<longrightarrow> pending ns w t k h \<longrightarrow> take k g = take k h)"

definition safe_inv :: "u64 list \<Rightarrow> world \<Rightarrow> bool" where
  "safe_inv ns w \<longleftrightarrow> (\<forall>t' h' t k h. leader_log w t' h' \<longrightarrow> t < t' \<longrightarrow> pending ns w t k h \<longrightarrow> take k h' = take k h)"

definition commit_inv :: "u64 list \<Rightarrow> world \<Rightarrow> bool" where
  "commit_inv ns w \<longleftrightarrow>
     (\<forall>v \<in> set ns. pn_commit (w_node w v) \<le> length (nlog w v) \<and>
        settled ns w (nterm w v) (nlog w v) (pn_commit (w_node w v))) \<and>
     (\<forall>t g n c. App t g n c \<in> w_msgs w \<longrightarrow> n \<le> length g \<and>
        (\<exists>h. leader_log w t h \<and> g = take (length g) h \<and> c \<le> length h \<and> settled ns w t h c)) \<and>
     (\<forall>t v c. Beat t v c \<in> w_msgs w \<longrightarrow> c \<noteq> 0 \<longrightarrow>
        acked w v t c \<and> (\<exists>h. leader_log w t h \<and> c \<le> length h \<and> settled ns w t h c))"

definition pinv :: "u64 list \<Rightarrow> u64 \<Rightarrow> world \<Rightarrow> bool" where
  "pinv ns t0 w \<longleftrightarrow> votes_inv ns t0 w \<and> cands_inv ns w \<and> leads_inv ns t0 w \<and> acks_inv ns w \<and>
     keep_inv ns w \<and> grant_inv ns w \<and> safe_inv ns w \<and> commit_inv ns w"

lemma pinvD:
  assumes "pinv ns t0 w"
  shows "votes_inv ns t0 w" "cands_inv ns w" "leads_inv ns t0 w" "acks_inv ns w"
    "keep_inv ns w" "grant_inv ns w" "safe_inv ns w" "commit_inv ns w"
  using assms by (simp_all add: pinv_def)

section \<open>How a step changes the history\<close>

text \<open>Logs of leaders only grow, acknowledgements are for the current term, terms and votes do not go back.\<close>

definition evolves_to :: "u64 list \<Rightarrow> world \<Rightarrow> world \<Rightarrow> bool" where
  "evolves_to ns w w' \<longleftrightarrow>
     (\<forall>t l h. w_lead w t = Some (l, h) \<longrightarrow> (\<exists>h'. w_lead w' t = Some (l, h') \<and> take (length h) h' = h)) \<and>
     w_ack w \<subseteq> w_ack w' \<and> (\<forall>v t k. (v, t, k) \<in> w_ack w' - w_ack w \<longrightarrow> nterm w' v = t) \<and>
     (\<forall>v. nterm w v \<le> nterm w' v) \<and> w_msgs w \<subseteq> w_msgs w' \<and>
     (\<forall>v \<in> set ns. \<forall>t. w_vote w v t \<noteq> 0 \<longrightarrow> w_vote w' v t = w_vote w v t) \<and>
     (\<forall>t c g. w_cand w t c = Some g \<longrightarrow> w_cand w' t c = Some g)"

text \<open>Nobody else has won the term of a candidate that has a majority.\<close>

lemma win_first:
  assumes "pinv ns t0 w" and "i \<in> set ns" and "pn_role (w_node w i) = Candidate" and "majority ns (pn_votes (w_node w i))"
  shows "w_lead w (nterm w i) = None"
proof (rule ccontr)
  assume "w_lead w (nterm w i) \<noteq> None"
  then obtain l h where l: "w_lead w (nterm w i) = Some (l, h)" by auto
  note V = pinvD(1) [OF assms(1)] and L = pinvD(3) [OF assms(1)]
  have t: "t0 < nterm w i" and mine: "\<And>v. v \<in> pn_votes (w_node w i) \<Longrightarrow> w_vote w v (nterm w i) = i"
    using voter_invD(4,5) [OF votes_invD(3) [OF V assms(2)]] assms(3) by blast+
  obtain Q where Q: "majority ns Q" "\<And>v. v \<in> Q \<Longrightarrow> w_vote w v (nterm w i) = l"
    and r: "nterm w i < nterm w l \<or> pn_role (w_node w l) \<noteq> Candidate"
    using L l t unfolding leads_inv_def by blast
  have "i = l" using assms(4) Q(1) mine Q(2) by (rule majorities.one_winner)
  with r assms(3) show False by simp
qed

lemma pstep_evolves:
  assumes "pstep ns i w w'" and "pinv ns t0 w" and "i \<in> set ns"
  shows "evolves_to ns w w'"
  using assms(1)
proof (cases rule: pstep.cases)
  case (campaign p t)
  have "w_cand w t i = None" using pinvD(2) [OF assms(2)] campaign by (auto simp: cands_inv_def) (metis not_le option.exhaust)
  moreover have "w_vote w i t = 0" using voter_invD(2) [OF votes_invD(3) [OF pinvD(1) [OF assms(2)] assms(3)]] campaign by simp
  ultimately show ?thesis using campaign by (auto simp: evolves_to_def)
next
  case (win p)
  have "w_lead w (pn_term p) = None" using win_first [OF assms(2,3)] win by simp
  then show ?thesis using win by (auto simp: evolves_to_def)
next
  case (propose p es g)
  have "w_lead w (pn_term p) = Some (i, pn_log p)" using pinvD(3) [OF assms(2)] assms(3) propose by (auto simp: leads_inv_def)
  then show ?thesis using propose by (auto simp: evolves_to_def)
next
  case (grant p c li lt)
  have "w_vote w i (pn_term p) = 0 \<or> w_vote w i (pn_term p) = pn_vote p"
    using voter_invD(3) [OF votes_invD(3) [OF pinvD(1) [OF assms(2)] assms(3)]] grant by simp
  then show ?thesis using grant by (auto simp: evolves_to_def)
qed (auto simp: evolves_to_def)

lemma evolvesD:
  assumes "evolves_to ns w w'"
  shows "w_lead w t = Some (l, h) \<Longrightarrow> \<exists>h'. w_lead w' t = Some (l, h') \<and> take (length h) h' = h"
    and "leader_log w t h \<Longrightarrow> \<exists>h'. leader_log w' t h' \<and> take (length h) h' = h"
    and "acked w v t k \<Longrightarrow> acked w' v t k"
    and "acked w' v t k \<Longrightarrow> acked w v t k \<or> nterm w' v = t"
    and "nterm w v \<le> nterm w' v"
    and "m \<in> w_msgs w \<Longrightarrow> m \<in> w_msgs w'"
    and "v \<in> set ns \<Longrightarrow> w_vote w v t \<noteq> 0 \<Longrightarrow> w_vote w' v t = w_vote w v t"
    and "w_cand w t c = Some g \<Longrightarrow> w_cand w' t c = Some g"
  using assms unfolding evolves_to_def acked_def leader_log_def by blast+

lemma traced_mono:
  assumes "traced w g" and "evolves_to ns w w'"
  shows "traced w' g"
  unfolding traced_def
proof (intro allI impI)
  fix k assume k: "0 < k" "k \<le> length g"
  obtain h where h: "leader_log w (tm g k) h" "k \<le> length h" "take k g = take k h" using assms(1) k by (rule tracedE)
  obtain h' where h': "leader_log w' (tm g k) h'" "take (length h) h' = h" using evolvesD(2) [OF assms(2) h(1)] by blast
  have "k \<le> length h'" using h'(2) h(2) by (metis length_take min.bounded_iff)
  moreover have "take k g = take k h'" using h(2,3) h'(2) by (metis min.absorb1 take_take)
  ultimately show "\<exists>h. leader_log w' (tm g k) h \<and> k \<le> length h \<and> take k g = take k h" using h'(1) by blast
qed

lemma good_log_mono: "good_log w t g \<Longrightarrow> evolves_to ns w w' \<Longrightarrow> t \<le> t' \<Longrightarrow> good_log w' t' g"
  by (auto simp: good_log_def intro: traced_mono)

lemma chosen_mono:
  assumes "chosen ns w t k h" and "evolves_to ns w w'"
  obtains h' where "chosen ns w' t k h'" and "take k h' = take k h"
proof -
  obtain h' where h': "leader_log w' t h'" "take (length h) h' = h"
    using evolvesD(2) [OF assms(2)] assms(1) unfolding chosen_def by blast
  have k: "k \<le> length h" "tm h k = t" using assms(1) by (simp_all add: chosen_def)
  have e: "take k h' = take k h" using h'(2) k by (metis min.absorb1 take_take)
  then have "k \<le> length h'" "tm h' k = t" using k tm_cong [OF e, of k] take_eq_length [OF e] by simp_all
  moreover have "\<exists>Q. majority ns Q \<and> (\<forall>v \<in> Q. acked w' v t k)"
    using assms(1) evolvesD(3) [OF assms(2)] by (auto simp: chosen_def)
  ultimately have "chosen ns w' t k h'" using h'(1) by (simp add: chosen_def)
  then show thesis using e by (rule that)
qed

lemma settled_mono:
  assumes "settled ns w t g c" and "evolves_to ns w w'" and "t \<le> t'"
  shows "settled ns w' t' g c"
proof -
  obtain u k h where u: "u \<le> t" "chosen ns w u k h" "c \<le> k" "take c g = take c h" using assms(1) by (auto simp: settled_def)
  obtain h' where h': "chosen ns w' u k h'" "take k h' = take k h" using u(2) assms(2) by (rule chosen_mono)
  have "take c g = take c h'" using u(3,4) take_shorter [OF h'(2), of c] by simp
  moreover have "u \<le> t'" using u(1) assms(3) by simp
  ultimately show ?thesis using h'(1) u(3) unfolding settled_def by blast
qed

lemma choosable_back:
  assumes "choosable ns w' t k" and "evolves_to ns w w'"
  shows "choosable ns w t k"
proof -
  obtain Q where Q: "majority ns Q" "\<And>v. v \<in> Q \<Longrightarrow> acked w' v t k \<or> nterm w' v \<le> t"
    using assms(1) unfolding choosable_def by blast
  have "acked w v t k \<or> nterm w v \<le> t" if "v \<in> Q" for v
    using Q(2) [OF that] evolvesD(4,5) [OF assms(2), of v] by force
  with Q(1) show ?thesis unfolding choosable_def by blast
qed

lemma pending_back:
  assumes "pending ns w' t k h'" and "evolves_to ns w w'" and "leader_log w t h" and "k \<le> length h"
  shows "pending ns w t k h" and "take k h' = take k h"
proof -
  obtain h'' where h: "leader_log w' t h''" "take (length h) h'' = h" using evolvesD(2) [OF assms(2,3)] by blast
  have "h'' = h'" using h(1) assms(1) leader_log_unique by (auto simp: pending_def)
  then show e: "take k h' = take k h" using h(2) assms(4) by (metis min.absorb1 take_take)
  show "pending ns w t k h"
    using assms tm_cong [OF e, of k] choosable_back by (auto simp: pending_def)
qed

end
