(* ===== verification/Protocol_Steps.thy ===== *)
theory Protocol_Steps
  imports Protocol_Safety
begin

text \<open>
  Every action of the abstract protocol preserves the invariant of \<open>Protocol_Safety\<close>, part by part, and
  the safety theorems of the protocol.
\<close>

section \<open>What one action can change\<close>

lemma pstep_voteok:
  assumes "pstep ns i w w'" and "VoteOk t v c \<in> w_msgs w'"
  shows "VoteOk t v c \<in> w_msgs w \<or> v = i \<and> w_vote w' i t = c \<and> (\<exists>li lt. VoteReq t c li lt \<in> w_msgs w)"
  by (rule pstep.cases [OF assms(1)]) (use assms(2) in auto)

lemma pstep_lead:
  assumes "pstep ns i w w'"
  obtains (same) "w_lead w' = w_lead w"
    | (won) "w_lead w' = (w_lead w)(nterm w i \<mapsto> (i, nlog w i))" and "nterm w' i = nterm w i" and "nlog w' i = nlog w i"
        and "pn_role (w_node w i) = Candidate" and "pn_role (w_node w' i) = Leader" and "majority ns (pn_votes (w_node w i))"
        and "w_vote w' = w_vote w"
    | (grown) es where "w_lead w' = (w_lead w)(nterm w i \<mapsto> (i, nlog w i @ es))" and "nterm w' i = nterm w i"
        and "nlog w' i = nlog w i @ es" and "\<forall>e \<in> set es. e_term e = nterm w i"
        and "pn_role (w_node w i) = Leader" and "pn_role (w_node w' i) = Leader"
  using assms
proof (cases rule: pstep.cases)
  case (win p)
  then show thesis by (intro won) auto
next
  case (propose p es g)
  then show thesis by (intro grown [of es]) auto
qed (use same in auto)

lemma pstep_log:
  assumes "pstep ns i w w'"
  obtains (same) "nlog w' i = nlog w i"
    | (grown) es where "nlog w' i = nlog w i @ es" and "pn_role (w_node w i) = Leader" and "nterm w' i = nterm w i"
        and "w_lead w' = (w_lead w)(nterm w i \<mapsto> (i, nlog w i @ es))" and "\<forall>e \<in> set es. e_term e = nterm w i"
        and "pn_commit (w_node w' i) = pn_commit (w_node w i)"
    | (merged) g n c where "nlog w' i = merge (nlog w i) n g" and "App (nterm w i) g n c \<in> w_msgs w"
        and "n \<le> length (nlog w i)" and "tm (nlog w i) n = tm g n"
        and "nterm w' i = nterm w i" and "w_lead w' = w_lead w" and "pn_role (w_node w' i) = Follower"
        and "pn_commit (w_node w' i) = max (pn_commit (w_node w i)) (min c (length g))"
  using assms
proof (cases rule: pstep.cases)
  case (propose p es g)
  then show thesis by (intro grown [of es]) auto
next
  case (accept p g n c)
  then show thesis by (intro merged [of n g c]) auto
qed (use same in auto)

lemma pstep_ack:
  assumes "pstep ns i w w'" and "(v, t, k) \<in> w_ack w'" and "(v, t, k) \<notin> w_ack w"
  obtains (lead) "v = i" and "t = nterm w i" and "nterm w' i = t" and "w_lead w' t = Some (i, nlog w' i)" and "k = length (nlog w' i)"
    | (follow) g n c where "v = i" and "t = nterm w i" and "nterm w' i = t" and "App t g n c \<in> w_msgs w" and "k = length g"
        and "n \<le> length (nlog w i)" and "tm (nlog w i) n = tm g n" and "nlog w' i = merge (nlog w i) n g" and "w_lead w' = w_lead w"
    | (behind) g n c where "v = i" and "t = nterm w i" and "nterm w' i = t" and "App t g n c \<in> w_msgs w"
        and "k = pn_commit (w_node w i)" and "nlog w' i = nlog w i" and "w_lead w' = w_lead w"
  using assms(1)
proof (cases rule: pstep.cases)
  case (win p)
  then show thesis using assms(2,3) by (intro lead) auto
next
  case (propose p es g)
  then show thesis using assms(2,3) by (intro lead) auto
next
  case (accept p g n c)
  then show thesis using assms(2,3) by (intro follow [of g n c]) auto
next
  case (stale p g n c)
  then show thesis using assms(2,3) by (intro behind [of g n c]) auto
qed (use assms(2,3) in auto)

lemma pstep_ackmsg:
  assumes "pstep ns i w w'" and "Ack t v k \<in> w_msgs w'"
  shows "Ack t v k \<in> w_msgs w \<or> (v, t, k) \<in> w_ack w'"
  by (rule pstep.cases [OF assms(1)]) (use assms(2) in auto)

lemma pstep_app:
  assumes "pstep ns i w w'" and "App t g n c \<in> w_msgs w'"
  shows "App t g n c \<in> w_msgs w \<or> pn_role (w_node w i) = Leader \<and> t = nterm w i \<and> n \<le> length g \<and>
     g = take (length g) (nlog w i) \<and> c = pn_commit (w_node w i)"
  by (rule pstep.cases [OF assms(1)]) (use assms(2) in auto)

lemma pstep_beat:
  assumes "pstep ns i w w'" and "Beat t v c \<in> w_msgs w'"
  shows "Beat t v c \<in> w_msgs w \<or> pn_role (w_node w i) = Leader \<and> t = nterm w i \<and>
     c \<le> pn_match (w_node w i) v \<and> c \<le> pn_commit (w_node w i)"
  by (rule pstep.cases [OF assms(1)]) (use assms(2) in auto)

lemma pstep_commit:
  assumes "pstep ns i w w'"
  obtains (same) "pn_commit (w_node w' i) = pn_commit (w_node w i)"
    | (lead) "pn_role (w_node w i) = Leader" and "nlog w' i = nlog w i" and "nterm w' i = nterm w i"
        and "pn_commit (w_node w' i) \<le> length (nlog w i)" and "pn_commit (w_node w i) \<le> pn_commit (w_node w' i)"
        and "tm (nlog w i) (pn_commit (w_node w' i)) = nterm w i"
        and "majority ns {v \<in> set ns. pn_commit (w_node w' i) \<le> pn_match (w_node w i) v}"
    | (merged) g n c where "nlog w' i = merge (nlog w i) n g" and "App (nterm w i) g n c \<in> w_msgs w"
        and "n \<le> length (nlog w i)" and "tm (nlog w i) n = tm g n" and "nterm w' i = nterm w i"
        and "pn_commit (w_node w' i) = max (pn_commit (w_node w i)) (min c (length g))"
    | (beat) c where "nlog w' i = nlog w i" and "nterm w' i = nterm w i" and "Beat (nterm w i) i c \<in> w_msgs w"
        and "c \<le> length (nlog w i)" and "pn_commit (w_node w' i) = max (pn_commit (w_node w i)) c"
  using assms
proof (cases rule: pstep.cases)
  case (commit p k)
  then show thesis by (intro lead) auto
next
  case (accept p g n c)
  then show thesis by (intro merged [of n g c]) auto
next
  case (heed p c)
  then show thesis by (intro beat [of c]) auto
qed (use same in auto)

section \<open>Votes, candidates and leaders\<close>

lemma pstep_others:
  assumes "pstep ns i w w'" and "j \<noteq> i"
  shows "w_node w' j = w_node w j" and "w_vote w' j = w_vote w j"
  using assms by (cases rule: pstep.cases; simp)+

lemma votes_inv_step:
  assumes st: "pstep ns i w w'" and inv: "pinv ns t0 w" and i: "i \<in> set ns"
  shows "votes_inv ns t0 w'"
proof -
  note V = votes_invD [OF pinvD(1) [OF inv]]
  note I = voter_invD [OF V(3) [OF i]]
  have ev: "evolves_to ns w w'" using st inv i by (rule pstep_evolves)
  have keep: "u \<in> set ns \<and> w_vote w' u t = v" if "u \<in> set ns \<and> w_vote w u t = v" "v \<in> set ns" for u t v
    using that V(2) evolvesD(7) [OF ev] by metis
  have others: "voter_inv ns t0 w' v" if "v \<in> set ns" "v \<noteq> i" for v
    using voter_invD [OF V(3) [OF that(1)]] pstep_others [OF st that(2)] keep that(1) unfolding voter_inv_def by auto
  have msgs: "v \<in> set ns \<and> c \<noteq> 0 \<and> w_vote w' v t = c" if "VoteOk t v c \<in> w_msgs w" for t v c
    using V(4) [OF that] evolvesD(7) [OF ev] by blast
  have mine: "voter_inv ns t0 w' i"
    using st
  proof (cases rule: pstep.cases)
    case (new_term p t)
    then show ?thesis using I(1,2) by (auto simp: voter_inv_def)
  next
    case (campaign p t)
    then show ?thesis using I(1,2) by (auto simp: voter_inv_def)
  next
    case (tally p v)
    then show ?thesis using I V(4) i by (auto simp: voter_inv_def)
  next
    case (grant p c li lt)
    have r: "pn_vote p = i" if "pn_role p = Candidate \<or> pn_role p = Leader" using that I(4) grant(2) by blast
    have "c = i" if "pn_role p = Candidate \<or> pn_role p = Leader"
      using r [OF that] grant(4) V(2) i by auto
    then show ?thesis
      using I keep [of _ _ i] i grant unfolding voter_inv_def by auto
  qed (use I in \<open>auto simp: voter_inv_def\<close>)
  have nz: "c \<noteq> 0" if "VoteReq t c li lt \<in> w_msgs w" for t c li lt
    using pinvD(2) [OF inv] that V(2) unfolding cands_inv_def by metis
  have "v \<in> set ns \<and> c \<noteq> 0 \<and> w_vote w' v t = c" if "VoteOk t v c \<in> w_msgs w'" for t v c
    using pstep_voteok [OF st that] msgs i nz by blast
  with mine others V(1,2) show ?thesis unfolding votes_inv_def by metis
qed

lemma cands_inv_step:
  assumes st: "pstep ns i w w'" and inv: "pinv ns t0 w" and i: "i \<in> set ns"
  shows "cands_inv ns w'"
proof -
  note C = pinvD(2) [OF inv, unfolded cands_inv_def]
  have ev: "evolves_to ns w w'" using st inv i by (rule pstep_evolves)
  have good: "c \<in> set ns \<and> t \<le> nterm w' c \<and> good_log w' t g \<and> (\<forall>e \<in> set g. e_term e < t)" if "w_cand w t c = Some g" for t c g
    using that C evolvesD(5) [OF ev, of c] good_log_mono [OF _ ev order_refl] by (meson order_trans)
  have req: "\<exists>g. w_cand w' t c = Some g \<and> li = length g \<and> lt = tm g (length g)" if "VoteReq t c li lt \<in> w_msgs w" for t c li lt
    using that C evolvesD(8) [OF ev] by blast
  have vote: "w_cand w' t c \<noteq> None" if "w_vote w v t = c" "c \<noteq> 0" "v \<in> set ns" for v t c
    using that C evolvesD(8) [OF ev] by blast
  from st show ?thesis
  proof (cases rule: pstep.cases)
    case (campaign p t)
    have "good_log w (pn_term p) (pn_log p)" using pinvD(3) [OF inv] i campaign by (auto simp: leads_inv_def)
    then have "good_log w' t (pn_log p)" "\<forall>e \<in> set (pn_log p). e_term e < t"
      using campaign good_log_mono [OF _ ev] by (auto simp: good_log_def)
    then show ?thesis using C i good req vote campaign unfolding cands_inv_def by (auto split: if_splits)
  next
    case (grant p c li lt)
    have "\<exists>g. w_cand w (pn_term p) c = Some g" using C grant by blast
    then show ?thesis using C i good req vote grant unfolding cands_inv_def by (auto split: if_splits)
  qed (use C i good req vote in \<open>auto simp: cands_inv_def\<close>)
qed

text \<open>The log of the node after a step.\<close>

lemma appD:
  assumes "pinv ns t0 w" and "App t g n c \<in> w_msgs w"
  obtains h where "leader_log w t h" and "g = take (length g) h" and "n \<le> length g" and "c \<le> length h"
    and "settled ns w t h c" and "good_log w t g" and "good_log w t h"
proof -
  obtain h where h: "leader_log w t h" "g = take (length g) h" "n \<le> length g" "c \<le> length h" "settled ns w t h c"
    using pinvD(8) [OF assms(1)] assms(2) unfolding commit_inv_def by blast
  have gh: "good_log w t h"
    using h(1) pinvD(3) [OF assms(1)] unfolding leads_inv_def leader_log_def by blast
  have "good_log w t g" using good_log_take [OF gh, of "length g"] h(2) by simp
  with h gh show thesis by (intro that)
qed

lemma leads_inv_step:
  assumes st: "pstep ns i w w'" and inv: "pinv ns t0 w" and i: "i \<in> set ns"
  shows "leads_inv ns t0 w'"
proof -
  note V = votes_invD [OF pinvD(1) [OF inv]]
  have ev: "evolves_to ns w w'" using st inv i by (rule pstep_evolves)
  have L: "w_lead w t = Some (l, h) \<Longrightarrow> good_log w t h \<and>
        (t0 < t \<longrightarrow> l \<in> set ns \<and> (t < nterm w l \<or> t = nterm w l \<and> pn_role (w_node w l) \<noteq> Candidate) \<and>
           (\<exists>Q. majority ns Q \<and> (\<forall>v \<in> Q. w_vote w v t = l)))"
    and M: "v \<in> set ns \<Longrightarrow> pn_role (w_node w v) = Leader \<Longrightarrow> w_lead w (nterm w v) = Some (v, nlog w v)"
    and G: "v \<in> set ns \<Longrightarrow> good_log w (nterm w v) (nlog w v)" for t l h v
    using pinvD(3) [OF inv] unfolding leads_inv_def by blast+
  have role: "t < nterm w' l \<or> t = nterm w' l \<and> pn_role (w_node w' l) \<noteq> Candidate"
    if "t < nterm w l \<or> t = nterm w l \<and> pn_role (w_node w l) \<noteq> Candidate" for t l
    by (rule pstep.cases [OF st]) (use that in auto)
  have won: "\<exists>Q. majority ns Q \<and> (\<forall>v \<in> Q. w_vote w' v t = l)" if "majority ns Q" "\<forall>v \<in> Q. w_vote w v t = l" "l \<in> set ns" for Q t l
    using that V(2) evolvesD(7) [OF ev] by (metis majorities.quorum_members subsetD)
  have new: "good_log w' (nterm w' i) (nlog w' i)"
    using st
  proof (cases rule: pstep_log)
    case same
    then show ?thesis using good_log_mono [OF G [OF i] ev evolvesD(5) [OF ev]] by simp
  next
    case (grown es)
    have g: "good_log w' (nterm w i) (nlog w i)" using good_log_mono [OF G [OF i] ev order_refl] .
    have "traced w' (nlog w i @ es)"
      unfolding traced_def
    proof (intro allI impI)
      fix k assume k: "0 < k" "k \<le> length (nlog w i @ es)"
      show "\<exists>h. leader_log w' (tm (nlog w i @ es) k) h \<and> k \<le> length h \<and> take k (nlog w i @ es) = take k h"
      proof (cases "k \<le> length (nlog w i)")
        case True
        have "traced w' (nlog w i)" using g by (simp add: good_log_def)
        from tracedE [OF this k(1) True] True show ?thesis by (metis take_eq_append tm_append)
      next
        case False
        then have "tm (nlog w i @ es) k = nterm w i" using k grown(5) by (simp add: tm_append_new)
        then show ?thesis using k grown(4) by (intro exI [of _ "nlog w i @ es"]) (simp add: leader_log_def)
      qed
    qed
    then show ?thesis using g grown terms_sorted_append [of "nlog w i" "nterm w i" es] by (auto simp: good_log_def)
  next
    case (merged g n c)
    obtain h where h: "leader_log w (nterm w i) h" "n \<le> length g" "good_log w (nterm w i) g"
      using appD [OF inv merged(2)] by metis
    have "merge (nlog w i) n g = nlog w i \<or> merge (nlog w i) n g = g"
      using G [OF i] h merged by (intro merge_accepts(2)) (auto simp: good_log_def)
    then show ?thesis using merged(1,5) good_log_mono [OF _ ev order_refl] G [OF i] h(3) by metis
  qed
  have logs: "good_log w' (nterm w' v) (nlog w' v)" if "v \<in> set ns" for v
    using new good_log_mono [OF G [OF that] ev order_refl] pstep_others [OF st] by metis
  have own: "pn_role (w_node w' i) = Leader \<Longrightarrow> w_lead w' (nterm w' i) = Some (i, nlog w' i)"
    by (rule pstep.cases [OF st]) (use M [OF i] in auto)
  have other: "w_lead w' (nterm w v) = w_lead w (nterm w v)" if "v \<in> set ns" "v \<noteq> i" "pn_role (w_node w v) = Leader" for v
    using st
  proof (cases rule: pstep_lead)
    case won
    then show ?thesis using win_first [OF inv i] M [OF that(1,3)] by auto
  next
    case (grown es)
    then show ?thesis using M [OF that(1,3)] M [OF i] that(2) by auto
  qed simp
  have mine: "w_lead w' (nterm w' v) = Some (v, nlog w' v)" if "v \<in> set ns" "pn_role (w_node w' v) = Leader" for v
    using own other M pstep_others(1) [OF st] that by metis
  have lead: "good_log w' t h \<and> (t0 < t \<longrightarrow> l \<in> set ns \<and> (t < nterm w' l \<or> t = nterm w' l \<and> pn_role (w_node w' l) \<noteq> Candidate) \<and>
           (\<exists>Q. majority ns Q \<and> (\<forall>v \<in> Q. w_vote w' v t = l)))" if l: "w_lead w' t = Some (l, h)" for t l h
  proof (cases "w_lead w t = Some (l, h)")
    case True
    then show ?thesis using L [OF True] good_log_mono [OF _ ev order_refl] role won by blast
  next
    case False
    show ?thesis
      using st
    proof (cases rule: pstep_lead)
      case same
      then show ?thesis using False l by simp
    next
      case won
      then have e: "t = nterm w i" "l = i" "h = nlog w' i" using False l by (auto split: if_splits)
      have "\<forall>v \<in> pn_votes (w_node w i). w_vote w' v t = i"
        using voter_invD(5) [OF V(3) [OF i] won(4)] won(7) e(1) by simp
      then show ?thesis using new won e i by auto
    next
      case (grown es)
      then have e: "t = nterm w i" "l = i" "h = nlog w' i" using False l by (auto split: if_splits)
      then show ?thesis using new grown L [OF M [OF i grown(5)]] role won i by auto
    qed
  qed
  show ?thesis unfolding leads_inv_def using lead mine logs by blast
qed

section \<open>Acknowledgements\<close>

text \<open>What a node has committed, the leader of its term has.\<close>

lemma committed_in_leader:
  assumes "pinv ns t0 w" and "v \<in> set ns" and "leader_log w t H" and "nterm w v \<le> t"
  shows "take (pn_commit (w_node w v)) (nlog w v) = take (pn_commit (w_node w v)) H" and "pn_commit (w_node w v) \<le> length H"
proof -
  let ?c = "pn_commit (w_node w v)"
  obtain u k h where u: "u \<le> nterm w v" "chosen ns w u k h" "?c \<le> k" "take ?c (nlog w v) = take ?c h"
    using pinvD(8) [OF assms(1)] assms(2) unfolding commit_inv_def settled_def by blast
  have "take k H = take k h"
  proof (cases "u = t")
    case True
    then show ?thesis using u(2) assms(3) leader_log_unique by (auto simp: chosen_def)
  next
    case False
    then have "u < t" using u(1) assms(4) by simp
    then show ?thesis using pinvD(7) [OF assms(1)] assms(3) chosen_pending [OF u(2)] unfolding safe_inv_def by blast
  qed
  moreover have "k \<le> length h" using u(2) by (simp add: chosen_def)
  ultimately have "k \<le> length H" "take ?c H = take ?c h" using take_eq_length take_shorter [OF _ u(3)] by blast+
  then show "take ?c (nlog w v) = take ?c H" "?c \<le> length H" using u(3,4) by simp_all
qed

lemma acks_invD:
  assumes "acks_inv ns w" and "(v, t, k) \<in> w_ack w"
  obtains h where "v \<in> set ns" and "t \<le> nterm w v" and "leader_log w t h" and "k \<le> length h"
    and "nterm w v = t \<Longrightarrow> take k (nlog w v) = take k h"
  using assms unfolding acks_inv_def by blast

lemma acked_bound:
  assumes "acks_inv ns w" and "acked w v t k" and "leader_log w t h"
  shows "k \<le> length h" and "t \<le> nterm w v" and "v \<in> set ns"
proof -
  obtain k' where k: "k \<le> k'" "(v, t, k') \<in> w_ack w" using assms(2) by (auto simp: acked_def)
  obtain h' where h: "v \<in> set ns" "t \<le> nterm w v" "leader_log w t h'" "k' \<le> length h'" using acks_invD [OF assms(1) k(2)] by blast
  then have "h' = h" using assms(3) leader_log_unique by blast
  then show "k \<le> length h" "t \<le> nterm w v" "v \<in> set ns" using h k(1) by simp_all
qed

lemma acked_leader: "acks_inv ns w \<Longrightarrow> acked w v t k \<Longrightarrow> \<exists>h. leader_log w t h"
  unfolding acked_def acks_inv_def by blast

text \<open>What the log shares with a leader's log stays, whatever the action is.\<close>

lemma shared_stays:
  assumes st: "pstep ns i w w'" and inv: "pinv ns t0 w" and i: "i \<in> set ns" and v: "v \<in> set ns"
    and H: "\<And>H. leader_log w (nterm w v) H \<Longrightarrow> take k H = take k h" and k: "k \<le> length h" and t: "take k (nlog w v) = take k h"
  shows "take k (nlog w' v) = take k h"
proof (cases "v = i")
  case False
  then show ?thesis using pstep_others(1) [OF st] t by simp
next
  case True
  have kl: "k \<le> length (nlog w i)" using take_eq_length [OF t k] True by simp
  from st show ?thesis
  proof (cases rule: pstep_log)
    case same
    then show ?thesis using t True by simp
  next
    case (grown es)
    then show ?thesis using t kl True by simp
  next
    case (merged g n c)
    obtain G where G: "leader_log w (nterm w i) G" "g = take (length g) G" "n \<le> length g" "good_log w (nterm w i) g"
      using appD [OF inv merged(2)] by metis
    have e: "take k G = take k h" using H G(1) True by simp
    have "good_log w (nterm w i) (nlog w i)" using pinvD(3) [OF inv] i unfolding leads_inv_def by blast
    then have "take k (merge (nlog w i) n g) = take k G"
      using G merged(3,4) t e take_eq_length [OF e k] True by (intro merge_keeps) (auto simp: good_log_def)
    then show ?thesis using merged(1) e True by simp
  qed
qed

lemma acks_inv_step:
  assumes st: "pstep ns i w w'" and inv: "pinv ns t0 w" and i: "i \<in> set ns"
  shows "acks_inv ns w'"
proof -
  note A = pinvD(4) [OF inv]
  have ev: "evolves_to ns w w'" using st inv i by (rule pstep_evolves)
  have G: "good_log w (nterm w i) (nlog w i)" using pinvD(3) [OF inv] i unfolding leads_inv_def by blast
  have main: "v \<in> set ns \<and> t \<le> nterm w' v \<and>
      (\<exists>h. leader_log w' t h \<and> k \<le> length h \<and> (nterm w' v = t \<longrightarrow> take k (nlog w' v) = take k h))"
    if a: "(v, t, k) \<in> w_ack w'" for v t k
  proof (cases "(v, t, k) \<in> w_ack w")
    case True
    obtain h where h: "v \<in> set ns" "t \<le> nterm w v" "leader_log w t h" "k \<le> length h"
      "nterm w v = t \<Longrightarrow> take k (nlog w v) = take k h" using acks_invD [OF A True] by metis
    obtain h' where h': "leader_log w' t h'" "take (length h) h' = h" using evolvesD(2) [OF ev h(3)] by blast
    have e: "take k h' = take k h" using h'(2) h(4) by (metis min.absorb1 take_take)
    have "take k (nlog w' v) = take k h" if "nterm w' v = t"
    proof -
      have "nterm w v = t" using that h(2) evolvesD(5) [OF ev, of v] by simp
      then show ?thesis using shared_stays [OF st inv i h(1) _ h(4) h(5)] h(3) leader_log_unique by blast
    qed
    then show ?thesis using h h'(1) e take_eq_length [OF e h(4)] evolvesD(5) [OF ev, of v] by (auto intro: order_trans)
  next
    case False
    from st a False show ?thesis
    proof (cases rule: pstep_ack)
      case lead
      then show ?thesis using i by (auto simp: leader_log_def)
    next
      case (follow g n c)
      obtain h where h: "leader_log w t h" "g = take (length g) h" "n \<le> length g" "good_log w t g"
        using appD [OF inv follow(4)] by metis
      have "take (length g) (merge (nlog w i) n g) = g"
        using G h follow by (intro merge_accepts(1)) (auto simp: good_log_def)
      moreover have "length g \<le> length h" using h(2) by (metis length_take min.cobounded1)
      ultimately show ?thesis using follow h i by (auto simp: leader_log_def)
    next
      case (behind g n c)
      obtain h where h: "leader_log w t h" using appD [OF inv behind(4)] by metis
      show ?thesis using committed_in_leader [OF inv i h] behind h i by (auto simp: leader_log_def)
    qed
  qed
  have "acked w' u (nterm w' v) (pn_match (w_node w' v) u)"
    if "v \<in> set ns" "pn_role (w_node w' v) = Leader" "pn_match (w_node w' v) u \<noteq> 0" for v u
  proof (cases "v = i")
    case False
    then show ?thesis
      using that A pstep_others(1) [OF st False] evolvesD(3) [OF ev] unfolding acks_inv_def by metis
  next
    case True
    have A': "pn_role (w_node w i) = Leader \<Longrightarrow> pn_match (w_node w i) u \<noteq> 0 \<Longrightarrow> \<exists>k' \<ge> pn_match (w_node w i) u. (u, nterm w i, k') \<in> w_ack w"
      and K: "\<And>t v k. Ack t v k \<in> w_msgs w \<Longrightarrow> (v, t, k) \<in> w_ack w" for u
      using A i unfolding acks_inv_def acked_def by blast+
    show ?thesis
      unfolding acked_def by (rule pstep.cases [OF st]) (use that True A' K in \<open>auto split: if_splits simp: max_def\<close>)
  qed
  moreover have "(v, t, k) \<in> w_ack w'" if "Ack t v k \<in> w_msgs w'" for t v k
    using pstep_ackmsg [OF st that] A ev unfolding acks_inv_def evolves_to_def by blast
  ultimately show ?thesis using main unfolding acks_inv_def by blast
qed

section \<open>What may be chosen is kept\<close>

lemma acked_split:
  assumes "evolves_to ns w w'" and "acks_inv ns w'" and "acked w' v t k" and "leader_log w' t h"
  obtains "acked w v t k" | "nterm w' v = t" and "take k (nlog w' v) = take k h"
proof -
  obtain k' where k: "k \<le> k'" "(v, t, k') \<in> w_ack w'" using assms(3) by (auto simp: acked_def)
  obtain h' where "leader_log w' t h'" "nterm w' v = t \<Longrightarrow> take k' (nlog w' v) = take k' h'" using acks_invD [OF assms(2) k(2)] by blast
  then have e: "nterm w' v = t \<Longrightarrow> take k (nlog w' v) = take k h" using assms(4) leader_log_unique take_shorter [OF _ k(1)] by metis
  show thesis using evolvesD(4) [OF assms(1,3)] that e by blast
qed

lemma keep_inv_step:
  assumes st: "pstep ns i w w'" and inv: "pinv ns t0 w" and i: "i \<in> set ns" and A': "acks_inv ns w'"
  shows "keep_inv ns w'"
  unfolding keep_inv_def
proof (intro ballI allI impI)
  fix v t k h' assume v: "v \<in> set ns" and a: "acked w' v t k" and p: "pending ns w' t k h'"
  note A = pinvD(4) [OF inv]
  have ev: "evolves_to ns w w'" using st inv i by (rule pstep_evolves)
  have l': "leader_log w' t h'" using p by (simp add: pending_def)
  from ev A' a l' show "take k (nlog w' v) = take k h'"
  proof (cases rule: acked_split)
    case 1
    obtain h where h: "leader_log w t h" using acked_leader [OF A 1] by blast
    note B = acked_bound [OF A 1 h]
    note P = pending_back [OF p ev h B(1)]
    have "take k (nlog w v) = take k h" using pinvD(5) [OF inv] v 1 P(1) unfolding keep_inv_def by blast
    moreover have "take k H = take k h" if "leader_log w (nterm w v) H" for H
    proof (cases "nterm w v = t")
      case True
      then show ?thesis using that h leader_log_unique by blast
    next
      case False
      then have "t < nterm w v" using B(2) by simp
      then show ?thesis using pinvD(7) [OF inv] that P(1) unfolding safe_inv_def by blast
    qed
    ultimately have "take k (nlog w' v) = take k h" using shared_stays [OF st inv i v _ B(1)] by blast
    then show ?thesis using P(2) by simp
  qed
qed

text \<open>A log that is at least as new as one that holds a pending prefix holds it too.\<close>

lemma newer_log_holds:
  assumes inv: "pinv ns t0 w" and lg: "good_log w t' lg" and g: "good_log w t'' g"
    and n: "at_least_as_new (length g) (tm g (length g)) lg" and p: "pending ns w t k h" and e: "take k lg = take k h"
  shows "take k g = take k h"
proof (cases "k = 0")
  case False
  have k: "k \<le> length h" "tm h k = t" "k \<le> length lg" using p take_eq_length [OF e] by (simp_all add: pending_def)
  let ?lt = "tm lg (length lg)" and ?u = "tm g (length g)"
  have "tm lg k = t" using tm_cong [OF e, of k] k by simp
  then have lt: "t \<le> ?lt" using tm_mono [of lg k "length lg"] k(3) lg by (auto simp: good_log_def)
  show ?thesis
  proof (cases "?lt < ?u")
    case True
    then have gpos: "0 < length g" by (cases g) (auto simp: tm_def)
    obtain H where H: "leader_log w ?u H" "length g \<le> length H" "take (length g) g = take (length g) H"
      using tracedE [of w g "length g"] g gpos by (auto simp: good_log_def)
    have kH: "take k H = take k h" using pinvD(7) [OF inv] H(1) p True lt unfolding safe_inv_def by (meson order.strict_trans1)
    have "k \<le> length g"
    proof (rule ccontr)
      assume "\<not> k \<le> length g"
      then have "tm H (length g) \<le> tm H k"
        using H(1) pinvD(3) [OF inv] take_eq_length [OF kH k(1)]
        by (intro tm_mono) (auto simp: leads_inv_def leader_log_def good_log_def)
      moreover have "tm H (length g) = ?u" using tm_cong [OF H(3)] by simp
      moreover have "tm H k = t" using tm_cong [OF kH, of k] k(2) by simp
      ultimately show False using True lt by simp
    qed
    then show ?thesis using take_shorter [OF H(3)] kH by simp
  next
    case F: False
    then have u: "?u = ?lt" "length lg \<le> length g" using n by (auto simp: at_least_as_new_def)
    have pos: "0 < length lg" "0 < length g" using False k(3) u(2) by linarith+
    obtain H where H: "leader_log w ?u H" "take (length g) g = take (length g) H"
      using tracedE [of w g "length g"] g pos by (auto simp: good_log_def)
    obtain H' where H': "leader_log w ?lt H'" "take (length lg) lg = take (length lg) H'"
      using tracedE [of w lg "length lg"] lg pos by (auto simp: good_log_def)
    have "H' = H" using H(1) H'(1) u(1) leader_log_unique by simp
    then show ?thesis
      using take_shorter [OF H(2), of k] take_shorter [OF H'(2), of k] k(3) u(2) e by simp
  qed
qed simp

lemma grant_inv_step:
  assumes st: "pstep ns i w w'" and inv: "pinv ns t0 w" and i: "i \<in> set ns"
    and V': "votes_inv ns t0 w'" and A': "acks_inv ns w'"
  shows "grant_inv ns w'"
  unfolding grant_inv_def
proof (intro ballI allI impI)
  fix v t' c g t k h' assume v: "v \<in> set ns" and c: "w_vote w' v t' = c" "c \<noteq> 0" and g: "w_cand w' t' c = Some g"
    and tt: "t < t'" and a: "acked w' v t k" and p: "pending ns w' t k h'"
  note A = pinvD(4) [OF inv] and V = votes_invD [OF pinvD(1) [OF inv]] and C = pinvD(2) [OF inv, unfolded cands_inv_def]
  have ev: "evolves_to ns w w'" using st inv i by (rule pstep_evolves)
  have tv: "t' \<le> nterm w' v" using voter_invD(2) [OF votes_invD(3) [OF V' v], of t'] c by (meson not_le)
  have a0: "acked w v t k"
    using evolvesD(4) [OF ev a] tt tv by auto
  obtain h where h: "leader_log w t h" using acked_leader [OF A a0] by blast
  note B = acked_bound [OF A a0 h]
  note P = pending_back [OF p ev h B(1)]
  have K: "take k (nlog w v) = take k h" using pinvD(5) [OF inv] v a0 P(1) unfolding keep_inv_def by blast
  have "take k g = take k h"
  proof (cases "w_vote w v t' = c")
    case True
    obtain g0 where "w_cand w t' c = Some g0" using C v True c(2) by blast
    then have "w_cand w t' c = Some g" using evolvesD(8) [OF ev] g by fastforce
    then show ?thesis using pinvD(6) [OF inv] v True c(2) tt a0 P(1) unfolding grant_inv_def by blast
  next
    case False
    from st show ?thesis
    proof (cases rule: pstep.cases)
      case (campaign q s)
      then have "v = i" "g = nlog w i" using False c g by (auto split: if_splits)
      then show ?thesis using K by simp
    next
      case (grant q d li lt)
      then have d: "v = i" "t' = nterm w i" "d = c" using False c by (auto split: if_splits)
      have "w_cand w t' c = Some g" using g grant by simp
      then have "li = length g" "lt = tm g (length g)" "good_log w t' g" using C grant(3) d grant(2) by fastforce+
      moreover have "good_log w (nterm w i) (nlog w i)" using pinvD(3) [OF inv] i unfolding leads_inv_def by blast
      ultimately show ?thesis using newer_log_holds [OF inv _ _ _ P(1)] K d(1) grant by blast
    qed (use False c in auto)
  qed
  then show "take k g = take k h'" using P(2) by simp
qed

lemma safe_inv_step:
  assumes st: "pstep ns i w w'" and inv: "pinv ns t0 w" and i: "i \<in> set ns"
    and V': "votes_inv ns t0 w'" and L': "leads_inv ns t0 w'"
  shows "safe_inv ns w'"
  unfolding safe_inv_def
proof (intro allI impI)
  fix t' H' t k h' assume l': "leader_log w' t' H'" and tt: "t < t'" and p: "pending ns w' t k h'"
  note A = pinvD(4) [OF inv] and V = votes_invD [OF pinvD(1) [OF inv]] and C = pinvD(2) [OF inv, unfolded cands_inv_def]
  have ev: "evolves_to ns w w'" using st inv i by (rule pstep_evolves)
  have pl: "leader_log w' t h'" "k \<le> length h'" "tm h' k = t" "choosable ns w' t k" using p by (simp_all add: pending_def)
  show "take k H' = take k h'"
  proof (cases "\<exists>h. leader_log w t h \<and> k \<le> length h")
    case True
    then obtain h where h: "leader_log w t h" "k \<le> length h" by blast
    note P = pending_back [OF p ev h]
    show ?thesis
    proof (cases "\<exists>H. leader_log w t' H")
      case True
      then obtain H where H: "leader_log w t' H" by blast
      obtain H'' where "leader_log w' t' H''" "take (length H) H'' = H" using evolvesD(2) [OF ev H] by blast
      then have e: "take (length H) H' = H" using l' leader_log_unique by blast
      have k: "take k H = take k h" using pinvD(7) [OF inv] H tt P(1) unfolding safe_inv_def by blast
      then have "k \<le> length H" using take_eq_length h(2) by blast
      then show ?thesis using e k P(2) by (metis min.absorb1 take_take)
    next
      case False
      from st show ?thesis
      proof (cases rule: pstep_lead)
        case won
        then have e: "t' = nterm w i" "H' = nlog w i" using False l' by (auto simp: leader_log_def split: if_splits)
        obtain Q where Q: "majority ns Q" "\<And>v. v \<in> Q \<Longrightarrow> acked w v t k \<or> nterm w v \<le> t"
          using P(1) unfolding pending_def choosable_def by blast
        obtain v where v: "v \<in> Q" "v \<in> pn_votes (w_node w i)" using majority_overlap [OF Q(1) won(6)] by blast
        have vv: "v \<in> set ns" "w_vote w v t' = i" using voter_invD(5) [OF V(3) [OF i] won(4) v(2)] e(1) by auto
        have "t' \<le> nterm w v" using voter_invD(2) [OF V(3) [OF vv(1)], of t'] vv(2) V(2) i by (metis not_le)
        then have "acked w v t k" using Q(2) [OF v(1)] tt by auto
        moreover have "w_cand w t' i = Some (nlog w i)" using C i won(4) e(1) by blast
        ultimately have "take k (nlog w i) = take k h"
          using pinvD(6) [OF inv] vv tt P(1) V(2) i unfolding grant_inv_def by metis
        then show ?thesis using e(2) P(2) by simp
      next
        case (grown es)
        have "w_lead w (nterm w i) = Some (i, nlog w i)" using pinvD(3) [OF inv] i grown(5) unfolding leads_inv_def by blast
        then show ?thesis using False l' grown by (auto simp: leader_log_def split: if_splits)
      qed (use False l' in \<open>auto simp: leader_log_def\<close>)
    qed
  next
    case None: False
    from st show ?thesis
    proof (cases rule: pstep_lead)
      case same
      then show ?thesis using None pl by (auto simp: leader_log_def)
    next
      case won
      then have e: "t = nterm w i" "h' = nlog w i" using None pl by (auto simp: leader_log_def split: if_splits)
      have "\<forall>e \<in> set (nlog w i). e_term e < t" using C i won(4) e(1) by blast
      then have "k = 0" using tm_mem [of k h'] pl e by fastforce
      then show ?thesis by simp
    next
      case (grown es)
      have li: "w_lead w (nterm w i) = Some (i, nlog w i)" using pinvD(3) [OF inv] i grown(5) unfolding leads_inv_def by blast
      then have e: "t = nterm w i" "length (nlog w i) < k" using None pl grown by (auto simp: leader_log_def split: if_splits)
      obtain l where "w_lead w' t' = Some (l, H')" using l' by (auto simp: leader_log_def)
      moreover have "t0 < t'" using voter_invD(1) [OF V(3) [OF i]] tt e(1) by simp
      ultimately obtain Q' where Q': "majority ns Q'" "\<And>v. v \<in> Q' \<Longrightarrow> w_vote w' v t' = l" and l: "l \<in> set ns"
        using L' unfolding leads_inv_def by blast
      obtain Q where Q: "majority ns Q" "\<And>v. v \<in> Q \<Longrightarrow> acked w' v t k \<or> nterm w' v \<le> t"
        using pl(4) unfolding choosable_def by blast
      obtain v where v: "v \<in> Q" "v \<in> Q'" using majority_overlap [OF Q(1) Q'(1)] by blast
      have vn: "v \<in> set ns" using v(2) majorities.quorum_members [OF Q'(1)] by blast
      have "t' \<le> nterm w' v"
        using voter_invD(2) [OF votes_invD(3) [OF V' vn], of t'] Q'(2) [OF v(2)] V(2) l by (metis not_le)
      then have "acked w v t k" using Q(2) [OF v(1)] tt evolvesD(4) [OF ev, of v t k] by auto
      then have "k \<le> length (nlog w i)" using acked_bound(1) [OF A] li e(1) by (auto simp: leader_log_def)
      then show ?thesis using e(2) by simp
    qed
  qed
qed

section \<open>Commitment\<close>

text \<open>What is committed stays in the log.\<close>

lemma committed_kept:
  assumes st: "pstep ns i w w'" and inv: "pinv ns t0 w" and i: "i \<in> set ns"
  shows "pn_commit (w_node w i) \<le> length (nlog w' i) \<and> take (pn_commit (w_node w i)) (nlog w' i) = take (pn_commit (w_node w i)) (nlog w i)"
proof -
  have C: "pn_commit (w_node w i) \<le> length (nlog w i)" using pinvD(8) [OF inv] i unfolding commit_inv_def by blast
  have G: "good_log w (nterm w i) (nlog w i)" using pinvD(3) [OF inv] i unfolding leads_inv_def by blast
  from st show ?thesis
  proof (cases rule: pstep_log)
    case (merged g n c)
    obtain h where h: "leader_log w (nterm w i) h" "g = take (length g) h" "n \<le> length g" "good_log w (nterm w i) g"
      using appD [OF inv merged(2)] by metis
    note K = committed_in_leader [OF inv i h(1) order_refl]
    have "take (pn_commit (w_node w i)) (merge (nlog w i) n g) = take (pn_commit (w_node w i)) h"
      using G h merged(3,4) K by (intro merge_keeps) (auto simp: good_log_def)
    then have "take (pn_commit (w_node w i)) (merge (nlog w i) n g) = take (pn_commit (w_node w i)) (nlog w i)" using K(1) by simp
    then show ?thesis using merged(1) C take_eq_length by metis
  qed (use C in auto)
qed

lemma settled_commit_step:
  assumes st: "pstep ns i w w'" and inv: "pinv ns t0 w" and i: "i \<in> set ns"
  shows "pn_commit (w_node w' i) \<le> length (nlog w' i) \<and> settled ns w' (nterm w' i) (nlog w' i) (pn_commit (w_node w' i))"
proof -
  have ev: "evolves_to ns w w'" using st inv i by (rule pstep_evolves)
  have C: "pn_commit (w_node w i) \<le> length (nlog w i)" "settled ns w (nterm w i) (nlog w i) (pn_commit (w_node w i))"
    using pinvD(8) [OF inv] i unfolding commit_inv_def by blast+
  have G: "good_log w (nterm w i) (nlog w i)" using pinvD(3) [OF inv] i unfolding leads_inv_def by blast
  have old: "settled ns w' (nterm w' i) (nlog w i) (pn_commit (w_node w i))"
    using C(2) ev evolvesD(5) [OF ev] by (rule settled_mono)
  note keep = committed_kept [OF st inv i]
  from st show ?thesis
  proof (cases rule: pstep_commit)
    case same
    then show ?thesis using keep settled_cong [OF old] by simp
  next
    case lead
    let ?k = "pn_commit (w_node w' i)"
    show ?thesis
    proof (cases "?k = 0")
      case True
      then show ?thesis using lead old settled_cong [OF old] keep by simp
    next
      case False
      have l: "w_lead w (nterm w i) = Some (i, nlog w i)" using pinvD(3) [OF inv] i lead(1) unfolding leads_inv_def by blast
      have "acked w v (nterm w i) ?k" if "?k \<le> pn_match (w_node w i) v" for v
      proof -
        have "acked w v (nterm w i) (pn_match (w_node w i) v)"
          using that False pinvD(4) [OF inv] i lead(1) unfolding acks_inv_def by (metis le_zero_eq)
        then show ?thesis using that unfolding acked_def by (meson order_trans)
      qed
      then have "chosen ns w (nterm w i) ?k (nlog w i)" using l lead(4,6,7) unfolding chosen_def leader_log_def by blast
      then have "settled ns w (nterm w i) (nlog w i) ?k" unfolding settled_def by blast
      then show ?thesis using settled_mono [OF _ ev order_refl] lead by simp
    qed
  next
    case (merged g n c)
    obtain h where h: "leader_log w (nterm w i) h" "g = take (length g) h" "n \<le> length g" "settled ns w (nterm w i) h c"
      "good_log w (nterm w i) g" using appD [OF inv merged(2)] by metis
    let ?c = "min c (length g)"
    have m: "take (length g) (merge (nlog w i) n g) = g"
      using G h merged(3,4) by (intro merge_accepts(1)) (auto simp: good_log_def)
    then have "take ?c (merge (nlog w i) n g) = take ?c h"
      using h(2) take_shorter [of "length g" "merge (nlog w i) n g" h ?c] by simp
    moreover have "settled ns w' (nterm w' i) h ?c"
      using settled_shorter [OF settled_mono [OF h(4) ev order_refl], of ?c] merged(5) by simp
    ultimately have new: "settled ns w' (nterm w' i) (nlog w' i) ?c" using merged(1) settled_cong by metis
    have len: "?c \<le> length (nlog w' i)" using m merged(1) by (metis length_take min.cobounded1 min.coboundedI2)
    show ?thesis using new len keep settled_cong [OF old] merged(6) by (simp add: max_def)
  next
    case (beat c)
    show ?thesis
    proof (cases "c = 0")
      case True
      then show ?thesis using beat keep settled_cong [OF old] by simp
    next
      case False
      obtain h where a: "acked w i (nterm w i) c" and h: "leader_log w (nterm w i) h" "settled ns w (nterm w i) h c"
        using pinvD(8) [OF inv] beat(3) False unfolding commit_inv_def by blast
      obtain k where k: "c \<le> k" "(i, nterm w i, k) \<in> w_ack w" using a by (auto simp: acked_def)
      obtain h' where "leader_log w (nterm w i) h'" "take k (nlog w i) = take k h'" using acks_invD [OF pinvD(4) [OF inv] k(2)] by metis
      then have "take c (nlog w i) = take c h" using h(1) leader_log_unique take_shorter [OF _ k(1)] by metis
      then have "settled ns w' (nterm w' i) (nlog w' i) c"
        using settled_mono [OF settled_cong [OF h(2)] ev order_refl] beat by simp
      then show ?thesis using beat keep settled_cong [OF old] by (simp add: max_def)
    qed
  qed
qed

lemma commit_inv_step:
  assumes st: "pstep ns i w w'" and inv: "pinv ns t0 w" and i: "i \<in> set ns"
  shows "commit_inv ns w'"
proof -
  have ev: "evolves_to ns w w'" using st inv i by (rule pstep_evolves)
  have C: "\<And>v. v \<in> set ns \<Longrightarrow> pn_commit (w_node w v) \<le> length (nlog w v) \<and> settled ns w (nterm w v) (nlog w v) (pn_commit (w_node w v))"
    using pinvD(8) [OF inv] unfolding commit_inv_def by blast
  have nodes: "pn_commit (w_node w' v) \<le> length (nlog w' v) \<and> settled ns w' (nterm w' v) (nlog w' v) (pn_commit (w_node w' v))"
    if "v \<in> set ns" for v
    using settled_commit_step [OF st inv i] C [OF that] settled_mono [OF _ ev order_refl] pstep_others(1) [OF st] by metis
  have lead: "\<exists>h'. leader_log w' t h' \<and> take (length h) h' = h \<and> length h \<le> length h' \<and> settled ns w' t h' c"
    if q: "leader_log w t h" "c \<le> length h" "settled ns w t h c" for t h c
  proof -
    obtain h' where h': "leader_log w' t h'" "take (length h) h' = h" using evolvesD(2) [OF ev q(1)] by blast
    have "take c h' = take c h" using h'(2) q(2) by (metis min.absorb1 take_take)
    then have "settled ns w' t h' c" using settled_cong [OF settled_mono [OF q(3) ev order_refl]] by blast
    then show ?thesis using h' by (metis length_take min.cobounded1)
  qed
  have L: "leader_log w (nterm w i) (nlog w i)" if "pn_role (w_node w i) = Leader"
    using pinvD(3) [OF inv] i that unfolding leads_inv_def leader_log_def by blast
  have app: "n \<le> length g \<and> (\<exists>h. leader_log w' t h \<and> g = take (length g) h \<and> c \<le> length h \<and> settled ns w' t h c)"
    if m: "App t g n c \<in> w_msgs w'" for t g n c
  proof -
    obtain h where h: "leader_log w t h" "g = take (length g) h" "n \<le> length g" "c \<le> length h" "settled ns w t h c"
      using pstep_app [OF st m] appD [OF inv] L C [OF i] by metis
    obtain h' where h': "leader_log w' t h'" "take (length h) h' = h" "length h \<le> length h'" "settled ns w' t h' c"
      using lead [OF h(1,4,5)] by blast
    have "length g \<le> length h" using h(2) by (metis length_take min.cobounded1)
    then have "g = take (length g) h'" using h(2) h'(2) by (metis min.absorb1 take_take)
    then show ?thesis using h h' by (meson order_trans)
  qed
  have M: "acked w v (nterm w i) c" if "pn_role (w_node w i) = Leader" "c \<le> pn_match (w_node w i) v" "c \<noteq> 0" for v c
  proof -
    have "acked w v (nterm w i) (pn_match (w_node w i) v)"
      using that pinvD(4) [OF inv] i unfolding acks_inv_def by (metis le_zero_eq)
    then show ?thesis using that(2) unfolding acked_def by (meson order_trans)
  qed
  have beat: "acked w' v t c \<and> (\<exists>h. leader_log w' t h \<and> c \<le> length h \<and> settled ns w' t h c)"
    if m: "Beat t v c \<in> w_msgs w'" "c \<noteq> 0" for t v c
  proof -
    have "acked w v t c \<and> (\<exists>h. leader_log w t h \<and> c \<le> length h \<and> settled ns w t h c)"
      using pstep_beat [OF st m(1)]
    proof
      assume "Beat t v c \<in> w_msgs w"
      then show ?thesis using pinvD(8) [OF inv] m(2) unfolding commit_inv_def by blast
    next
      assume a: "pn_role (w_node w i) = Leader \<and> t = nterm w i \<and> c \<le> pn_match (w_node w i) v \<and> c \<le> pn_commit (w_node w i)"
      then have "c \<le> length (nlog w i) \<and> settled ns w t (nlog w i) c" using C [OF i] settled_shorter by (metis order_trans)
      then show ?thesis using a L M m(2) by blast
    qed
    then show ?thesis using evolvesD(3) [OF ev] lead by (meson order_trans)
  qed
  show ?thesis using nodes app beat unfolding commit_inv_def by blast
qed

section \<open>Safety of the protocol\<close>

lemma pstep_inv:
  assumes "pstep ns i w w'" and "pinv ns t0 w" and "i \<in> set ns"
  shows "pinv ns t0 w'"
  unfolding pinv_def
  using votes_inv_step [OF assms] cands_inv_step [OF assms] leads_inv_step [OF assms] acks_inv_step [OF assms]
    keep_inv_step [OF assms] grant_inv_step [OF assms] safe_inv_step [OF assms] commit_inv_step [OF assms] by blast

lemma psteps_inv: "(pstep ns i)\<^sup>*\<^sup>* w w' \<Longrightarrow> pinv ns t0 w \<Longrightarrow> i \<in> set ns \<Longrightarrow> pinv ns t0 w'"
  by (induction rule: rtranclp_induct) (auto intro: pstep_inv)

lemma commit_mono: "pstep ns i w w' \<Longrightarrow> pn_commit (w_node w i) \<le> pn_commit (w_node w' i)"
  by (erule pstep_commit) auto

lemma psteps_committed:
  assumes "(pstep ns i)\<^sup>*\<^sup>* w w'" and "pinv ns t0 w" and "i \<in> set ns"
  shows "pn_commit (w_node w i) \<le> pn_commit (w_node w' i)"
    and "take (pn_commit (w_node w i)) (nlog w' i) = take (pn_commit (w_node w i)) (nlog w i)"
proof -
  have "pn_commit (w_node w i) \<le> pn_commit (w_node w' i) \<and>
      take (pn_commit (w_node w i)) (nlog w' i) = take (pn_commit (w_node w i)) (nlog w i)"
    using assms(1)
  proof (induction rule: rtranclp_induct)
    case (step u v)
    have "pinv ns t0 u" using step(1) assms(2,3) by (rule psteps_inv)
    then show ?case using step commit_mono [OF step(2)] committed_kept [OF step(2) _ assms(3)] take_shorter order_trans by metis
  qed simp
  then show "pn_commit (w_node w i) \<le> pn_commit (w_node w' i)"
    "take (pn_commit (w_node w i)) (nlog w' i) = take (pn_commit (w_node w i)) (nlog w i)" by blast+
qed

text \<open>Logs that agree on the term of a position agree up to it.\<close>

lemma log_matching:
  assumes "pinv ns t0 w" and "i \<in> set ns" and "j \<in> set ns" and "k \<le> length (nlog w i)" and "k \<le> length (nlog w j)"
    and "tm (nlog w i) k = tm (nlog w j) k"
  shows "take k (nlog w i) = take k (nlog w j)"
  using pinvD(3) [OF assms(1)] assms(2-) by (intro traced_match) (auto simp: leads_inv_def good_log_def)

text \<open>What a node has committed is in the log of every leader of its term or a later one.\<close>

lemma leader_completeness:
  assumes "pinv ns t0 w" and "i \<in> set ns" and "j \<in> set ns" and "pn_role (w_node w j) = Leader" and "nterm w i \<le> nterm w j"
  shows "take (pn_commit (w_node w i)) (nlog w j) = take (pn_commit (w_node w i)) (nlog w i)"
    and "pn_commit (w_node w i) \<le> length (nlog w j)"
proof -
  have "leader_log w (nterm w j) (nlog w j)" using pinvD(3) [OF assms(1)] assms(3,4) unfolding leads_inv_def leader_log_def by blast
  from committed_in_leader [OF assms(1,2) this assms(5)]
  show "take (pn_commit (w_node w i)) (nlog w j) = take (pn_commit (w_node w i)) (nlog w i)"
    "pn_commit (w_node w i) \<le> length (nlog w j)" by simp_all
qed

text \<open>Two chosen prefixes do not differ.\<close>

lemma chosen_agree:
  assumes "pinv ns t0 w" and "chosen ns w t k h" and "chosen ns w t' k' h'" and "c \<le> k" and "c \<le> k'"
  shows "take c h = take c h'"
proof -
  have main: "take c h = take c h'" if "chosen ns w t k h" "chosen ns w t' k' h'" "c \<le> k" "c \<le> k'" "t \<le> t'" for t k h t' k' h'
  proof (cases "t = t'")
    case True
    then show ?thesis using that leader_log_unique by (metis chosen_def)
  next
    case False
    then have "take k h' = take k h"
      using pinvD(7) [OF assms(1)] that chosen_pending [OF that(1)] unfolding safe_inv_def by (metis chosen_def order.not_eq_order_implies_strict)
    then show ?thesis using take_shorter [OF _ that(3)] by metis
  qed
  show ?thesis using main [OF assms(2-5)] main [OF assms(3,2,5,4)] by (metis linear)
qed

lemma commit_agreement:
  assumes "pinv ns t0 w" and "i \<in> set ns" and "j \<in> set ns" and "c \<le> pn_commit (w_node w i)" and "c \<le> pn_commit (w_node w j)"
  shows "take c (nlog w i) = take c (nlog w j)"
proof -
  have "\<exists>t k h. chosen ns w t k h \<and> c \<le> k \<and> take c (nlog w v) = take c h" if "v \<in> set ns" "c \<le> pn_commit (w_node w v)" for v
  proof -
    have "settled ns w (nterm w v) (nlog w v) (pn_commit (w_node w v))" using pinvD(8) [OF assms(1)] that(1) unfolding commit_inv_def by blast
    from settled_shorter [OF this that(2)] show ?thesis unfolding settled_def by blast
  qed
  then show ?thesis using assms(2-) chosen_agree [OF assms(1)] by metis
qed

end
