(* ===== verification/Raft_Frame.thy ===== *)
theory Raft_Frame
  imports Raft
begin

text \<open>
  What the operations of \<open>Raft\<close> leave alone. The two locales are the interface between the
  operations and the relations of interest: \<open>sending_relation\<close> asks that a relation between states is
  respected by queueing an ordinary message and by updating a progress, \<open>node_relation\<close> adds the
  changes of the log and of the bookkeeping fields; inside them every composite operation that does
  not change the role is shown to respect the relation, once for all relations. \<open>only_sends\<close> and
  \<open>keeps_role\<close> are instances.
\<close>

section \<open>Relations respected by sending\<close>

text \<open>Messages that are not about votes; \<^verbatim>\<open>send\<close> stamps them with the term of the node.\<close>

definition ordinary :: "Message \<Rightarrow> bool" where
  "ordinary m \<longleftrightarrow> \<not> is_vote_msg (m_type m)"

locale sending_relation =
  fixes R :: "Raft \<Rightarrow> Raft \<Rightarrow> bool"
  assumes R_refl: "R r r" and R_trans: "R r s \<Longrightarrow> R s t \<Longrightarrow> R r t"
    and R_send: "send m r = Inr r' \<Longrightarrow> ordinary m \<Longrightarrow> R r r'"
    and R_put: "R r (put_progress k p r)"
begin

lemma R_maybe_send_append:
  assumes "maybe_send_append to b r = Inr (s, r')"
  shows "R r r'"
  using assms
proof (cases rule: maybe_send_append_cases)
  case (app p q es t)
  show ?thesis by (rule R_trans [OF R_put R_send [OF app(8)]]) (simp add: ordinary_def is_vote_msg_def)
next
  case (snap p)
  show ?thesis by (rule R_trans [OF R_put R_send [OF snap(4)]]) (simp add: ordinary_def is_vote_msg_def)
qed (simp add: R_refl)

lemma R_send_append: "send_append to r = Inr r' \<Longrightarrow> R r r'"
  by (auto simp: send_append_def intro: R_maybe_send_append)

lemma R_send_heartbeat: "send_heartbeat to ctx r = Inr r' \<Longrightarrow> R r r'"
  by (auto simp: send_heartbeat_def ordinary_def is_vote_msg_def intro: R_send)

lemma R_loop:
  assumes "loop_r f xs r = Inr r'" and "\<And>x s s'. f x s = Inr s' \<Longrightarrow> R s s'"
  shows "R r r'"
  using assms(1) by (rule loop_r_relation) (auto intro: R_refl R_trans assms(2))

lemma R_bcast_append: "bcast_append r = Inr r' \<Longrightarrow> R r r'"
  unfolding bcast_append_def
  by (erule R_loop) (auto simp: R_refl split: if_splits intro: R_send_append)

lemma R_bcast_heartbeat_with_ctx: "bcast_heartbeat_with_ctx ctx r = Inr r' \<Longrightarrow> R r r'"
  unfolding bcast_heartbeat_with_ctx_def
  by (erule R_loop) (auto simp: R_refl split: if_splits intro: R_send_heartbeat)

lemma R_bcast_heartbeat: "bcast_heartbeat r = Inr r' \<Longrightarrow> R r r'"
  by (simp add: bcast_heartbeat_def R_bcast_heartbeat_with_ctx)

lemma R_send_timeout_now: "send_timeout_now to r = Inr r' \<Longrightarrow> R r r'"
  by (auto simp: send_timeout_now_def ordinary_def is_vote_msg_def intro: R_send)

lemma R_send_append_loop: "send_append_loop to r = Inr r' \<Longrightarrow> R r r'"
proof (induction to r arbitrary: r' rule: send_append_loop.induct)
  case (1 to r)
  from 1(2) obtain b s where b: "maybe_send_append to False r = Inr (b, s)"
    and rest: "(if b then send_append_loop to s else Inr s) = Inr r'"
    by (subst (asm) send_append_loop.simps) auto
  have "R r s" by (rule R_maybe_send_append [OF b])
  moreover have "R s r'" using rest 1(1) [OF b refl] by (cases b) (auto simp: R_refl)
  ultimately show ?case by (rule R_trans)
qed

lemma R_forward_to_leader: "forward_to_leader msg r = Inr (s, r') \<Longrightarrow> ordinary msg \<Longrightarrow> R r r'"
  by (auto simp: forward_to_leader_def ok_with_def ordinary_def is_vote_msg_def intro: R_send)

lemmas R_sends =
  R_send_append R_bcast_append R_bcast_heartbeat_with_ctx R_bcast_heartbeat R_send_timeout_now R_send_append_loop

end

section \<open>Relations respected by the handlers that stay in the role\<close>

lemma commit_to_mono: "commit_to i l = Inr l' \<Longrightarrow> rl_committed l \<le> rl_committed l' \<and> rl_applied l' = rl_applied l"
  by (auto simp: commit_to_def split: if_splits)

lemma log_append_committed: "log_append es l = Inr (i, l') \<Longrightarrow> rl_committed l' = rl_committed l"
  by (auto simp: log_append_def Let_def split: if_splits)

lemma log_maybe_commit_mono:
  "log_maybe_commit i t l = Inr (b, l') \<Longrightarrow> rl_committed l \<le> rl_committed l'"
  by (auto simp: log_maybe_commit_def split: if_splits sum.splits dest: commit_to_mono)

lemma maybe_append_mono:
  assumes "maybe_append i t c es l = Inr (res, l')"
  shows "rl_committed l \<le> rl_committed l'"
  using assms
  by (auto simp: maybe_append_def Let_def split: if_splits dest!: commit_to_mono log_append_committed)

lemma maybe_commit_eq:
  assumes "maybe_commit r = Inr (b, r')"
  obtains buf l where "r' = r\<lparr>r_match_buf := buf, r_raft_log := l\<rparr>"
    and "rl_committed (r_raft_log r) \<le> rl_committed l"
  using assms by (auto simp: maybe_commit_def Let_def dest!: log_maybe_commit_mono)

lemma ok_with_Inr [simp]: "ok_with m = Inr (s, r) \<longleftrightarrow> m = Inr r \<and> s = OK"
  by (cases m) (auto simp: ok_with_def)

locale node_relation = sending_relation +
  assumes R_log: "rl_committed (r_raft_log r) \<le> rl_committed l \<Longrightarrow> R r (r\<lparr>r_raft_log := l\<rparr>)"
    and R_match_buf: "R r (r\<lparr>r_match_buf := buf\<rparr>)"
    and R_uncommitted: "R r (r\<lparr>r_uncommitted_size := u\<rparr>)"
    and R_pending_conf: "R r (r\<lparr>r_pending_conf_index := i\<rparr>)"
    and R_read_only: "R r (r\<lparr>r_read_only := ro\<rparr>)"
    and R_read_states: "R r (r\<lparr>r_read_states := rs\<rparr>)"
    and R_transferee: "R r (r\<lparr>r_lead_transferee := k\<rparr>)"
    and R_elapsed: "R r (r\<lparr>r_election_elapsed := e\<rparr>)"
begin

lemma R_maybe_commit:
  assumes "maybe_commit r = Inr (b, r')"
  shows "R r r'"
proof -
  obtain buf l where "r' = r\<lparr>r_match_buf := buf, r_raft_log := l\<rparr>" "rl_committed (r_raft_log r) \<le> rl_committed l"
    using assms by (rule maybe_commit_eq)
  then show ?thesis using R_trans [OF R_match_buf [of r buf] R_log [of _ l]] by simp
qed

lemma R_increase: "increase_uncommitted_size es r = (ok, r') \<Longrightarrow> R r r' \<and> r_raft_log r' = r_raft_log r"
  by (auto simp: increase_uncommitted_size_def Let_def R_refl R_uncommitted split: if_splits)

lemma R_reduce: "R r (reduce_uncommitted_size es r)"
  by (simp add: reduce_uncommitted_size_def Let_def R_refl R_uncommitted)

lemma R_append_entry:
  assumes "append_entry es r = Inr (ok, r')"
  shows "R r r'"
proof -
  let ?ents = "stamp_entries (r_term r) (last_index (r_raft_log r)) es"
  obtain b s where s: "increase_uncommitted_size ?ents r = (b, s)" by fastforce
  note S = R_increase [OF s]
  show ?thesis
  proof (cases b)
    case False
    then show ?thesis using assms S by (simp add: append_entry_def s Let_def)
  next
    case True
    with assms obtain li l p c where l: "log_append ?ents (r_raft_log s) = Inr (li, l)"
      and c: "maybe_commit (put_progress (r_id s) (snd (maybe_update li p)) (s\<lparr>r_raft_log := l\<rparr>)) = Inr (c, r')"
      by (auto simp: append_entry_def s Let_def)
    have "R s (s\<lparr>r_raft_log := l\<rparr>)" using log_append_committed [OF l] by (intro R_log) simp
    with S R_maybe_commit [OF c] R_put show ?thesis by (meson R_trans)
  qed
qed

lemma R_answer_read: "answer_read i req r = Inr r' \<Longrightarrow> R r r'"
  by (auto simp: answer_read_def ordinary_def is_vote_msg_def R_read_states split: if_splits intro: R_send)

lemma R_leader_prop:
  assumes "leader_prop msg r = Inr (s, r')"
  shows "R r r'"
proof -
  obtain es pci where p: "prop_entries (rl_applied (r_raft_log r)) (last_index (r_raft_log r)) (m_entries msg)
      (r_pending_conf_index r) = (es, pci)" by fastforce
  have A: "R r q" if "append_entry es (r\<lparr>r_pending_conf_index := pci\<rparr>) = Inr (b, q)" for b q
    using R_trans [OF R_pending_conf R_append_entry [OF that]] .
  from assms show ?thesis
    by (auto simp: leader_prop_def p R_refl split: if_splits dest!: A R_bcast_append intro: R_trans)
qed

lemma R_leader_read_index:
  assumes "leader_read_index msg r = Inr (s, r')"
  shows "R r r'"
proof -
  have B: "R r r'" if "bcast_heartbeat_with_ctx c (r\<lparr>r_read_only := ro\<rparr>) = Inr r'" for c ro
    using R_trans [OF R_read_only R_bcast_heartbeat_with_ctx [OF that]] .
  from assms show ?thesis
    by (auto simp: leader_read_index_def Let_def R_refl R_read_states
        split: if_splits sum.splits ReadOnlyOption.splits dest!: R_answer_read B)
qed

lemma R_leader_app_resp:
  assumes "leader_app_resp msg pr r = Inr (s, r')"
  shows "R r r'"
proof (cases "m_reject msg")
  case True
  have B: "R r r'" if "send_append k (put_progress k p r) = Inr r'" for k p
    using R_trans [OF R_put R_send_append [OF that]] .
  from True show ?thesis
    using assms by (auto simp: leader_app_resp_def Let_def R_put split: prod.splits if_splits dest!: B)
next
  case False
  let ?pr = "pr\<lparr>pr_recent_active := True\<rparr>"
  obtain upd p1 where u: "maybe_update (m_index msg) ?pr = (upd, p1)" by fastforce
  show ?thesis
  proof (cases upd)
    case F: False
    then show ?thesis using assms False u by (auto simp: leader_app_resp_def R_put)
  next
    case T: True
    with assms False u obtain p2 com r1 r2 r3 and p3 :: Progress where
      c: "maybe_commit (put_progress (m_from msg) p2 r) = Inr (com, r1)"
      and s: "(if com then bcast_append r1 else if is_paused ?pr then send_append (m_from msg) r1 else Inr r1) = Inr r2"
      and l: "send_append_loop (m_from msg) r2 = Inr r3"
      and e: "(if m_from msg = r_lead_transferee r3 \<and> pr_match p3 = last_index (r_raft_log r3)
          then ok_with (send_timeout_now (m_from msg) r3) else Inr (OK, r3)) = Inr (s, r')"
      by (auto simp: leader_app_resp_def Let_def)
    have "R r r1" by (rule R_trans [OF R_put R_maybe_commit [OF c]])
    moreover have "R r1 r2" using s by (auto simp: R_refl split: if_splits dest!: R_bcast_append R_send_append)
    moreover have "R r2 r3" using l by (rule R_send_append_loop)
    moreover have "R r3 r'" using e by (auto simp: R_refl split: if_splits dest!: R_send_timeout_now)
    ultimately show ?thesis by (meson R_trans)
  qed
qed

lemma R_leader_heartbeat_resp:
  assumes "leader_heartbeat_resp msg pr r = Inr (s, r')"
  shows "R r r'"
proof -
  from assms obtain p1 r1 where
    s1: "(if pr_match p1 < last_index (r_raft_log (put_progress (m_from msg) p1 r))
        then send_append (m_from msg) (put_progress (m_from msg) p1 r)
        else Inr (put_progress (m_from msg) p1 r)) = Inr r1"
    and rest: "(if ro_option (r_read_only r1) \<noteq> ReadOnlySafe \<or> m_context msg = [] then Inr (OK, r1)
      else let (ack_count, ro) = recv_ack msg (r_read_only r1); r2 = r1\<lparr>r_read_only := ro\<rparr> in
        if ack_count < quorum r2 then Inr (OK, r2)
        else bind_r (advance msg (r_read_only r2)) (\<lambda>(rss, ro).
          ok_with (loop_r (\<lambda>rs. answer_read (ri_index rs) (ri_req rs)) rss (r2\<lparr>r_read_only := ro\<rparr>)))) = Inr (s, r')"
    by (auto simp: leader_heartbeat_resp_def Let_def)
  have "R r r1"
    using s1 R_trans [OF R_put R_send_append] by (auto simp: R_put split: if_splits)
  moreover have "R r1 r'"
  proof -
    have L: "R r1 r'" if "loop_r (\<lambda>rs. answer_read (ri_index rs) (ri_req rs)) rss (r1\<lparr>r_read_only := ro\<rparr>) = Inr r'" for rss ro
      by (rule R_trans [OF R_read_only R_loop [OF that]]) (rule R_answer_read)
    show ?thesis
      using rest by (auto simp: Let_def R_refl R_read_only split: if_splits prod.splits dest!: L)
  qed
  ultimately show ?thesis by (rule R_trans)
qed

lemma R_leader_transfer:
  assumes "leader_transfer msg pr r = Inr (s, r')"
  shows "R r r'"
proof -
  have A: "R r (r\<lparr>r_election_elapsed := a, r_lead_transferee := b\<rparr>)" for a b
    by (rule R_trans [OF R_elapsed R_transferee])
  have B: "R r r'" if "R (r\<lparr>r_election_elapsed := a, r_lead_transferee := b\<rparr>) r'" for a b
    using R_trans [OF A that] .
  from assms show ?thesis
    using R_transferee [of r 0] unfolding leader_transfer_def Let_def abort_leader_transfer_def
    by (auto simp: R_refl split: if_splits dest!: R_send_append R_send_timeout_now B)
qed

lemma R_leader_with_progress:
  assumes "leader_with_progress msg r = Inr (s, r')"
  shows "R r r'"
  using assms
  by (auto simp: leader_with_progress_def leader_snap_status_def leader_unreachable_def R_refl R_put
      split: option.splits MessageType.splits if_splits
      dest!: R_leader_app_resp R_leader_heartbeat_resp R_leader_transfer)

lemma R_handle_append_entries:
  assumes "handle_append_entries msg r = Inr r'"
  shows "R r r'"
proof (cases "m_index msg < rl_committed (r_raft_log r)")
  case True
  then show ?thesis using assms by (auto simp: handle_append_entries_def ordinary_def is_vote_msg_def intro: R_send)
next
  case False
  then obtain ok l where a: "maybe_append (m_index msg) (m_log_term msg) (m_commit msg) (m_entries msg) (r_raft_log r) = Inr (ok, l)"
    using assms by (auto simp: handle_append_entries_def)
  obtain m where "send m (r\<lparr>r_raft_log := l\<rparr>) = Inr r'" "m_type m = MsgAppResp"
    using assms False a by (cases ok) (auto simp: handle_append_entries_def)
  then show ?thesis
    using R_trans [OF R_log [OF maybe_append_mono [OF a]] R_send] by (simp add: ordinary_def is_vote_msg_def)
qed

lemma R_handle_heartbeat:
  assumes "handle_heartbeat msg r = Inr r'"
  shows "R r r'"
proof -
  from assms obtain l where l: "commit_to (m_commit msg) (r_raft_log r) = Inr l"
    and s: "send (Message_default\<lparr>m_to := m_from msg, m_type := MsgHeartbeatResp\<rparr>) (r\<lparr>r_raft_log := l\<rparr>) = Inr r'"
    by (auto simp: handle_heartbeat_def)
  have "R r (r\<lparr>r_raft_log := l\<rparr>)" using commit_to_mono [OF l] by (intro R_log) simp
  then show ?thesis by (rule R_trans [OF _ R_send [OF s]]) (simp add: ordinary_def is_vote_msg_def)
qed

end

section \<open>Operations that only send\<close>

definition only_sends :: "Raft \<Rightarrow> Raft \<Rightarrow> bool" where
  "only_sends r r' \<longleftrightarrow>
     r' = r\<lparr>r_msgs := r_msgs r', r_prs := r_prs r', r_learner_prs := r_learner_prs r'\<rparr> \<and>
     map fst (r_prs r') = map fst (r_prs r) \<and> map fst (r_learner_prs r') = map fst (r_learner_prs r)"

lemma only_sends_refl [simp]: "only_sends r r"
  by (simp add: only_sends_def)

lemma only_sends_trans [trans]:
  assumes "only_sends r s" and "only_sends s t"
  shows "only_sends r t"
proof -
  from assms obtain a b c a' b' c' where s: "s = r\<lparr>r_msgs := a, r_prs := b, r_learner_prs := c\<rparr>"
    and t: "t = s\<lparr>r_msgs := a', r_prs := b', r_learner_prs := c'\<rparr>"
    unfolding only_sends_def by blast
  from assms show ?thesis by (simp add: only_sends_def s t)
qed

lemma only_sends_eqs:
  assumes "only_sends r r'"
  shows "r_id r' = r_id r" "r_term r' = r_term r" "r_vote r' = r_vote r" "r_raft_log r' = r_raft_log r"
    "r_state r' = r_state r" "r_is_learner r' = r_is_learner r" "r_votes r' = r_votes r" "r_lead r' = r_lead r"
    "r_step r' = r_step r" "r_tick r' = r_tick r" "r_read_only r' = r_read_only r"
    "r_check_quorum r' = r_check_quorum r" "r_pre_vote r' = r_pre_vote r"
    "r_election_timeout r' = r_election_timeout r" "r_heartbeat_timeout r' = r_heartbeat_timeout r"
    "r_random_device r' = r_random_device r" "r_max_inflight r' = r_max_inflight r"
    "r_lead_transferee r' = r_lead_transferee r" "r_read_states r' = r_read_states r"
    "r_randomized_election_timeout r' = r_randomized_election_timeout r"
    "map fst (r_prs r') = map fst (r_prs r)" "map fst (r_learner_prs r') = map fst (r_learner_prs r)"
proof -
  from assms have e: "r' = r\<lparr>r_msgs := r_msgs r', r_prs := r_prs r', r_learner_prs := r_learner_prs r'\<rparr>"
    and k: "map fst (r_prs r') = map fst (r_prs r)" "map fst (r_learner_prs r') = map fst (r_learner_prs r)"
    by (simp_all add: only_sends_def)
  show "r_id r' = r_id r" "r_term r' = r_term r" "r_vote r' = r_vote r" "r_raft_log r' = r_raft_log r"
    "r_state r' = r_state r" "r_is_learner r' = r_is_learner r" "r_votes r' = r_votes r" "r_lead r' = r_lead r"
    "r_step r' = r_step r" "r_tick r' = r_tick r" "r_read_only r' = r_read_only r"
    "r_check_quorum r' = r_check_quorum r" "r_pre_vote r' = r_pre_vote r"
    "r_election_timeout r' = r_election_timeout r" "r_heartbeat_timeout r' = r_heartbeat_timeout r"
    "r_random_device r' = r_random_device r" "r_max_inflight r' = r_max_inflight r"
    "r_lead_transferee r' = r_lead_transferee r" "r_read_states r' = r_read_states r"
    "r_randomized_election_timeout r' = r_randomized_election_timeout r"
    by (subst e, simp)+
qed (use assms in \<open>simp_all add: only_sends_def\<close>)

lemma update_keys_mem: "map_of m k \<noteq> None \<Longrightarrow> map fst (AList.update k v m) = map fst m"
  by (induction m) auto

lemma put_progress_only_sends [simp]: "only_sends r (put_progress k p r)"
  by (auto simp: only_sends_def put_progress_def update_keys_mem)

lemma send_only_sends: "send m r = Inr r' \<Longrightarrow> only_sends r r'"
  by (auto simp: send_eq only_sends_def)

interpretation sending: sending_relation only_sends
  by unfold_locales (auto intro: only_sends_trans send_only_sends)

lemma vote_requests_only_sends: "loop_r (send_vote_request m t c) ks r = Inr r' \<Longrightarrow> only_sends r r'"
  by (erule sending.R_loop) (auto simp: send_vote_request_def split: if_splits intro: send_only_sends)

section \<open>Operations that stay in the role\<close>

text \<open>The random device keeps its range and its sequence, and a randomized timeout is one of its numbers.\<close>

definition same_range :: "RandomDevice \<Rightarrow> RandomDevice \<Rightarrow> bool" where
  "same_range d d' \<longleftrightarrow> rd_min d' = rd_min d \<and> rd_max d' = rd_max d \<and> rd_seq d' = rd_seq d"

definition drawn :: "u32 \<Rightarrow> RandomDevice \<Rightarrow> u32 \<Rightarrow> bool" where
  "drawn e d t \<longleftrightarrow> (\<exists>k. t = e + (rd_min d + rd_seq d k mod (rd_max d - rd_min d + 1)))"

lemma same_range_refl [simp]: "same_range d d"
  by (simp add: same_range_def)

lemma same_range_trans: "same_range c d \<Longrightarrow> same_range d e \<Longrightarrow> same_range c e"
  by (simp add: same_range_def)

lemma drawn_cong: "same_range d d' \<Longrightarrow> drawn e d' t = drawn e d t"
  by (simp add: same_range_def drawn_def)

definition same_config :: "Raft \<Rightarrow> Raft \<Rightarrow> bool" where
  "same_config r r' \<longleftrightarrow> r_id r' = r_id r \<and> r_check_quorum r' = r_check_quorum r \<and>
     r_pre_vote r' = r_pre_vote r \<and> r_election_timeout r' = r_election_timeout r \<and>
     r_heartbeat_timeout r' = r_heartbeat_timeout r \<and> r_max_inflight r' = r_max_inflight r \<and>
     same_range (r_random_device r) (r_random_device r') \<and>
     (r_randomized_election_timeout r' = r_randomized_election_timeout r \<or>
      drawn (r_election_timeout r) (r_random_device r) (r_randomized_election_timeout r'))"

lemma same_config_trans:
  assumes "same_config r s" and "same_config s t"
  shows "same_config r t"
proof -
  have d: "same_range (r_random_device r) (r_random_device s)" using assms(1) by (simp add: same_config_def)
  have "same_range (r_random_device r) (r_random_device t)" using assms(2) same_range_trans [OF d] by (simp add: same_config_def)
  then show ?thesis using assms drawn_cong [OF d] unfolding same_config_def by (elim conjE disjE) simp_all
qed

definition keeps_role :: "Raft \<Rightarrow> Raft \<Rightarrow> bool" where
  "keeps_role r r' \<longleftrightarrow> same_config r r' \<and> r_term r' = r_term r \<and> r_vote r' = r_vote r \<and>
     r_state r' = r_state r \<and> r_lead r' = r_lead r \<and> r_votes r' = r_votes r \<and> r_step r' = r_step r \<and>
     r_tick r' = r_tick r \<and> r_is_learner r' = r_is_learner r \<and>
     map fst (r_prs r') = map fst (r_prs r) \<and> map fst (r_learner_prs r') = map fst (r_learner_prs r) \<and>
     rl_committed (r_raft_log r) \<le> rl_committed (r_raft_log r')"

lemma keeps_role_refl [simp]: "keeps_role r r"
  by (simp add: keeps_role_def same_config_def)

lemma keeps_role_trans [trans]: "keeps_role r s \<Longrightarrow> keeps_role s t \<Longrightarrow> keeps_role r t"
  unfolding keeps_role_def using same_config_trans [of r s t] by (auto intro: order_trans)

lemma only_sends_keeps_role: "only_sends r r' \<Longrightarrow> keeps_role r r'"
  using only_sends_eqs [of r r'] by (simp add: keeps_role_def same_config_def)

lemmas send_keeps_role = send_only_sends [THEN only_sends_keeps_role]

interpretation role: node_relation keeps_role
proof unfold_locales
  fix r s t :: Raft and m k p
  show "keeps_role r r" by simp
  show "keeps_role r s \<Longrightarrow> keeps_role s t \<Longrightarrow> keeps_role r t" by (rule keeps_role_trans)
  show "keeps_role r (put_progress k p r)" by (rule only_sends_keeps_role) simp
  show "send m r = Inr s \<Longrightarrow> keeps_role r s" by (rule send_keeps_role)
qed (simp_all add: keeps_role_def same_config_def)

end
