(* ===== verification/Raft_Role.thy ===== *)
theory Raft_Role
  imports Raft_Frame
begin

text \<open>
  Roles, terms and votes. \<open>role_ok\<close> ties \<^verbatim>\<open>state_\<close> to the two function members, the leader id and
  the vote; \<open>advances\<close> says that the term and the commit position do not go back and that a vote is
  kept within its term. Every operation of the node is shown to keep the first and to respect
  the second (\<open>evolves\<close>), up to \<open>step\<close> and \<open>tick\<close>.
\<close>

section \<open>The relation\<close>

definition advances :: "Raft \<Rightarrow> Raft \<Rightarrow> bool" where
  "advances r r' \<longleftrightarrow> same_config r r' \<and> r_term r \<le> r_term r' \<and>
     (r_term r' = r_term r \<and> r_vote r \<noteq> 0 \<longrightarrow> r_vote r' = r_vote r) \<and>
     rl_committed (r_raft_log r) \<le> rl_committed (r_raft_log r')"

primrec step_fn_of :: "RaftState \<Rightarrow> StepFn" where
  "step_fn_of Follower = StepFollower"
| "step_fn_of Candidate = StepCandidate"
| "step_fn_of PreCandidate = StepCandidate"
| "step_fn_of Leader = StepLeader"

primrec tick_fn_of :: "RaftState \<Rightarrow> TickFn" where
  "tick_fn_of Follower = TickElection"
| "tick_fn_of Candidate = TickElection"
| "tick_fn_of PreCandidate = TickElection"
| "tick_fn_of Leader = TickHeartbeat"

definition role_ok :: "Raft \<Rightarrow> bool" where
  "role_ok r \<longleftrightarrow> r_id r \<noteq> 0 \<and> r_step r = Some (step_fn_of (r_state r)) \<and>
     r_tick r = Some (tick_fn_of (r_state r)) \<and> (r_state r = Leader \<longrightarrow> r_lead r = r_id r) \<and>
     (r_state r = Candidate \<or> r_state r = Leader \<longrightarrow> r_vote r = r_id r)"

definition evolves :: "Raft \<Rightarrow> Raft \<Rightarrow> bool" where
  "evolves r r' \<longleftrightarrow> advances r r' \<and> (role_ok r \<longrightarrow> role_ok r')"

lemma evolves_refl [simp]: "evolves r r"
  by (simp add: evolves_def advances_def same_config_def)

lemma evolves_trans [trans]: "evolves r s \<Longrightarrow> evolves s t \<Longrightarrow> evolves r t"
  unfolding evolves_def advances_def using same_config_trans [of r s t] by (auto intro: order_trans)

lemma keeps_role_evolves: "keeps_role r r' \<Longrightarrow> evolves r r'"
  by (auto simp: keeps_role_def evolves_def advances_def role_ok_def same_config_def)

section \<open>Role changes\<close>

lemma keys_fresh [simp]: "map fst (fresh_progresses r m) = map fst m"
  by (induction m) (auto simp: fresh_progresses_def)

lemma reset_randomized_eq:
  assumes "reset_randomized_election_timeout r = Inr r'"
  obtains t d where "r' = r\<lparr>r_randomized_election_timeout := t, r_random_device := d\<rparr>"
    and "same_range (r_random_device r) d" and "drawn (r_election_timeout r) (r_random_device r) t"
  using assms
  by (auto simp: reset_randomized_election_timeout_def gen_def drawn_def same_range_def Let_def split: if_splits intro!: that)

lemma reset_facts:
  assumes "reset t r = Inr r'"
  shows "same_config r r'" and "r_term r' = t" and "r_vote r' = (if r_term r = t then r_vote r else 0)"
    and "r_raft_log r' = r_raft_log r" and "r_state r' = r_state r" and "r_step r' = r_step r"
    and "r_votes r' = []" and "r_lead r' = 0" and "r_is_learner r' = r_is_learner r"
    and "r_msgs r' = r_msgs r" and "map fst (r_prs r') = map fst (r_prs r)"
    and "map fst (r_learner_prs r') = map fst (r_learner_prs r)" and "r_uncommitted_size r' = 0"
  using assms
  by (auto simp: reset_def Let_def abort_leader_transfer_def same_config_def elim!: reset_randomized_eq
      split: if_splits)

lemma reset_drawn:
  assumes "reset t r = Inr r'"
  shows "drawn (r_election_timeout r) (r_random_device r) (r_randomized_election_timeout r')"
  using assms by (auto simp: reset_def Let_def abort_leader_transfer_def elim!: reset_randomized_eq split: if_splits)

text \<open>A number drawn modulo the timeout plus one, in the 32 bits of the timer.\<close>

lemma drawn_timeout:
  fixes e x :: u32
  assumes "unat e < 2 ^ 31"
  shows "unat (e + x mod (e + 1)) = unat e + unat x mod (unat e + 1)" and "unat x mod (unat e + 1) \<le> unat e"
    and "e + x mod (e + 1) \<le> 2 * e"
proof -
  have e1: "unat (e + 1) = unat e + 1" using assms by (subst unat_add_small) simp_all
  have ug: "unat (x mod (e + 1)) = unat x mod (unat e + 1)" by (simp add: unat_mod e1)
  show g: "unat x mod (unat e + 1) \<le> unat e" by (simp add: less_Suc_eq_le [symmetric])
  have "(2 :: nat) ^ 32 = 2 ^ 31 + 2 ^ 31" by simp
  then have "unat e + unat (x mod (e + 1)) < 2 ^ 32" unfolding ug using g assms by linarith
  then show s: "unat (e + x mod (e + 1)) = unat e + unat x mod (unat e + 1)" using ug by (subst unat_add_small) simp_all
  have "unat (2 * e) = 2 * unat e" using assms by (simp add: unat_word_ariths)
  then show "e + x mod (e + 1) \<le> 2 * e" using s g by (simp add: word_le_nat_alt)
qed

text \<open>The random device draws up to the election timeout, and twice the timeout fits.\<close>

definition timer_ok :: "Raft \<Rightarrow> bool" where
  "timer_ok r \<longleftrightarrow> unat (r_election_timeout r) < 2 ^ 31 \<and> rd_min (r_random_device r) = 0 \<and>
     rd_max (r_random_device r) = r_election_timeout r"

lemma same_config_timer: "same_config r r' \<Longrightarrow> timer_ok r \<Longrightarrow> timer_ok r'"
  by (simp add: same_config_def same_range_def timer_ok_def)

lemma become_follower_drawn:
  "become_follower t lead r = Inr r' \<Longrightarrow> drawn (r_election_timeout r) (r_random_device r) (r_randomized_election_timeout r')"
  by (auto simp: become_follower_def dest!: reset_drawn)

lemma become_follower_total:
  assumes "timer_ok r"
  shows "\<exists>r'. become_follower t lead r = Inr r' \<and> timer_ok r'"
  using assms drawn_timeout(3) [of "r_election_timeout r"]
  by (auto simp: become_follower_def reset_def reset_randomized_election_timeout_def gen_def timer_ok_def abort_leader_transfer_def Let_def)

lemma become_follower_facts:
  assumes "become_follower t lead r = Inr r'"
  shows "same_config r r'" and "r_term r' = t" and "r_vote r' = (if r_term r = t then r_vote r else 0)"
    and "r_raft_log r' = r_raft_log r" and "r_state r' = Follower" and "r_step r' = Some StepFollower"
    and "r_tick r' = Some TickElection" and "r_votes r' = []" and "r_lead r' = lead" and "r_msgs r' = r_msgs r"
    and "r_is_learner r' = r_is_learner r"
    and "map fst (r_prs r') = map fst (r_prs r)" and "map fst (r_learner_prs r') = map fst (r_learner_prs r)"
proof -
  obtain s where s: "reset t (r\<lparr>r_step := Some StepFollower\<rparr>) = Inr s"
    and r': "r' = s\<lparr>r_tick := Some TickElection, r_lead := lead, r_state := Follower\<rparr>"
    using assms by (auto simp: become_follower_def)
  note S = reset_facts [OF s]
  show "same_config r r'" using S(1) by (simp add: same_config_def r')
qed (use assms in \<open>auto simp: become_follower_def reset_facts\<close>)

lemma become_follower_evolves:
  assumes "become_follower t lead r = Inr r'" and "r_term r \<le> t"
  shows "evolves r r'"
  using become_follower_facts [OF assms(1)] assms(2)
  by (auto simp: evolves_def advances_def role_ok_def same_config_def)

lemma become_candidate_facts:
  assumes "become_candidate r = Inr r'"
  shows "same_config r r'" and "r_term r' = r_term r + 1" and "r_vote r' = r_id r"
    and "r_raft_log r' = r_raft_log r" and "r_state r' = Candidate" and "r_step r' = Some StepCandidate"
    and "r_tick r' = Some TickElection" and "r_votes r' = []" and "r_state r \<noteq> Leader" and "r_msgs r' = r_msgs r"
    and "r_lead r' = 0" and "map fst (r_prs r') = map fst (r_prs r)"
proof -
  obtain s where s: "reset (r_term r + 1) (r\<lparr>r_step := Some StepCandidate\<rparr>) = Inr s"
    and r': "r' = s\<lparr>r_tick := Some TickElection, r_vote := r_id s, r_state := Candidate\<rparr>"
    using assms by (auto simp: become_candidate_def split: if_splits)
  note S = reset_facts [OF s]
  show "same_config r r'" using S(1) by (simp add: same_config_def r')
  show "r_vote r' = r_id r" using S(1) by (simp add: same_config_def r')
qed (use assms in \<open>auto simp: become_candidate_def reset_facts split: if_splits\<close>)

lemma become_candidate_evolves:
  assumes "become_candidate r = Inr r'" and "unat (r_term r) < 2 ^ 64 - 1"
  shows "evolves r r' \<and> r_state r' = Candidate"
proof -
  have "unat (r_term r + 1) = unat (r_term r) + 1" using assms(2) by (intro unat_succ64) simp
  then have "r_term r \<le> r_term r + 1" "r_term r + 1 \<noteq> r_term r"
    by (simp_all add: word_le_nat_alt word_unat_eq_iff del: add_cancel_left_right)
  then show ?thesis
    using become_candidate_facts [OF assms(1)]
    by (auto simp: evolves_def advances_def role_ok_def same_config_def)
qed

lemma become_pre_candidate_evolves:
  assumes "become_pre_candidate r = Inr r'"
  shows "evolves r r'" and "r_state r' = PreCandidate" and "r_term r' = r_term r"
    and "r_state r \<noteq> Leader"
  using assms
  by (auto simp: become_pre_candidate_def evolves_def advances_def role_ok_def same_config_def split: if_splits)

lemma become_leader_facts:
  assumes "become_leader r = Inr r'"
  shows "same_config r r'" and "r_term r' = r_term r" and "r_vote r' = r_vote r" and "r_state r' = Leader"
    and "r_step r' = Some StepLeader" and "r_tick r' = Some TickHeartbeat" and "r_lead r' = r_id r"
    and "r_state r \<noteq> Follower" and "rl_committed (r_raft_log r) \<le> rl_committed (r_raft_log r')"
    and "map fst (r_prs r') = map fst (r_prs r)"
proof -
  obtain s p q where s: "reset (r_term r) (r\<lparr>r_step := Some StepLeader\<rparr>) = Inr s" and nf: "r_state r \<noteq> Follower"
    and p: "map_of (r_prs s) (r_id s) = Some p"
    and q: "append_entry [Entry_default]
      (s\<lparr>r_tick := Some TickHeartbeat, r_lead := r_id s, r_state := Leader,
         r_prs := AList.update (r_id s) (become_replicate p) (r_prs s),
         r_pending_conf_index := last_index (r_raft_log s)\<rparr>) = Inr (True, q)"
    and r': "r' = reduce_uncommitted_size [Entry_default] q"
    using assms by (auto simp: become_leader_def Let_def split: if_splits option.splits)
  note S = reset_facts [OF s] and A = role.R_append_entry [OF q] and R = role.R_reduce [of q "[Entry_default]"]
  have "map fst (AList.update (r_id s) (become_replicate p) (r_prs s)) = map fst (r_prs s)"
    using p by (intro update_keys_mem) simp
  moreover have K: "keeps_role (s\<lparr>r_tick := Some TickHeartbeat, r_lead := r_id s, r_state := Leader,
         r_prs := AList.update (r_id s) (become_replicate p) (r_prs s), r_pending_conf_index := last_index (r_raft_log s)\<rparr>) r'"
    unfolding r' by (rule keeps_role_trans [OF A R])
  moreover have i: "r_id s = r_id r" using S(1) by (simp add: same_config_def)
  ultimately show "r_term r' = r_term r" and "r_vote r' = r_vote r" and "r_state r' = Leader"
    and "r_step r' = Some StepLeader" and "r_tick r' = Some TickHeartbeat" and "r_lead r' = r_id r"
    and "r_state r \<noteq> Follower" and "rl_committed (r_raft_log r) \<le> rl_committed (r_raft_log r')"
    and "map fst (r_prs r') = map fst (r_prs r)"
    using S(2-11) nf by (simp_all add: keeps_role_def)
  have "same_config r (r\<lparr>r_step := Some StepLeader\<rparr>)" by (simp add: same_config_def)
  moreover have "same_config s r'" using K by (simp add: keeps_role_def same_config_def)
  ultimately show "same_config r r'" using S(1) same_config_trans by blast
qed

lemma become_leader_evolves:
  assumes "become_leader r = Inr r'" and "r_state r = Candidate"
  shows "evolves r r'"
  using become_leader_facts [OF assms(1)] assms(2)
  by (auto simp: evolves_def advances_def role_ok_def same_config_def)

lemma poll_eq:
  assumes "poll k t v r = Inr (g, r')"
  shows "r' = r\<lparr>r_votes := (if map_of (r_votes r) k = None then AList.update k v (r_votes r) else r_votes r)\<rparr>"
    and "g = granted_votes (r_votes r')"
  using assms by (auto simp: poll_def Let_def)

lemma poll_evolves: "poll k t v r = Inr (g, r') \<Longrightarrow> evolves r r' \<and> r_state r' = r_state r \<and> r_term r' = r_term r"
  using poll_eq(1) [of k t v r g r']
  by (auto simp: evolves_def advances_def role_ok_def same_config_def)

lemmas vote_requests_evolve = vote_requests_only_sends [THEN only_sends_keeps_role, THEN keeps_role_evolves]

text \<open>An election campaign, and a pre-election campaign, which may run one.\<close>

lemma campaign_election_cases:
  assumes "campaign c r = Inr r'" and "c \<noteq> kCampaignPreElection"
  obtains s g s' where "become_candidate r = Inr s" and "poll (r_id s) MsgVoteResp True s = Inr (g, s')"
    and "quorum s' = g \<and> become_leader s' = Inr r' \<or>
         quorum s' \<noteq> g \<and> loop_r (send_vote_request MsgVote (r_term s) c) (map fst (r_prs s')) s' = Inr r'"
  using assms by (subst (asm) campaign.simps) (auto simp: vote_resp_msg_type_def split: if_splits)

lemma campaign_pre_cases:
  assumes "campaign kCampaignPreElection r = Inr r'"
  obtains s g s' where "become_pre_candidate r = Inr s" and "poll (r_id s) MsgPreVoteResp True s = Inr (g, s')"
    and "quorum s' = g \<and> campaign kCampaignElection s' = Inr r' \<or>
         quorum s' \<noteq> g \<and>
         loop_r (send_vote_request MsgPreVote (r_term s + 1) kCampaignPreElection) (map fst (r_prs s')) s' = Inr r'"
  using assms by (subst (asm) campaign.simps) (auto simp: vote_resp_msg_type_def split: if_splits)

lemma campaign_election_evolves:
  assumes "campaign c r = Inr r'" and "c \<noteq> kCampaignPreElection" and "unat (r_term r) < 2 ^ 64 - 1"
  shows "evolves r r'"
proof -
  obtain s g s' where s: "become_candidate r = Inr s" and g: "poll (r_id s) MsgVoteResp True s = Inr (g, s')"
    and c: "quorum s' = g \<and> become_leader s' = Inr r' \<or>
         quorum s' \<noteq> g \<and> loop_r (send_vote_request MsgVote (r_term s) c) (map fst (r_prs s')) s' = Inr r'"
    using assms(1,2) by (rule campaign_election_cases)
  have S: "evolves r s" "r_state s = Candidate" using become_candidate_evolves [OF s assms(3)] by auto
  have P: "evolves s s'" "r_state s' = Candidate" using poll_evolves [OF g] S by auto
  have "evolves s' r'"
    using c P(2) become_leader_evolves vote_requests_evolve
    by blast
  with S(1) P(1) show ?thesis by (blast intro: evolves_trans)
qed

lemma campaign_evolves:
  assumes "campaign c r = Inr r'" and "unat (r_term r) < 2 ^ 64 - 1"
  shows "evolves r r'"
proof (cases "c = kCampaignPreElection")
  case False
  then show ?thesis using assms by (intro campaign_election_evolves)
next
  case True
  have ne: "kCampaignElection \<noteq> kCampaignPreElection"
    by (simp add: kCampaignElection_def kCampaignPreElection_def)
  obtain s g s' where s: "become_pre_candidate r = Inr s" and g: "poll (r_id s) MsgPreVoteResp True s = Inr (g, s')"
    and c: "quorum s' = g \<and> campaign kCampaignElection s' = Inr r' \<or>
         quorum s' \<noteq> g \<and>
         loop_r (send_vote_request MsgPreVote (r_term s + 1) kCampaignPreElection) (map fst (r_prs s')) s' = Inr r'"
    using assms(1) unfolding True by (rule campaign_pre_cases)
  note S = become_pre_candidate_evolves [OF s] and P = poll_evolves [OF g]
  have "evolves s' r'"
    using c
  proof
    assume "quorum s' = g \<and> campaign kCampaignElection s' = Inr r'"
    then show ?thesis using campaign_election_evolves [OF _ ne] S(3) P assms(2) by simp
  next
    assume "quorum s' \<noteq> g \<and>
      loop_r (send_vote_request MsgPreVote (r_term s + 1) kCampaignPreElection) (map fst (r_prs s')) s' = Inr r'"
    then show ?thesis using vote_requests_evolve by blast
  qed
  with S(1) P show ?thesis by (blast intro: evolves_trans)
qed

section \<open>Handlers of the follower and the candidate\<close>

text \<open>Restoring a snapshot replaces the members; everything else of the role stays.\<close>

definition same_but_members :: "Raft \<Rightarrow> Raft \<Rightarrow> bool" where
  "same_but_members r r' \<longleftrightarrow> same_config r r' \<and> r_term r' = r_term r \<and> r_vote r' = r_vote r \<and>
     r_state r' = r_state r \<and> r_lead r' = r_lead r \<and> r_step r' = r_step r \<and> r_tick r' = r_tick r \<and>
     r_votes r' = r_votes r \<and> rl_committed (r_raft_log r) \<le> rl_committed (r_raft_log r')"

lemma same_but_members_refl [simp]: "same_but_members r r"
  by (simp add: same_but_members_def same_config_def)

lemma same_but_members_trans [trans]:
  "same_but_members r s \<Longrightarrow> same_but_members s t \<Longrightarrow> same_but_members r t"
  unfolding same_but_members_def using same_config_trans [of r s t] by (auto intro: order_trans)

lemma keeps_role_members: "keeps_role r r' \<Longrightarrow> same_but_members r r'"
  by (simp add: keeps_role_def same_but_members_def)

lemma same_but_members_evolves: "same_but_members r r' \<Longrightarrow> evolves r r'"
  by (auto simp: same_but_members_def evolves_def advances_def role_ok_def same_config_def)

lemma set_progress_members:
  "set_progress k m n b r = Inr r' \<Longrightarrow> same_but_members r r' \<and> r_raft_log r' = r_raft_log r"
  by (auto simp: set_progress_def Let_def same_but_members_def same_config_def split: if_splits)

lemma restore_one_members: "restore_one b k r = Inr r' \<Longrightarrow> same_but_members r r'"
  unfolding restore_one_def Let_def
  by (auto simp: same_but_members_def same_config_def split: if_splits dest!: set_progress_members)

lemma restore_node_members: "restore_node ns b r = Inr r' \<Longrightarrow> same_but_members r r'"
  unfolding restore_node_def
  by (erule loop_r_relation) (auto intro: same_but_members_trans restore_one_members)

lemma restore_members:
  assumes "restore s r = Inr (b, r')"
  shows "same_but_members r r'"
proof -
  let ?l = "r_raft_log r"
  let ?q = "r\<lparr>r_raft_log := log_restore s ?l, r_prs := [], r_learner_prs := []\<rparr>"
  have q: "same_but_members r ?q" if "\<not> sm_index (s_metadata s) \<le> rl_committed ?l"
    using that by (simp add: same_but_members_def same_config_def log_restore_def)
  have c: "same_but_members r (r\<lparr>r_raft_log := l\<rparr>)" if "commit_to i ?l = Inr l" for i l
    using commit_to_mono [OF that] by (simp add: same_but_members_def same_config_def)
  from assms show ?thesis
    by (auto simp: restore_def Let_def split: if_splits dest!: restore_node_members c
        intro: same_but_members_trans [OF q same_but_members_trans])
qed

lemma handle_snapshot_members:
  assumes "handle_snapshot msg r = Inr r'"
  shows "same_but_members r r'"
  using assms
  by (auto simp: handle_snapshot_def dest!: restore_members send_keeps_role keeps_role_members
      intro: same_but_members_trans)

lemma forward_to_leader_role: "forward_to_leader msg r = Inr (s, r') \<Longrightarrow> keeps_role r r'"
  by (auto simp: forward_to_leader_def intro: send_keeps_role)

text \<open>Hearing from the leader: the election timer is reset and the leader recorded.\<close>

lemma heard_from_leader:
  "r_state r \<noteq> Leader \<Longrightarrow> evolves r (r\<lparr>r_election_elapsed := e, r_lead := l\<rparr>)"
  by (auto simp: evolves_def advances_def role_ok_def same_config_def)

lemma step_follower_evolves:
  assumes "step_follower msg r = Inr (s, r')" and "r_state r \<noteq> Leader" and "unat (r_term r) < 2 ^ 64 - 1"
  shows "evolves r r'"
proof -
  let ?r = "r\<lparr>r_election_elapsed := 0, r_lead := m_from msg\<rparr>"
  note H = heard_from_leader [OF assms(2), of "m_from msg" 0]
  have A: "evolves r r'" if "handle_append_entries msg ?r = Inr r'"
    using evolves_trans [OF H keeps_role_evolves [OF role.R_handle_append_entries [OF that]]] .
  have B: "evolves r r'" if "handle_heartbeat msg ?r = Inr r'"
    using evolves_trans [OF H keeps_role_evolves [OF role.R_handle_heartbeat [OF that]]] .
  have C: "evolves r r'" if "handle_snapshot msg ?r = Inr r'"
    using evolves_trans [OF H same_but_members_evolves [OF handle_snapshot_members [OF that]]] .
  have D: "evolves r (r\<lparr>r_read_states := x\<rparr>)" for x
    by (rule keeps_role_evolves) (rule role.R_read_states)
  from assms(1,3) show ?thesis
    by (auto simp: step_follower_def D split: MessageType.splits if_splits list.splits
        dest: A B C campaign_evolves forward_to_leader_role [THEN keeps_role_evolves])
qed

lemma handle_vote_resp_evolves:
  assumes "handle_vote_resp msg r = Inr r'" and "unat (r_term r) < 2 ^ 64 - 1"
  shows "evolves r r'"
proof -
  obtain g s where p: "poll (m_from msg) (m_type msg) (\<not> m_reject msg) r = Inr (g, s)"
    using assms(1) by (auto simp: handle_vote_resp_def)
  note P = poll_evolves [OF p]
  have "evolves s r'"
  proof (cases "ucast (quorum s) = (ucast g :: u64)")
    case True
    show ?thesis
    proof (cases "r_state s = PreCandidate")
      case pre: True
      then have "campaign kCampaignElection s = Inr r'" using assms(1) True p by (simp add: handle_vote_resp_def)
      then show ?thesis using P assms(2) by (intro campaign_evolves) simp_all
    next
      case False
      with True assms(1) p obtain q where "r_state s = Candidate" "become_leader s = Inr q" "bcast_append q = Inr r'"
        by (auto simp: handle_vote_resp_def)
      then show ?thesis using become_leader_evolves role.R_bcast_append [THEN keeps_role_evolves] evolves_trans by blast
    qed
  next
    case False
    then show ?thesis
      using assms(1) p by (auto simp: handle_vote_resp_def Let_def split: if_splits intro: become_follower_evolves)
  qed
  with P show ?thesis by (blast intro: evolves_trans)
qed

lemma step_candidate_evolves:
  assumes "step_candidate msg r = Inr (s, r')" and "unat (r_term r) < 2 ^ 64 - 1"
    and "m_type msg = MsgApp \<or> m_type msg = MsgHeartbeat \<or> m_type msg = MsgSnap \<Longrightarrow> r_term r \<le> m_term msg"
  shows "evolves r r'"
proof -
  have A: "evolves r r'" if "become_follower (m_term msg) (m_from msg) r = Inr q" "evolves q r'"
    "r_term r \<le> m_term msg" for q
    using evolves_trans [OF become_follower_evolves [OF that(1,3)] that(2)] .
  note B = role.R_handle_append_entries [THEN keeps_role_evolves] role.R_handle_heartbeat [THEN keeps_role_evolves]
    handle_snapshot_members [THEN same_but_members_evolves] handle_vote_resp_evolves
  from assms show ?thesis
    by (auto simp: step_candidate_def split: MessageType.splits dest: B intro: A)
qed

lemma step_leader_evolves:
  assumes "step_leader msg r = Inr (s, r')"
  shows "evolves r r'"
proof -
  note B = role.R_leader_prop role.R_leader_read_index role.R_leader_with_progress role.R_bcast_heartbeat
  from assms show ?thesis
    by (auto simp: step_leader_def split: MessageType.splits if_splits
        dest: B [THEN keeps_role_evolves] become_follower_evolves [OF _ order_refl])
qed

section \<open>step and tick\<close>

text \<open>
  What is asked of an incoming message: its term leaves room for one more election, and the
  messages only a leader sends carry a term (a leader's term is never zero).
\<close>

definition msg_term_ok :: "Message \<Rightarrow> bool" where
  "msg_term_ok msg \<longleftrightarrow> unat (m_term msg) < 2 ^ 64 - 1 \<and>
     (m_type msg = MsgApp \<or> m_type msg = MsgHeartbeat \<or> m_type msg = MsgSnap \<longrightarrow> m_term msg \<noteq> 0)"

lemma role_okD:
  assumes "role_ok r"
  shows "r_step r = Some (step_fn_of (r_state r))" and "r_tick r = Some (tick_fn_of (r_state r))"
    and "r_id r \<noteq> 0" and "r_state r = Leader \<Longrightarrow> r_lead r = r_id r"
    and "r_state r = Candidate \<or> r_state r = Leader \<Longrightarrow> r_vote r = r_id r"
  using assms by (auto simp: role_ok_def)

lemma step_dispatch_evolves:
  assumes "step_dispatch msg r = Inr (s, r')" and "role_ok r" and "unat (r_term r) < 2 ^ 64 - 1"
    and "m_type msg = MsgApp \<or> m_type msg = MsgHeartbeat \<or> m_type msg = MsgSnap \<Longrightarrow> r_term r \<le> m_term msg"
  shows "evolves r r'"
  using assms role_okD(1) [OF assms(2)]
  by (cases "r_state r")
    (auto simp: step_dispatch_def intro: step_follower_evolves step_candidate_evolves step_leader_evolves)

lemma step_hup_evolves:
  assumes "step_hup r = Inr (s, r')" and "unat (r_term r) < 2 ^ 64 - 1"
  shows "evolves r r'"
proof -
  have C: "evolves r r'" if "campaign c r = Inr r'" for c using campaign_evolves [OF that assms(2)] .
  from assms(1) show ?thesis
    by (auto simp: step_hup_def Let_def split: if_splits sum.splits dest: C)
qed

lemma step_vote_evolves:
  assumes "step_vote msg r = Inr (s, r')" and "role_ok r"
  shows "evolves r r'"
proof -
  have G: "evolves r (q\<lparr>r_election_elapsed := 0, r_vote := m_from msg\<rparr>)"
    if "keeps_role r q" and "r_vote r = m_from msg \<or> r_vote r = 0 \<and> r_lead r = 0" for q
    using that role_okD(3,5) [OF assms(2)]
    by (auto simp: evolves_def advances_def keeps_role_def same_config_def role_ok_def)
  from assms(1) show ?thesis
    by (auto simp: step_vote_def Let_def G keeps_role_evolves split: if_splits dest!: send_keeps_role)
qed

lemma step_current_evolves:
  assumes "step_current msg r = Inr (s, r')" and "role_ok r" and "unat (r_term r) < 2 ^ 64 - 1"
    and "m_type msg = MsgApp \<or> m_type msg = MsgHeartbeat \<or> m_type msg = MsgSnap \<Longrightarrow> r_term r \<le> m_term msg"
  shows "evolves r r'"
  using assms
  by (cases "m_type msg")
    (auto simp: step_current_def intro: step_hup_evolves step_vote_evolves step_dispatch_evolves)

lemma step_lower_term_role: "step_lower_term msg r = Inr (s, r') \<Longrightarrow> keeps_role r r'"
  by (auto simp: step_lower_term_def split: if_splits dest: send_keeps_role)

lemma step_higher_term_cases:
  assumes "step_higher_term msg r = Inr (Some q)"
  obtains (same) "q = r" and "m_type msg = MsgPreVote \<or> m_type msg = MsgPreVoteResp \<and> \<not> m_reject msg"
  | (follower) lead where "become_follower (m_term msg) lead r = Inr q"
  using assms by (auto simp: step_higher_term_def split: if_splits)

lemma step_higher_term_None:
  "step_higher_term msg r = Inr None \<Longrightarrow> (m_type msg = MsgVote \<or> m_type msg = MsgPreVote) \<and> in_lease r"
  by (auto simp: step_higher_term_def split: if_splits)

lemma step_evolves:
  assumes st: "step msg r = Inr (s, r')" and ro: "role_ok r" and t: "unat (r_term r) < 2 ^ 64 - 1"
    and m: "msg_term_ok msg"
  shows "evolves r r'"
proof -
  have mt: "m_type msg = MsgApp \<or> m_type msg = MsgHeartbeat \<or> m_type msg = MsgSnap \<Longrightarrow> m_term msg \<noteq> 0"
    and mb: "unat (m_term msg) < 2 ^ 64 - 1" using m by (auto simp: msg_term_ok_def)
  consider (zero) "m_term msg = 0" | (higher) "m_term msg \<noteq> 0" "m_term msg > r_term r"
    | (lower) "m_term msg \<noteq> 0" "m_term msg < r_term r" | (eq) "m_term msg \<noteq> 0" "m_term msg = r_term r"
    by (metis linorder_neqE)
  then show ?thesis
  proof cases
    case zero
    then have "step_current msg r = Inr (s, r')" using st by (simp add: step_def)
    then show ?thesis using ro t mt zero by (intro step_current_evolves) auto
  next
    case higher
    then obtain res where h: "step_higher_term msg r = Inr res"
      and c: "(case res of None \<Rightarrow> Inr (OK, r) | Some q \<Rightarrow> step_current msg q) = Inr (s, r')"
      using st by (auto simp: step_def)
    show ?thesis
    proof (cases res)
      case None
      then show ?thesis using c by auto
    next
      case (Some q)
      have Q: "evolves r q \<and> unat (r_term q) < 2 ^ 64 - 1 \<and> (r_term q = m_term msg \<or> q = r)"
        using h [unfolded Some]
      proof (cases rule: step_higher_term_cases)
        case same
        then show ?thesis using t by simp
      next
        case (follower lead)
        then show ?thesis
          using become_follower_evolves [OF follower] become_follower_facts(2) [OF follower] higher(2) mb by simp
      qed
      then have "role_ok q" using ro by (simp add: evolves_def)
      moreover have "step_current msg q = Inr (s, r')" using c Some by simp
      ultimately have "evolves q r'"
        using Q higher(2) by (intro step_current_evolves) auto
      with Q show ?thesis by (blast intro: evolves_trans)
    qed
  next
    case lower
    then have "step_lower_term msg r = Inr (s, r')" using st by (simp add: step_def less_not_sym)
    then show ?thesis by (rule keeps_role_evolves [OF step_lower_term_role])
  next
    case eq
    then have "step_current msg r = Inr (s, r')" using st by (simp add: step_def)
    then show ?thesis using ro t eq by (intro step_current_evolves) auto
  qed
qed

lemma timers_evolve:
  "evolves r (r\<lparr>r_election_elapsed := e\<rparr>)" "evolves r (r\<lparr>r_heartbeat_elapsed := h, r_election_elapsed := e\<rparr>)"
  "evolves r (r\<lparr>r_heartbeat_elapsed := h\<rparr>)" "evolves r (abort_leader_transfer r)"
  by (simp_all add: evolves_def advances_def role_ok_def same_config_def abort_leader_transfer_def)

lemma evolves_role_ok: "evolves r r' \<Longrightarrow> role_ok r \<Longrightarrow> role_ok r'"
  by (simp add: evolves_def)

text \<open>A local message: no term, so the node handles it at its own.\<close>

lemma step_local_evolves:
  assumes "step (Message_default\<lparr>m_from := i, m_type := t\<rparr>) r = Inr (s, r')" and "role_ok r"
    and "unat (r_term r) < 2 ^ 64 - 1" and "t \<in> {MsgHup, MsgCheckQuorum, MsgBeat}"
  shows "evolves r r'"
  using assms(1-3)
  by (rule step_evolves) (use assms(4) in \<open>auto simp: msg_term_ok_def Message_default_def\<close>)

lemma tick_election_evolves:
  assumes "tick_election r = Inr r'" and "role_ok r" and "unat (r_term r) < 2 ^ 64 - 1"
  shows "evolves r r'"
proof -
  have S: "evolves r r'" if "step (Message_default\<lparr>m_from := i, m_type := MsgHup\<rparr>) (r\<lparr>r_election_elapsed := 0\<rparr>) = Inr (s, r')"
    for i s
  proof -
    have "evolves (r\<lparr>r_election_elapsed := 0\<rparr>) r'"
      using that assms(2,3) evolves_role_ok [OF timers_evolve(1)] by (intro step_local_evolves) auto
    then show ?thesis by (rule evolves_trans [OF timers_evolve(1)])
  qed
  from assms(1) show ?thesis
    by (auto simp: tick_election_def Let_def timers_evolve split: if_splits dest: S)
qed

text \<open>\<^verbatim>\<open>MsgCheckQuorum\<close> can turn the leader into a follower, but never raises the term.\<close>

lemma step_check_quorum_term:
  assumes "step (Message_default\<lparr>m_from := i, m_type := MsgCheckQuorum\<rparr>) r = Inr (s, r')"
    and "role_ok r" and "r_state r = Leader"
  shows "r_term r' = r_term r"
proof -
  have "step_leader (Message_default\<lparr>m_from := i, m_type := MsgCheckQuorum\<rparr>) r = Inr (s, r')"
    using assms role_okD(1) [OF assms(2)]
    by (simp add: step_def step_current_def step_dispatch_def Message_default_def)
  then show ?thesis
    by (auto simp: step_leader_def split: if_splits dest: become_follower_facts(2))
qed

lemma tick_check_quorum_evolves:
  assumes "tick_check_quorum r = Inr r'" and "role_ok r" and "r_state r = Leader" and "unat (r_term r) < 2 ^ 64 - 1"
  shows "evolves r r' \<and> r_term r' = r_term r"
proof -
  let ?r = "r\<lparr>r_election_elapsed := 0\<rparr>"
  have ro: "role_ok ?r" using assms(2) by (simp add: role_ok_def)
  have C: "evolves r p \<and> r_term p = r_term r"
    if "step (Message_default\<lparr>m_from := r_id r, m_type := MsgCheckQuorum\<rparr>) ?r = Inr (s, p)" for s p
    using step_local_evolves [OF that ro] step_check_quorum_term [OF that ro] assms(3,4)
      evolves_trans [OF timers_evolve(1)] by simp
  have A: "evolves r p \<and> r_term p = r_term r \<Longrightarrow>
      evolves r (abort_leader_transfer p) \<and> r_term (abort_leader_transfer p) = r_term r" for p
    using evolves_trans [OF _ timers_evolve(4)] by (auto simp: abort_leader_transfer_def)
  have R: "evolves r ?r \<and> r_term ?r = r_term r" by (simp add: timers_evolve)
  show ?thesis
  proof (cases "r_election_elapsed r \<ge> r_election_timeout r")
    case False
    then show ?thesis using assms(1) by (simp add: tick_check_quorum_def)
  next
    case True
    with assms(1) obtain p where
      p: "(if r_check_quorum r
          then bind_r (step (Message_default\<lparr>m_from := r_id ?r, m_type := MsgCheckQuorum\<rparr>) ?r) (\<lambda>(_, r). Inr r)
          else Inr ?r) = Inr p"
      and r': "r' = (if r_state p = Leader \<and> r_lead_transferee p \<noteq> 0 then abort_leader_transfer p else p)"
      by (auto simp: tick_check_quorum_def Let_def)
    have "evolves r p \<and> r_term p = r_term r" using p R by (auto split: if_splits dest!: C)
    with A [of p] show ?thesis by (simp add: r')
  qed
qed

lemma tick_beat_evolves:
  assumes "tick_beat r = Inr r'" and "role_ok r" and "unat (r_term r) < 2 ^ 64 - 1"
  shows "evolves r r'"
proof -
  have ro: "role_ok (r\<lparr>r_heartbeat_elapsed := 0\<rparr>)" using assms(2) by (simp add: role_ok_def)
  have B: "evolves r r'"
    if "step (Message_default\<lparr>m_from := r_id r, m_type := MsgBeat\<rparr>) (r\<lparr>r_heartbeat_elapsed := 0\<rparr>) = Inr (s, r')" for s
    using step_local_evolves [OF that ro] assms(3) evolves_trans [OF timers_evolve(3)] by simp
  show ?thesis using assms(1) by (auto simp: tick_beat_def split: if_splits dest: B)
qed

lemma tick_heartbeat_evolves:
  assumes tk: "tick_heartbeat r = Inr r'" and ro: "role_ok r" and ld: "r_state r = Leader"
    and t: "unat (r_term r) < 2 ^ 64 - 1"
  shows "evolves r r'"
proof -
  let ?r = "r\<lparr>r_heartbeat_elapsed := r_heartbeat_elapsed r + 1, r_election_elapsed := r_election_elapsed r + 1\<rparr>"
  from tk obtain q where q: "tick_check_quorum ?r = Inr q" and e: "tick_beat q = Inr r'"
    by (auto simp: tick_heartbeat_def)
  have R: "evolves r ?r" "role_ok ?r" using ro timers_evolve(2) by (simp_all add: role_ok_def)
  have Q: "evolves ?r q" "r_term q = r_term r"
    using tick_check_quorum_evolves [OF q R(2)] ld t by simp_all
  have "evolves q r'"
    using e evolves_role_ok [OF Q(1) R(2)] Q(2) t by (intro tick_beat_evolves) simp_all
  with R(1) Q(1) show ?thesis by (blast intro: evolves_trans)
qed

lemma tick_evolves:
  assumes "tick r = Inr r'" and "role_ok r" and "unat (r_term r) < 2 ^ 64 - 1"
  shows "evolves r r'"
  using assms role_okD(2) [OF assms(2)]
  by (cases "r_state r") (auto simp: tick_def intro: tick_election_evolves tick_heartbeat_evolves)

end
