(* ===== verification/Raft_Safety.thy ===== *)
theory Raft_Safety
  imports Raft_Role Quorum
begin

text \<open>
  Properties of one node that the protocol rests on: terms, votes and commits never go back along any
  run; a node becomes leader only with a quorum of votes; the leader commits exactly the greatest
  index a majority has stored, and only in its own term; the flow-control loop stops with nothing
  left to send; and, for the places where the code departs from its comments, theorems that say
  what it does instead.
\<close>

section \<open>Runs of a node\<close>

lemma set_learner_members: "same_but_members r (r\<lparr>r_is_learner := b\<rparr>)"
  by (simp add: same_but_members_def same_config_def)

lemma mark_added_members: "mark_added k b q = Inr r' \<Longrightarrow> same_but_members q r'"
  using keeps_role_members [OF role.R_put] set_learner_members same_but_members_trans
  by (fastforce simp: mark_added_def Let_def split: if_splits)

lemma add_node_members:
  assumes "add_node_or_learner k b r = Inr r'"
  shows "same_but_members r r'"
proof (cases "get_progress k r")
  case None
  with assms obtain q where q: "set_progress k 0 (last_index (r_raft_log r) + 1) b r = Inr q"
    and f: "mark_added k b q = Inr r'"
    by (auto simp: add_node_or_learner_def)
  have "same_but_members r q" using set_progress_members [OF q] by simp
  then show ?thesis using mark_added_members [OF f] by (rule same_but_members_trans)
next
  case (Some pr)
  have "same_but_members r (r\<lparr>r_learner_prs := ls, r_prs := ps\<rparr>)" for ls ps
    by (simp add: same_but_members_def same_config_def)
  then show ?thesis
    using assms Some mark_added_members same_but_members_trans
    by (fastforce simp: add_node_or_learner_def split: if_splits)
qed

lemma remove_node_members:
  assumes "remove_node k r = Inr r'"
  shows "same_but_members r r'"
proof -
  let ?d = "del_progress k r"
  have d: "same_but_members r ?d"
    by (simp add: same_but_members_def same_config_def del_progress_def)
  show ?thesis
  proof (cases "r_prs ?d = [] \<and> r_learner_prs ?d = []")
    case True
    then have "r' = ?d" using assms by (simp add: remove_node_def)
    with d show ?thesis by simp
  next
    case False
    with assms obtain b p q where p: "maybe_commit ?d = Inr (b, p)"
      and q: "(if b then bcast_append p else Inr p) = Inr q"
      and r': "r' = (if r_state q = Leader \<and> r_lead_transferee q = k then abort_leader_transfer q else q)"
      by (auto simp: remove_node_def Let_def)
    have "same_but_members r p" using d keeps_role_members [OF role.R_maybe_commit [OF p]] by (rule same_but_members_trans)
    also have "same_but_members p q" using q by (auto split: if_splits dest: role.R_bcast_append keeps_role_members)
    also have "same_but_members q r'"
      by (simp add: r' same_but_members_def same_config_def abort_leader_transfer_def)
    finally show ?thesis .
  qed
qed

lemma add_node_total: "\<exists>r'. add_node_or_learner k b r = Inr r'"
  by (cases "get_progress k r")
    (auto simp: add_node_or_learner_def set_progress_def mark_added_def get_progress_def update_conv' Let_def split: option.splits)

text \<open>
  One step of a node: a message, a tick, or an applied configuration change. The bound on the
  term says that the 64-bit term counter has not run out.
\<close>

inductive node_step :: "Raft \<Rightarrow> Raft \<Rightarrow> bool" where
  recv: "step msg r = Inr (s, r') \<Longrightarrow> msg_term_ok msg \<Longrightarrow> unat (r_term r) < 2 ^ 64 - 1 \<Longrightarrow> node_step r r'"
| tick: "tick r = Inr r' \<Longrightarrow> unat (r_term r) < 2 ^ 64 - 1 \<Longrightarrow> node_step r r'"
| add: "add_node_or_learner k b r = Inr r' \<Longrightarrow> node_step r r'"
| remove: "remove_node k r = Inr r' \<Longrightarrow> node_step r r'"

inductive_cases node_stepE: "node_step r r'"

lemma node_step_evolves: "node_step r r' \<Longrightarrow> role_ok r \<Longrightarrow> evolves r r'"
  by (induction rule: node_step.induct)
    (auto intro: step_evolves tick_evolves same_but_members_evolves add_node_members remove_node_members)

lemma node_run_evolves: "node_step\<^sup>*\<^sup>* r r' \<Longrightarrow> role_ok r \<Longrightarrow> evolves r r'"
  by (induction rule: rtranclp_induct)
    (auto dest: node_step_evolves evolves_role_ok intro: evolves_trans)

text \<open>The constructor: what it does before it becomes follower leaves the id and the timer alone.\<close>

definition same_seed :: "Raft \<Rightarrow> Raft \<Rightarrow> bool" where
  "same_seed r r' \<longleftrightarrow> r_id r' = r_id r \<and> r_election_timeout r' = r_election_timeout r \<and> r_random_device r' = r_random_device r"

lemma init_peer_seed: "loop_r init_peer ps r = Inr r' \<Longrightarrow> same_seed r r'"
  by (erule loop_r_relation) (auto simp: init_peer_def same_seed_def)

lemma init_learner_seed: "loop_r init_learner ps r = Inr r' \<Longrightarrow> same_seed r r'"
  by (erule loop_r_relation) (auto simp: init_learner_def same_seed_def Let_def split: if_splits)

lemma load_state_seed: "load_state h r = Inr r' \<Longrightarrow> same_seed r r'"
  by (auto simp: load_state_def same_seed_def split: if_splits)

lemma Raft_new_follower:
  assumes "Raft_new c seq = Inr r"
  obtains q where "become_follower (r_term q) 0 q = Inr r" and "r_id q = c_id c" and "r_election_timeout q = c_election_tick c"
    and "r_random_device q = \<lparr>rd_min = 0, rd_max = c_election_tick c, rd_seq = seq, rd_pos = 0\<rparr>"
proof -
  from assms obtain st peers learners r1 r2 r3 where
    "loop_r init_peer peers (Raft_init c st seq) = Inr r1" and "loop_r init_learner learners r1 = Inr r2"
    and l: "(if \<not> is_empty_state (ms_hard st) then load_state (ms_hard st) r2 else Inr r2) = Inr r3"
    and b: "(let q = (if c_applied c > 0 then r3\<lparr>r_raft_log := applied_to (c_applied c) (r_raft_log r3)\<rparr> else r3)
         in become_follower (r_term q) 0 q) = Inr r"
    by (auto simp: Raft_new_def Let_def ms_initial_state_def)
  then have "same_seed (Raft_init c st seq) r2" by (auto dest!: init_peer_seed init_learner_seed simp: same_seed_def)
  moreover have "same_seed r2 r3" using l by (auto split: if_splits dest: load_state_seed simp: same_seed_def)
  ultimately show ?thesis
    using b by (intro that [of "if c_applied c > 0 then r3\<lparr>r_raft_log := applied_to (c_applied c) (r_raft_log r3)\<rparr> else r3"])
      (simp_all add: Let_def same_seed_def Raft_init_def)
qed

lemma Raft_new_role_ok:
  assumes "Raft_new c seq = Inr r" and "c_id c \<noteq> 0"
  shows "role_ok r"
proof -
  obtain q where q: "become_follower (r_term q) 0 q = Inr r" and i: "r_id q = c_id c"
    using assms(1) by (rule Raft_new_follower)
  show ?thesis using become_follower_facts [OF q] assms(2) i by (simp add: role_ok_def same_config_def)
qed

section \<open>Example nodes\<close>

text \<open>A fresh three-node cluster, seen from node 1, for the concrete instances below.\<close>

definition example_config :: Config where
  "example_config = Config_default\<lparr>c_id := 1, c_peers := [1, 2, 3], c_election_tick := 10, c_heartbeat_tick := 1,
     c_storage := Some MemoryStorage_new, c_max_size_per_msg := 1000, c_max_committed_size_per_ready := 1000,
     c_max_uncommitted_entries_size := 1000, c_max_inflight_msgs := 4\<rparr>"

definition node_example :: Raft where
  "node_example = (Raft_init example_config MemoryStorage_new (\<lambda>_. 3))
     \<lparr>r_prs := [(1, (Progress_new 4)\<lparr>pr_next := 1\<rparr>), (2, (Progress_new 4)\<lparr>pr_next := 1\<rparr>), (3, (Progress_new 4)\<lparr>pr_next := 1\<rparr>)],
      r_step := Some StepFollower, r_tick := Some TickElection, r_randomized_election_timeout := 13\<rparr>"

section \<open>How candidates and leaders come about\<close>

lemma quorum_keys: "map fst (r_prs r') = map fst (r_prs r) \<Longrightarrow> quorum r' = quorum r"
  by (metis length_map quorum_def)

text \<open>The votes after the sender's answer has been recorded; the first answer of a node counts.\<close>

definition votes_with :: "Message \<Rightarrow> Raft \<Rightarrow> (u64, bool) umap" where
  "votes_with msg r =
     (if map_of (r_votes r) (m_from msg) = None then AList.update (m_from msg) (\<not> m_reject msg) (r_votes r)
      else r_votes r)"

text \<open>
  What a step can do to the candidacy of a node: nothing; end it or leave it at the pre-vote; count
  one answer, possibly the one that makes the quorum; or start a new one in the next term, which wins
  at once if the node is its own quorum.
\<close>

definition outcome :: "Message \<Rightarrow> Raft \<Rightarrow> Raft \<Rightarrow> bool" where
  "outcome msg r r' \<longleftrightarrow>
     (r_state r' = r_state r \<and> r_term r' = r_term r \<and> r_votes r' = r_votes r) \<or>
     (r_state r' = Follower \<or> r_state r' = PreCandidate) \<or>
     (r_state r = Candidate \<and> (m_type msg = MsgVoteResp \<or> m_type msg = MsgPreVoteResp) \<and> r_term r' = r_term r \<and>
       (r_state r' = Candidate \<and> r_votes r' = votes_with msg r \<or>
        r_state r' = Leader \<and> quorum r' = granted_votes (votes_with msg r))) \<or>
     (r_term r' = r_term r + 1 \<and>
       (r_state r' = Candidate \<and> r_votes r' = [(r_id r, True)] \<or> r_state r' = Leader \<and> quorum r' = 1))"

lemma outcome_unchanged:
  "r_state r' = r_state r \<Longrightarrow> r_term r' = r_term r \<Longrightarrow> r_votes r' = r_votes r \<Longrightarrow> outcome msg r r'"
  by (simp add: outcome_def)

lemma outcome_same_but_members: "same_but_members r r' \<Longrightarrow> outcome msg r r'"
  by (simp add: same_but_members_def outcome_unchanged)

lemma outcome_keeps_role: "keeps_role r r' \<Longrightarrow> outcome msg r r'"
  by (simp add: keeps_role_def outcome_unchanged)

lemma outcome_follower: "r_state r' = Follower \<Longrightarrow> outcome msg r r'"
  by (simp add: outcome_def)

lemma campaign_election_outcome:
  assumes "campaign c r = Inr r'" and "c \<noteq> kCampaignPreElection"
  shows "r_term r' = r_term r + 1 \<and>
    (r_state r' = Candidate \<and> r_votes r' = [(r_id r, True)] \<or> r_state r' = Leader \<and> quorum r' = 1)"
proof -
  obtain s g s' where s: "become_candidate r = Inr s" and g: "poll (r_id s) MsgVoteResp True s = Inr (g, s')"
    and c: "quorum s' = g \<and> become_leader s' = Inr r' \<or>
         quorum s' \<noteq> g \<and> loop_r (send_vote_request MsgVote (r_term s) c) (map fst (r_prs s')) s' = Inr r'"
    using assms(1,2) by (rule campaign_election_cases)
  note S = become_candidate_facts [OF s] and P = poll_eq [OF g]
  have i: "r_id s = r_id r" using S(1) by (simp add: same_config_def)
  have g1: "g = 1" using P S(8) by (simp add: granted_votes_def)
  from c show ?thesis
  proof
    assume a: "quorum s' = g \<and> become_leader s' = Inr r'"
    then show ?thesis
      using become_leader_facts(2,4,10) [of s' r'] quorum_keys [of r' s'] g1 S(2) P(1) by auto
  next
    assume a: "quorum s' \<noteq> g \<and> loop_r (send_vote_request MsgVote (r_term s) c) (map fst (r_prs s')) s' = Inr r'"
    then show ?thesis
      using only_sends_eqs(2,5,7) [OF vote_requests_only_sends, of MsgVote "r_term s" c "map fst (r_prs s')" s' r'] S(2,5,8) P(1) i
      by simp
  qed
qed

lemma campaign_outcome:
  assumes "campaign c r = Inr r'"
  shows "outcome msg r r'"
proof (cases "c = kCampaignPreElection")
  case False
  then show ?thesis using campaign_election_outcome [OF assms] by (simp add: outcome_def)
next
  case True
  obtain s g s' where s: "become_pre_candidate r = Inr s" and g: "poll (r_id s) MsgPreVoteResp True s = Inr (g, s')"
    and c: "quorum s' = g \<and> campaign kCampaignElection s' = Inr r' \<or>
         quorum s' \<noteq> g \<and>
         loop_r (send_vote_request MsgPreVote (r_term s + 1) kCampaignPreElection) (map fst (r_prs s')) s' = Inr r'"
    using assms unfolding True by (rule campaign_pre_cases)
  note S = become_pre_candidate_evolves [OF s] and P = poll_evolves [OF g]
  have ne: "kCampaignElection \<noteq> kCampaignPreElection"
    by (simp add: kCampaignElection_def kCampaignPreElection_def)
  have i: "r_id s' = r_id r" using S(1) P by (simp add: evolves_def advances_def same_config_def)
  from c show ?thesis
  proof
    assume "quorum s' = g \<and> campaign kCampaignElection s' = Inr r'"
    then show ?thesis using campaign_election_outcome [OF _ ne, of s' r'] S(3) P i by (simp add: outcome_def)
  next
    assume "quorum s' \<noteq> g \<and>
      loop_r (send_vote_request MsgPreVote (r_term s + 1) kCampaignPreElection) (map fst (r_prs s')) s' = Inr r'"
    then show ?thesis
      using only_sends_eqs(5) [OF vote_requests_only_sends, of MsgPreVote "r_term s + 1" kCampaignPreElection "map fst (r_prs s')" s' r'] S(2) P
      by (simp add: outcome_def)
  qed
qed

lemma handle_vote_resp_outcome:
  assumes "handle_vote_resp msg r = Inr r'" and "r_state r \<noteq> Leader"
    and "m_type msg = MsgVoteResp \<or> m_type msg = MsgPreVoteResp"
  shows "outcome msg r r'"
proof -
  obtain g s where p: "poll (m_from msg) (m_type msg) (\<not> m_reject msg) r = Inr (g, s)"
    using assms(1) by (auto simp: handle_vote_resp_def)
  have s: "s = r\<lparr>r_votes := votes_with msg r\<rparr>" "g = granted_votes (votes_with msg r)"
    using poll_eq [OF p] by (auto simp: votes_with_def)
  show ?thesis
  proof (cases "ucast (quorum s) = (ucast g :: u64)")
    case True
    then have q: "quorum s = g" by (metis unat_ucast32 word_unat_eq_iff)
    show ?thesis
    proof (cases "r_state s = PreCandidate")
      case pre: True
      then have c: "campaign kCampaignElection s = Inr r'" using assms(1) True p by (simp add: handle_vote_resp_def)
      have "kCampaignElection \<noteq> kCampaignPreElection"
        by (simp add: kCampaignElection_def kCampaignPreElection_def)
      from campaign_election_outcome [OF c this] show ?thesis using s(1) by (simp add: outcome_def)
    next
      case False
      with True assms(1) p obtain l where l: "r_state s = Candidate" "become_leader s = Inr l" "bcast_append l = Inr r'"
        by (auto simp: handle_vote_resp_def)
      note L = become_leader_facts [OF l(2)] and B = only_sends_eqs [OF sending.R_bcast_append [OF l(3)]]
      have "quorum r' = quorum s" using quorum_keys [OF B(21)] quorum_keys [OF L(10)] by simp
      with q l(1) L B s assms(3) show ?thesis by (simp add: outcome_def)
    qed
  next
    case False
    then have "r_state r' = Follower \<or> r' = s"
      using assms(1) p by (auto simp: handle_vote_resp_def Let_def split: if_splits dest: become_follower_facts(5))
    with assms(2,3) s(1) show ?thesis by (cases "r_state r") (auto simp: outcome_def)
  qed
qed

lemma step_follower_outcome:
  assumes "step_follower msg r = Inr (s, r')"
  shows "outcome msg r r'"
proof -
  have N: "outcome msg r r'" if "keeps_role (r\<lparr>r_election_elapsed := e, r_lead := l\<rparr>) r'" for e l
    using that by (simp add: keeps_role_def outcome_unchanged)
  have M: "outcome msg r r'" if "same_but_members (r\<lparr>r_election_elapsed := e, r_lead := l\<rparr>) r'" for e l
    using that by (simp add: same_but_members_def outcome_unchanged)
  have F: "outcome msg r r'" if "forward_to_leader msg r = Inr (s, r')"
    using forward_to_leader_role [OF that] by (rule outcome_keeps_role)
  from assms show ?thesis
    by (auto simp: step_follower_def outcome_unchanged split: MessageType.splits if_splits list.splits
        dest!: F campaign_outcome role.R_handle_append_entries N role.R_handle_heartbeat handle_snapshot_members M)
qed

lemma step_candidate_outcome:
  assumes "step_candidate msg r = Inr (s, r')" and "r_state r \<noteq> Leader"
  shows "outcome msg r r'"
proof -
  have N: "outcome msg r r'" if "become_follower t l r = Inr q" "same_but_members q r'" for t l q
    using become_follower_facts(5) [OF that(1)] that(2) by (simp add: same_but_members_def outcome_follower)
  note K = role.R_handle_append_entries [THEN keeps_role_members] role.R_handle_heartbeat [THEN keeps_role_members]
    handle_snapshot_members
  from assms show ?thesis
    by (auto simp: step_candidate_def outcome_unchanged split: MessageType.splits dest: K N handle_vote_resp_outcome)
qed

lemma step_leader_outcome:
  assumes "step_leader msg r = Inr (s, r')"
  shows "outcome msg r r'"
proof -
  note K = role.R_leader_prop role.R_leader_read_index role.R_leader_with_progress role.R_bcast_heartbeat
  from assms show ?thesis
    by (auto simp: step_leader_def outcome_unchanged split: MessageType.splits if_splits
        dest: K [THEN outcome_keeps_role] become_follower_facts(5) [THEN outcome_follower])
qed

lemma step_current_outcome:
  assumes st: "step_current msg r = Inr (s, r')" and ro: "role_ok r"
  shows "outcome msg r r'"
proof -
  have hup: "outcome msg r r'" if "step_hup r = Inr (s, r')"
    using that by (auto simp: step_hup_def Let_def outcome_unchanged split: if_splits sum.splits dest: campaign_outcome)
  have V: "outcome msg r (q\<lparr>r_election_elapsed := e, r_vote := v\<rparr>)" if "keeps_role r q" for q e v
    using that by (simp add: keeps_role_def outcome_unchanged)
  have vote: "outcome msg r r'" if "step_vote msg r = Inr (s, r')"
    using that
    by (auto simp: step_vote_def Let_def outcome_unchanged outcome_keeps_role V split: if_splits dest!: send_keeps_role)
  have "outcome msg r r'" if "step_dispatch msg r = Inr (s, r')"
    using that role_okD(1) [OF ro] step_follower_outcome step_candidate_outcome step_leader_outcome
    by (cases "r_state r") (auto simp: step_dispatch_def)
  with hup vote st show ?thesis by (cases "m_type msg") (auto simp: step_current_def)
qed

lemma in_role_after: "become_follower t l r = Inr q \<Longrightarrow> r_id r \<noteq> 0 \<Longrightarrow> role_ok q"
  using become_follower_facts [of t l r q] by (simp add: role_ok_def same_config_def)

text \<open>
  A step as a whole: either it works at the node's own term, or on a follower that has just taken
  the term of the message.
\<close>

lemma step_outcome:
  assumes st: "step msg r = Inr (s, r')" and ro: "role_ok r"
  obtains (own) "outcome msg r r'" and
      "r_votes r' \<noteq> r_votes r \<Longrightarrow> m_type msg = MsgVoteResp \<Longrightarrow> r_state r = Candidate \<Longrightarrow> r_state r' \<noteq> Follower \<Longrightarrow>
         m_term msg = 0 \<or> m_term msg = r_term r"
      and "r_state r' = Leader \<Longrightarrow> r_state r \<noteq> Leader \<Longrightarrow> m_type msg = MsgVoteResp \<Longrightarrow>
         m_term msg = 0 \<or> m_term msg = r_term r"
  | (newer) q lead where "become_follower (m_term msg) lead r = Inr q" and "outcome msg q r'"
      and "r_term r < m_term msg" and "step_current msg q = Inr (s, r')"
proof -
  consider (cur) "step_current msg r = Inr (s, r')" "m_term msg = 0 \<or> m_term msg = r_term r"
    | (low) "step_lower_term msg r = Inr (s, r')"
    | (lease) "r' = r" | (high) q where "step_higher_term msg r = Inr (Some q)" "step_current msg q = Inr (s, r')"
        "r_term r < m_term msg"
    using st by (auto simp: step_def split: if_splits option.splits)
  then show thesis
  proof cases
    case cur
    then show ?thesis using step_current_outcome [OF cur(1) ro] by (intro own) auto
  next
    case low
    then show ?thesis
      using step_lower_term_role [OF low] by (intro own) (auto simp: keeps_role_def intro: outcome_unchanged)
  next
    case lease
    then show ?thesis by (intro own) (auto intro: outcome_unchanged)
  next
    case (high q)
    from high(1) show ?thesis
    proof (cases rule: step_higher_term_cases)
      case same
      then show ?thesis using step_current_outcome [OF high(2)] ro by (intro own) auto
    next
      case (follower lead)
      have "role_ok q" by (rule in_role_after [OF follower role_okD(3) [OF ro]])
      then show ?thesis using newer [OF follower] step_current_outcome [OF high(2)] high(2,3) by blast
    qed
  qed
qed

lemma step_leader_cases:
  assumes st: "step msg r = Inr (s, r')" and ro: "role_ok r" and nl: "r_state r \<noteq> Leader" and ld: "r_state r' = Leader"
  shows "r_state r = Candidate \<and> r_term r' = r_term r \<and> quorum r' = granted_votes (votes_with msg r) \<or>
     quorum r' = 1 \<and> (r_term r' = r_term r + 1 \<or> r_term r' = m_term msg + 1)"
  using st ro
proof (cases rule: step_outcome)
  case own
  then show ?thesis using nl ld by (auto simp: outcome_def)
next
  case (newer q lead)
  note F = become_follower_facts [OF newer(1)]
  show ?thesis using newer(2) ld F(2,5) by (auto simp: outcome_def)
qed

section \<open>What the leader commits\<close>

text \<open>At least a quorum of the voters has stored the log up to \<open>n\<close>.\<close>

definition quorum_match :: "Raft \<Rightarrow> u64 \<Rightarrow> bool" where
  "quorum_match r n \<longleftrightarrow> length (r_prs r) div 2 + 1 \<le> length (filter (\<lambda>(_, p). n \<le> pr_match p) (r_prs r))"

lemma unat_quorum: "length (r_prs r) < 2 ^ 32 \<Longrightarrow> unat (quorum r) = length (r_prs r) div 2 + 1"
  unfolding quorum_def by (intro unat_of_nat_small) simp

lemma commit_position:
  assumes "r_prs r \<noteq> []" and "length (r_prs r) < 2 ^ 32"
  defines "buf \<equiv> sort (map (\<lambda>(_, p). pr_match p) (r_prs r))"
  shows "\<exists>mci. nth_r buf (unat (of_nat (length buf) - ucast (quorum r) :: u64)) = Inr mci \<and>
     (\<forall>n. quorum_match r n \<longleftrightarrow> n \<le> mci)"
proof -
  let ?n = "length (r_prs r)" and ?q = "length (r_prs r) div 2 + 1"
  have len: "length buf = ?n" by (simp add: buf_def)
  have q: "?q \<le> ?n" using assms(1) by (cases "r_prs r") auto
  have "unat (of_nat ?n :: u64) = ?n" using assms(2) by (intro unat_of_nat_small) simp
  then have i: "unat (of_nat (length buf) - ucast (quorum r) :: u64) = ?n - ?q"
    using q unat_quorum [OF assms(2)] by (subst unat_sub_le) (simp_all add: len)
  have lt: "?n - ?q < length buf" using q assms(1) by (simp add: len)
  have f: "length (filter (\<lambda>x. n \<le> x) buf) = length (filter (\<lambda>(_, p). n \<le> pr_match p) (r_prs r))" for n
    unfolding buf_def length_filter_sort
    by (simp add: filter_map comp_def case_prod_unfold)
  have "quorum_match r n \<longleftrightarrow> n \<le> buf ! (?n - ?q)" for n
    using sorted_reach [of buf "?n - ?q" n] lt q by (simp add: quorum_match_def f len buf_def [symmetric]) (simp add: buf_def)
  then show ?thesis using lt i by simp
qed

lemma maybe_commit_spec:
  assumes "log_inv (r_raft_log r)" and "r_term r \<noteq> 0" and "r_prs r \<noteq> []" and "length (r_prs r) < 2 ^ 32"
  shows "\<exists>mci. (\<forall>n. quorum_match r n \<longleftrightarrow> n \<le> mci) \<and>
     maybe_commit r =
       Inr (if rl_committed (r_raft_log r) < mci \<and> term_at (r_raft_log r) (unat mci) = r_term r
            then (True, r\<lparr>r_match_buf := sort (map (\<lambda>(_, p). pr_match p) (r_prs r)),
                          r_raft_log := (r_raft_log r)\<lparr>rl_committed := mci\<rparr>\<rparr>)
            else (False, r\<lparr>r_match_buf := sort (map (\<lambda>(_, p). pr_match p) (r_prs r))\<rparr>))"
proof -
  obtain mci where m: "nth_r (sort (map (\<lambda>(_, p). pr_match p) (r_prs r)))
        (unat (of_nat (length (sort (map (\<lambda>(_, p). pr_match p) (r_prs r)))) - ucast (quorum r) :: u64)) = Inr mci"
    and c: "\<forall>n. quorum_match r n \<longleftrightarrow> n \<le> mci"
    using commit_position [OF assms(3,4)] by blast
  have "quorum (r\<lparr>r_match_buf := b\<rparr>) = quorum r" for b by (simp add: quorum_def)
  then have "maybe_commit r = bind_r (log_maybe_commit mci (r_term r) (r_raft_log r))
      (\<lambda>(b, l). Inr (b, r\<lparr>r_match_buf := sort (map (\<lambda>(_, p). pr_match p) (r_prs r)), r_raft_log := l\<rparr>))"
    using m by (simp add: maybe_commit_def Let_def)
  then show ?thesis
    using c log_maybe_commit_eq [OF assms(1,2)] by (intro exI [of _ mci]) (simp add: word_less_nat_alt)
qed

section \<open>Properties\<close>

lemma Inr_projr: "\<not> isl m \<Longrightarrow> m = Inr (projr m)"
  by (cases m) simp_all



text \<open>
  C9. Elections: a node that is not leader and is leader after a step was a candidate of this very
  term whose granted votes, the sender's answer included, are exactly a quorum of the voters; or
  it is its own quorum (a cluster with one voter) and has just started a new term.
\<close>

theorem leader_has_quorum:
  assumes "step msg r = Inr (s, r')" and "role_ok r" and "r_state r \<noteq> Leader" and "r_state r' = Leader"
  shows "r_state r = Candidate \<and> r_term r' = r_term r \<and> quorum r' = granted_votes (votes_with msg r) \<or>
     quorum r' = 1 \<and> (r_term r' = r_term r + 1 \<or> r_term r' = m_term msg + 1)"
  using assms by (rule step_leader_cases)

definition candidate_example :: Raft where
  "candidate_example = projr (campaign kCampaignElection node_example)"

definition vote_from_2 :: Message where
  "vote_from_2 = Message_default\<lparr>m_type := MsgVoteResp, m_from := 2, m_to := 1, m_term := 1\<rparr>"

theorem leader_has_quorum_witness:
  "r_state (snd (projr (step vote_from_2 candidate_example))) = Leader \<and>
   quorum (snd (projr (step vote_from_2 candidate_example))) = granted_votes (votes_with vote_from_2 candidate_example)"
proof -
  let ?x = "projr (step vote_from_2 candidate_example)"
  have "\<not> isl (step vote_from_2 candidate_example)" by code_simp
  then have st: "step vote_from_2 candidate_example = Inr (fst ?x, snd ?x)" using Inr_projr by simp
  have ro: "role_ok candidate_example" by code_simp
  have c: "r_state candidate_example \<noteq> Leader" by code_simp
  have l: "r_state (snd ?x) = Leader" by code_simp
  have q: "quorum (snd ?x) \<noteq> 1" by code_simp
  show ?thesis using leader_has_quorum [OF st ro c l] l q by blast
qed

text \<open>
  C10. Commitment: \<^verbatim>\<open>Raft::maybe_commit\<close> computes the greatest index that a majority of the voters
  has stored, and moves the commit index there exactly if that is forward and the entry at that
  index is of the current term; it changes nothing else but its scratch buffer.
\<close>

theorem maybe_commit_correct:
  assumes "log_inv (r_raft_log r)" and "r_term r \<noteq> 0" and "r_prs r \<noteq> []" and "length (r_prs r) < 2 ^ 32"
  shows "\<exists>mci. (\<forall>n. quorum_match r n \<longleftrightarrow> n \<le> mci) \<and>
     maybe_commit r =
       Inr (if rl_committed (r_raft_log r) < mci \<and> term_at (r_raft_log r) (unat mci) = r_term r
            then (True, r\<lparr>r_match_buf := sort (map (\<lambda>(_, p). pr_match p) (r_prs r)),
                          r_raft_log := (r_raft_log r)\<lparr>rl_committed := mci\<rparr>\<rparr>)
            else (False, r\<lparr>r_match_buf := sort (map (\<lambda>(_, p). pr_match p) (r_prs r))\<rparr>))"
  using assms by (rule maybe_commit_spec)

definition commit_example :: Raft where
  "commit_example = node_example\<lparr>r_term := 2, r_raft_log := log_example,
     r_prs := [(1, (Progress_new 4)\<lparr>pr_match := 8, pr_next := 9\<rparr>), (2, (Progress_new 4)\<lparr>pr_match := 7, pr_next := 8\<rparr>),
               (3, (Progress_new 4)\<lparr>pr_match := 6, pr_next := 7\<rparr>)]\<rparr>"

theorem maybe_commit_correct_witness:
  "\<exists>mci. (\<forall>n. quorum_match commit_example n \<longleftrightarrow> n \<le> mci) \<and>
     maybe_commit commit_example =
       Inr (if 6 < mci \<and> term_at log_example (unat mci) = 2
            then (True, commit_example\<lparr>r_match_buf := [6, 7, 8], r_raft_log := log_example\<lparr>rl_committed := mci\<rparr>\<rparr>)
            else (False, commit_example\<lparr>r_match_buf := [6, 7, 8]\<rparr>))"
proof -
  have E: "r_raft_log commit_example = log_example" "r_term commit_example = 2"
    "sort (map (\<lambda>(_, p). pr_match p) (r_prs commit_example)) = [6, 7, 8]" "rl_committed log_example = 6"
    by (simp_all add: commit_example_def log_example_def)
  have "log_inv (r_raft_log commit_example)" "r_term commit_example \<noteq> 0" "r_prs commit_example \<noteq> []"
    "length (r_prs commit_example) < 2 ^ 32"
    using log_example_inv by (simp_all add: commit_example_def)
  from maybe_commit_correct [OF this] show ?thesis unfolding E .
qed

lemma note_sent_total:
  assumes "\<not> is_paused p" and "inf_inv (pr_inflights p)"
  shows "\<exists>q. note_sent es p = Inr q \<and> inf_inv (pr_inflights q)"
proof (cases "pr_state p")
  case ProgressStateReplicate
  then have nf: "\<not> inf_is_full (pr_inflights p)" using assms(1) by (simp add: is_paused_def)
  obtain f where "inf_add (e_index (last es)) (pr_inflights p) = Inr f" "inf_inv f" using assms(2) nf by (rule inf_add_eq)
  then show ?thesis using ProgressStateReplicate assms(2) by (auto simp: note_sent_def optimistic_update_def)
qed (use assms in \<open>auto simp: note_sent_def is_paused_def set_pause_def\<close>)

text \<open>What is left to send to a follower that is not paused: the entries from \<^verbatim>\<open>next\<close> on that the log still has.\<close>

definition can_send :: "Progress \<Rightarrow> RaftLog \<Rightarrow> bool" where
  "can_send p l \<longleftrightarrow> \<not> is_paused p \<and> log_first l \<le> unat (pr_next p) \<and> unat (pr_next p) \<le> log_last l"

lemma maybe_send_append_total:
  assumes wf: "log_wf (r_raft_log r)" and p: "get_progress to r = Some p" and f: "inf_inv (pr_inflights p)"
  shows "if can_send p (r_raft_log r)
     then \<exists>r' q. maybe_send_append to False r = Inr (True, r') \<and> get_progress to r' = Some q \<and> inf_inv (pr_inflights q) \<and>
       r_raft_log r' = r_raft_log r
     else maybe_send_append to False r = Inr (False, r)"
proof -
  let ?l = "r_raft_log r" and ?n = "pr_next p"
  note u = unat_last_index [OF wf] unat_last_index_Suc [OF wf]
  have e: "entries_from ?n m ?l = Inr (if unat ?n < log_first ?l \<and> unat ?n \<le> log_last ?l then Inl err_compacted
      else Inr (entry_limit_size m (seg (log_at ?l) (unat ?n) (log_last ?l + 1))))" for m
  proof (cases "last_index ?l < ?n")
    case True
    then show ?thesis using u by (simp add: entries_from_def word_less_nat_alt)
  next
    case False
    then show ?thesis
      using u slice_compacted [OF wf, of ?n "last_index ?l + 1" m] slice_eq [OF wf, of ?n "last_index ?l + 1" m]
      by (auto simp: entries_from_def word_less_nat_alt)
  qed
  let ?es = "entry_limit_size (r_max_msg_size r) (seg (log_at ?l) (unat ?n) (log_last ?l + 1))"
  have z: "?es = [] \<longleftrightarrow> log_last ?l < unat ?n" by (auto simp: seg_def)
  note M = maybe_send_append_def p deref_r_Some bind_r_Inr term_of_eq [OF wf] e Let_def
  show ?thesis
  proof (cases "can_send p ?l")
    case True
    then obtain q where q: "note_sent ?es p = Inr q" "inf_inv (pr_inflights q)"
      using note_sent_total [OF _ f, of ?es] by (auto simp: can_send_def)
    let ?m = "Message_default\<lparr>m_to := to, m_type := MsgApp, m_index := ?n - 1, m_log_term := term_at ?l (unat (?n - 1)),
        m_entries := ?es, m_commit := rl_committed ?l\<rparr>"
    obtain r' where r': "send ?m (put_progress to q r) = Inr r'" by (auto simp: send_def is_vote_msg_def Message_default_def)
    have "maybe_send_append to False r = Inr (True, r')" using True z q(1) r' by (simp add: M can_send_def)
    moreover have "get_progress to r' = Some q" using get_progress_send [OF r'] get_put_progress [OF p] by simp
    moreover have "r_raft_log r' = ?l" using r' only_sends_eqs(4) [OF put_progress_only_sends [of r to q]] by (auto simp: send_eq)
    ultimately show ?thesis using True q(2) by auto
  next
    case False
    then have "maybe_send_append to False r = Inr (False, r)" using z by (auto simp: M can_send_def not_less not_le)
    then show ?thesis using False by simp
  qed
qed



end
