(* ===== verification/Raw_Node.thy ===== *)
theory Raw_Node
  imports Raft_Safety
begin

text \<open>
  \<^verbatim>\<open>RawNode\<close> of \<^verbatim>\<open>raft/node\<close> and \<^verbatim>\<open>Ready\<close> of \<^verbatim>\<open>raft/ready\<close>: the face the server sees of the consensus core. A
  \<open>Ready\<close> lists what has to be saved, sent and applied; \<^verbatim>\<open>advance\<close> tells the core that it has been done.
  Serialization of a configuration change by msgpack is an argument (\<open>pack_cc\<close>).
\<close>

section \<open>Ready\<close>

record Ready =
  rd_soft_state :: "SoftState option"
  rd_hard_state :: HardState
  rd_read_states :: "ReadState list"
  rd_entries :: "Entry list"
  rd_snapshot :: Snapshot
  rd_committed_entries :: "Entry list"
  rd_messages :: "Message list"
  rd_must_sync :: bool

text \<open>The constructor takes the messages of the node away from it.\<close>

definition Ready_new :: "Raft \<Rightarrow> SoftState \<Rightarrow> HardState \<Rightarrow> fault + (Ready \<times> Raft)" where
  "Ready_new r pre_soft_state pre_hard_state =
     bind_r (next_entries (r_raft_log r)) (\<lambda>committed.
     let st = soft_state r; hs = hard_state r;
         hard = (if \<not> hard_state_equal hs pre_hard_state then hs else HardState_default);
         entries = u_entries (rl_unstable (r_raft_log r)) in
     Inr (\<lparr>rd_soft_state = (if st \<noteq> pre_soft_state then Some st else None),
           rd_hard_state = hard,
           rd_read_states = r_read_states r,
           rd_entries = entries,
           rd_snapshot = (case u_snapshot (rl_unstable (r_raft_log r)) of Some s \<Rightarrow> s | None \<Rightarrow> Snapshot_default),
           rd_committed_entries = committed,
           rd_messages = r_msgs r,
           rd_must_sync = is_must_sync hs hard (length entries)\<rparr>,
          r\<lparr>r_msgs := []\<rparr>))"

definition contains_updates :: "Ready \<Rightarrow> bool" where
  "contains_updates rd \<longleftrightarrow> rd_soft_state rd \<noteq> None \<or> \<not> is_empty_state (rd_hard_state rd) \<or>
     \<not> snapshot_is_empty (rd_snapshot rd) \<or> rd_entries rd \<noteq> [] \<or> rd_committed_entries rd \<noteq> [] \<or>
     rd_messages rd \<noteq> [] \<or> rd_read_states rd = []"

definition applied_cursor :: "Ready \<Rightarrow> u64" where
  "applied_cursor rd =
     (if rd_committed_entries rd \<noteq> [] then e_index (last (rd_committed_entries rd))
      else sm_index (s_metadata (rd_snapshot rd)))"

text \<open>
  \<^verbatim>\<open>equal\<close> walks over its own read states only, and compares no messages; an element the other side does
  not have is read outside its vector.
\<close>

primrec read_states_equal :: "ReadState list \<Rightarrow> ReadState list \<Rightarrow> nat \<Rightarrow> fault + bool" where
  "read_states_equal [] ys i = Inr True"
| "read_states_equal (x # xs) ys i =
     bind_r (nth_r ys i) (\<lambda>y. if \<not> read_state_equal x y then Inr False else read_states_equal xs ys (i + 1))"

definition ready_equal :: "Ready \<Rightarrow> Ready \<Rightarrow> fault + bool" where
  "ready_equal a b =
     (if rd_soft_state a \<noteq> rd_soft_state b then Inr False
      else if \<not> hard_state_equal (rd_hard_state a) (rd_hard_state b) then Inr False
      else
        bind_r (read_states_equal (rd_read_states a) (rd_read_states b) 0) (\<lambda>same.
        if \<not> same then Inr False
        else if rd_entries a \<noteq> rd_entries b then Inr False
        else if \<not> snapshot_equal (rd_snapshot a) (rd_snapshot b) then Inr False
        else if rd_committed_entries a \<noteq> rd_committed_entries b then Inr False
        else Inr (rd_must_sync a = rd_must_sync b)))"

section \<open>Construction\<close>

record PeerContext =
  pc_id :: u64
  pc_context :: bytes

datatype ConfChangeType = ConfChangeAddNode | ConfChangeRemoveNode | ConfChangeUpdateNode | ConfChangeAddLearnerNode
  | ConfChangeInvalid u8

record ConfChange =
  cc_id :: u64
  cc_type :: ConfChangeType
  cc_node_id :: u64
  cc_context :: bytes

record RawNode =
  rn_raft :: Raft
  rn_prev_soft_state :: SoftState
  rn_prev_hard_state :: HardState

primrec bootstrap_entries :: "(ConfChange \<Rightarrow> bytes) \<Rightarrow> nat \<Rightarrow> PeerContext list \<Rightarrow> Entry list" where
  "bootstrap_entries pack_cc i [] = []"
| "bootstrap_entries pack_cc i (p # ps) =
     \<lparr>e_type = EntryConfChange, e_term = 1, e_index = of_nat (i + 1),
      e_data = pack_cc \<lparr>cc_id = 0, cc_type = ConfChangeAddNode, cc_node_id = pc_id p, cc_context = pc_context p\<rparr>\<rparr>
     # bootstrap_entries pack_cc (i + 1) ps"

text \<open>The common end of both constructors: the states before anything was reported.\<close>

definition with_prev :: "u64 \<Rightarrow> Raft \<Rightarrow> RawNode" where
  "with_prev li r =
     \<lparr>rn_raft = r, rn_prev_soft_state = soft_state r,
      rn_prev_hard_state = (if li = 0 then HardState_default else hard_state r)\<rparr>"

definition RawNode_start ::
  "(ConfChange \<Rightarrow> bytes) \<Rightarrow> Config \<Rightarrow> (nat \<Rightarrow> u32) \<Rightarrow> PeerContext list \<Rightarrow> fault + RawNode"
where
  "RawNode_start pack_cc conf seq peers =
     bind_r (Raft_new conf seq) (\<lambda>r.
     bind_r (deref_r (c_storage conf)) (\<lambda>storage.
     let li = ms_last_index storage in
     bind_r (if li = 0
             then
               bind_r (become_follower 1 0 r) (\<lambda>r.
               let entries = bootstrap_entries pack_cc 0 peers in
               bind_r (log_append entries (r_raft_log r)) (\<lambda>(_, l).
               loop_r (\<lambda>p. add_node (pc_id p)) peers
                 (r\<lparr>r_raft_log := l\<lparr>rl_committed := of_nat (length entries)\<rparr>\<rparr>)))
             else Inr r) (\<lambda>r.
     Inr (with_prev li r))))"

definition RawNode_restart :: "Config \<Rightarrow> (nat \<Rightarrow> u32) \<Rightarrow> fault + RawNode" where
  "RawNode_restart conf seq =
     bind_r (deref_r (c_storage conf)) (\<lambda>storage.
     bind_r (Raft_new conf seq) (\<lambda>r. Inr (with_prev (ms_last_index storage) r)))"

section \<open>Operations\<close>

text \<open>A call that only changes the \<^verbatim>\<open>Raft\<close> behind the node.\<close>

definition on_raft :: "(Raft \<Rightarrow> fault + Raft) \<Rightarrow> RawNode \<Rightarrow> fault + RawNode" where
  "on_raft f n = bind_r (f (rn_raft n)) (\<lambda>r. Inr (n\<lparr>rn_raft := r\<rparr>))"

definition step_with :: "Message \<Rightarrow> RawNode \<Rightarrow> fault + (Status \<times> RawNode)" where
  "step_with msg n = bind_r (step msg (rn_raft n)) (\<lambda>(s, r). Inr (s, n\<lparr>rn_raft := r\<rparr>))"

definition rn_tick :: "RawNode \<Rightarrow> fault + RawNode" where
  "rn_tick = on_raft tick"

definition rn_campaign :: "RawNode \<Rightarrow> fault + (Status \<times> RawNode)" where
  "rn_campaign = step_with (Message_default\<lparr>m_type := MsgHup\<rparr>)"

definition rn_propose :: "bytes \<Rightarrow> RawNode \<Rightarrow> fault + (Status \<times> RawNode)" where
  "rn_propose data n =
     step_with (Message_default\<lparr>m_type := MsgProp, m_from := r_id (rn_raft n),
       m_entries := [\<lparr>e_type = EntryNormal, e_term = 0, e_index = 0, e_data = data\<rparr>]\<rparr>) n"

definition rn_propose_conf_change :: "(ConfChange \<Rightarrow> bytes) \<Rightarrow> ConfChange \<Rightarrow> RawNode \<Rightarrow> fault + (Status \<times> RawNode)" where
  "rn_propose_conf_change pack_cc cc =
     step_with (Message_default\<lparr>m_type := MsgProp,
       m_entries := [\<lparr>e_type = EntryConfChange, e_term = 0, e_index = 0, e_data = pack_cc cc\<rparr>]\<rparr>)"

definition rn_step :: "Message \<Rightarrow> RawNode \<Rightarrow> fault + (Status \<times> RawNode)" where
  "rn_step msg n =
     (if message_is_local_msg msg then Inr (InvalidArgument ''raft: cannot step raft local message'', n)
      else if get_progress (m_from msg) (rn_raft n) \<noteq> None \<or> \<not> is_response_msg msg then step_with msg n
      else Inr (InvalidArgument ''raft: cannot step as peer not found'', n))"

definition rn_ready :: "RawNode \<Rightarrow> fault + (Ready \<times> RawNode)" where
  "rn_ready n =
     bind_r (Ready_new (rn_raft n) (rn_prev_soft_state n) (rn_prev_hard_state n)) (\<lambda>(rd, r).
     Inr (rd, n\<lparr>rn_raft := reduce_uncommitted_size (rd_committed_entries rd) (r\<lparr>r_msgs := []\<rparr>)\<rparr>))"

definition rn_has_ready :: "RawNode \<Rightarrow> bool" where
  "rn_has_ready n =
     (let r = rn_raft n; hs = hard_state r in
      if soft_state r \<noteq> rn_prev_soft_state n then True
      else if \<not> is_empty_state hs \<and> \<not> hard_state_equal hs (rn_prev_hard_state n) then True
      else if (case u_snapshot (rl_unstable (r_raft_log r)) of Some s \<Rightarrow> \<not> snapshot_is_empty s | None \<Rightarrow> False) then True
      else if r_msgs r \<noteq> [] \<or> u_entries (rl_unstable (r_raft_log r)) \<noteq> [] \<or> has_next_entries (r_raft_log r) then True
      else r_read_states r \<noteq> [])"

definition rn_advance :: "Ready \<Rightarrow> RawNode \<Rightarrow> fault + RawNode" where
  "rn_advance rd n =
     (let n = (case rd_soft_state rd of Some st \<Rightarrow> n\<lparr>rn_prev_soft_state := st\<rparr> | None \<Rightarrow> n);
          n = (if \<not> is_empty_state (rd_hard_state rd) then n\<lparr>rn_prev_hard_state := rd_hard_state rd\<rparr> else n);
          r = rn_raft n; index = applied_cursor rd;
          l = (if index > 0 then applied_to index (r_raft_log r) else r_raft_log r) in
      bind_r (if rd_entries rd \<noteq> []
              then stable_to (e_index (last (rd_entries rd))) (e_term (last (rd_entries rd))) l
              else Inr l) (\<lambda>l.
      let l = (if \<not> snapshot_is_empty (rd_snapshot rd) then stable_snap_to (sm_index (s_metadata (rd_snapshot rd))) l else l);
          r = r\<lparr>r_raft_log := l\<rparr>;
          r = (if rd_read_states rd \<noteq> [] then r\<lparr>r_read_states := []\<rparr> else r)
      in Inr (n\<lparr>rn_raft := r\<rparr>)))"

definition conf_state_of :: "Raft \<Rightarrow> ConfState" where
  "conf_state_of r = \<lparr>cs_nodes = nodes r, cs_learners = learner_nodes r\<rparr>"

definition rn_apply_conf_change :: "ConfChange \<Rightarrow> RawNode \<Rightarrow> fault + (ConfState \<times> RawNode)" where
  "rn_apply_conf_change cc n =
     (if cc_node_id cc = 0 then Inr (conf_state_of (rn_raft n), n)
      else
        bind_r (case cc_type cc of
                  ConfChangeAddNode \<Rightarrow> on_raft (add_node_or_learner (cc_node_id cc) False) n
                | ConfChangeAddLearnerNode \<Rightarrow> on_raft (add_node_or_learner (cc_node_id cc) True) n
                | ConfChangeRemoveNode \<Rightarrow> on_raft (remove_node (cc_node_id cc)) n
                | ConfChangeUpdateNode \<Rightarrow> Inr n
                | ConfChangeInvalid b \<Rightarrow> Inl (Fatal ''unexpected conf type'')) (\<lambda>n.
        Inr (conf_state_of (rn_raft n), n)))"

text \<open>The status of these three is only logged.\<close>

definition rn_transfer_leadership :: "u64 \<Rightarrow> u64 \<Rightarrow> RawNode \<Rightarrow> fault + RawNode" where
  "rn_transfer_leadership lead transferee n =
     bind_r (step_with (Message_default\<lparr>m_type := MsgTransferLeader, m_from := transferee, m_to := lead\<rparr>) n) (\<lambda>(_, n). Inr n)"

definition rn_read_index :: "bytes \<Rightarrow> RawNode \<Rightarrow> fault + (Status \<times> RawNode)" where
  "rn_read_index rctx =
     step_with (Message_default\<lparr>m_type := MsgReadIndex,
       m_entries := [\<lparr>e_type = EntryOther 15, e_term = 0, e_index = 0, e_data = rctx\<rparr>]\<rparr>)"

definition rn_report_unreachable :: "u64 \<Rightarrow> RawNode \<Rightarrow> fault + RawNode" where
  "rn_report_unreachable nid n =
     bind_r (step_with (Message_default\<lparr>m_type := MsgUnreachable, m_from := nid\<rparr>) n) (\<lambda>(_, n). Inr n)"

definition SnapshotFinish :: u8 where "SnapshotFinish = 1"
definition SnapshotFailure :: u8 where "SnapshotFailure = 2"

definition rn_report_snapshot :: "u64 \<Rightarrow> u8 \<Rightarrow> RawNode \<Rightarrow> fault + RawNode" where
  "rn_report_snapshot nid status n =
     bind_r (step_with (Message_default\<lparr>m_type := MsgSnapStatus, m_from := nid, m_reject := (status = SnapshotFailure)\<rparr>) n)
       (\<lambda>(_, n). Inr n)"

section \<open>Making a Ready durable\<close>

text \<open>What the server does with the log part of a \<open>Ready\<close> before it calls \<^verbatim>\<open>advance\<close>.\<close>

definition persist :: "Ready \<Rightarrow> MemoryStorage \<Rightarrow> fault + MemoryStorage" where
  "persist rd s =
     (let s = (if \<not> snapshot_is_empty (rd_snapshot rd) then snd (ms_apply_snapshot (rd_snapshot rd) s) else s) in
      if rd_entries rd \<noteq> [] then bind_r (ms_append (rd_entries rd) s) (\<lambda>(_, s). Inr s) else Inr s)"

text \<open>A pending snapshot is newer than the one in the storage.\<close>

definition snap_newer :: "RaftLog \<Rightarrow> bool" where
  "snap_newer l \<longleftrightarrow> (case u_snapshot (rl_unstable l) of None \<Rightarrow> True
     | Some snap \<Rightarrow> sm_index (s_metadata (ms_snap (rl_storage l))) < sm_index (s_metadata snap))"

text \<open>The storage that holds the whole log.\<close>

definition holds_log :: "RaftLog \<Rightarrow> MemoryStorage \<Rightarrow> bool" where
  "holds_log l s \<longleftrightarrow> ms_inv s \<and> ms_offset s = log_base l \<and> ms_last s = log_last l \<and> ms_at s = log_at l \<and>
     e_term (ms_ents s ! 0) = log_base_term l"

lemma u_entries_batch:
  assumes "log_wf l" and "u_entries (rl_unstable l) \<noteq> []"
  shows "batch_ok (u_entries (rl_unstable l))" and "unat (e_index (u_entries (rl_unstable l) ! 0)) = log_off l"
proof -
  note U = u_invD [OF log_wfD(2) [OF assms(1)]]
  show i: "unat (e_index (u_entries (rl_unstable l) ! 0)) = log_off l"
    using contiguous_nth [OF U(1), of 0] assms(2) by (simp add: log_off_def)
  show "batch_ok (u_entries (rl_unstable l))"
    using U(1,3) i by (simp add: batch_ok_def log_off_def)
qed

lemma append_holds_log:
  assumes wf: "log_wf l" and s: "ms_inv s" and off: "ms_offset s = log_base l" and trm: "e_term (ms_ents s ! 0) = log_base_term l"
    and reach: "log_off l \<le> ms_last s + 1" and below: "\<And>i. i < log_off l \<Longrightarrow> ms_at s i = log_at l i"
    and ne: "u_entries (rl_unstable l) \<noteq> []"
  shows "\<exists>s'. ms_append (u_entries (rl_unstable l)) s = Inr (OK, s') \<and> holds_log l s'"
proof -
  let ?es = "u_entries (rl_unstable l)"
  note B = u_entries_batch [OF wf ne] and W = log_wfD [OF wf]
  have first: "ms_first s \<le> log_off l" using off W(3) by (simp add: ms_first_def)
  have new: "ms_first s < unat (e_index (?es ! 0)) + length ?es" using first B(2) ne by (cases ?es) auto
  have gap: "unat (e_index (?es ! 0)) \<le> ms_last s + 1" using reach B(2) by simp
  note R = ms_append_result [OF s B(1) ne gap new]
  obtain s' where s': "ms_append ?es s = Inr (OK, s')" and ents: "ms_ents s' =
     take (max (ms_first s) (unat (e_index (?es ! 0))) - ms_offset s) (ms_ents s) @ drop (ms_first s - unat (e_index (?es ! 0))) ?es"
    using R by auto
  note A = ms_append_inv_at [OF s B(1) ne gap new s']
  have at: "ms_at s' i = log_at l i" for i
    using below [of i] first B(2) u_end_log [of l] by (auto simp: A(4) append_at_def Let_def log_at_def)
  have "0 < max (ms_first s) (unat (e_index (?es ! 0))) - ms_offset s" by (simp add: ms_first_def)
  then have "ms_ents s' ! 0 = ms_ents s ! 0" using ms_invD(1) [OF s] unfolding ents by (simp add: nth_append)
  moreover have "ms_last s' = log_last l"
  proof -
    have iff: "ms_first s' \<le> i \<and> i \<le> ms_last s' \<longleftrightarrow> log_first l \<le> i \<and> i \<le> log_last l" for i
      using ms.at_dom [OF A(2), of i] rl.at_dom [OF wf, of i] at [of i] by simp
    have "log_first l \<le> log_last l" using ne W(3) log_last_Suc [OF wf] by (cases ?es) (auto simp: log_first_def u_end_log)
    then show ?thesis using iff [of "ms_last s'"] iff [of "log_last l"] iff [of "log_first l"] by linarith
  qed
  ultimately show ?thesis using s' A(2,3) off trm at by (auto simp: holds_log_def)
qed

lemma persist_holds_log:
  assumes wf: "log_wf l" and newer: "snap_newer l"
    and rd: "rd_entries rd = u_entries (rl_unstable l)"
      "rd_snapshot rd = (case u_snapshot (rl_unstable l) of Some s \<Rightarrow> s | None \<Rightarrow> Snapshot_default)"
  shows "\<exists>s'. persist rd (rl_storage l) = Inr s' \<and> holds_log l s'"
proof -
  note W = log_wfD [OF wf]
  let ?es = "u_entries (rl_unstable l)"
  define s1 where "s1 = (if \<not> snapshot_is_empty (rd_snapshot rd) then snd (ms_apply_snapshot (rd_snapshot rd) (rl_storage l)) else rl_storage l)"
  have s1: "ms_inv s1 \<and> ms_offset s1 = log_base l \<and> e_term (ms_ents s1 ! 0) = log_base_term l \<and> log_off l \<le> ms_last s1 + 1 \<and>
      (\<forall>i < log_off l. ms_at s1 i = log_at l i) \<and> (?es = [] \<longrightarrow> log_off l = ms_last s1 + 1)"
  proof (cases "u_snapshot (rl_unstable l)")
    case None
    then have "s1 = rl_storage l" using rd(2) by (simp add: s1_def snapshot_is_empty_def Snapshot_default_def)
    moreover have "ms_at (rl_storage l) i = log_at l i" if "i < log_off l" for i
      using that None ms.at_before_first [OF W(1), of i] by (auto simp: log_at_def log_base_def ms_first_def)
    ultimately show ?thesis using None W(1,4,5) by (auto simp: log_base_def log_base_term_def)
  next
    case (Some snap)
    have lt: "unat (sm_index (s_metadata snap)) < 2 ^ 64 - 1" "log_off l = log_base l + 1" "log_base l = unat (sm_index (s_metadata snap))"
      using Some W(6) [OF Some] u_end_bound [OF wf] by (simp_all add: u_end_log log_base_def)
    have "sm_index (s_metadata snap) \<noteq> 0" using newer Some by (auto simp: snap_newer_def)
    then have e: "s1 = (rl_storage l)\<lparr>ms_snap := snap, ms_ents := [Entry_default\<lparr>e_term := sm_term (s_metadata snap), e_index := sm_index (s_metadata snap)\<rparr>]\<rparr>"
      using newer Some rd(2) by (auto simp: s1_def snapshot_is_empty_def ms_apply_snapshot_def snap_newer_def)
    have inv: "ms_inv s1" using lt(1) by (simp add: e ms_inv_def ms_offset_def)
    have o: "ms_offset s1 = log_base l" "ms_last s1 = log_base l" using lt by (simp_all add: e ms_offset_def ms_last_def)
    have "ms_at s1 i = log_at l i" if "i < log_off l" for i
      using that lt(2) o by (simp add: ms_at_def ms_first_def log_at_def)
    then show ?thesis using inv o lt(2) Some by (simp add: e log_base_term_def)
  qed
  show ?thesis
  proof (cases "?es = []")
    case True
    have "ms_last s1 = log_last l" using s1 True log_last_Suc [OF wf] by (simp add: u_end_log)
    moreover have "ms_at s1 i = log_at l i" for i
      using s1 True ms.at_after_last [of s1 i] by (cases "i < log_off l") (auto simp: log_at_def u_end_log)
    ultimately have "holds_log l s1" using s1 by (auto simp: holds_log_def)
    then show ?thesis using True rd(1) by (simp add: persist_def s1_def [symmetric])
  next
    case False
    obtain s' where "ms_append ?es s1 = Inr (OK, s')" "holds_log l s'"
      using append_holds_log [OF wf, of s1] s1 False by auto
    then show ?thesis using False rd(1) by (simp add: persist_def s1_def [symmetric] Let_def)
  qed
qed

text \<open>\<^verbatim>\<open>stable_to\<close> and \<^verbatim>\<open>stable_snap_to\<close> for everything that was unstable empty the unstable part.\<close>

lemma u_stable_all:
  assumes inv: "u_inv u" and ne: "u_entries u \<noteq> []"
  shows "\<exists>o'. u_stable_to (e_index (last (u_entries u))) (e_term (last (u_entries u))) u =
     Inr (u\<lparr>u_entries := [], u_offset := o'\<rparr>) \<and> unat o' = u_end u"
proof -
  let ?es = "u_entries u" and ?i = "e_index (last (u_entries u))"
  note U = u_invD [OF inv]
  have len: "1 \<le> length ?es" using ne by (cases ?es) auto
  have i: "unat ?i = unat (u_offset u) + length ?es - 1" using U(1) ne by (rule contiguous_last)
  have e: "?es ! (unat ?i - unat (u_offset u)) = last ?es" using i len ne by (simp add: last_conv_nth)
  have m: "maybe_term ?i u = Inr (Some (e_term (last ?es)))"
  proof -
    have "unat (u_offset u) \<le> unat ?i" "unat ?i < u_end u" using i len unfolding u_end_def by linarith+
    from maybe_term_entry [OF inv this] show ?thesis unfolding e .
  qed
  have i1: "unat (?i + 1) = u_end u" using i len U(3) unfolding u_end_def by (subst unat_succ64) simp_all
  then have d: "unat (?i + 1 - u_offset u) = length ?es" unfolding u_end_def by (subst unat_sub_le) simp_all
  have ge: "u_offset u \<le> ?i" using i len by (simp add: word_le_nat_alt)
  have "u_stable_to ?i (e_term (last ?es)) u = Inr (u\<lparr>u_entries := [], u_offset := ?i + 1\<rparr>)"
    using m d ge by (simp add: u_stable_to_def)
  with i1 show ?thesis by blast
qed

lemma stored_log:
  assumes wf: "log_wf l" and h: "holds_log l s'" and o: "unat o' = log_last l + 1"
  defines "l' \<equiv> l\<lparr>rl_storage := s', rl_unstable := \<lparr>u_snapshot = None, u_entries = [], u_offset = o'\<rparr>\<rparr>"
  shows "log_wf l'" and "log_at l' = log_at l" and "log_base l' = log_base l" and "log_last l' = log_last l" and "term_at l' = term_at l"
proof -
  have H: "ms_inv s'" "ms_offset s' = log_base l" "ms_last s' = log_last l" "ms_at s' = log_at l" "e_term (ms_ents s' ! 0) = log_base_term l"
    using h by (simp_all add: holds_log_def)
  have fl: "log_first l \<le> log_last l + 1" by (rule rl.first_last [OF wf])
  have b: "log_last l + 1 < 2 ^ 64" using rl.last_bound [OF wf] by simp
  have "u_inv \<lparr>u_snapshot = None, u_entries = [], u_offset = o'\<rparr>" using o b by (simp add: u_inv_def)
  then show "log_wf l'" using H o fl by (simp add: l'_def log_wf_def log_off_def ms_first_def log_first_def)
  show base: "log_base l' = log_base l" using H by (simp add: l'_def log_base_def)
  show "log_last l' = log_last l" using o by (simp add: l'_def log_last_def u_end_def)
  show at: "log_at l' = log_at l"
  proof
    fix i
    have "log_at l i = None" if "log_last l < i" using rl.at_after_last [OF wf that] .
    moreover have "log_at l i = None" if "i \<le> log_base l" using rl.at_before_first [OF wf, of i] that by (simp add: log_first_def)
    ultimately show "log_at l' i = log_at l i"
      using H(4) base o by (auto simp: l'_def log_at_def log_off_def u_end_def)
  qed
  have "log_base_term l' = log_base_term l" using H(5) by (simp add: l'_def log_base_term_def)
  with base at show "term_at l' = term_at l" by (simp add: term_at_def fun_eq_iff)
qed

text \<open>What \<^verbatim>\<open>advance\<close> takes for applied lies between the old position and the commit index.\<close>

lemma applied_cursor_bounds:
  assumes inv: "log_inv l" and c: "next_entries l = Inr (rd_committed_entries rd)"
    and sn: "rd_snapshot rd = (case u_snapshot (rl_unstable l) of Some s \<Rightarrow> s | None \<Rightarrow> Snapshot_default)"
  shows "unat (applied_cursor rd) \<le> unat (rl_committed l)"
    and "rd_committed_entries rd \<noteq> [] \<Longrightarrow> unat (applied_cursor rd) =
       max (unat (rl_applied l)) (log_base l) + length (rd_committed_entries rd)"
proof -
  note I = log_invD [OF inv]
  let ?off = "max (unat (rl_applied l) + 1) (log_first l)" and ?es = "rd_committed_entries rd"
  have es: "?es = entry_limit_size (rl_max_next_ents_size l) (seg (log_at l) ?off (unat (rl_committed l) + 1))"
    using next_entries_eq [OF inv] c by simp
  have ct: "contiguous ?off ?es" unfolding es
    using I by (intro contiguous_entry_limit_size rl.contiguous_seg) auto
  have len: "length ?es \<le> unat (rl_committed l) + 1 - ?off"
    unfolding es using length_entry_limit_size [of _ "seg (log_at l) ?off (unat (rl_committed l) + 1)"] by (simp only: length_seg)
  have ne: "unat (applied_cursor rd) = ?off + length ?es - 1" if "?es \<noteq> []"
    using that contiguous_last [OF ct that] by (simp add: applied_cursor_def)
  show "unat (applied_cursor rd) \<le> unat (rl_committed l)"
  proof (cases "?es = []")
    case True
    then show ?thesis
      using sn I(2) by (auto simp: applied_cursor_def log_base_def Snapshot_default_def split: option.splits)
  next
    case False
    then have "1 \<le> length ?es" by (cases ?es) auto
    then show ?thesis using ne [OF False] len by linarith
  qed
  show "unat (applied_cursor rd) = max (unat (rl_applied l)) (log_base l) + length ?es" if "?es \<noteq> []"
    using ne [OF that] that by (cases ?es) (auto simp: log_first_def)
qed

definition with_storage :: "MemoryStorage \<Rightarrow> RawNode \<Rightarrow> RawNode" where
  "with_storage s n = n\<lparr>rn_raft := (rn_raft n)\<lparr>r_raft_log := (r_raft_log (rn_raft n))\<lparr>rl_storage := s\<rparr>\<rparr>\<rparr>"

abbreviation rn_log :: "RawNode \<Rightarrow> RaftLog" where
  "rn_log n \<equiv> r_raft_log (rn_raft n)"

lemma reduce_log [simp]: "r_raft_log (reduce_uncommitted_size es r) = r_raft_log r" "r_msgs (reduce_uncommitted_size es r) = r_msgs r"
  by (simp_all add: reduce_uncommitted_size_def Let_def)

lemma rn_ready_fields:
  assumes "rn_ready n = Inr (rd, n1)"
  shows "rd_entries rd = u_entries (rl_unstable (rn_log n))" and "rn_log n1 = rn_log n" and "rd_messages rd = r_msgs (rn_raft n)"
    and "rd_snapshot rd = (case u_snapshot (rl_unstable (rn_log n)) of Some s \<Rightarrow> s | None \<Rightarrow> Snapshot_default)"
  using assms by (auto simp: rn_ready_def Ready_new_def Let_def bind_r_eq_Inr)

lemma rn_ready_eq:
  assumes "log_inv (rn_log n)"
  obtains rd n1 where "rn_ready n = Inr (rd, n1)" and "rn_log n1 = rn_log n" and "r_msgs (rn_raft n1) = []"
    and "next_entries (rn_log n) = Inr (rd_committed_entries rd)" and "rd_entries rd = u_entries (rl_unstable (rn_log n))"
    and "rd_snapshot rd = (case u_snapshot (rl_unstable (rn_log n)) of Some s \<Rightarrow> s | None \<Rightarrow> Snapshot_default)"
    and "rd_messages rd = r_msgs (rn_raft n)"
proof -
  obtain es where es: "next_entries (rn_log n) = Inr es" using next_entries_eq [OF assms] by blast
  obtain rd n1 where r: "rn_ready n = Inr (rd, n1)" by (simp add: rn_ready_def Ready_new_def es Let_def)
  show thesis by (rule that [OF r]; use r es in \<open>auto simp: rn_ready_def Ready_new_def Let_def\<close>)
qed

text \<open>The log part of \<^verbatim>\<open>advance\<close>.\<close>

lemma rn_advance_eq:
  assumes "(if rd_entries rd \<noteq> [] then stable_to (e_index (last (rd_entries rd))) (e_term (last (rd_entries rd)))
       (if applied_cursor rd > 0 then applied_to (applied_cursor rd) (rn_log n) else rn_log n)
     else Inr (if applied_cursor rd > 0 then applied_to (applied_cursor rd) (rn_log n) else rn_log n)) = Inr l2"
  shows "\<exists>n'. rn_advance rd n = Inr n' \<and> rn_log n' = (if \<not> snapshot_is_empty (rd_snapshot rd)
     then stable_snap_to (sm_index (s_metadata (rd_snapshot rd))) l2 else l2) \<and> r_msgs (rn_raft n') = r_msgs (rn_raft n)"
  using assms
  by (cases "rd_soft_state rd"; cases "is_empty_state (rd_hard_state rd)"; cases "rd_read_states rd")
    (simp_all add: rn_advance_def Let_def split del: if_split cong: if_cong)

lemma advance_log:
  assumes wf: "log_wf l" and h: "holds_log l s'" and nw: "snap_newer l"
    and rd: "rd_entries rd = u_entries (rl_unstable l)"
      "rd_snapshot rd = (case u_snapshot (rl_unstable l) of Some s \<Rightarrow> s | None \<Rightarrow> Snapshot_default)"
    and n: "rn_log n = l\<lparr>rl_storage := s'\<rparr>"
  shows "\<exists>n' o'. rn_advance rd n = Inr n' \<and> unat o' = log_last l + 1 \<and>
     rn_log n' = l\<lparr>rl_storage := s', rl_applied := (if applied_cursor rd > 0 then applied_cursor rd else rl_applied l),
       rl_unstable := \<lparr>u_snapshot = None, u_entries = [], u_offset = o'\<rparr>\<rparr> \<and> r_msgs (rn_raft n') = r_msgs (rn_raft n)"
proof -
  let ?u = "rl_unstable l" and ?a = "if applied_cursor rd > 0 then applied_cursor rd else rl_applied l"
  let ?l = "l\<lparr>rl_storage := s', rl_applied := ?a\<rparr>"
  have la: "(if applied_cursor rd > 0 then applied_to (applied_cursor rd) (rn_log n) else rn_log n) = ?l"
    by (simp add: n applied_to_def)
  obtain o' where o': "(if rd_entries rd \<noteq> [] then stable_to (e_index (last (rd_entries rd))) (e_term (last (rd_entries rd))) ?l else Inr ?l) =
      Inr (?l\<lparr>rl_unstable := ?u\<lparr>u_entries := [], u_offset := o'\<rparr>\<rparr>)" "unat o' = log_last l + 1"
  proof (cases "u_entries ?u = []")
    case True
    have "unat (u_offset ?u) = log_last l + 1" using True log_last_Suc [OF wf] by (simp add: u_end_log log_off_def)
    then show thesis using True rd(1) that [of "u_offset ?u"] by simp
  next
    case False
    obtain o' where "u_stable_to (e_index (last (u_entries ?u))) (e_term (last (u_entries ?u))) ?u =
        Inr (?u\<lparr>u_entries := [], u_offset := o'\<rparr>)" "unat o' = u_end ?u"
      using u_stable_all [OF log_wfD(2) [OF wf] False] by blast
    then show thesis using False rd(1) that [of o'] log_last_Suc [OF wf] by (simp add: stable_to_def)
  qed
  have sn: "u_stable_snap_to (sm_index (s_metadata (rd_snapshot rd))) (?u\<lparr>u_entries := [], u_offset := o'\<rparr>) =
      \<lparr>u_snapshot = None, u_entries = [], u_offset = o'\<rparr>" if "\<not> snapshot_is_empty (rd_snapshot rd)"
    using that rd(2) by (auto simp: u_stable_snap_to_def snapshot_is_empty_def Snapshot_default_def split: option.splits)
  have sn0: "?u\<lparr>u_entries := [], u_offset := o'\<rparr> = \<lparr>u_snapshot = None, u_entries = [], u_offset = o'\<rparr>"
    if "snapshot_is_empty (rd_snapshot rd)"
    using that rd(2) nw by (auto simp: snapshot_is_empty_def snap_newer_def split: option.splits)
  have "rn_log n' = ?l\<lparr>rl_unstable := \<lparr>u_snapshot = None, u_entries = [], u_offset = o'\<rparr>\<rparr>"
    if "rn_log n' = (if \<not> snapshot_is_empty (rd_snapshot rd)
      then stable_snap_to (sm_index (s_metadata (rd_snapshot rd))) (?l\<lparr>rl_unstable := ?u\<lparr>u_entries := [], u_offset := o'\<rparr>\<rparr>)
      else ?l\<lparr>rl_unstable := ?u\<lparr>u_entries := [], u_offset := o'\<rparr>\<rparr>)" for n'
    using that sn sn0 by (cases "snapshot_is_empty (rd_snapshot rd)") (simp_all add: stable_snap_to_def)
  with rn_advance_eq [of rd n, unfolded la, OF o'(1)] o'(2) show ?thesis by blast
qed

lemma log_inv_moved:
  assumes "log_inv l" and "log_wf l'" and "log_base l' = log_base l" and "log_last l' = log_last l" and "rl_committed l' = rl_committed l"
    and "unat a \<le> unat (rl_committed l)"
  shows "log_inv (l'\<lparr>rl_applied := a\<rparr>)"
  using assms by (simp add: log_inv_def)

lemma persist_round:
  assumes inv: "log_inv (rn_log n)" and nw: "snap_newer (rn_log n)"
  shows "\<exists>rd n1 s n'. rn_ready n = Inr (rd, n1) \<and> persist rd (rl_storage (rn_log n1)) = Inr s \<and>
     rn_advance rd (with_storage s n1) = Inr n' \<and>
     log_inv (rn_log n') \<and> log_at (rn_log n') = log_at (rn_log n) \<and> term_at (rn_log n') = term_at (rn_log n) \<and>
     log_base (rn_log n') = log_base (rn_log n) \<and> log_last (rn_log n') = log_last (rn_log n) \<and>
     rl_committed (rn_log n') = rl_committed (rn_log n) \<and>
     u_entries (rl_unstable (rn_log n')) = [] \<and> u_snapshot (rl_unstable (rn_log n')) = None \<and>
     rl_storage (rn_log n') = s \<and> ms_at s = log_at (rn_log n) \<and>
     rd_messages rd = r_msgs (rn_raft n) \<and> r_msgs (rn_raft n') = [] \<and>
     next_entries (rn_log n) = Inr (rd_committed_entries rd) \<and>
     (rd_committed_entries rd \<noteq> [] \<longrightarrow> unat (rl_applied (rn_log n')) =
        max (unat (rl_applied (rn_log n))) (log_base (rn_log n)) + length (rd_committed_entries rd)) \<and>
     rl_applied (rn_log n') = (if applied_cursor rd > 0 then applied_cursor rd else rl_applied (rn_log n))"
proof -
  let ?l = "rn_log n"
  note I = log_invD [OF inv]
  obtain rd n1 where R: "rn_ready n = Inr (rd, n1)" "rn_log n1 = ?l" "r_msgs (rn_raft n1) = []"
    "next_entries ?l = Inr (rd_committed_entries rd)" "rd_entries rd = u_entries (rl_unstable ?l)"
    "rd_snapshot rd = (case u_snapshot (rl_unstable ?l) of Some s \<Rightarrow> s | None \<Rightarrow> Snapshot_default)"
    "rd_messages rd = r_msgs (rn_raft n)"
    using rn_ready_eq [OF inv] by metis
  obtain s where s: "persist rd (rl_storage ?l) = Inr s" "holds_log ?l s"
    using persist_holds_log [OF I(1) nw R(5,6)] by blast
  have w: "rn_log (with_storage s n1) = ?l\<lparr>rl_storage := s\<rparr>" "r_msgs (rn_raft (with_storage s n1)) = []"
    using R(2,3) by (simp_all add: with_storage_def)
  define a where "a = (if applied_cursor rd > 0 then applied_cursor rd else rl_applied ?l)"
  obtain n' o' where A: "rn_advance rd (with_storage s n1) = Inr n'" "unat o' = log_last ?l + 1"
    "rn_log n' = ?l\<lparr>rl_storage := s, rl_applied := a, rl_unstable := \<lparr>u_snapshot = None, u_entries = [], u_offset = o'\<rparr>\<rparr>"
    "r_msgs (rn_raft n') = []"
    using advance_log [OF I(1) s(2) nw R(5,6) w(1)] w(2) unfolding a_def [symmetric] by metis
  note S = stored_log [OF I(1) s(2) A(2)] and C = applied_cursor_bounds [OF inv R(4,6)]
  have a_le: "unat a \<le> unat (rl_committed ?l)" using C(1) I(4) by (simp add: a_def)
  have l': "rn_log n' = ?l\<lparr>rl_storage := s, rl_unstable := \<lparr>u_snapshot = None, u_entries = [], u_offset = o'\<rparr>, rl_applied := a\<rparr>"
    by (simp add: A(3))
  have "log_inv (rn_log n')" unfolding l' by (rule log_inv_moved [OF inv S(1,3,4) _ a_le]) simp
  moreover have "unat (rl_applied (rn_log n')) = max (unat (rl_applied ?l)) (log_base ?l) + length (rd_committed_entries rd)"
    if "rd_committed_entries rd \<noteq> []"
  proof -
    have "0 < unat (applied_cursor rd)" using C(2) [OF that] that by (cases "rd_committed_entries rd") simp_all
    then have "0 < applied_cursor rd" by (simp add: word_less_nat_alt)
    then show ?thesis using C(2) [OF that] by (simp add: l' a_def)
  qed
  ultimately show ?thesis
    using R(1,4,7) s A(1,4) S unfolding R(2) [symmetric]
    by (intro exI [of _ rd] exI [of _ n1] exI [of _ s] exI [of _ n']) (simp add: l' R(2) holds_log_def a_def)
qed

text \<open>
  C14. One round of the server, \<^verbatim>\<open>ready\<close>, saving the \<open>Ready\<close> in the storage, \<^verbatim>\<open>advance\<close>, cannot be seen in the
  abstract log: the round never fails; every entry, the term of every index, the base, the last index and the
  commit index stay the same, and so does the invariant; the unstable part is empty afterwards, and the
  storage alone holds the log; the messages are handed out exactly once; the committed entries handed out are the
  ones above the applied position, and when there are any, the applied position moves past exactly them.
\<close>

theorem persist_invisible:
  assumes inv: "log_inv (rn_log n)" and nw: "snap_newer (rn_log n)"
  shows "\<exists>rd n1 s n'. rn_ready n = Inr (rd, n1) \<and> persist rd (rl_storage (rn_log n1)) = Inr s \<and>
     rn_advance rd (with_storage s n1) = Inr n' \<and>
     log_inv (rn_log n') \<and> log_at (rn_log n') = log_at (rn_log n) \<and> term_at (rn_log n') = term_at (rn_log n) \<and>
     log_base (rn_log n') = log_base (rn_log n) \<and> log_last (rn_log n') = log_last (rn_log n) \<and>
     rl_committed (rn_log n') = rl_committed (rn_log n) \<and>
     u_entries (rl_unstable (rn_log n')) = [] \<and> u_snapshot (rl_unstable (rn_log n')) = None \<and>
     rl_storage (rn_log n') = s \<and> ms_at s = log_at (rn_log n) \<and>
     rd_messages rd = r_msgs (rn_raft n) \<and> r_msgs (rn_raft n') = [] \<and>
     next_entries (rn_log n) = Inr (rd_committed_entries rd) \<and>
     (rd_committed_entries rd \<noteq> [] \<longrightarrow> unat (rl_applied (rn_log n')) =
        max (unat (rl_applied (rn_log n))) (log_base (rn_log n)) + length (rd_committed_entries rd))"
  using persist_round [OF inv nw] by metis

definition raw_example :: RawNode where
  "raw_example = \<lparr>rn_raft = node_example\<lparr>r_raft_log := log_example\<rparr>,
     rn_prev_soft_state = soft_state node_example, rn_prev_hard_state = HardState_default\<rparr>"

theorem persist_invisible_witness:
  "\<exists>rd n1 s n'. rn_ready raw_example = Inr (rd, n1) \<and> persist rd (rl_storage (rn_log n1)) = Inr s \<and>
     rn_advance rd (with_storage s n1) = Inr n' \<and> log_at (rn_log n') = log_at log_example \<and>
     u_entries (rl_unstable (rn_log n')) = [] \<and> ms_at s = log_at log_example"
proof -
  have l: "rn_log raw_example = log_example" by (simp add: raw_example_def)
  have "snap_newer log_example" by (simp add: snap_newer_def log_example_def)
  then show ?thesis
    using persist_invisible [of raw_example] log_example_inv unfolding l by blast
qed

section \<open>Whether there is anything to do\<close>

text \<open>Nothing is pending in the node, read states apart.\<close>

definition quiet :: "RawNode \<Rightarrow> bool" where
  "quiet n \<longleftrightarrow> soft_state (rn_raft n) = rn_prev_soft_state n \<and> hard_state_equal (hard_state (rn_raft n)) (rn_prev_hard_state n) \<and>
     u_snapshot (rl_unstable (rn_log n)) = None \<and> u_entries (rl_unstable (rn_log n)) = [] \<and>
     r_msgs (rn_raft n) = [] \<and> \<not> has_next_entries (rn_log n)"

text \<open>
  When only read states are pending, \<^verbatim>\<open>has_ready\<close> is true and the \<open>Ready\<close> carries them, but its
  \<^verbatim>\<open>contains_updates\<close> is false; when nothing at all is pending, \<^verbatim>\<open>has_ready\<close> is false and \<^verbatim>\<open>contains_updates\<close> is
  true: the last test of \<^verbatim>\<open>contains_updates\<close> lacks its negation.
\<close>

lemma contains_updates_inverted:
  assumes "quiet n"
  shows "\<exists>rd n1. rn_ready n = Inr (rd, n1) \<and> rd_read_states rd = r_read_states (rn_raft n) \<and>
     (rn_has_ready n \<longleftrightarrow> \<not> contains_updates rd)"
  using assms
  by (auto simp: quiet_def rn_ready_def Ready_new_def next_entries_def has_next_entries_def rn_has_ready_def contains_updates_def
      HardState_default_def is_empty_state_def snapshot_is_empty_def Snapshot_default_def Let_def)

text \<open>
  The flag that asks for a synchronous write compares the current hard state with the one put into
  the \<open>Ready\<close>: without entries it is false exactly when the hard state has changed or is empty.
\<close>

lemma must_sync_inverted:
  assumes "rn_ready n = Inr (rd, n1)"
  shows "rd_must_sync rd \<longleftrightarrow> rd_entries rd \<noteq> [] \<or>
     hard_state_equal (hard_state (rn_raft n)) (rn_prev_hard_state n) \<and>
     (hs_vote (hard_state (rn_raft n)) \<noteq> 0 \<or> hs_term (hard_state (rn_raft n)) \<noteq> 0)"
  using assms
  by (cases "next_entries (rn_log n)") (auto simp: rn_ready_def Ready_new_def Let_def is_must_sync_def HardState_default_def split: if_splits)

end
