(* ===== verification/Log_View.thy ===== *)
theory Log_View
  imports Protocol_Safety Raw_Node
begin

text \<open>
  The abstract log behind a \<^verbatim>\<open>RaftLog\<close>: all entries since position 1, of which the class has those after
  its base (the others have been compacted), with the term of the base. The operations of the class
  are the list operations of \<open>Protocol\<close>.
\<close>

definition log_view :: "RaftLog \<Rightarrow> Entry list \<Rightarrow> bool" where
  "log_view l g \<longleftrightarrow> log_inv l \<and> log_last l = length g \<and> contiguous 1 g \<and> (\<forall>e \<in> set g. e_term e \<noteq> 0) \<and>
     (\<forall>i. log_base l < i \<longrightarrow> i \<le> length g \<longrightarrow> log_at l i = Some (g ! (i - 1))) \<and>
     log_base_term l = tm g (log_base l) \<and>
     unat (sm_index (s_metadata (ms_snap (rl_storage l)))) \<le> unat (rl_committed l) \<and>
     sm_term (s_metadata (ms_snap (rl_storage l))) = tm g (unat (sm_index (s_metadata (ms_snap (rl_storage l))))) \<and>
     snap_newer l \<and> unat (rl_applied l) < log_off l"

lemma log_viewD:
  assumes "log_view l g"
  shows "log_inv l" and "log_wf l" and "log_last l = length g" and "contiguous 1 g" and "\<forall>e \<in> set g. e_term e \<noteq> 0"
    and "log_base l < i \<Longrightarrow> i \<le> length g \<Longrightarrow> log_at l i = Some (g ! (i - 1))"
    and "log_base_term l = tm g (log_base l)"
    and "log_base l \<le> unat (rl_committed l)" and "unat (rl_committed l) \<le> length g" and "length g < 2 ^ 64 - 1"
    and "unat (sm_index (s_metadata (ms_snap (rl_storage l)))) \<le> unat (rl_committed l)"
    and "sm_term (s_metadata (ms_snap (rl_storage l))) = tm g (unat (sm_index (s_metadata (ms_snap (rl_storage l)))))"
    and "snap_newer l" and "unat (rl_applied l) < log_off l"
  using assms log_invD [of l] rl.last_bound [of l] by (auto simp: log_view_def)

lemma view_term_at: "log_view l g \<Longrightarrow> log_base l \<le> i \<Longrightarrow> term_at l i = tm g i"
  using log_viewD(3,6,7) [of l g] rl.at_after_last [OF log_viewD(2), of l g i]
  by (cases "i \<le> length g") (auto simp: term_at_def tm_def)

lemma view_snapshot:
  assumes "log_view l g"
  shows "unat (sm_index (s_metadata (log_snapshot l))) \<le> unat (rl_committed l)"
    and "sm_term (s_metadata (log_snapshot l)) = tm g (unat (sm_index (s_metadata (log_snapshot l))))"
  using log_viewD(7,8,11,12) [OF assms]
  by (auto simp: log_snapshot_def ms_snapshot_def log_base_def log_base_term_def split: option.splits)

lemma view_seg:
  assumes "log_view l g" and "log_base l < lo" and "lo \<le> hi" and "hi \<le> length g + 1"
  shows "seg (log_at l) lo hi = take (hi - lo) (drop (lo - 1) g)"
proof (rule seg_eqI)
  show "length (take (hi - lo) (drop (lo - 1) g)) = hi - lo" using assms by auto
  show "log_at l (lo + i) = Some (take (hi - lo) (drop (lo - 1) g) ! i)" if "i < hi - lo" for i
    using log_viewD(6) [OF assms(1), of "lo + i"] assms that by simp
qed

lemma view_commit:
  assumes "log_view l g" and "unat (rl_committed l) \<le> unat c" and "unat c \<le> length g"
  shows "log_view (l\<lparr>rl_committed := c\<rparr>) g"
  using assms by (auto simp: log_view_def log_inv_def log_off_def snap_newer_def split: option.splits)

lemma view_commit_to:
  assumes "log_view l g" and "commit_to c l = Inr l'"
  shows "log_view l' g" and "unat (rl_committed l') = max (unat (rl_committed l)) (unat c)"
    and "unat c \<le> unat (rl_committed l) \<or> unat c \<le> length g"
proof -
  note L = log_viewD [OF assms(1)]
  consider "unat c \<le> length g" | "unat c \<le> unat (rl_committed l)"
    using assms(2) commit_to_fatal [OF L(1)] L(3) by fastforce
  then have "unat c \<le> length g" using L(9) by cases auto
  moreover from this have l': "l' = l\<lparr>rl_committed := max (rl_committed l) c\<rparr>"
    using assms(2) commit_to_eq [OF L(2)] L(3) by simp
  ultimately show "log_view l' g" "unat (rl_committed l') = max (unat (rl_committed l)) (unat c)"
    "unat c \<le> unat (rl_committed l) \<or> unat c \<le> length g"
    using view_commit [OF assms(1), of "max (rl_committed l) c"] L(9) by auto
qed

lemma view_entries_from:
  assumes "log_view l g" and "entries_from next m l = Inr (Inr es)" and "0 < unat next" and "unat next \<le> length g + 1"
  obtains n where "es = take n (drop (unat next - 1) g)" and "unat next - 1 + length es \<le> length g"
    and "log_base l < unat next"
proof (cases "next > last_index l")
  case True
  note L = log_viewD [OF assms(1)]
  have "es = []" using True assms(2) by (simp add: entries_from_def)
  moreover have "log_base l < unat next" using True L(3,8,9) unat_last_index [OF L(2)] by (simp add: word_less_nat_alt)
  ultimately show thesis using assms(4) that [of 0] by simp
next
  case False
  note L = log_viewD [OF assms(1)]
  have n: "unat next \<le> length g" using False unat_last_index [OF L(2)] L(3) by (simp add: word_less_nat_alt)
  have li: "unat (last_index l + 1) = length g + 1" using unat_last_index_Suc [OF L(2)] L(3) by simp
  have s: "slice next (last_index l + 1) m l = Inr (Inr es)" using False assms(2) by (simp add: entries_from_def)
  have b: "log_base l < unat next"
  proof (rule ccontr)
    assume "\<not> log_base l < unat next"
    then show False using slice_compacted [OF L(2), of "next" "last_index l + 1" m] s n li by (simp add: log_first_def)
  qed
  then have "es = entry_limit_size m (seg (log_at l) (unat next) (length g + 1))"
    using slice_eq [OF L(2), of "next" "last_index l + 1" m] s n li L(3) by (simp add: log_first_def)
  moreover have "seg (log_at l) (unat next) (length g + 1) = drop (unat next - 1) g"
    using view_seg [OF assms(1) b, of "length g + 1"] n assms(3) by simp
  ultimately obtain k where k: "es = take k (drop (unat next - 1) g)"
    using entry_limit_size_prefix [of m "drop (unat next - 1) g"] by auto
  show thesis by (rule that [OF k _ b]) (use k n in auto)
qed

text \<open>Appending keeps the pending snapshot and the storage.\<close>

lemma log_append_snap:
  assumes "log_append es l = Inr (li, l')"
  shows "u_snapshot (rl_unstable l') = u_snapshot (rl_unstable l)" and "rl_storage l' = rl_storage l"
  using assms by (auto simp: log_append_def truncate_and_append_def Let_def split: if_splits)

lemma maybe_append_snap:
  assumes "maybe_append index t c es l = Inr (li, l')"
  shows "u_snapshot (rl_unstable l') = u_snapshot (rl_unstable l)" and "rl_storage l' = rl_storage l"
proof -
  have C: "u_snapshot (rl_unstable l2) = u_snapshot (rl_unstable l1) \<and> rl_storage l2 = rl_storage l1" if "commit_to c' l1 = Inr l2" for c' l1 l2
    using that by (auto simp: commit_to_def split: if_splits)
  have A: "u_snapshot (rl_unstable l2) = u_snapshot (rl_unstable l1) \<and> rl_storage l2 = rl_storage l1" if "log_append xs l1 = Inr (k, l2)" for xs k l1 l2
    using log_append_snap [OF that] by blast
  from assms have "u_snapshot (rl_unstable l') = u_snapshot (rl_unstable l) \<and> rl_storage l' = rl_storage l"
    by (auto simp: maybe_append_def Let_def split: if_splits dest!: C A)
  then show "u_snapshot (rl_unstable l') = u_snapshot (rl_unstable l)" and "rl_storage l' = rl_storage l" by blast+
qed

text \<open>The unstable part never reaches down to committed entries.\<close>

lemma log_append_off:
  assumes "log_append es l = Inr (li, l')" and "\<forall>e \<in> set es. e_index e \<noteq> 0"
  shows "log_off l' = log_off l \<or> unat (rl_committed l) < log_off l'" and "rl_applied l' = rl_applied l"
proof -
  have "unat (rl_committed l) < unat (e_index (es ! 0))" if "es \<noteq> []" "\<not> e_index (es ! 0) - 1 < rl_committed l"
  proof -
    have "es ! 0 \<in> set es" using that(1) by simp
    then have "0 < unat (e_index (es ! 0))" using assms(2) by (metis unat_gt_0)
    then show ?thesis using that(2) unat_pred64 [of "e_index (es ! 0)"] by (simp add: word_less_nat_alt)
  qed
  then show "log_off l' = log_off l \<or> unat (rl_committed l) < log_off l'" "rl_applied l' = rl_applied l"
    using assms(1) by (auto simp: log_append_def truncate_and_append_def log_off_def Let_def split: if_splits)
qed

lemma maybe_append_off:
  assumes "maybe_append index t c es l = Inr (li, l')" and "\<forall>e \<in> set es. e_index e \<noteq> 0"
  shows "log_off l' = log_off l \<or> unat (rl_committed l) < log_off l'" and "rl_applied l' = rl_applied l"
proof -
  have C: "log_off l2 = log_off l1 \<and> rl_applied l2 = rl_applied l1" if "commit_to c' l1 = Inr l2" for c' l1 l2
    using that by (auto simp: commit_to_def log_off_def split: if_splits)
  have A: "(log_off l2 = log_off l1 \<or> unat (rl_committed l1) < log_off l2) \<and> rl_applied l2 = rl_applied l1"
    if "log_append (drop k es) l1 = Inr (x, l2)" for k x l1 l2
    using log_append_off [OF that] assms(2) by (auto dest: in_set_dropD)
  have "(log_off l' = log_off l \<or> unat (rl_committed l) < log_off l') \<and> rl_applied l' = rl_applied l"
    using assms(1) by (auto simp: maybe_append_def Let_def split: if_splits dest!: C A)
  then show "log_off l' = log_off l \<or> unat (rl_committed l) < log_off l'" "rl_applied l' = rl_applied l" by blast+
qed

lemma contiguous_index_nz: "contiguous 1 g \<Longrightarrow> e \<in> set g \<Longrightarrow> e_index e \<noteq> 0"
  by (metis add_gr_0 contiguous_nth in_set_conv_nth less_numeral_extra(1) unat_gt_0)

lemma applied_below:
  assumes "log_view l g" and "log_off l' = log_off l \<or> unat (rl_committed l) < log_off l'" and "rl_applied l' = rl_applied l"
  shows "unat (rl_applied l') < log_off l'"
  using assms(2,3) log_viewD(14) [OF assms(1)] log_invD(4) [OF log_viewD(1) [OF assms(1)]] by auto

lemma snap_newer_cong:
  "snap_newer l \<Longrightarrow> u_snapshot (rl_unstable l') = u_snapshot (rl_unstable l) \<Longrightarrow> rl_storage l' = rl_storage l \<Longrightarrow> snap_newer l'"
  by (simp add: snap_newer_def split: option.splits)

text \<open>Appending at the end.\<close>

lemma contiguous_snoc_nth: "contiguous 1 (g @ es) \<Longrightarrow> es \<noteq> [] \<Longrightarrow> unat (e_index (es ! 0)) = Suc (length g)"
  using contiguous_nth [of "1 + length g" es 0] by auto

lemma view_log_append:
  assumes "log_view l g" and "contiguous 1 (g @ es)" and "es \<noteq> []" and "\<forall>e \<in> set es. e_term e \<noteq> 0"
    and "length g + length es < 2 ^ 64 - 1" and "log_append es l = Inr (li, l')"
  shows "log_view l' (g @ es)" and "unat li = length g + length es" and "rl_committed l' = rl_committed l"
proof -
  note L = log_viewD [OF assms(1)]
  have e0: "unat (e_index (es ! 0)) = Suc (length g)" using assms(2,3) by (rule contiguous_snoc_nth)
  have b: "batch_ok es" using assms(2,5) e0 unfolding batch_ok_def by simp
  obtain l1 u' where l1: "log_append es l = Inr (last_index l1, l1)" "l1 = l\<lparr>rl_unstable := u'\<rparr>" "log_wf l1"
    "log_base l1 = log_base l" "log_last l1 = unat (e_index (es ! 0)) + length es - 1"
    "log_at l1 = append_at (log_first l) es (log_at l)" "log_base_term l1 = log_base_term l"
    by (rule log_append_eq [OF L(2) b assms(3) L(8)]) (use e0 L in auto)
  have l': "l' = l1" "li = last_index l1" using assms(6) l1(1) by auto
  have last: "log_last l1 = length g + length es" using l1(5) e0 by simp
  have "log_at l1 i = Some ((g @ es) ! (i - 1))" if "log_base l < i" "i \<le> length g + length es" for i
    using that e0 L(6) [of i] unfolding l1(6) by (auto simp: append_at_def Let_def log_first_def nth_append)
  moreover have "log_base_term l1 = tm (g @ es) (log_base l)" using l1(7) L(7,8,9) by (simp add: tm_append)
  moreover have "log_inv l1"
    using l1(3,4) last L(1,8,9) log_invD(4) [OF L(1)] unfolding log_inv_def by (simp add: l1(2))
  moreover have "snap_newer l1" using L(13) log_append_snap [OF l1(1)] by (rule snap_newer_cong)
  moreover have "tm (g @ es) (unat (sm_index (s_metadata (ms_snap (rl_storage l))))) = sm_term (s_metadata (ms_snap (rl_storage l)))"
    using L(9,11,12) by (simp add: tm_append)
  moreover have "unat (rl_applied l1) < log_off l1"
    using log_append_off [OF l1(1)] assms(2) contiguous_index_nz [of "g @ es"] by (intro applied_below [OF assms(1)]) auto
  ultimately show "log_view l' (g @ es)"
    using L assms(2,4) last l1(4) unfolding log_view_def l'(1) by (auto simp: l1(2))
  show "unat li = length g + length es" using l'(2) unat_last_index [OF l1(3)] last by simp
  show "rl_committed l' = rl_committed l" using l'(1) l1(2) by simp
qed

text \<open>Merging what a leader sent.\<close>

lemma matched_takeWhile: "matched l es = length (takeWhile (\<lambda>e. e_term e = term_at l (unat (e_index e))) es)"
  by (induction es) auto

lemma view_matched:
  assumes "log_view l lg" and "contiguous 1 g" and "\<forall>e \<in> set g. e_term e \<noteq> 0" and "log_base l \<le> n" and "n \<le> length g"
  shows "n + matched l (drop n g) = agreed lg n g"
proof -
  let ?P = "\<lambda>e. e_term e = term_at l (unat (e_index e))" and ?Q = "\<lambda>k. k \<le> length lg \<and> tm lg k = tm g k"
  let ?ks = "[Suc n..<Suc (length g)]"
  have "drop n g = map (\<lambda>k. g ! (k - 1)) ?ks"
    using assms(5) by (intro nth_equalityI) (auto simp del: upt_Suc)
  then have "takeWhile ?P (drop n g) = map (\<lambda>k. g ! (k - 1)) (takeWhile (?P \<circ> (\<lambda>k. g ! (k - 1))) ?ks)"
    by (simp only: takeWhile_map)
  moreover have "takeWhile (?P \<circ> (\<lambda>k. g ! (k - 1))) ?ks = takeWhile ?Q ?ks"
  proof (rule takeWhile_cong [OF refl])
    fix k assume "k \<in> set ?ks"
    then have k: "n < k" "k \<le> length g" by auto
    have nz: "tm g k \<noteq> 0" "e_term (g ! (k - 1)) = tm g k" using k assms(3) by (auto simp: tm_def)
    have "unat (e_index (g ! (k - 1))) = k" using contiguous_nth [OF assms(2), of "k - 1"] k by simp
    then have "(?P \<circ> (\<lambda>k. g ! (k - 1))) k \<longleftrightarrow> tm g k = tm lg k"
      using view_term_at [OF assms(1), of k] k assms(4) nz(2) by auto
    also have "\<dots> \<longleftrightarrow> ?Q k" using nz(1) by (auto simp: tm_def split: if_splits)
    finally show "(?P \<circ> (\<lambda>k. g ! (k - 1))) k = ?Q k" .
  qed
  ultimately show ?thesis unfolding matched_takeWhile agreed_def by simp
qed

lemma view_maybe_append:
  assumes v: "log_view l lg" and c1: "contiguous 1 g" and nz: "\<forall>e \<in> set g. e_term e \<noteq> 0" and len: "length g < 2 ^ 64 - 1"
    and n: "n = unat index" "n \<le> length g" and com: "unat (rl_committed l) \<le> n"
    and t: "log_term = tm g n" and a: "maybe_append index log_term c (drop n g) l = Inr (Some li, l')"
  shows "n \<le> length lg" and "tm lg n = tm g n" and "log_view l' (merge lg n g)" and "unat li = length g"
    and "unat (rl_committed l') = max (unat (rl_committed l)) (min (unat c) (length g))"
proof -
  note L = log_viewD [OF v]
  have m: "log_term = term_at l n"
    using a maybe_append_nomatch [OF L(2), of log_term index c "drop n g"] n(1) by auto
  have b: "log_base l \<le> n" using L(8) com by simp
  then have tt: "tm lg n = tm g n" using m t view_term_at [OF v b] by simp
  then show "tm lg n = tm g n" .
  show nl: "n \<le> length lg"
  proof (rule ccontr)
    assume "\<not> n \<le> length lg"
    then have "tm lg n = 0" "0 < n" by (auto simp: tm_def)
    then show False using tt tm_mem [of n g] n(2) nz by fastforce
  qed
  have ok: "sent_ok index (drop n g)"
    using contiguous_drop [OF c1, of n] nz len n by (auto simp: sent_ok_def dest: in_set_dropD)
  have nl': "unat (index + of_nat (length (drop n g))) = length g" using unat_lastnewi [OF ok] n by simp
  have idx: "unat index \<le> log_last l" using nl n(1) L(3) by simp
  have ma: "n + matched l (drop n g) = agreed lg n g" using v c1 nz b n(2) by (rule view_matched)
  have m': "maybe_append index (term_at l (unat index)) c (drop n g) l = Inr (Some li, l')" using a m n(1) by simp
  have "unat li = length g \<and> log_view l' (merge lg n g) \<and>
      unat (rl_committed l') = max (unat (rl_committed l)) (min (unat c) (length g))"
  proof (cases "matched l (drop n g) < length (drop n g)")
    case True
    have cm: "unat (rl_committed l) < unat index + 1 + matched l (drop n g)" using com n(1) by simp
    obtain l1 u' where l1: "maybe_append index (term_at l (unat index)) c (drop n g) l = Inr (Some (index + of_nat (length (drop n g))), l1)"
      "l1 = l\<lparr>rl_unstable := u', rl_committed := max (rl_committed l) (min c (index + of_nat (length (drop n g))))\<rparr>"
      "log_wf l1" "log_base l1 = log_base l" "log_base_term l1 = log_base_term l" "log_last l1 = unat index + length (drop n g)"
      "log_at l1 = append_at (log_first l) (drop (matched l (drop n g)) (drop n g)) (log_at l)"
      by (rule maybe_append_conflict [OF L(1) ok idx True cm])
    have e: "li = index + of_nat (length (drop n g))" "l' = l1" using m' l1(1) by simp_all
    let ?k = "agreed lg n g"
    have k: "?k < length g" "n \<le> ?k" using True ma n(2) by (simp_all add: agreed_def)
    have kl: "?k \<le> length lg" using matched_in_log [OF L(2) ok idx] L(3) ma n(1) by simp
    have mg: "merge lg n g = take ?k lg @ drop ?k g" using k(1) by (simp add: merge_def)
    have dd: "drop (matched l (drop n g)) (drop n g) = drop ?k g" using ma by (simp add: add.commute)
    have d0: "unat (e_index (drop ?k g ! 0)) = Suc ?k" using contiguous_nth [OF c1 k(1)] k(1) by simp
    have at: "log_at l1 i = Some (merge lg n g ! (i - 1))" if "log_base l < i" "i \<le> length g" for i
      using that L(6) [of i] kl k d0 unfolding l1(7) mg dd
      by (auto simp: append_at_def Let_def log_first_def nth_append min_def)
    have lm: "length (merge lg n g) = length g" using k kl by (simp add: mg)
    have tk: "take ?k lg = take ?k (merge lg n g)" using kl by (simp add: mg)
    have bt: "tm lg (log_base l) = tm (merge lg n g) (log_base l)" using tm_cong [OF tk, of "log_base l"] b k(2) by simp
    have cg: "contiguous 1 (merge lg n g)"
      using contiguous_take [OF L(4), of ?k] contiguous_drop [OF c1, of ?k] kl by (simp add: mg)
    have inv: "log_inv l1"
      using l1(3,4,6) L(8,9) nl' n log_invD(4) [OF L(1)] com unfolding log_inv_def by (simp add: l1(2) le_max_iff_disj)
    have nzm: "\<forall>e \<in> set (merge lg n g). e_term e \<noteq> 0" using L(5) nz by (auto simp: mg dest: in_set_takeD in_set_dropD)
    let ?si = "unat (sm_index (s_metadata (ms_snap (rl_storage l))))"
    have st: "tm lg ?si = tm (merge lg n g) ?si" using tm_cong [OF tk, of ?si] L(11) com k(2) by simp
    have sn: "snap_newer l1" using L(13) maybe_append_snap [OF l1(1)] by (rule snap_newer_cong)
    have ap: "unat (rl_applied l1) < log_off l1"
      using maybe_append_off [OF l1(1)] c1 contiguous_index_nz [of g] by (intro applied_below [OF v]) (auto dest: in_set_dropD)
    have "log_view l1 (merge lg n g)"
      unfolding log_view_def lm
      using inv l1(4,5,6) n cg nzm at bt L(7,11,12) st sn ap by (simp add: l1(2) le_max_iff_disj)
    moreover have "unat (rl_committed l1) = max (unat (rl_committed l)) (min (unat c) (length g))" using nl' by (simp add: l1(2))
    ultimately show ?thesis using e nl' by simp
  next
    case False
    then have all: "matched l (drop n g) = length (drop n g)" using matched_le [of l "drop n g"] by simp
    then have "agreed lg n g = length g" using ma n(2) by simp
    then have mg: "merge lg n g = lg" and gl: "length g \<le> length lg"
      using matched_in_log [OF L(2) ok idx] all L(3) n by (simp_all add: merge_def)
    have e: "li = index + of_nat (length (drop n g))"
      "l' = l\<lparr>rl_committed := max (rl_committed l) (min c (index + of_nat (length (drop n g))))\<rparr>"
      using m' maybe_append_known [OF L(1) ok idx all, of c] by auto
    have "log_view l' lg" unfolding e(2) using nl' gl L(9) by (intro view_commit [OF v]) auto
    then show ?thesis using e nl' mg by simp
  qed
  then show "unat li = length g" "log_view l' (merge lg n g)"
    "unat (rl_committed l') = max (unat (rl_committed l)) (min (unat c) (length g))" by blast+
qed

text \<open>Taking over a snapshot.\<close>

lemma log_restore_applied: "rl_applied (log_restore snap l) = rl_applied l"
  by (simp add: log_restore_def)

lemma log_restore_simps [simp]:
  "log_base_term (log_restore snap l) = sm_term (s_metadata snap)" "rl_storage (log_restore snap l) = rl_storage l"
  "rl_committed (log_restore snap l) = sm_index (s_metadata snap)" "u_snapshot (rl_unstable (log_restore snap l)) = Some snap"
  by (simp_all add: log_base_term_def log_restore_def u_restore_def)

lemma view_restore:
  assumes v: "log_view l lg" and c1: "contiguous 1 g" and nz: "\<forall>e \<in> set g. e_term e \<noteq> 0"
    and len: "length g = unat (sm_index (s_metadata snap))" "length g < 2 ^ 64 - 2"
    and t: "sm_term (s_metadata snap) = tm g (length g)" and new: "unat (rl_committed l) < length g"
    and com: "take (unat (rl_committed l)) g = take (unat (rl_committed l)) lg"
  shows "log_view (log_restore snap l) g"
proof -
  note L = log_viewD [OF v]
  let ?si = "unat (sm_index (s_metadata (ms_snap (rl_storage l))))"
  have "ms_inv (rl_storage l)" using log_wfD(1) [OF L(2)] .
  moreover have "unat (sm_index (s_metadata snap)) < 2 ^ 64 - 2" using len by simp
  moreover have "unat (rl_applied l) \<le> unat (sm_index (s_metadata snap))" using log_invD(4) [OF L(1)] new len(1) by simp
  ultimately have R: "log_inv (log_restore snap l)" "log_base (log_restore snap l) = length g" "log_last (log_restore snap l) = length g"
    using log_restore_inv [of l snap] len(1) by simp_all
  have "tm lg ?si = tm g ?si" using tm_cong [OF com [symmetric], of ?si] L(11) by simp
  moreover have "snap_newer (log_restore snap l)"
    using L(11) new len(1) by (simp add: snap_newer_def word_less_nat_alt)
  moreover have "unat (rl_applied (log_restore snap l)) < log_off (log_restore snap l)"
    using log_invD(4) [OF L(1)] new len by (simp add: log_restore_def u_restore_def log_off_def unat_succ64)
  ultimately show ?thesis
    using R L(11,12) c1 nz t new len(1) unfolding log_view_def by simp
qed

end
