(* ===== verification/Raft_Votes.thy ===== *)
theory Raft_Votes
  imports Raft_Safety
begin

text \<open>
  What a node says about votes. \<open>talks\<close>, an instance of \<open>node_relation\<close>, holds of operations that only
  send ordinary messages; the operations that answer vote requests are treated on their own. For a
  node without pre-vote the messages of one step are characterised: a granted vote response is only
  ever sent for the vote the node has recorded in its current term.
\<close>

section \<open>Ordinary talk\<close>

text \<open>
  The node's term does not go back, and every new message is from the node, about no vote, of a term
  up to the node's, and of term zero only if it is a forwarded request or the node was at term zero.
\<close>

definition says :: "u64 \<Rightarrow> u64 \<Rightarrow> u64 \<Rightarrow> Message \<Rightarrow> bool" where
  "says i t t' m \<longleftrightarrow> m_from m = i \<and> m_term m \<le> t' \<and>
     (m_term m = 0 \<longrightarrow> t = 0 \<or> m_type m = MsgProp \<or> m_type m = MsgReadIndex)"

definition plain :: "Message \<Rightarrow> bool" where
  "plain m \<longleftrightarrow> m_type m \<noteq> MsgVoteResp \<and> m_type m \<noteq> MsgPreVote \<and> m_type m \<noteq> MsgPreVoteResp"

definition talks :: "Raft \<Rightarrow> Raft \<Rightarrow> bool" where
  "talks r r' \<longleftrightarrow> r_id r' = r_id r \<and> r_term r \<le> r_term r' \<and>
     (\<exists>ms. r_msgs r' = r_msgs r @ ms \<and> (\<forall>m \<in> set ms. plain m \<and> says (r_id r) (r_term r) (r_term r') m))"

lemma talksI: "r_id r' = r_id r \<Longrightarrow> r_term r \<le> r_term r' \<Longrightarrow> r_msgs r' = r_msgs r \<Longrightarrow> talks r r'"
  by (simp add: talks_def)

lemma talks_refl [simp]: "talks r r"
  by (simp add: talksI)

lemma says_mono: "says i t t' m \<Longrightarrow> t' \<le> t'' \<Longrightarrow> says i t t'' m"
  by (auto simp: says_def)

lemma says_earlier: "says i s t m \<Longrightarrow> r \<le> s \<Longrightarrow> says i r t m"
  by (auto simp: says_def)

lemma talks_trans:
  assumes "talks r s" and "talks s t"
  shows "talks r t"
proof -
  from assms(1) obtain ms where a: "r_msgs s = r_msgs r @ ms" "r_id s = r_id r" "r_term r \<le> r_term s"
    "\<And>m. m \<in> set ms \<Longrightarrow> plain m \<and> says (r_id r) (r_term r) (r_term s) m"
    by (auto simp: talks_def)
  from assms(2) obtain ms' where b: "r_msgs t = r_msgs s @ ms'" "r_id t = r_id s" "r_term s \<le> r_term t"
    "\<And>m. m \<in> set ms' \<Longrightarrow> plain m \<and> says (r_id s) (r_term s) (r_term t) m"
    by (auto simp: talks_def)
  have "plain m \<and> says (r_id r) (r_term r) (r_term t) m" if "m \<in> set (ms @ ms')" for m
    using that a b by (auto intro: says_mono says_earlier)
  with a b show ?thesis by (auto simp: talks_def)
qed

lemma send_msgs: "send m r = Inr r' \<Longrightarrow> r_msgs r' = r_msgs r @ [stamped m r] \<and> r_id r' = r_id r \<and> r_term r' = r_term r"
  by (auto simp: send_eq)

lemma stamped_sel [simp]: "m_type (stamped m r) = m_type m" "m_from (stamped m r) = r_id r"
  "m_reject (stamped m r) = m_reject m" "m_to (stamped m r) = m_to m"
  by (simp_all add: stamped_def)

lemma send_talks:
  assumes "send m r = Inr r'" and "ordinary m \<or> m_type m = MsgVote \<and> m_term m = r_term r"
  shows "talks r r'"
proof -
  have "m_term m = 0 \<longleftrightarrow> \<not> is_vote_msg (m_type m)" using assms(1) by (simp add: send_eq)
  then have "plain (stamped m r) \<and> says (r_id r) (r_term r) (r_term r) (stamped m r)"
    using assms(2) by (auto simp: plain_def says_def stamped_def ordinary_def is_vote_msg_def)
  with send_msgs [OF assms(1)] show ?thesis by (simp add: talks_def)
qed

lemma put_progress_msgs [simp]: "r_msgs (put_progress k p r) = r_msgs r" "r_id (put_progress k p r) = r_id r"
  "r_term (put_progress k p r) = r_term r"
  by (simp_all add: put_progress_def)

interpretation talk: node_relation talks
proof unfold_locales
  fix r s t :: Raft and m k p
  show "talks r s \<Longrightarrow> talks s t \<Longrightarrow> talks r t" by (rule talks_trans)
  show "send m r = Inr s \<Longrightarrow> ordinary m \<Longrightarrow> talks r s" by (simp add: send_talks)
qed (simp_all add: talksI)

section \<open>Relations respected by whole steps\<close>

text \<open>
  The third interface: a relation that is also respected by the changes of role. Snapshots are
  singled out, because they replace the members; \<open>ok\<close> says for which messages they are covered.
\<close>

locale step_relation = node_relation +
  fixes ok :: "Message \<Rightarrow> bool"
  assumes R_reset: "reset t r = Inr r' \<Longrightarrow> r_term r \<le> t \<Longrightarrow> R r r'"
    and R_step: "R r (r\<lparr>r_step := a\<rparr>)" and R_tick: "R r (r\<lparr>r_tick := b\<rparr>)"
    and R_lead: "R r (r\<lparr>r_lead := l\<rparr>)" and R_state: "R r (r\<lparr>r_state := st\<rparr>)"
    and R_vote: "R r (r\<lparr>r_vote := v\<rparr>)" and R_votes: "R r (r\<lparr>r_votes := vs\<rparr>)"
    and R_vote_requests: "loop_r (send_vote_request MsgVote (r_term r) c) ks r = Inr r' \<Longrightarrow> R r r'"
    and R_handle_snapshot: "handle_snapshot msg r = Inr r' \<Longrightarrow> m_type msg = MsgSnap \<Longrightarrow> ok msg \<Longrightarrow> R r r'"
begin

lemma R_role: "R r (r\<lparr>r_tick := b, r_lead := l, r_state := st\<rparr>)"
  by (rule R_trans [OF R_trans [OF R_tick R_lead] R_state])

lemma R_become_follower:
  assumes "become_follower t l r = Inr r'" and "r_term r \<le> t"
  shows "R r r'"
proof -
  from assms(1) obtain s where s: "reset t (r\<lparr>r_step := Some StepFollower\<rparr>) = Inr s"
    and r': "r' = s\<lparr>r_tick := Some TickElection, r_lead := l, r_state := Follower\<rparr>"
    by (auto simp: become_follower_def)
  have "R (r\<lparr>r_step := Some StepFollower\<rparr>) s" using s by (rule R_reset) (simp add: assms(2))
  then show ?thesis unfolding r' by (rule R_trans [OF R_trans [OF R_step] R_role])
qed

lemma no_wrap: "unat (t :: u64) < 2 ^ 64 - 1 \<Longrightarrow> t \<le> t + 1"
  by (simp add: word_le_nat_alt unat_succ64)

lemma R_become_candidate:
  assumes "become_candidate r = Inr r'" and "unat (r_term r) < 2 ^ 64 - 1"
  shows "R r r'"
proof -
  from assms(1) obtain s where s: "reset (r_term r + 1) (r\<lparr>r_step := Some StepCandidate\<rparr>) = Inr s"
    and r': "r' = s\<lparr>r_tick := Some TickElection, r_vote := r_id s, r_state := Candidate\<rparr>"
    by (auto simp: become_candidate_def split: if_splits)
  have "R s r'" unfolding r' by (rule R_trans [OF R_trans [OF R_tick R_vote] R_state])
  moreover have "R (r\<lparr>r_step := Some StepCandidate\<rparr>) s"
    using s by (rule R_reset) (use no_wrap [OF assms(2)] in simp)
  ultimately show ?thesis by (blast intro: R_trans [OF R_step] R_trans)
qed

lemma R_become_leader:
  assumes "become_leader r = Inr r'"
  shows "R r r'"
proof -
  obtain s p q where s: "reset (r_term r) (r\<lparr>r_step := Some StepLeader\<rparr>) = Inr s"
    and p: "map_of (r_prs s) (r_id s) = Some p"
    and q: "append_entry [Entry_default]
      (s\<lparr>r_tick := Some TickHeartbeat, r_lead := r_id s, r_state := Leader,
         r_prs := AList.update (r_id s) (become_replicate p) (r_prs s),
         r_pending_conf_index := last_index (r_raft_log s)\<rparr>) = Inr (True, q)"
    and r': "r' = reduce_uncommitted_size [Entry_default] q"
    using assms by (auto simp: become_leader_def Let_def split: if_splits option.splits)
  let ?a = "s\<lparr>r_tick := Some TickHeartbeat, r_lead := r_id s, r_state := Leader\<rparr>"
  have "put_progress (r_id s) (become_replicate p) ?a =
      ?a\<lparr>r_prs := AList.update (r_id s) (become_replicate p) (r_prs s)\<rparr>"
    using p by (simp add: put_progress_def)
  then have a: "R ?a (?a\<lparr>r_prs := AList.update (r_id s) (become_replicate p) (r_prs s)\<rparr>)"
    using R_put [of ?a "r_id s" "become_replicate p"] by simp
  have "R s q" by (rule R_trans [OF R_trans [OF R_trans [OF R_role a] R_pending_conf] R_append_entry [OF q]])
  then have "R s r'" unfolding r' by (rule R_trans [OF _ R_reduce])
  moreover have "R (r\<lparr>r_step := Some StepLeader\<rparr>) s" using s by (rule R_reset) simp
  ultimately show ?thesis by (blast intro: R_trans [OF R_step] R_trans)
qed

lemma R_poll: "poll k t v r = Inr (g, r') \<Longrightarrow> R r r'"
  using poll_eq(1) [of k t v r g r'] R_votes by simp

lemma R_campaign:
  assumes "campaign c r = Inr r'" and "c \<noteq> kCampaignPreElection" and "unat (r_term r) < 2 ^ 64 - 1"
  shows "R r r'"
proof -
  obtain s g s' where s: "become_candidate r = Inr s" and g: "poll (r_id s) MsgVoteResp True s = Inr (g, s')"
    and c: "quorum s' = g \<and> become_leader s' = Inr r' \<or>
         quorum s' \<noteq> g \<and> loop_r (send_vote_request MsgVote (r_term s) c) (map fst (r_prs s')) s' = Inr r'"
    using assms(1,2) by (rule campaign_election_cases)
  have "r_term s' = r_term s" using poll_eq(1) [OF g] by simp
  then have "R s' r'" using c R_become_leader R_vote_requests [of s'] by auto
  then show ?thesis by (meson R_trans R_become_candidate [OF s assms(3)] R_poll [OF g])
qed

lemma not_pre: "kCampaignElection \<noteq> kCampaignPreElection" "kCampaignTransfer \<noteq> kCampaignPreElection"
  by (simp_all add: kCampaignElection_def kCampaignPreElection_def kCampaignTransfer_def)

lemma R_step_follower:
  assumes "step_follower msg r = Inr (s, r')" and "ok msg" and "unat (r_term r) < 2 ^ 64 - 1"
  shows "R r r'"
proof -
  have H: "R r r'" if "R (r\<lparr>r_election_elapsed := e, r_lead := l\<rparr>) r'" for e l
    using R_trans [OF R_trans [OF R_elapsed R_lead] that] .
  have C: "R r r'" if "campaign kCampaignTransfer r = Inr r'" using that not_pre(2) assms(3) by (rule R_campaign)
  have S: "m_type msg = MsgSnap \<Longrightarrow> R q r'" if "handle_snapshot msg q = Inr r'" for q
    using that assms(2) by (intro R_handle_snapshot)
  have F: "R r r'" if "forward_to_leader msg r = Inr (s, r')" "m_type msg \<in> {MsgProp, MsgTransferLeader, MsgReadIndex}"
    using that by (intro R_forward_to_leader) (auto simp: ordinary_def is_vote_msg_def)
  from assms(1) show ?thesis
    by (auto simp: step_follower_def R_refl R_read_states F split: MessageType.splits if_splits list.splits
        dest!: C R_handle_append_entries R_handle_heartbeat S H)
qed

lemma R_handle_vote_resp:
  assumes "handle_vote_resp msg r = Inr r'" and "unat (r_term r) < 2 ^ 64 - 1"
  shows "R r r'"
proof -
  obtain g s where p: "poll (m_from msg) (m_type msg) (\<not> m_reject msg) r = Inr (g, s)"
    using assms(1) by (auto simp: handle_vote_resp_def)
  have t: "unat (r_term s) < 2 ^ 64 - 1" using poll_eq(1) [OF p] assms(2) by simp
  have L: "R s r'" if "become_leader s = Inr q" "bcast_append q = Inr r'" for q
    using R_trans [OF R_become_leader [OF that(1)] R_bcast_append [OF that(2)]] .
  have C: "R s r'" if "campaign kCampaignElection s = Inr r'" using that not_pre(1) t by (rule R_campaign)
  have "R s r'"
    using assms(1) p
    by (auto simp: handle_vote_resp_def Let_def R_refl split: if_splits
        dest: C L R_become_follower [OF _ order_refl])
  then show ?thesis by (rule R_trans [OF R_poll [OF p]])
qed

lemma R_step_candidate:
  assumes "step_candidate msg r = Inr (s, r')" and "ok msg" and "unat (r_term r) < 2 ^ 64 - 1"
    and "m_type msg = MsgApp \<or> m_type msg = MsgHeartbeat \<or> m_type msg = MsgSnap \<Longrightarrow> r_term r \<le> m_term msg"
  shows "R r r'"
proof -
  have B: "R r r'" if "become_follower (m_term msg) l r = Inr q" "R q r'" "r_term r \<le> m_term msg" for l q
    using R_trans [OF R_become_follower [OF that(1,3)] that(2)] .
  have V: "R r r'" if "handle_vote_resp msg r = Inr r'" using that assms(3) by (rule R_handle_vote_resp)
  have S: "m_type msg = MsgSnap \<Longrightarrow> R q r'" if "handle_snapshot msg q = Inr r'" for q
    using that assms(2) by (intro R_handle_snapshot)
  from assms(1,4) show ?thesis
    by (auto simp: step_candidate_def R_refl split: MessageType.splits
        dest!: R_handle_append_entries R_handle_heartbeat S V intro: B)
qed

lemma R_step_leader:
  assumes "step_leader msg r = Inr (s, r')"
  shows "R r r'"
  using assms
  by (auto simp: step_leader_def R_refl split: MessageType.splits if_splits
      dest!: R_leader_prop R_leader_read_index R_leader_with_progress R_bcast_heartbeat R_become_follower [OF _ order_refl])

lemma R_step_dispatch:
  assumes "step_dispatch msg r = Inr (s, r')" and "ok msg" and "unat (r_term r) < 2 ^ 64 - 1"
    and "m_type msg = MsgApp \<or> m_type msg = MsgHeartbeat \<or> m_type msg = MsgSnap \<Longrightarrow> r_term r \<le> m_term msg"
  shows "R r r'"
proof (cases "r_step r")
  case (Some f)
  then show ?thesis
    using assms(1) R_step_follower [OF _ assms(2,3)] R_step_candidate [OF _ assms(2,3,4)] R_step_leader
    by (cases f) (auto simp: step_dispatch_def)
qed (use assms(1) in \<open>simp add: step_dispatch_def\<close>)

lemma R_step_hup:
  assumes "step_hup r = Inr (s, r')" and "\<not> r_pre_vote r" and "unat (r_term r) < 2 ^ 64 - 1"
  shows "R r r'"
proof -
  have C: "R r r'" if "campaign kCampaignElection r = Inr r'" using that not_pre(1) assms(3) by (rule R_campaign)
  from assms(1,2) show ?thesis
    by (auto simp: step_hup_def Let_def R_refl split: if_splits sum.splits dest!: C)
qed

lemma R_step_lower_term:
  assumes "step_lower_term msg r = Inr (s, r')" and "m_type msg \<noteq> MsgPreVote"
  shows "R r r'"
  using assms by (auto simp: step_lower_term_def ordinary_def is_vote_msg_def R_refl split: if_splits intro: R_send)

text \<open>Everything but the answers to vote requests.\<close>

lemma R_step_current:
  assumes "step_current msg r = Inr (s, r')" and "\<not> r_pre_vote r" and "ok msg" and "unat (r_term r) < 2 ^ 64 - 1"
    and "m_type msg = MsgApp \<or> m_type msg = MsgHeartbeat \<or> m_type msg = MsgSnap \<Longrightarrow> r_term r \<le> m_term msg"
    and "m_type msg \<noteq> MsgVote" and "m_type msg \<noteq> MsgPreVote"
  shows "R r r'"
  using assms(1,6,7) R_step_hup [OF _ assms(2,4)] R_step_dispatch [OF _ assms(3-5)]
  by (cases "m_type msg") (auto simp: step_current_def)

end

subsection \<open>Talk\<close>

lemma set_progress_msgs: "set_progress k m n b r = Inr r' \<Longrightarrow> r_msgs r' = r_msgs r \<and> r_id r' = r_id r \<and> r_term r' = r_term r"
  by (auto simp: set_progress_def Let_def split: if_splits)

lemma restore_node_msgs: "restore_node ns b r = Inr r' \<Longrightarrow> r_msgs r' = r_msgs r \<and> r_id r' = r_id r \<and> r_term r' = r_term r"
  unfolding restore_node_def
  by (erule loop_r_relation) (auto simp: restore_one_def Let_def split: if_splits dest!: set_progress_msgs)

lemma restore_msgs:
  assumes "restore s r = Inr (b, r')"
  shows "r_msgs r' = r_msgs r \<and> r_id r' = r_id r \<and> r_term r' = r_term r"
  using assms by (auto simp: restore_def Let_def split: if_splits dest!: restore_node_msgs)

lemma handle_snapshot_talks:
  assumes "handle_snapshot msg r = Inr r'"
  shows "talks r r'"
proof -
  from assms obtain b q where q: "restore (m_snapshot msg) r = Inr (b, q)"
    and s: "send (Message_default\<lparr>m_to := m_from msg, m_type := MsgAppResp\<rparr>) q = Inr r'"
    by (auto simp: handle_snapshot_def)
  have "talks q r'" using s by (rule send_talks) (simp add: ordinary_def is_vote_msg_def)
  with restore_msgs [OF q] show ?thesis by (simp add: talks_def)
qed

lemma send_vote_request_talks:
  assumes "send_vote_request MsgVote (r_term r) c k r = Inr r'"
  shows "talks r r' \<and> r_term r' = r_term r"
proof (cases "k = r_id r")
  case False
  with assms obtain m where m: "send m r = Inr r'" "m_type m = MsgVote" "m_term m = r_term r"
    by (auto simp: send_vote_request_def)
  show ?thesis using send_talks [OF m(1)] send_msgs [OF m(1)] m(2,3) by simp
qed (use assms in \<open>simp add: send_vote_request_def\<close>)

lemma vote_requests_talks:
  assumes "loop_r (send_vote_request MsgVote (r_term r) c) ks r = Inr r'"
  shows "talks r r'"
proof -
  have "talks r r' \<and> r_term r' = r_term r"
  proof (rule loop_r_invariant [OF assms])
    fix k s s'
    assume s: "talks r s \<and> r_term s = r_term r" and "send_vote_request MsgVote (r_term r) c k s = Inr s'"
    then have "talks s s' \<and> r_term s' = r_term s" using send_vote_request_talks [of s c k s'] by simp
    with s show "talks r s' \<and> r_term s' = r_term r" by (auto intro: talks_trans)
  qed simp
  then show ?thesis ..
qed

interpretation talk_step: step_relation talks "\<lambda>_. True"
proof unfold_locales
  fix t r r' msg c ks
  show "talks r r'" if "reset t r = Inr r'" "r_term r \<le> t"
    using reset_facts(1,2,10) [OF that(1)] that(2) by (simp add: talksI same_config_def)
  show "loop_r (send_vote_request MsgVote (r_term r) c) ks r = Inr r' \<Longrightarrow> talks r r'" by (rule vote_requests_talks)
  show "handle_snapshot msg r = Inr r' \<Longrightarrow> talks r r'" by (rule handle_snapshot_talks)
qed (simp_all add: talksI)

subsection \<open>Members\<close>

text \<open>Without snapshots the voters of a node do not change.\<close>

definition same_members :: "Raft \<Rightarrow> Raft \<Rightarrow> bool" where
  "same_members r r' \<longleftrightarrow> r_id r' = r_id r \<and> r_pre_vote r' = r_pre_vote r \<and> map fst (r_prs r') = map fst (r_prs r)"

lemma keeps_role_same_members: "keeps_role r r' \<Longrightarrow> same_members r r'"
  by (simp add: keeps_role_def same_members_def same_config_def)

interpretation member: step_relation same_members "\<lambda>msg. m_type msg \<noteq> MsgSnap"
proof unfold_locales
  fix r s t :: Raft and i m k p c ks
  show "loop_r (send_vote_request MsgVote (r_term r) c) ks r = Inr s \<Longrightarrow> same_members r s"
    by (rule keeps_role_same_members [OF only_sends_keeps_role [OF vote_requests_only_sends]])
  show "same_members r s \<Longrightarrow> same_members s t \<Longrightarrow> same_members r t" by (simp add: same_members_def)
  show "send m r = Inr s \<Longrightarrow> same_members r s" by (rule keeps_role_same_members [OF send_keeps_role])
  show "same_members r (put_progress k p r)" by (rule keeps_role_same_members [OF role.R_put])
  show "same_members r s" if "reset i r = Inr s"
    using reset_facts(1,11) [OF that] by (simp add: same_members_def same_config_def)
qed (simp_all add: same_members_def)

lemma step_vote_members:
  assumes "step_vote msg r = Inr (s, r')"
  shows "same_members r r'"
proof -
  have V: "same_members r (q\<lparr>r_election_elapsed := e, r_vote := v\<rparr>)" if "keeps_role r q" for q e v
    using keeps_role_same_members [OF that] by (simp add: same_members_def)
  from assms show ?thesis
    by (auto simp: step_vote_def Let_def member.R_refl keeps_role_same_members V split: if_splits dest!: send_keeps_role)
qed

lemma step_current_members:
  assumes "step_current msg r = Inr (s, r')" and "\<not> r_pre_vote r" and "m_type msg \<noteq> MsgSnap" and "m_type msg \<noteq> MsgPreVote"
    and "unat (r_term r) < 2 ^ 64 - 1" and "m_type msg = MsgApp \<or> m_type msg = MsgHeartbeat \<Longrightarrow> r_term r \<le> m_term msg"
  shows "same_members r r'"
proof (cases "m_type msg = MsgVote")
  case True
  then show ?thesis using assms(1) by (intro step_vote_members) (simp add: step_current_def)
next
  case False
  then show ?thesis using assms by (intro member.R_step_current) auto
qed

text \<open>The four ways a message can be handled.\<close>

lemma step_term_cases:
  assumes st: "step msg r = Inr (s, r')" and m: "msg_term_ok msg" and t: "unat (r_term r) < 2 ^ 64 - 1"
    and ty: "m_type msg \<noteq> MsgPreVote" "m_type msg \<noteq> MsgPreVoteResp"
  obtains (cur) "step_current msg r = Inr (s, r')" and "m_term msg = 0 \<or> m_term msg = r_term r"
      and "m_type msg = MsgApp \<or> m_type msg = MsgHeartbeat \<or> m_type msg = MsgSnap \<Longrightarrow> r_term r \<le> m_term msg"
    | (low) "step_lower_term msg r = Inr (s, r')"
    | (lease) "r' = r"
    | (high) q lead where "become_follower (m_term msg) lead r = Inr q" and "step_current msg q = Inr (s, r')"
        and "r_term r < m_term msg" and "r_term q = m_term msg" and "unat (r_term q) < 2 ^ 64 - 1"
proof -
  consider (cur) "step_current msg r = Inr (s, r')" "m_term msg = 0 \<or> m_term msg = r_term r"
    | (low) "step_lower_term msg r = Inr (s, r')"
    | (lease) "r' = r" | (high) q where "step_higher_term msg r = Inr (Some q)" "step_current msg q = Inr (s, r')"
        "r_term r < m_term msg"
    using st by (auto simp: step_def split: if_splits option.splits)
  then show thesis
  proof cases
    case cur
    then show ?thesis using m that(1) by (auto simp: msg_term_ok_def)
  next
    case (high q)
    from high(1) show ?thesis
    proof (cases rule: step_higher_term_cases)
      case same
      then show ?thesis using ty by simp
    next
      case (follower lead)
      then show ?thesis
        using that(4) [OF follower high(2,3)] become_follower_facts(2) [OF follower] m by (simp add: msg_term_ok_def)
    qed
  qed (use that in auto)
qed

lemma step_members:
  assumes st: "step msg r = Inr (s, r')" and m: "msg_term_ok msg" and t: "unat (r_term r) < 2 ^ 64 - 1"
    and ty: "m_type msg \<noteq> MsgPreVote" "m_type msg \<noteq> MsgPreVoteResp"
    and np: "\<not> r_pre_vote r" and sn: "m_type msg \<noteq> MsgSnap"
  shows "same_members r r'"
  using st m t ty
proof (cases rule: step_term_cases)
  case cur
  then show ?thesis using np sn ty(1) t by (intro step_current_members) auto
next
  case low
  then show ?thesis using ty(1) by (rule member.R_step_lower_term)
next
  case lease
  then show ?thesis by (simp add: member.R_refl)
next
  case (high q lead)
  have q: "same_members r q" using high(1,3) by (intro member.R_become_follower) auto
  have "same_members q r'"
    using step_current_members [OF high(2) _ sn ty(1) high(5)] high(4) np q by (simp add: same_members_def)
  with q show ?thesis by (rule member.R_trans)
qed

section \<open>What a step says about votes\<close>

text \<open>
  One message of a step from \<open>r\<close> to \<open>r'\<close>: it is from this node, it is not part of a pre-vote, and a
  granted vote names the term and the vote the node now has.
\<close>

definition vote_talk :: "Raft \<Rightarrow> Raft \<Rightarrow> Message \<Rightarrow> bool" where
  "vote_talk r r' m \<longleftrightarrow> says (r_id r) (r_term r) (r_term r') m \<and> m_type m \<noteq> MsgPreVote \<and> m_type m \<noteq> MsgPreVoteResp \<and>
     (m_type m = MsgVoteResp \<and> \<not> m_reject m \<longrightarrow> m_term m = r_term r' \<and> m_to m = r_vote r' \<and> m_term m \<noteq> 0)"

lemma talks_vote_talk: "talks r r' \<Longrightarrow> \<exists>ms. r_msgs r' = r_msgs r @ ms \<and> (\<forall>m \<in> set ms. vote_talk r r' m)"
  by (auto simp: talks_def vote_talk_def plain_def)

lemma step_vote_talk:
  assumes "step_vote msg r = Inr (s, r')" and "m_type msg = MsgVote" and "m_term msg = 0 \<or> m_term msg = r_term r"
  shows "\<exists>ms. r_msgs r' = r_msgs r @ ms \<and> (\<forall>m \<in> set ms. vote_talk r r' m)"
proof (cases "r_is_learner r")
  case True
  then show ?thesis using assms(1) by (auto simp: step_vote_def)
next
  case False
  then obtain grant where
    g: "(if grant
        then bind_r (send (Message_default\<lparr>m_to := m_from msg, m_term := m_term msg, m_type := MsgVoteResp\<rparr>) r)
               (\<lambda>r. Inr (OK, if m_type msg = MsgVote then r\<lparr>r_election_elapsed := 0, r_vote := m_from msg\<rparr> else r))
        else ok_with (send (Message_default\<lparr>m_to := m_from msg, m_term := r_term r, m_type := MsgVoteResp,
               m_reject := True\<rparr>) r)) = Inr (s, r')"
    using assms(1,2) by (auto simp: step_vote_def Let_def vote_resp_msg_type_def)
  show ?thesis
  proof (cases grant)
    case True
    with g obtain q where q: "send (Message_default\<lparr>m_to := m_from msg, m_term := m_term msg, m_type := MsgVoteResp\<rparr>) r = Inr q"
      and r': "r' = q\<lparr>r_election_elapsed := 0, r_vote := m_from msg\<rparr>" using assms(2) by auto
    have "m_term msg \<noteq> 0" using q by (auto simp: send_eq is_vote_msg_def)
    moreover have "r_term q = r_term r" using send_keeps_role [OF q] by (simp add: keeps_role_def)
    ultimately show ?thesis
      using send_msgs [OF q] assms(3) unfolding r'
      by (auto simp: vote_talk_def says_def stamped_def is_vote_msg_def)
  next
    case F: False
    with g have "send (Message_default\<lparr>m_to := m_from msg, m_term := r_term r, m_type := MsgVoteResp, m_reject := True\<rparr>) r = Inr r'"
      by simp
    from send_msgs [OF this] show ?thesis by (auto simp: vote_talk_def says_def stamped_def is_vote_msg_def)
  qed
qed

lemma step_current_talk:
  assumes "step_current msg r = Inr (s, r')" and "\<not> r_pre_vote r" and "m_type msg \<noteq> MsgPreVote"
    and "m_term msg = 0 \<or> m_term msg = r_term r" and "unat (r_term r) < 2 ^ 64 - 1"
    and "m_type msg = MsgApp \<or> m_type msg = MsgHeartbeat \<or> m_type msg = MsgSnap \<Longrightarrow> r_term r \<le> m_term msg"
  shows "\<exists>ms. r_msgs r' = r_msgs r @ ms \<and> (\<forall>m \<in> set ms. vote_talk r r' m)"
proof (cases "m_type msg = MsgVote")
  case True
  then show ?thesis using assms(1,4) step_vote_talk [of msg r s r'] by (auto simp: step_current_def)
next
  case False
  then have "talks r r'" using assms by (intro talk_step.R_step_current) auto
  then show ?thesis by (rule talks_vote_talk)
qed

lemma vote_talk_earlier: "vote_talk q r' m \<Longrightarrow> r_id q = r_id r \<Longrightarrow> r_term r \<le> r_term q \<Longrightarrow> vote_talk r r' m"
  by (auto simp: vote_talk_def intro: says_earlier)

lemma step_talk:
  assumes st: "step msg r = Inr (s, r')" and m: "msg_term_ok msg" and t: "unat (r_term r) < 2 ^ 64 - 1"
    and ty: "m_type msg \<noteq> MsgPreVote" "m_type msg \<noteq> MsgPreVoteResp" and np: "\<not> r_pre_vote r"
  shows "\<exists>ms. r_msgs r' = r_msgs r @ ms \<and> (\<forall>m \<in> set ms. vote_talk r r' m)"
  using st m t ty
proof (cases rule: step_term_cases)
  case cur
  then show ?thesis using np ty t by (intro step_current_talk) auto
next
  case low
  then show ?thesis using ty(1) by (intro talks_vote_talk talk_step.R_step_lower_term)
next
  case lease
  then show ?thesis by simp
next
  case (high q lead)
  note F = become_follower_facts [OF high(1)]
  have "\<exists>ms. r_msgs r' = r_msgs q @ ms \<and> (\<forall>m \<in> set ms. vote_talk q r' m)"
    using F(1) np ty high(4,5) by (intro step_current_talk [OF high(2)]) (auto simp: same_config_def)
  then obtain ms where ms: "r_msgs r' = r_msgs q @ ms" "\<And>m. m \<in> set ms \<Longrightarrow> vote_talk q r' m" by blast
  have "vote_talk r r' m" if "m \<in> set ms" for m
    using ms(2) [OF that] F(1) high(3,4) by (auto simp: same_config_def intro: vote_talk_earlier)
  then show ?thesis using ms(1) F(10) by auto
qed

end
