(* ===== verification/Raft_Deviations.thy ===== *)
theory Raft_Deviations
  imports Raft_Safety
begin

text \<open>
  Places where the code of \<^verbatim>\<open>raft/raft.cpp\<close> does something else than its comments, or the protocol it
  implements, say. Each theorem states what the code does, for all states it applies to.
\<close>

section \<open>Acknowledging reads and snapshots\<close>

text \<open>
  C37. \<^verbatim>\<open>handle_heartbeat\<close> answers with an empty context whatever context the heartbeat carried
  (it assigns the context of the request to itself instead of to the response), so a leader that
  waits for acknowledgements of a read context by heartbeat responses never gets one.
\<close>

theorem heartbeat_resp_loses_context:
  assumes "handle_heartbeat msg r = Inr r'"
  shows "\<exists>m. r_msgs r' = r_msgs r @ [m] \<and> m_type m = MsgHeartbeatResp \<and> m_to m = m_from msg \<and> m_context m = [] \<and>
     (\<forall>pr l s l'. leader_heartbeat_resp m pr l = Inr (s, l') \<longrightarrow> r_read_only l' = r_read_only l \<and> r_read_states l' = r_read_states l)"
proof -
  from assms obtain l where s: "send (Message_default\<lparr>m_to := m_from msg, m_type := MsgHeartbeatResp\<rparr>) (r\<lparr>r_raft_log := l\<rparr>) = Inr r'"
    by (auto simp: handle_heartbeat_def)
  let ?m = "stamped (Message_default\<lparr>m_to := m_from msg, m_type := MsgHeartbeatResp\<rparr>) (r\<lparr>r_raft_log := l\<rparr>)"
  have m: "r_msgs r' = r_msgs r @ [?m]" "m_type ?m = MsgHeartbeatResp" "m_to ?m = m_from msg" "m_context ?m = []"
    using s by (auto simp: send_eq stamped_def is_vote_msg_def Message_default_def)
  have "r_read_only l' = r_read_only l \<and> r_read_states l' = r_read_states l"
    if h: "leader_heartbeat_resp ?m pr l = Inr (s, l')" for pr l s l'
  proof -
    from h m(4) obtain p where
      "(if pr_match p < last_index (r_raft_log (put_progress (m_from ?m) p l))
        then send_append (m_from ?m) (put_progress (m_from ?m) p l) else Inr (put_progress (m_from ?m) p l)) = Inr l'"
      by (auto simp: leader_heartbeat_resp_def Let_def)
    then have "only_sends l l'"
      by (auto split: if_splits intro: only_sends_trans [OF put_progress_only_sends sending.R_send_append])
    then show ?thesis by (simp add: only_sends_eqs)
  qed
  with m show ?thesis by blast
qed

theorem heartbeat_resp_loses_context_witness:
  "\<exists>m. r_msgs (projr (handle_heartbeat (Message_default\<lparr>m_type := MsgHeartbeat, m_from := 2, m_context := [7]\<rparr>) node_example)) =
       r_msgs node_example @ [m] \<and> m_context m = []"
proof -
  let ?h = "handle_heartbeat (Message_default\<lparr>m_type := MsgHeartbeat, m_from := 2, m_context := [7]\<rparr>) node_example"
  have "\<not> isl ?h" by code_simp
  from heartbeat_resp_loses_context [OF Inr_projr [OF this]] show ?thesis by blast
qed

text \<open>
  C38. After a snapshot the follower answers with index 0 on every path (\<^verbatim>\<open>handle_snapshot\<close> stores
  the index in the request instead of the response), and the leader takes no progress from it.
\<close>

theorem snapshot_resp_has_index_zero:
  assumes "handle_snapshot msg r = Inr r'"
  shows "\<exists>m. last (r_msgs r') = m \<and> m_type m = MsgAppResp \<and> \<not> m_reject m \<and> m_index m = 0 \<and>
     (\<forall>p. fst (maybe_update (m_index m) p) = False)"
proof -
  from assms obtain b q where s: "send (Message_default\<lparr>m_to := m_from msg, m_type := MsgAppResp\<rparr>) q = Inr r'"
    by (auto simp: handle_snapshot_def)
  then have "last (r_msgs r') = stamped (Message_default\<lparr>m_to := m_from msg, m_type := MsgAppResp\<rparr>) q"
    by (auto simp: send_eq)
  then show ?thesis
    by (auto simp: stamped_def is_vote_msg_def Message_default_def maybe_update_def Let_def)
qed

definition snapshot_msg :: Message where
  "snapshot_msg = Message_default\<lparr>m_type := MsgSnap, m_from := 2, m_term := 1,
     m_snapshot := Snapshot_default\<lparr>s_metadata :=
       \<lparr>sm_conf_state = \<lparr>cs_nodes = [1, 2, 3], cs_learners = []\<rparr>, sm_index = 9, sm_term = 1\<rparr>\<rparr>\<rparr>"

theorem snapshot_resp_has_index_zero_witness:
  "m_index (last (r_msgs (projr (handle_snapshot snapshot_msg node_example)))) = 0 \<and>
   rl_committed (r_raft_log (projr (handle_snapshot snapshot_msg node_example))) = 9"
proof -
  let ?h = "handle_snapshot snapshot_msg node_example"
  have "\<not> isl ?h" by code_simp
  moreover have "rl_committed (r_raft_log (projr ?h)) = 9" by code_simp
  ultimately show ?thesis using snapshot_resp_has_index_zero [OF Inr_projr] by blast
qed

text \<open>
  C39. Restoring the members of a snapshot stops with a null pointer whenever the node's own id is not
  the first of the list (and not yet a member): the log line of \<^verbatim>\<open>restore_node\<close> reads the progress of
  the node itself in every iteration.
\<close>

theorem restore_node_null_pointer:
  assumes "r_prs r = []" and "r_learner_prs r = []" and "n \<noteq> r_id r"
  shows "restore_node (n # ns) False r = Inl (Undefined ''null pointer'')"
  using assms
  by (simp add: restore_node_def restore_one_def set_progress_def get_progress_def Let_def)

theorem restore_node_null_pointer_witness:
  "restore_node [2, 1, 3] False (node_example\<lparr>r_prs := [], r_learner_prs := []\<rparr>) = Inl (Undefined ''null pointer'')"
  by (rule restore_node_null_pointer) (simp_all add: node_example_def Raft_init_def example_config_def)

section \<open>Elections and leases\<close>

text \<open>
  A candidate counts an answer to a pre-vote as a vote: in \<^verbatim>\<open>step_candidate\<close> the two response types
  have the same effect, against the comment that only answers for the current candidacy are handled.
\<close>

lemma prevote_answer_counts_as_vote:
  assumes "m_type msg = MsgPreVoteResp"
  shows "step_candidate msg r = step_candidate (msg\<lparr>m_type := MsgVoteResp\<rparr>) r"
  using assms by (simp add: step_candidate_def handle_vote_resp_def poll_def)

text \<open>
  The quorum check of a leader never expires: a check that finds a quorum active changes nothing,
  in particular it does not reset \<^verbatim>\<open>recent_active\<close>, so it finds the same quorum active at every later
  check in which no message has arrived.
\<close>

lemma check_quorum_never_expires:
  assumes "check_quorum_active r" and "m_type msg = MsgCheckQuorum"
  shows "step_leader msg r = Inr (OK, r) \<and> (\<forall>e h. check_quorum_active (r\<lparr>r_election_elapsed := e, r_heartbeat_elapsed := h\<rparr>))"
proof -
  have "quorum (r\<lparr>r_election_elapsed := e, r_heartbeat_elapsed := h\<rparr>) = quorum r" for e h
    by (simp add: quorum_def)
  with assms show ?thesis by (simp add: step_leader_def check_quorum_active_def)
qed

definition active_leader_example :: Raft where
  "active_leader_example = commit_example\<lparr>r_state := Leader, r_step := Some StepLeader, r_tick := Some TickHeartbeat,
     r_prs := [(1, Progress_new 4), (2, (Progress_new 4)\<lparr>pr_recent_active := True\<rparr>), (3, Progress_new 4)]\<rparr>"

text \<open>
  C40. The randomized election timeout lies between the election timeout and twice it, both ends included
  (the comments say one less), at every moment of every run of a node from its constructor on, when twice the
  timeout fits in 32 bits; and with a random device that always draws the end of the range the constructor
  gives it, the timeout is twice the election timeout.
\<close>

theorem randomized_timeout_range:
  assumes "Raft_new c seq = Inr r0" and "c_id c \<noteq> 0" and "node_step\<^sup>*\<^sup>* r0 r" and "unat (c_election_tick c) < 2 ^ 31"
  shows "unat (c_election_tick c) \<le> unat (r_randomized_election_timeout r) \<and>
     unat (r_randomized_election_timeout r) \<le> 2 * unat (c_election_tick c) \<and>
     ((\<forall>k. seq k = c_election_tick c) \<longrightarrow> unat (r_randomized_election_timeout r) = 2 * unat (c_election_tick c))"
proof -
  let ?e = "c_election_tick c"
  obtain q where q: "become_follower (r_term q) 0 q = Inr r0" "r_election_timeout q = ?e"
    "r_random_device q = \<lparr>rd_min = 0, rd_max = ?e, rd_seq = seq, rd_pos = 0\<rparr>"
    using assms(1) by (rule Raft_new_follower)
  have "same_config r0 r"
    using node_run_evolves [OF assms(3) Raft_new_role_ok [OF assms(1,2)]] by (simp add: evolves_def advances_def)
  moreover have "same_range (r_random_device q) (r_random_device r0)" "r_election_timeout r0 = r_election_timeout q"
    using become_follower_facts(1) [OF q(1)] by (simp_all add: same_config_def)
  ultimately have "drawn (r_election_timeout q) (r_random_device q) (r_randomized_election_timeout r)"
    using become_follower_drawn [OF q(1)] drawn_cong [of "r_random_device q" "r_random_device r0"] by (auto simp: same_config_def)
  then obtain k where "r_randomized_election_timeout r = ?e + seq k mod (?e + 1)" using q(2,3) by (auto simp: drawn_def)
  then show ?thesis using drawn_timeout [OF assms(4), of "seq k"] by auto
qed

theorem randomized_timeout_range_witness:
  "unat (r_randomized_election_timeout (projr (Raft_new example_config (\<lambda>_. 10)))) = 20"
proof -
  have "\<not> isl (Raft_new example_config (\<lambda>_. 10))" by code_simp
  then have r: "Raft_new example_config (\<lambda>_. 10) = Inr (projr (Raft_new example_config (\<lambda>_. 10)))" by (rule Inr_projr)
  have c: "c_id example_config \<noteq> 0" "c_election_tick example_config = 10" by (simp_all add: example_config_def)
  show ?thesis using randomized_timeout_range [OF r c(1) rtranclp.rtrancl_refl] by (simp add: c(2))
qed

text \<open>
  A message of a leader that carries no term resets the term of a candidate to zero: \<^verbatim>\<open>step\<close> takes a
  zero term for a local message, and \<^verbatim>\<open>step_candidate\<close> becomes follower at the term of the message
  (its comment says that the terms are equal there).
\<close>

lemma termless_append_resets_candidate_term:
  assumes "role_ok r" and "r_state r = Candidate" and "m_type msg = MsgHeartbeat" and "m_term msg = 0"
    and "step msg r = Inr (s, r')"
  shows "r_term r' = 0 \<and> r_state r' = Follower \<and> (r_term r \<noteq> 0 \<longrightarrow> r_vote r' = 0)"
proof -
  from assms role_okD(1) [OF assms(1)] obtain q where
    q: "become_follower 0 (m_from msg) r = Inr q" and h: "handle_heartbeat msg q = Inr r'"
    by (auto simp: step_def step_current_def step_dispatch_def step_candidate_def)
  note F = become_follower_facts [OF q] and K = role.R_handle_heartbeat [OF h]
  from F(2,3,5) K show ?thesis by (simp add: keeps_role_def)
qed

section \<open>Members\<close>

text \<open>
  Removing the last voter while learners are left reads behind the end of the empty vector of match
  indexes: the guard of \<^verbatim>\<open>remove_node\<close> only covers the case that the learners are gone too.
\<close>

lemma remove_last_voter_undefined:
  assumes "AList.delete k (r_prs r) = []" and "AList.delete k (r_learner_prs r) \<noteq> []"
  shows "remove_node k r = Inl (Undefined ''vector index'')"
  using assms by (simp add: remove_node_def del_progress_def maybe_commit_def Let_def nth_r_oob)

end
