(* ===== verification/Cluster.thy ===== *)
theory Cluster
  imports Raft_Votes Raft_Deviations
begin

text \<open>
  Several nodes and a network. The network may lose, duplicate, delay and reorder messages; a node
  handles a message, an input of its own, a tick, or hands its queued messages to the network. For
  fixed voters and without pre-vote there is at most one leader in a term; with pre-vote there
  can be two.
\<close>

section \<open>The cluster\<close>

record Cluster =
  cl_node :: "u64 \<Rightarrow> Raft"
  cl_net :: "Message list"

text \<open>Inputs from the node's own process: clients, timers and the transport's reports.\<close>

definition local_input :: "Message \<Rightarrow> bool" where
  "local_input m \<longleftrightarrow> m_term m = 0 \<and> m_type m \<notin> {MsgApp, MsgHeartbeat, MsgSnap, MsgVote, MsgVoteResp, MsgPreVote, MsgPreVoteResp}"

definition set_node :: "u64 \<Rightarrow> Raft \<Rightarrow> Cluster \<Rightarrow> Cluster" where
  "set_node i r c = c\<lparr>cl_node := (cl_node c)(i := r)\<rparr>"

text \<open>
  Messages reach the node they are addressed to. Snapshots, which replace the members, are not
  delivered in this relation, and terms stay below the top of their 64 bits.
\<close>

inductive cluster_step :: "u64 list \<Rightarrow> Cluster \<Rightarrow> Cluster \<Rightarrow> bool" for ns :: "u64 list" where
  deliver: "i \<in> set ns \<Longrightarrow> msg \<in> set (cl_net c) \<Longrightarrow> m_to msg = i \<Longrightarrow> m_type msg \<noteq> MsgSnap \<Longrightarrow>
    unat (m_term msg) < 2 ^ 64 - 1 \<Longrightarrow> unat (r_term (cl_node c i)) < 2 ^ 64 - 1 \<Longrightarrow>
    step msg (cl_node c i) = Inr (s, r') \<Longrightarrow> cluster_step ns c (set_node i r' c)"
| input: "i \<in> set ns \<Longrightarrow> local_input msg \<Longrightarrow> unat (r_term (cl_node c i)) < 2 ^ 64 - 1 \<Longrightarrow>
    step msg (cl_node c i) = Inr (s, r') \<Longrightarrow> cluster_step ns c (set_node i r' c)"
| tick: "i \<in> set ns \<Longrightarrow> unat (r_term (cl_node c i)) < 2 ^ 64 - 1 \<Longrightarrow>
    Raft.tick (cl_node c i) = Inr r' \<Longrightarrow> cluster_step ns c (set_node i r' c)"
| ship: "i \<in> set ns \<Longrightarrow> r = cl_node c i \<Longrightarrow>
    cluster_step ns c (set_node i (r\<lparr>r_msgs := []\<rparr>) (c\<lparr>cl_net := cl_net c @ r_msgs r\<rparr>))"

inductive_cases cluster_stepE: "cluster_step ns c c'"

text \<open>
  A cluster as it starts: every node is a follower that knows all voters, with or without pre-vote,
  in any term from 1 on and with any vote, and no message has been sent.
\<close>

definition starts :: "bool \<Rightarrow> u64 list \<Rightarrow> Cluster \<Rightarrow> bool" where
  "starts pre_vote ns c \<longleftrightarrow> distinct ns \<and> length ns < 2 ^ 32 \<and> cl_net c = [] \<and>
     (\<forall>i \<in> set ns. let r = cl_node c i in role_ok r \<and> r_id r = i \<and> r_state r = Follower \<and> r_term r \<noteq> 0 \<and>
        r_pre_vote r = pre_vote \<and> distinct (map fst (r_prs r)) \<and> set (map fst (r_prs r)) = set ns \<and> r_msgs r = [])"

text \<open>The same steps as a function, for concrete runs.\<close>

datatype action = Deliver nat | Input u64 Message | Tick u64 | Ship u64

definition bounded :: "u64 \<Rightarrow> bool" where
  "bounded t \<longleftrightarrow> t < 0xFFFFFFFFFFFFFFFF"

lemma bounded_unat: "bounded t \<longleftrightarrow> unat t < 2 ^ 64 - 1"
  by (simp add: bounded_def word_less_nat_alt)

definition update_node :: "u64 \<Rightarrow> (fault + Raft) \<Rightarrow> Cluster \<Rightarrow> Cluster option" where
  "update_node i res c = (case res of Inl _ \<Rightarrow> None | Inr r \<Rightarrow> Some (set_node i r c))"

fun act :: "u64 list \<Rightarrow> action \<Rightarrow> Cluster \<Rightarrow> Cluster option" where
  "act ns (Deliver k) c =
     (if k < length (cl_net c) then
        let msg = cl_net c ! k; i = m_to msg in
        if i \<in> set ns \<and> m_type msg \<noteq> MsgSnap \<and> bounded (m_term msg) \<and> bounded (r_term (cl_node c i))
        then update_node i (map_sum (\<lambda>f. f) snd (step msg (cl_node c i))) c else None
      else None)"
| "act ns (Input i msg) c =
     (if i \<in> set ns \<and> local_input msg \<and> bounded (r_term (cl_node c i))
      then update_node i (map_sum (\<lambda>f. f) snd (step msg (cl_node c i))) c else None)"
| "act ns (Tick i) c =
     (if i \<in> set ns \<and> bounded (r_term (cl_node c i)) then update_node i (Raft.tick (cl_node c i)) c else None)"
| "act ns (Ship i) c =
     (if i \<in> set ns
      then Some (set_node i ((cl_node c i)\<lparr>r_msgs := []\<rparr>) (c\<lparr>cl_net := cl_net c @ r_msgs (cl_node c i)\<rparr>))
      else None)"

fun acts :: "u64 list \<Rightarrow> action list \<Rightarrow> Cluster \<Rightarrow> Cluster option" where
  "acts ns [] c = Some c"
| "acts ns (a # as) c = Option.bind (act ns a c) (acts ns as)"

lemma update_node_eq: "update_node i res c = Some c' \<longleftrightarrow> (\<exists>r. res = Inr r \<and> c' = set_node i r c)"
  by (auto simp: update_node_def split: sum.splits)

lemma map_snd_Inr: "map_sum (\<lambda>f. f) snd x = Inr r \<longleftrightarrow> (\<exists>s. x = Inr (s, r))"
  by (cases x) auto

lemma act_step: "act ns a c = Some c' \<Longrightarrow> cluster_step ns c c'"
  by (cases a) (auto simp: update_node_eq map_snd_Inr bounded_unat Let_def split: if_splits
      intro: cluster_step.intros cluster_step.deliver [OF _ nth_mem refl])

lemma acts_run: "acts ns as c = Some c' \<Longrightarrow> (cluster_step ns)\<^sup>*\<^sup>* c c'"
  by (induction "as" arbitrary: c) (auto simp: bind_eq_Some_conv dest!: act_step intro: converse_rtranclp_into_rtranclp)

section \<open>Who voted for whom\<close>

text \<open>
  The history \<open>h v t\<close> is the vote of node \<open>v\<close> in term \<open>t\<close>, zero if there is none. It exists in the
  invariant only.
\<close>

type_synonym history = "u64 \<Rightarrow> u64 \<Rightarrow> u64"

definition grows :: "history \<Rightarrow> history \<Rightarrow> bool" where
  "grows h h' \<longleftrightarrow> (\<forall>v t. h v t \<noteq> 0 \<longrightarrow> h' v t = h v t)"

definition note_vote :: "u64 \<Rightarrow> Raft \<Rightarrow> history \<Rightarrow> history" where
  "note_vote i r h = h(i := (h i)(r_term r := r_vote r))"

definition granted :: "Message \<Rightarrow> bool" where
  "granted m \<longleftrightarrow> m_type m = MsgVoteResp \<and> \<not> m_reject m"

definition msg_inv :: "u64 list \<Rightarrow> history \<Rightarrow> Message \<Rightarrow> bool" where
  "msg_inv ns h m \<longleftrightarrow> m_from m \<in> set ns \<and> m_type m \<noteq> MsgPreVote \<and> m_type m \<noteq> MsgPreVoteResp \<and>
     (m_type m = MsgApp \<or> m_type m = MsgHeartbeat \<or> m_type m = MsgSnap \<longrightarrow> m_term m \<noteq> 0) \<and>
     (granted m \<longrightarrow> m_term m \<noteq> 0 \<and> (m_to m \<noteq> 0 \<longrightarrow> h (m_from m) (m_term m) = m_to m))"

definition supporters :: "(u64, bool) umap \<Rightarrow> u64 set" where
  "supporters vs = {v. (v, True) \<in> set vs}"

definition candidacy_inv :: "u64 list \<Rightarrow> history \<Rightarrow> Raft \<Rightarrow> bool" where
  "candidacy_inv ns h r \<longleftrightarrow>
     (r_state r = Candidate \<longrightarrow> distinct (map fst (r_votes r)) \<and> supporters (r_votes r) \<subseteq> set ns \<and>
        (\<forall>v \<in> supporters (r_votes r). h v (r_term r) = r_id r)) \<and>
     (r_state r = Leader \<longrightarrow> (\<exists>Q. majority ns Q \<and> (\<forall>v \<in> Q. h v (r_term r) = r_id r)))"

definition node_inv :: "u64 list \<Rightarrow> history \<Rightarrow> u64 \<Rightarrow> Raft \<Rightarrow> bool" where
  "node_inv ns h i r \<longleftrightarrow> role_ok r \<and> r_id r = i \<and> r_term r \<noteq> 0 \<and> \<not> r_pre_vote r \<and>
     distinct (map fst (r_prs r)) \<and> set (map fst (r_prs r)) = set ns \<and>
     h i (r_term r) = r_vote r \<and> (\<forall>t. r_term r < t \<longrightarrow> h i t = 0) \<and>
     candidacy_inv ns h r \<and> (\<forall>m \<in> set (r_msgs r). msg_inv ns h m)"

definition cluster_inv :: "u64 list \<Rightarrow> history \<Rightarrow> Cluster \<Rightarrow> bool" where
  "cluster_inv ns h c \<longleftrightarrow> distinct ns \<and> length ns < 2 ^ 32 \<and>
     (\<forall>i \<in> set ns. node_inv ns h i (cl_node c i)) \<and> (\<forall>m \<in> set (cl_net c). msg_inv ns h m)"

lemma grows_trans: "grows h h' \<Longrightarrow> grows h' h'' \<Longrightarrow> grows h h''"
  by (auto simp: grows_def)

lemma msg_inv_grows: "msg_inv ns h m \<Longrightarrow> grows h h' \<Longrightarrow> msg_inv ns h' m"
  by (auto simp: msg_inv_def grows_def)

lemma candidacy_inv_grows:
  assumes "candidacy_inv ns h r" and "grows h h'" and "r_id r \<noteq> 0"
  shows "candidacy_inv ns h' r"
proof -
  have G: "h' v t = r_id r" if "h v t = r_id r" for v t
    using assms(2,3) that by (auto simp: grows_def)
  show ?thesis using assms(1) by (auto simp: candidacy_inv_def intro: G) (meson G)
qed

text \<open>The other nodes are not affected by the vote of one.\<close>

lemma node_inv_grows:
  assumes "node_inv ns h j r" and "grows h h'" and "h' j = h j"
  shows "node_inv ns h' j r"
  using assms role_okD(3) [of r] by (auto simp: node_inv_def intro: msg_inv_grows candidacy_inv_grows)

lemma note_vote_other [simp]: "j \<noteq> i \<Longrightarrow> note_vote i r h j = h j"
  by (simp add: note_vote_def)

lemma note_vote_self [simp]: "note_vote i r h i (r_term r) = r_vote r"
  by (simp add: note_vote_def)

lemma note_vote_grows:
  assumes "node_inv ns h i r" and "advances r r'"
  shows "grows h (note_vote i r' h)"
proof -
  have "r_vote r' = h i (r_term r')" if "h i (r_term r') \<noteq> 0"
  proof (cases "r_term r' = r_term r")
    case True
    then show ?thesis using assms that by (auto simp: node_inv_def advances_def)
  next
    case False
    then have "r_term r < r_term r'" using assms(2) by (auto simp: advances_def)
    then show ?thesis using assms(1) that by (simp add: node_inv_def)
  qed
  then show ?thesis by (auto simp: grows_def note_vote_def)
qed

lemma note_vote_future: "node_inv ns h i r \<Longrightarrow> advances r r' \<Longrightarrow> r_term r' < t \<Longrightarrow> note_vote i r' h i t = 0"
  by (auto simp: node_inv_def advances_def note_vote_def)

section \<open>Candidacies\<close>

lemma card_supporters:
  assumes "distinct (map fst vs)"
  shows "card (supporters vs) = length (filter snd vs)"
proof -
  have "supporters vs = set (map fst (filter snd vs))" by (force simp: supporters_def)
  moreover have "distinct (map fst (filter snd vs))" using assms by (rule distinct_map_filter)
  ultimately show ?thesis by (metis distinct_card length_map)
qed

lemma quorum_majority:
  assumes "distinct ns" and "length ns < 2 ^ 32" and "distinct (map fst (r_prs r))" and "set (map fst (r_prs r)) = set ns"
    and "Q \<subseteq> set ns" and "unat (quorum r) \<le> card Q"
  shows "majority ns Q"
proof -
  have "length (r_prs r) = length ns" using assms(1,3,4) by (metis distinct_card length_map)
  then show ?thesis using assms unat_quorum [of r] by (simp add: majority_def)
qed

lemma granted_majority:
  assumes "distinct ns" and "length ns < 2 ^ 32" and "distinct (map fst (r_prs r))" and "set (map fst (r_prs r)) = set ns"
    and "distinct (map fst vs)" and "supporters vs \<subseteq> set ns" and "quorum r = granted_votes vs"
  shows "majority ns (supporters vs)"
proof -
  have "unat (granted_votes vs) \<le> card (supporters vs)"
    using card_supporters [OF assms(5)] by (simp add: granted_votes_def unat_of_nat)
  then show ?thesis using assms by (intro quorum_majority [of ns r]) auto
qed

lemma update_fresh: "map_of al k = None \<Longrightarrow> AList.update k v al = al @ [(k, v)]"
  by (induction al) (auto split: if_splits)

lemma votes_with_distinct: "distinct (map fst (r_votes r)) \<Longrightarrow> distinct (map fst (votes_with msg r))"
  by (simp add: votes_with_def distinct_update)

lemma votes_with_supporters:
  "supporters (votes_with msg r) \<subseteq> supporters (r_votes r) \<union> (if m_reject msg then {} else {m_from msg})"
  by (auto simp: votes_with_def supporters_def update_fresh)

text \<open>The three ways to be a candidate or leader after a step.\<close>

lemma step_candidacy:
  assumes st: "step msg r = Inr (s, r')" and ro: "role_ok r" and ty: "m_type msg \<noteq> MsgPreVoteResp"
    and cl: "r_state r' = Candidate \<or> r_state r' = Leader"
  obtains (same) "r_state r' = r_state r" and "r_term r' = r_term r" and "r_votes r' = r_votes r"
    | (vote) "r_state r = Candidate" and "r_term r' = r_term r" and "m_type msg = MsgVoteResp"
        and "m_term msg = 0 \<or> m_term msg = r_term r"
        and "r_state r' = Candidate \<and> r_votes r' = votes_with msg r \<or>
             r_state r' = Leader \<and> quorum r' = granted_votes (votes_with msg r)"
    | (fresh) "r_state r' = Candidate \<and> r_votes r' = [(r_id r, True)] \<or> r_state r' = Leader \<and> quorum r' = 1"
  using st ro
proof (cases rule: step_outcome)
  case own
  show thesis
  proof (cases "r_state r' = r_state r \<and> r_term r' = r_term r \<and> r_votes r' = r_votes r")
    case True
    then show ?thesis using same by blast
  next
    case False
    then show ?thesis using own cl ty vote fresh by (auto simp: outcome_def)
  qed
next
  case (newer q lead)
  note F = become_follower_facts [OF newer(1)]
  show thesis using newer(2) cl F(1,5) fresh by (auto simp: outcome_def same_config_def)
qed

section \<open>Steps of a node\<close>

text \<open>What a node may be given: a message of the network addressed to it, or an input of its own.\<close>

definition acceptable :: "u64 list \<Rightarrow> history \<Rightarrow> u64 \<Rightarrow> Message \<Rightarrow> bool" where
  "acceptable ns h i msg \<longleftrightarrow> m_type msg \<noteq> MsgSnap \<and> unat (m_term msg) < 2 ^ 64 - 1 \<and>
     (local_input msg \<or> msg_inv ns h msg \<and> m_to msg = i)"

lemma acceptableD:
  assumes "acceptable ns h i msg"
  shows "msg_term_ok msg" and "m_type msg \<noteq> MsgSnap" and "m_type msg \<noteq> MsgPreVote" and "m_type msg \<noteq> MsgPreVoteResp"
    and "granted msg \<Longrightarrow> m_term msg \<noteq> 0 \<and> m_from msg \<in> set ns \<and> (i \<noteq> 0 \<longrightarrow> h (m_from msg) (m_term msg) = i)"
  using assms by (auto simp: acceptable_def msg_term_ok_def local_input_def msg_inv_def granted_def)

lemma step_candidacy_inv:
  assumes st: "step msg r = Inr (s, r')" and n: "node_inv ns h i r" and ok: "acceptable ns h i msg"
    and ns: "distinct ns" "length ns < 2 ^ 32" and ro: "role_ok r'" and me: "same_members r r'" and ii: "i \<in> set ns"
    and g: "grows h h'" and hv: "h' i (r_term r') = r_vote r'"
  shows "candidacy_inv ns h' r'"
proof (cases "r_state r' = Candidate \<or> r_state r' = Leader")
  case True
  note A = acceptableD [OF ok]
  have N: "role_ok r" "r_id r = i" "r_id r' = i" "r_id r \<noteq> 0"
    "distinct (map fst (r_prs r'))" "set (map fst (r_prs r')) = set ns"
    using n me role_okD(3) [of r] by (auto simp: node_inv_def same_members_def)
  have c: "candidacy_inv ns h' r" using n g N(4) by (auto simp: node_inv_def intro: candidacy_inv_grows)
  from st N(1) A(4) True show ?thesis
  proof (cases rule: step_candidacy)
    case same
    then show ?thesis using c N(2,3) by (simp add: candidacy_inv_def)
  next
    case vote
    let ?vs = "votes_with msg r"
    have g': "m_from msg \<in> set ns \<and> h' (m_from msg) (r_term r) = i" if "\<not> m_reject msg"
      using A(5) that vote(3,4) g N(2,4) by (auto simp: granted_def grows_def)
    have v: "distinct (map fst ?vs)" "supporters ?vs \<subseteq> set ns" "\<forall>v \<in> supporters ?vs. h' v (r_term r') = r_id r'"
      using c vote(1,2) g' votes_with_supporters [of msg r] votes_with_distinct [of r msg] N(2,3)
      by (auto simp: candidacy_inv_def split: if_splits)
    show ?thesis using vote(5)
    proof
      assume "r_state r' = Leader \<and> quorum r' = granted_votes ?vs"
      then show ?thesis using granted_majority [OF ns N(5,6) v(1,2)] v(3) by (auto simp: candidacy_inv_def)
    qed (use v in \<open>simp add: candidacy_inv_def\<close>)
  next
    case fresh
    have hi: "h' i (r_term r') = i" using True hv N(3) ro by (auto simp: role_ok_def)
    have "majority ns {i}" if "quorum r' = 1"
      using that ii by (intro quorum_majority [OF ns N(5,6)]) auto
    then show ?thesis using fresh hi ii N(2,3) by (auto simp: candidacy_inv_def supporters_def)
  qed
qed (simp add: candidacy_inv_def)

lemma vote_talk_inv:
  assumes "vote_talk r r' m" and "r_id r = i" and "i \<in> set ns" and "r_term r \<noteq> 0" and "h' i (r_term r') = r_vote r'"
  shows "msg_inv ns h' m"
  using assms by (auto simp: vote_talk_def says_def msg_inv_def granted_def)

lemma step_inv:
  assumes st: "step msg r = Inr (s, r')" and n: "node_inv ns h i r" and ok: "acceptable ns h i msg"
    and ns: "distinct ns" "length ns < 2 ^ 32" and ii: "i \<in> set ns" and t: "unat (r_term r) < 2 ^ 64 - 1"
  shows "grows h (note_vote i r' h) \<and> node_inv ns (note_vote i r' h) i r'"
proof -
  let ?h = "note_vote i r' h"
  note A = acceptableD [OF ok]
  have N: "role_ok r" "r_id r = i" "\<not> r_pre_vote r" "r_term r \<noteq> 0" using n by (simp_all add: node_inv_def)
  have ev: "evolves r r'" using st N(1) t A(1) by (rule step_evolves)
  then have adv: "advances r r'" and ro: "role_ok r'" using N(1) by (simp_all add: evolves_def)
  have me: "same_members r r'" using st A(1) t A(3,4) N(3) A(2) by (rule step_members)
  obtain ms where ms: "r_msgs r' = r_msgs r @ ms" "\<And>m. m \<in> set ms \<Longrightarrow> vote_talk r r' m"
    using step_talk [OF st A(1) t A(3,4) N(3)] by blast
  have g: "grows h ?h" using n adv by (rule note_vote_grows)
  have "candidacy_inv ns ?h r'"
    using st n ok ns ro me ii g note_vote_self by (rule step_candidacy_inv)
  moreover have "msg_inv ns ?h m" if "m \<in> set (r_msgs r')" for m
    using that ms n g vote_talk_inv [OF ms(2) N(2) ii N(4)] by (auto simp: node_inv_def intro: msg_inv_grows)
  moreover have "r_term r' \<noteq> 0" using adv N(4) by (auto simp: advances_def)
  ultimately show ?thesis
    using g n me ro note_vote_future [OF n adv] by (auto simp: node_inv_def same_members_def)
qed

section \<open>Ticks\<close>

text \<open>A tick is a sequence of timer updates and messages of the node to itself.\<close>

inductive self_move :: "Raft \<Rightarrow> Raft \<Rightarrow> bool" where
  timers: "self_move r (r\<lparr>r_heartbeat_elapsed := a, r_election_elapsed := b\<rparr>)"
| abort: "self_move r (abort_leader_transfer r)"
| own: "step msg r = Inr (s, r') \<Longrightarrow> local_input msg \<Longrightarrow> unat (r_term r) < 2 ^ 64 - 1 \<Longrightarrow> self_move r r'"

lemma self_timers:
  "self_move r (r\<lparr>r_election_elapsed := b\<rparr>)" "self_move r (r\<lparr>r_heartbeat_elapsed := a\<rparr>)"
  using self_move.timers [where r = r and a = "r_heartbeat_elapsed r" and b = b]
    self_move.timers [where r = r and a = a and b = "r_election_elapsed r"] by simp_all

lemma local_own: "local_input (Message_default\<lparr>m_from := i, m_type := t\<rparr>) \<longleftrightarrow>
    t \<notin> {MsgApp, MsgHeartbeat, MsgSnap, MsgVote, MsgVoteResp, MsgPreVote, MsgPreVoteResp}"
  by (simp add: local_input_def Message_default_def)

lemma self_own:
  assumes "step (Message_default\<lparr>m_from := i, m_type := t\<rparr>) r = Inr (s, r')" and "unat (r_term r) < 2 ^ 64 - 1"
    and "t \<in> {MsgHup, MsgCheckQuorum, MsgBeat}"
  shows "self_move r r'"
  using assms by (intro self_move.own) (auto simp: local_own)

lemma tick_election_moves:
  assumes "tick_election r = Inr r'" and "unat (r_term r) < 2 ^ 64 - 1"
  shows "self_move\<^sup>*\<^sup>* r r'"
proof -
  have S: "self_move\<^sup>*\<^sup>* r r'"
    if "step (Message_default\<lparr>m_from := i, m_type := MsgHup\<rparr>) (r\<lparr>r_election_elapsed := 0\<rparr>) = Inr (s, r')" for i s
  proof -
    have "self_move (r\<lparr>r_election_elapsed := 0\<rparr>) r'" using that assms(2) by (intro self_own) auto
    then show ?thesis using self_timers(1) [of r 0] by (meson rtranclp.simps)
  qed
  from assms(1) show ?thesis
    by (auto simp: tick_election_def Let_def split: if_splits dest: S intro: r_into_rtranclp self_timers(1))
qed

lemma tick_check_quorum_moves:
  assumes "tick_check_quorum r = Inr r'" and "unat (r_term r) < 2 ^ 64 - 1"
  shows "self_move\<^sup>*\<^sup>* r r'"
proof (cases "r_election_elapsed r \<ge> r_election_timeout r")
  case False
  then show ?thesis using assms(1) by (simp add: tick_check_quorum_def)
next
  case True
  let ?r = "r\<lparr>r_election_elapsed := 0\<rparr>"
  from True assms(1) obtain p where
    p: "(if r_check_quorum r
        then bind_r (step (Message_default\<lparr>m_from := r_id ?r, m_type := MsgCheckQuorum\<rparr>) ?r) (\<lambda>(_, r). Inr r)
        else Inr ?r) = Inr p"
    and r': "r' = (if r_state p = Leader \<and> r_lead_transferee p \<noteq> 0 then abort_leader_transfer p else p)"
    by (auto simp: tick_check_quorum_def Let_def)
  have "self_move\<^sup>*\<^sup>* ?r p" using p assms(2) by (auto split: if_splits intro!: r_into_rtranclp self_own)
  moreover have "self_move\<^sup>*\<^sup>* p r'" by (simp add: r' r_into_rtranclp self_move.abort)
  ultimately show ?thesis using self_timers(1) [of r 0] by (meson converse_rtranclp_into_rtranclp rtranclp_trans)
qed

lemma tick_beat_moves:
  assumes "tick_beat r = Inr r'" and "unat (r_term r) < 2 ^ 64 - 1"
  shows "self_move\<^sup>*\<^sup>* r r'"
proof -
  have S: "self_move\<^sup>*\<^sup>* r r'"
    if "step (Message_default\<lparr>m_from := i, m_type := MsgBeat\<rparr>) (r\<lparr>r_heartbeat_elapsed := 0\<rparr>) = Inr (s, r')" for i s
  proof -
    have "self_move (r\<lparr>r_heartbeat_elapsed := 0\<rparr>) r'" using that assms(2) by (intro self_own) auto
    then show ?thesis using self_timers(2) [of r 0] by (meson rtranclp.simps)
  qed
  from assms(1) show ?thesis by (auto simp: tick_beat_def split: if_splits dest: S)
qed

lemma tick_moves:
  assumes "Raft.tick r = Inr r'" and "role_ok r" and "unat (r_term r) < 2 ^ 64 - 1"
  shows "self_move\<^sup>*\<^sup>* r r'"
proof (cases "r_state r = Leader")
  case False
  then have "r_tick r = Some TickElection" using role_okD(2) [OF assms(2)] by (cases "r_state r") auto
  then show ?thesis using assms(1,3) by (intro tick_election_moves) (simp_all add: tick_def)
next
  case True
  let ?r = "r\<lparr>r_heartbeat_elapsed := r_heartbeat_elapsed r + 1, r_election_elapsed := r_election_elapsed r + 1\<rparr>"
  obtain p where p: "tick_check_quorum ?r = Inr p" and b: "tick_beat p = Inr r'"
    using assms(1) role_okD(2) [OF assms(2)] True by (auto simp: tick_def tick_heartbeat_def)
  have "r_term p = r_term r" using tick_check_quorum_evolves [OF p] assms(2,3) True by (simp add: role_ok_def)
  then have "self_move\<^sup>*\<^sup>* p r'" using b assms(3) by (intro tick_beat_moves) auto
  moreover have "self_move\<^sup>*\<^sup>* ?r p" using p by (rule tick_check_quorum_moves) (use assms(3) in simp)
  ultimately show ?thesis
    using self_move.timers [where r = r and a = "r_heartbeat_elapsed r + 1" and b = "r_election_elapsed r + 1"] by (meson converse_rtranclp_into_rtranclp rtranclp_trans)
qed

section \<open>Runs of the cluster\<close>

lemma node_inv_timers:
  "node_inv ns h i (r\<lparr>r_heartbeat_elapsed := a, r_election_elapsed := b\<rparr>) \<longleftrightarrow> node_inv ns h i r"
  "node_inv ns h i (abort_leader_transfer r) \<longleftrightarrow> node_inv ns h i r"
  by (simp_all add: node_inv_def candidacy_inv_def role_ok_def abort_leader_transfer_def)

lemma local_acceptable: "local_input msg \<Longrightarrow> acceptable ns h i msg"
  by (auto simp: acceptable_def local_input_def)

lemma self_move_inv:
  assumes "self_move r r'" and "node_inv ns h i r" and "distinct ns" and "length ns < 2 ^ 32" and "i \<in> set ns"
  shows "\<exists>h'. grows h h' \<and> (\<forall>j. j \<noteq> i \<longrightarrow> h' j = h j) \<and> node_inv ns h' i r'"
  using assms
proof (cases rule: self_move.cases)
  case (own msg s)
  show ?thesis
    using step_inv [OF own(1) assms(2) local_acceptable [OF own(2)] assms(3-5) own(3)]
    by (intro exI [of _ "note_vote i r' h"]) simp
qed (auto simp: node_inv_timers grows_def)

lemma self_moves_inv:
  assumes "self_move\<^sup>*\<^sup>* r r'" and "node_inv ns h i r" and "distinct ns" and "length ns < 2 ^ 32" and "i \<in> set ns"
  shows "\<exists>h'. grows h h' \<and> (\<forall>j. j \<noteq> i \<longrightarrow> h' j = h j) \<and> node_inv ns h' i r'"
  using assms(1)
proof (induction rule: rtranclp_induct)
  case base
  then show ?case using assms(2) by (intro exI [of _ h]) (simp add: grows_def)
next
  case (step s t)
  then obtain h' where h': "grows h h'" "\<forall>j. j \<noteq> i \<longrightarrow> h' j = h j" "node_inv ns h' i s" by blast
  from self_move_inv [OF step(2) h'(3) assms(3-5)] obtain h'' where
    "grows h' h''" "\<forall>j. j \<noteq> i \<longrightarrow> h'' j = h' j" "node_inv ns h'' i t" by blast
  with h' show ?case by (intro exI [of _ h'']) (auto intro: grows_trans)
qed

text \<open>One node changes, with its votes; all the others and the network keep their invariant.\<close>

lemma set_node_inv:
  assumes "cluster_inv ns h c" and "grows h h'" and "\<forall>j. j \<noteq> i \<longrightarrow> h' j = h j" and "node_inv ns h' i r'"
  shows "cluster_inv ns h' (set_node i r' c)"
  using assms node_inv_grows [of ns h _ _ h'] msg_inv_grows [of ns h _ h']
  by (auto simp: cluster_inv_def set_node_def)

lemma cluster_step_inv:
  assumes "cluster_step ns c c'" and inv: "cluster_inv ns h c"
  shows "\<exists>h'. cluster_inv ns h' c'"
proof -
  have n: "node_inv ns h i (cl_node c i)" if "i \<in> set ns" for i using inv that by (simp add: cluster_inv_def)
  have ns: "distinct ns" "length ns < 2 ^ 32" using inv by (simp_all add: cluster_inv_def)
  have S: "\<exists>h'. cluster_inv ns h' (set_node i r' c)"
    if "step msg (cl_node c i) = Inr (s, r')" "acceptable ns h i msg" "i \<in> set ns" "unat (r_term (cl_node c i)) < 2 ^ 64 - 1"
    for msg i s r'
    using set_node_inv [OF inv, of "note_vote i r' h"] step_inv [OF that(1) n that(2) ns that(3,4)] that(3)
    by (metis note_vote_other)
  from assms(1) show ?thesis
  proof (cases rule: cluster_step.cases)
    case (deliver i msg s r')
    have "msg_inv ns h msg" using deliver(3) inv by (simp add: cluster_inv_def)
    then show ?thesis using S [OF deliver(8)] deliver by (simp add: acceptable_def)
  next
    case (input i msg s r')
    show ?thesis using S [OF input(5) local_acceptable] input by simp
  next
    case (tick i r')
    have "self_move\<^sup>*\<^sup>* (cl_node c i) r'" using tick n [of i] by (intro tick_moves) (auto simp: node_inv_def)
    from self_moves_inv [OF this n ns] tick(2) show ?thesis using set_node_inv [OF inv] tick(1) by auto
  next
    case (ship i r)
    have r: "node_inv ns h i r" using n ship(2,3) by simp
    have "node_inv ns h i (r\<lparr>r_msgs := []\<rparr>)" "\<forall>m \<in> set (r_msgs r). msg_inv ns h m"
      using r by (auto simp: node_inv_def candidacy_inv_def role_ok_def)
    then show ?thesis using inv ship(1) by (intro exI [of _ h]) (auto simp: cluster_inv_def set_node_def)
  qed
qed

lemma starts_inv:
  assumes "starts False ns c"
  shows "cluster_inv ns (\<lambda>i t. if t = r_term (cl_node c i) then r_vote (cl_node c i) else 0) c"
  using assms by (auto simp: starts_def cluster_inv_def node_inv_def candidacy_inv_def Let_def)

lemma cluster_run_inv:
  assumes "(cluster_step ns)\<^sup>*\<^sup>* c c'" and "starts False ns c"
  shows "\<exists>h. cluster_inv ns h c'"
  using assms(1)
proof (induction rule: rtranclp_induct)
  case base
  then show ?case using starts_inv [OF assms(2)] by blast
next
  case (step d e)
  then show ?case using cluster_step_inv by blast
qed

text \<open>
  C2. Election safety: in every run of a cluster with fixed voters and without pre-vote, over a
  network that loses, duplicates and reorders messages at will, two leaders of the same term are the
  same node.
\<close>

theorem election_safety:
  assumes "starts False ns c" and "(cluster_step ns)\<^sup>*\<^sup>* c c'"
    and "i \<in> set ns" and "j \<in> set ns" and "r_state (cl_node c' i) = Leader" and "r_state (cl_node c' j) = Leader"
    and "r_term (cl_node c' i) = r_term (cl_node c' j)"
  shows "i = j"
proof -
  obtain h where h: "cluster_inv ns h c'" using cluster_run_inv [OF assms(2,1)] by blast
  have L: "\<exists>Q. majority ns Q \<and> (\<forall>v \<in> Q. h v (r_term (cl_node c' k)) = k)"
    if "k \<in> set ns" "r_state (cl_node c' k) = Leader" for k
  proof -
    have "node_inv ns h k (cl_node c' k)" using h that(1) by (simp add: cluster_inv_def)
    then show ?thesis using that(2) by (auto simp: node_inv_def candidacy_inv_def)
  qed
  obtain Q Q' where "majority ns Q" "majority ns Q'" "\<And>v. v \<in> Q \<Longrightarrow> h v (r_term (cl_node c' i)) = i"
    "\<And>v. v \<in> Q' \<Longrightarrow> h v (r_term (cl_node c' i)) = j"
    using L [OF assms(3,5)] L [OF assms(4,6)] assms(7) by metis
  then show ?thesis by (rule majorities.one_winner)
qed

definition example_cluster :: "bool \<Rightarrow> Cluster" where
  "example_cluster pre_vote = \<lparr>cl_node = (\<lambda>i. node_example\<lparr>r_id := i, r_term := 1, r_pre_vote := pre_vote\<rparr>), cl_net = []\<rparr>"

lemma example_cluster_starts: "starts pv [1, 2, 3] (example_cluster pv)"
  by (simp add: starts_def example_cluster_def node_example_def role_ok_def Raft_init_def)

definition hup :: "u64 \<Rightarrow> action" where
  "hup i = Input i (Message_default\<lparr>m_type := MsgHup, m_from := i\<rparr>)"

theorem election_safety_witness:
  "(case acts [1, 2, 3] [hup 1, Ship 1, Deliver 0, Ship 2, Deliver 2] (example_cluster False) of
      None \<Rightarrow> False
    | Some c \<Rightarrow> r_state (cl_node c 1) = Leader \<and> r_term (cl_node c 2) = r_term (cl_node c 1) \<and> r_state (cl_node c 2) \<noteq> Leader)"
proof -
  let ?as = "[hup 1, Ship 1, Deliver 0, Ship 2, Deliver 2]"
  let ?c = "the (acts [1, 2, 3] ?as (example_cluster False))"
  have "acts [1, 2, 3] ?as (example_cluster False) \<noteq> None" by code_simp
  then have c: "acts [1, 2, 3] ?as (example_cluster False) = Some ?c" by simp
  have "r_state (cl_node ?c 1) = Leader" by code_simp
  moreover have "r_term (cl_node ?c 2) = r_term (cl_node ?c 1)" by code_simp
  ultimately show ?thesis
    using election_safety [OF example_cluster_starts acts_run [OF c], of 1 2] by (subst c) auto
qed

text \<open>
  C34. With pre-vote the same cluster elects two leaders in one term: both candidates collect pre-vote
  answers, the first one starts the election, and a later one is then counted as a vote.
\<close>

theorem pre_vote_two_leaders:
  "\<exists>c c'. starts True [1, 2, 3] c \<and> (cluster_step [1, 2, 3])\<^sup>*\<^sup>* c c' \<and>
     r_state (cl_node c' 1) = Leader \<and> r_state (cl_node c' 2) = Leader \<and> r_term (cl_node c' 1) = r_term (cl_node c' 2)"
proof -
  let ?as = "[hup 1, Ship 1, hup 2, Ship 2, Deliver 0, Deliver 2, Deliver 1, Deliver 3, Ship 1, Ship 2, Ship 3,
    Deliver 6, Deliver 7, Deliver 5, Deliver 4]"
  let ?o = "acts [1, 2, 3] ?as (example_cluster True)"
  have "(case ?o of None \<Rightarrow> False | Some c \<Rightarrow> r_state (cl_node c 1) = Leader \<and> r_state (cl_node c 2) = Leader \<and>
      r_term (cl_node c 1) = r_term (cl_node c 2))" by code_simp
  then obtain c where "?o = Some c" "r_state (cl_node c 1) = Leader" "r_state (cl_node c 2) = Leader"
    "r_term (cl_node c 1) = r_term (cl_node c 2)" by (auto split: option.splits)
  then show ?thesis using example_cluster_starts acts_run by blast
qed

end
