(* ===== verification/Refinement.thy ===== *)
theory Refinement
  imports Protocol_Steps Log_View Cluster
begin

text \<open>
  The class \<^verbatim>\<open>Raft\<close> implements the protocol: \<open>node_view\<close> relates the members of the class to an abstract
  node, \<open>msg_view\<close> a message of the code to what it says, and every operation is a sequence of actions
  of the protocol. Pre-vote is off (with it the code does not implement the protocol, see
  \<open>pre_vote_two_leaders\<close>) and the voters are fixed.
\<close>

section \<open>Representation\<close>

text \<open>What the leader knows of a follower stays inside its own log.\<close>

definition prog_ok :: "nat \<Rightarrow> Progress \<Rightarrow> bool" where
  "prog_ok n p \<longleftrightarrow> unat (pr_match p) \<le> n \<and> 0 < unat (pr_next p) \<and> unat (pr_next p) \<le> n + 1 \<and> unat (pr_pending_snapshot p) \<le> n"

text \<open>Snapshots name the voters.\<close>

definition snap_conf :: "u64 list \<Rightarrow> Snapshot \<Rightarrow> bool" where
  "snap_conf ns s \<longleftrightarrow> sm_index (s_metadata s) = 0 \<or>
     set (cs_nodes (sm_conf_state (s_metadata s))) = set ns \<and> cs_learners (sm_conf_state (s_metadata s)) = []"

definition snaps_conf :: "u64 list \<Rightarrow> RaftLog \<Rightarrow> bool" where
  "snaps_conf ns l \<longleftrightarrow> snap_conf ns (ms_snap (rl_storage l)) \<and> (\<forall>s. u_snapshot (rl_unstable l) = Some s \<longrightarrow> snap_conf ns s)"

lemma snaps_conf_cong:
  "snaps_conf ns l \<Longrightarrow> u_snapshot (rl_unstable l') = u_snapshot (rl_unstable l) \<Longrightarrow> rl_storage l' = rl_storage l \<Longrightarrow> snaps_conf ns l'"
  by (simp add: snaps_conf_def)

lemma snaps_conf_commit [simp]: "snaps_conf ns (l\<lparr>rl_committed := c\<rparr>) = snaps_conf ns l"
  by (simp add: snaps_conf_def)

lemma snaps_conf_commit_to: "snaps_conf ns l \<Longrightarrow> commit_to c l = Inr l' \<Longrightarrow> snaps_conf ns l'"
  by (auto simp: commit_to_def split: if_splits)

lemma commit_to_applied: "commit_to c l = Inr l' \<Longrightarrow> rl_applied l' = rl_applied l"
  by (auto simp: commit_to_def split: if_splits)

lemma snaps_conf_snapshot: "snaps_conf ns l \<Longrightarrow> snap_conf ns (log_snapshot l)"
  by (simp add: snaps_conf_def log_snapshot_def ms_snapshot_def split: option.splits)

definition node_view :: "u64 list \<Rightarrow> u64 \<Rightarrow> Raft \<Rightarrow> pnode \<Rightarrow> bool" where
  "node_view ns i r p \<longleftrightarrow> r_id r = i \<and> \<not> r_pre_vote r \<and> r_state r = pn_role p \<and> r_state r \<noteq> PreCandidate \<and>
     r_term r = pn_term p \<and> r_term r \<noteq> 0 \<and> r_vote r = pn_vote p \<and>
     distinct (map fst (r_prs r)) \<and> set (map fst (r_prs r)) = set ns \<and>
     log_view (r_raft_log r) (pn_log p) \<and> snaps_conf ns (r_raft_log r) \<and>
     unat (rl_committed (r_raft_log r)) = pn_commit p \<and> unat (rl_applied (r_raft_log r)) = pn_applied p \<and>
     (r_state r = Candidate \<longrightarrow> distinct (map fst (r_votes r)) \<and> supporters (r_votes r) \<subseteq> pn_votes p) \<and>
     (r_state r = Leader \<longrightarrow> (\<forall>(v, q) \<in> set (r_prs r). unat (pr_match q) = pn_match p v \<and> prog_ok (length (pn_log p)) q))"

definition app_view :: "world \<Rightarrow> Message \<Rightarrow> bool" where
  "app_view w m \<longleftrightarrow> (\<exists>g. App (m_term m) g (unat (m_index m)) (unat (m_commit m)) \<in> w_msgs w \<and>
     m_entries m = drop (unat (m_index m)) g \<and> m_log_term m = tm g (unat (m_index m)) \<and> unat (m_index m) \<le> length g \<and>
     contiguous 1 g \<and> (\<forall>e \<in> set g. e_term e \<noteq> 0) \<and> length g < 2 ^ 64 - 1)"

text \<open>A snapshot stands for the log up to its position, which the leader had committed.\<close>

definition snap_view :: "u64 list \<Rightarrow> world \<Rightarrow> Message \<Rightarrow> bool" where
  "snap_view ns w m \<longleftrightarrow> (\<exists>g c. App (m_term m) g 0 c \<in> w_msgs w \<and> length g = unat (sm_index (s_metadata (m_snapshot m))) \<and>
     length g \<le> c \<and> sm_term (s_metadata (m_snapshot m)) = tm g (length g) \<and>
     contiguous 1 g \<and> (\<forall>e \<in> set g. e_term e \<noteq> 0) \<and> snap_conf ns (m_snapshot m))"

definition msg_view :: "u64 list \<Rightarrow> world \<Rightarrow> Message \<Rightarrow> bool" where
  "msg_view ns w m \<longleftrightarrow> m_from m \<in> set ns \<and> (case m_type m of
       MsgApp \<Rightarrow> m_term m \<noteq> 0 \<and> (m_to m \<in> set ns \<longrightarrow> app_view w m)
     | MsgAppResp \<Rightarrow> m_term m \<noteq> 0 \<and> (m_reject m \<or> m_index m = 0 \<or> Ack (m_term m) (m_from m) (unat (m_index m)) \<in> w_msgs w)
     | MsgHeartbeat \<Rightarrow> m_term m \<noteq> 0 \<and> (m_to m \<in> set ns \<longrightarrow> Beat (m_term m) (m_to m) (unat (m_commit m)) \<in> w_msgs w)
     | MsgVote \<Rightarrow> m_term m \<noteq> 0 \<and> VoteReq (m_term m) (m_from m) (unat (m_index m)) (m_log_term m) \<in> w_msgs w
     | MsgVoteResp \<Rightarrow> m_term m \<noteq> 0 \<and> (m_reject m \<or> VoteOk (m_term m) (m_from m) (m_to m) \<in> w_msgs w)
     | MsgSnap \<Rightarrow> m_term m \<noteq> 0 \<and> snap_view ns w m
     | MsgPreVote \<Rightarrow> False
     | MsgPreVoteResp \<Rightarrow> False
     | _ \<Rightarrow> True)"

definition sim :: "u64 list \<Rightarrow> u64 \<Rightarrow> u64 \<Rightarrow> world \<Rightarrow> Raft \<Rightarrow> bool" where
  "sim ns t0 i w r \<longleftrightarrow> pinv ns t0 w \<and> i \<in> set ns \<and> length ns < 2 ^ 32 \<and> node_view ns i r (w_node w i) \<and>
     (\<forall>m \<in> set (r_msgs r). msg_view ns w m)"

text \<open>The protocol has actions of the node that lead to a state the new state of the code represents.\<close>

definition reaches :: "u64 list \<Rightarrow> u64 \<Rightarrow> u64 \<Rightarrow> world \<Rightarrow> Raft \<Rightarrow> bool" where
  "reaches ns t0 i w r \<longleftrightarrow> (\<exists>w'. (pstep ns i)\<^sup>*\<^sup>* w w' \<and> sim ns t0 i w' r)"

lemma pstep_msgs: "pstep ns i w w' \<Longrightarrow> w_msgs w \<subseteq> w_msgs w'"
  by (cases rule: pstep.cases) auto

lemma psteps_msgs: "(pstep ns i)\<^sup>*\<^sup>* w w' \<Longrightarrow> w_msgs w \<subseteq> w_msgs w'"
  by (induction rule: rtranclp_induct) (auto dest: pstep_msgs)

lemma psteps_others: "(pstep ns i)\<^sup>*\<^sup>* w w' \<Longrightarrow> j \<noteq> i \<Longrightarrow> w_node w' j = w_node w j"
  by (induction rule: rtranclp_induct) (auto simp: pstep_others)

lemma msg_view_mono: "msg_view ns w m \<Longrightarrow> w_msgs w \<subseteq> w_msgs w' \<Longrightarrow> msg_view ns w' m"
  by (auto simp: msg_view_def app_view_def snap_view_def split: MessageType.splits)

lemma sim_reaches: "sim ns t0 i w r \<Longrightarrow> reaches ns t0 i w r"
  by (auto simp: reaches_def)

lemma reaches_more: "(pstep ns i)\<^sup>*\<^sup>* w w' \<Longrightarrow> reaches ns t0 i w' r \<Longrightarrow> reaches ns t0 i w r"
  by (auto simp: reaches_def intro: rtranclp_trans)

lemma reaches_bind:
  assumes "reaches ns t0 i w r"
    and "\<And>w'. sim ns t0 i w' r \<Longrightarrow> w_msgs w \<subseteq> w_msgs w' \<Longrightarrow> reaches ns t0 i w' r'"
  shows "reaches ns t0 i w r'"
  using assms psteps_msgs reaches_more unfolding reaches_def by meson

lemma reaches_sim:
  assumes "reaches ns t0 i w r" and "\<And>w'. sim ns t0 i w' r \<Longrightarrow> sim ns t0 i w' r'"
  shows "reaches ns t0 i w r'"
  using assms unfolding reaches_def by blast

lemma simD:
  assumes "sim ns t0 i w r"
  shows "pinv ns t0 w" and "i \<in> set ns" and "length ns < 2 ^ 32" and "node_view ns i r (w_node w i)"
    and "m \<in> set (r_msgs r) \<Longrightarrow> msg_view ns w m"
  using assms by (simp_all add: sim_def)

lemma node_viewD:
  assumes "node_view ns i r p"
  shows "r_id r = i" and "\<not> r_pre_vote r" and "r_state r = pn_role p" and "r_state r \<noteq> PreCandidate"
    and "r_term r = pn_term p" and "r_term r \<noteq> 0" and "r_vote r = pn_vote p" and "distinct (map fst (r_prs r))"
    and "set (map fst (r_prs r)) = set ns" and "log_view (r_raft_log r) (pn_log p)"
    and "unat (rl_committed (r_raft_log r)) = pn_commit p"
    and "r_state r = Candidate \<Longrightarrow> distinct (map fst (r_votes r)) \<and> supporters (r_votes r) \<subseteq> pn_votes p"
    and "r_state r = Leader \<Longrightarrow> (v, q) \<in> set (r_prs r) \<Longrightarrow> unat (pr_match q) = pn_match p v \<and> prog_ok (length (pn_log p)) q"
    and "snaps_conf ns (r_raft_log r)" and "unat (rl_applied (r_raft_log r)) = pn_applied p"
  using assms unfolding node_view_def by blast+

text \<open>Members of the class that the protocol does not know.\<close>

lemma node_view_frame [simp]:
  "node_view ns i (r\<lparr>r_msgs := ms\<rparr>) p = node_view ns i r p" "node_view ns i (r\<lparr>r_read_states := a\<rparr>) p = node_view ns i r p"
  "node_view ns i (r\<lparr>r_match_buf := b\<rparr>) p = node_view ns i r p" "node_view ns i (r\<lparr>r_lead := l\<rparr>) p = node_view ns i r p"
  "node_view ns i (r\<lparr>r_lead_transferee := l\<rparr>) p = node_view ns i r p"
  "node_view ns i (r\<lparr>r_pending_conf_index := l\<rparr>) p = node_view ns i r p"
  "node_view ns i (r\<lparr>r_uncommitted_size := l\<rparr>) p = node_view ns i r p" "node_view ns i (r\<lparr>r_read_only := ro\<rparr>) p = node_view ns i r p"
  "node_view ns i (r\<lparr>r_election_elapsed := e\<rparr>) p = node_view ns i r p" "node_view ns i (r\<lparr>r_heartbeat_elapsed := e\<rparr>) p = node_view ns i r p"
  "node_view ns i (r\<lparr>r_learner_prs := lp\<rparr>) p = node_view ns i r p"
  by (simp_all add: node_view_def)

lemma sim_frame [simp]:
  "sim ns t0 i w (r\<lparr>r_read_states := a\<rparr>) = sim ns t0 i w r"
  "sim ns t0 i w (r\<lparr>r_match_buf := b\<rparr>) = sim ns t0 i w r" "sim ns t0 i w (r\<lparr>r_lead := l\<rparr>) = sim ns t0 i w r"
  "sim ns t0 i w (r\<lparr>r_lead_transferee := l\<rparr>) = sim ns t0 i w r" "sim ns t0 i w (r\<lparr>r_pending_conf_index := l\<rparr>) = sim ns t0 i w r"
  "sim ns t0 i w (r\<lparr>r_uncommitted_size := l\<rparr>) = sim ns t0 i w r" "sim ns t0 i w (r\<lparr>r_read_only := ro\<rparr>) = sim ns t0 i w r"
  "sim ns t0 i w (r\<lparr>r_election_elapsed := e\<rparr>) = sim ns t0 i w r" "sim ns t0 i w (r\<lparr>r_heartbeat_elapsed := e\<rparr>) = sim ns t0 i w r"
  "sim ns t0 i w (r\<lparr>r_learner_prs := lp\<rparr>) = sim ns t0 i w r"
  by (simp_all add: sim_def)

lemma sim_abort [simp]: "sim ns t0 i w (abort_leader_transfer r) = sim ns t0 i w r"
  by (simp add: abort_leader_transfer_def)

text \<open>One action of the protocol, with the messages it justifies.\<close>

lemma reaches_step:
  assumes "sim ns t0 i w r" and "pstep ns i w w'" and "node_view ns i r' (w_node w' i)"
    and "\<And>m. m \<in> set (r_msgs r') \<Longrightarrow> m \<in> set (r_msgs r) \<or> msg_view ns w' m"
  shows "reaches ns t0 i w r'"
proof -
  have "pinv ns t0 w'" using pstep_inv [OF assms(2)] assms(1) by (simp add: sim_def)
  moreover have "msg_view ns w' m" if "m \<in> set (r_msgs r')" for m
    using assms(4) [OF that] assms(1) msg_view_mono [OF _ pstep_msgs [OF assms(2)]] by (auto simp: sim_def)
  ultimately have "sim ns t0 i w' r'" using assms(1,3) by (simp add: sim_def)
  then show ?thesis using assms(2) by (auto simp: reaches_def)
qed

lemma sim_send:
  assumes "sim ns t0 i w r" and "send m r = Inr r'" and "msg_view ns w (stamped m r)"
  shows "sim ns t0 i w r'"
  using assms by (auto simp: send_eq sim_def)

text \<open>Messages that say nothing to the protocol.\<close>

definition inert :: "Message \<Rightarrow> bool" where
  "inert m \<longleftrightarrow> m_type m \<notin> {MsgApp, MsgAppResp, MsgHeartbeat, MsgVote, MsgVoteResp, MsgSnap, MsgPreVote, MsgPreVoteResp} \<or>
     m_type m = MsgAppResp \<and> (m_reject m \<or> m_index m = 0)"

lemma inert_view:
  assumes "sim ns t0 i w r" and "inert m"
  shows "msg_view ns w (stamped m r)"
  using assms node_viewD(1,6) [OF simD(4) [OF assms(1)]] simD(2) [OF assms(1)]
  by (auto simp: inert_def msg_view_def stamped_def is_vote_msg_def split: MessageType.splits)

lemma sim_send_inert: "sim ns t0 i w r \<Longrightarrow> send m r = Inr r' \<Longrightarrow> inert m \<Longrightarrow> sim ns t0 i w r'"
  using sim_send inert_view by blast

lemma reaches_loop:
  assumes "loop_r f xs r = Inr r'" and "sim ns t0 i w r" and "P r"
    and "\<And>x w s s'. x \<in> set xs \<Longrightarrow> sim ns t0 i w s \<Longrightarrow> P s \<Longrightarrow> f x s = Inr s' \<Longrightarrow> reaches ns t0 i w s' \<and> P s'"
  shows "reaches ns t0 i w r'"
  using assms
proof (induction xs arbitrary: r w)
  case Nil
  then show ?case by (simp add: sim_reaches)
next
  case (Cons x xs)
  then obtain s where s: "f x r = Inr s" "loop_r f xs s = Inr r'" by auto
  have r: "reaches ns t0 i w s" "P s" using Cons.prems s(1) by auto
  have "reaches ns t0 i w' r'" if "sim ns t0 i w' s" for w'
    by (rule Cons.IH [OF s(2) that r(2)]) (use Cons.prems(4) in auto)
  then show ?case using reaches_bind [OF r(1)] by blast
qed

section \<open>Sending\<close>

lemma set_update_distinct:
  assumes "(v, x) \<in> set (AList.update k q al)" and "distinct (map fst al)"
  shows "v = k \<and> x = q \<or> v \<noteq> k \<and> (v, x) \<in> set al"
  using assms by (induction al) (auto split: if_splits simp: image_iff)

lemma get_voter:
  assumes "node_view ns i r p" and "k \<in> set ns" and "get_progress k r = Some q"
  shows "(k, q) \<in> set (r_prs r)"
proof -
  have "map_of (r_prs r) k \<noteq> None" using assms(1,2) by (auto simp: node_view_def map_of_eq_None_iff)
  then show ?thesis using assms(3) by (auto simp: get_progress_def dest: map_of_SomeD)
qed

lemma sim_put:
  assumes "sim ns t0 i w r"
    and "r_state r = Leader \<Longrightarrow> k \<in> set ns \<Longrightarrow> unat (pr_match q) = pn_match (w_node w i) k \<and> prog_ok (length (nlog w i)) q"
  shows "sim ns t0 i w (put_progress k q r)"
proof (cases "map_of (r_prs r) k = None")
  case True
  then show ?thesis using assms(1) by (simp add: put_progress_def)
next
  case False
  note N = node_viewD [OF simD(4) [OF assms(1)]]
  have k: "k \<in> set ns" using False N(9) by (metis map_of_eq_None_iff list.set_map)
  have keys: "map fst (AList.update k q (r_prs r)) = map fst (r_prs r)" using False by (intro update_keys_mem) simp
  have "unat (pr_match x) = pn_match (w_node w i) v \<and> prog_ok (length (nlog w i)) x"
    if "r_state r = Leader" "(v, x) \<in> set (AList.update k q (r_prs r))" for v x
    using set_update_distinct [OF that(2) N(8)] assms(2) [OF that(1) k] N(13) [OF that(1)] by blast
  then have "node_view ns i (r\<lparr>r_prs := AList.update k q (r_prs r)\<rparr>) (w_node w i)"
    using simD(4) [OF assms(1)] keys unfolding node_view_def by auto
  then show ?thesis using assms(1) False by (auto simp: put_progress_def sim_def)
qed

lemma put_same: "get_progress k r = Some p \<Longrightarrow> put_progress k p r = r"
proof -
  have "AList.update k p al = al" if "map_of al k = Some p" for al :: "(u64 \<times> Progress) list"
    using that by (induction al) auto
  then show "get_progress k r = Some p \<Longrightarrow> put_progress k p r = r"
    by (auto simp: get_progress_def put_progress_def split: option.splits)
qed

text \<open>A progress whose match is untouched.\<close>

lemma sim_put_match:
  assumes "sim ns t0 i w r" and "get_progress k r = Some p" and "pr_match q = pr_match p"
    and "\<And>n. prog_ok n p \<Longrightarrow> n = length (nlog w i) \<Longrightarrow> k \<in> set ns \<Longrightarrow> prog_ok n q"
  shows "sim ns t0 i w (put_progress k q r)"
proof (rule sim_put [OF assms(1)])
  assume l: "r_state r = Leader" and k: "k \<in> set ns"
  have "(k, p) \<in> set (r_prs r)" using get_voter [OF simD(4) [OF assms(1)] k assms(2)] .
  then show "unat (pr_match q) = pn_match (w_node w i) k \<and> prog_ok (length (nlog w i)) q"
    using node_viewD(13) [OF simD(4) [OF assms(1)] l] assms(3,4) k by metis
qed

lemma note_sent_ok:
  assumes "note_sent es p = Inr q" and "prog_ok n p" and "es \<noteq> [] \<Longrightarrow> unat (e_index (last es)) \<le> n" and "n < 2 ^ 64 - 1"
  shows "prog_ok n q"
proof -
  have "unat (e_index (last es) + 1) = unat (e_index (last es)) + 1" if "es \<noteq> []"
    using assms(3) [OF that] assms(4) by (intro unat_succ64) simp
  then show ?thesis
    using assms by (auto simp: note_sent_def prog_ok_def optimistic_update_def set_pause_def Let_def split: if_splits ProgressState.splits)
qed

lemma note_sent_match: "note_sent es p = Inr q \<Longrightarrow> pr_match q = pr_match p"
  by (auto simp: note_sent_def optimistic_update_def set_pause_def Let_def split: if_splits ProgressState.splits)

lemma maybe_send_append_reaches:
  assumes "maybe_send_append to b r = Inr (s, r')" and sm: "sim ns t0 i w r" and ld: "r_state r = Leader"
  shows "reaches ns t0 i w r'"
  using assms(1)
proof (cases rule: maybe_send_append_cases)
  case nothing
  then show ?thesis using sm by (simp add: sim_reaches)
next
  case (snap p)
  let ?n = "length (nlog w i)"
  let ?q = "become_snapshot (sm_index (s_metadata (log_snapshot (r_raft_log r)))) p"
  note N = node_viewD [OF simD(4) [OF sm]]
  let ?l = "r_raft_log r"
  let ?k = "unat (sm_index (s_metadata (log_snapshot ?l)))" and ?m = "Message_default\<lparr>m_to := to, m_type := MsgSnap, m_snapshot := log_snapshot ?l\<rparr>"
  note L = log_viewD [OF N(10)] and S = view_snapshot [OF N(10)]
  have s1: "sim ns t0 i w (put_progress to ?q r)"
    using S L(9)
    by (intro sim_put_match [OF sm snap(2)]) (auto simp: become_snapshot_def reset_state_def prog_ok_def)
  let ?r = "put_progress to ?q r"
  have P: "r_id ?r = i" "r_term ?r = nterm w i" "r_term r \<noteq> 0"
    using only_sends_eqs(1,2) [OF put_progress_only_sends [of r to ?q]] N by simp_all
  let ?w = "tell (App (nterm w i) (take ?k (nlog w i)) 0 (pn_commit (w_node w i))) w"
  have k: "?k \<le> length (nlog w i)" using S(1) L(9) by simp
  have st: "pstep ns i w ?w" using ld N(3) k by (intro pstep.send [OF refl]) auto
  have "\<forall>e \<in> set (take ?k (nlog w i)). e_term e \<noteq> 0" using L(5) by (auto dest: in_set_takeD)
  then have "snap_view ns ?w (stamped ?m ?r)"
    using P(2) S k N(11) contiguous_take [OF L(4), of ?k] snaps_conf_snapshot [OF N(14)] unfolding snap_view_def
    by (intro exI [of _ "take ?k (nlog w i)"] exI [of _ "pn_commit (w_node w i)"]) (simp add: stamped_def is_vote_msg_def tm_take)
  then have "msg_view ns ?w (stamped ?m ?r)"
    using P N(5) simD(2) [OF sm] by (simp add: msg_view_def stamped_def is_vote_msg_def)
  then show ?thesis
    using snap(4) simD(4) [OF s1] by (intro reaches_step [OF s1 st]) (auto simp: send_eq)
next
  case (app p q es t)
  let ?g = "nlog w i" and ?l = "r_raft_log r" and ?n = "pr_next p - 1"
  let ?m = "Message_default\<lparr>m_to := to, m_type := MsgApp, m_index := ?n, m_log_term := t, m_entries := es,
      m_commit := rl_committed ?l\<rparr>"
  note N = node_viewD [OF simD(4) [OF sm]] and L = log_viewD [OF N(10)]
  show ?thesis
  proof (cases "to \<in> set ns")
    case False
    then have "sim ns t0 i w (put_progress to q r)" by (intro sim_put [OF sm]) auto
    then show ?thesis using app(8) False N(1,6) simD(2) [OF sm] only_sends_eqs [OF put_progress_only_sends [of r to q]]
      by (intro sim_reaches) (erule sim_send, auto simp: msg_view_def stamped_def is_vote_msg_def)
  next
    case True
    have ok: "prog_ok (length ?g) p" using N(13) [OF ld get_voter [OF simD(4) [OF sm] True app(2)]] by blast
    obtain x where x: "es = take x (drop (unat (pr_next p) - 1) ?g)" "unat (pr_next p) - 1 + length es \<le> length ?g"
      "log_base ?l < unat (pr_next p)"
      using view_entries_from [OF N(10) app(6)] ok unfolding prog_ok_def by blast
    have n: "unat ?n = unat (pr_next p) - 1" using ok by (intro unat_pred64) (simp add: prog_ok_def)
    have t: "t = tm ?g (unat ?n)" using app(5) term_of_eq [OF L(2), of ?n] view_term_at [OF N(10)] x(3) n by simp
    let ?h = "take (unat ?n + length es) ?g"
    have "es = take (length es) (drop (unat ?n) ?g)"
      using x(1) n by (cases "x \<le> length ?g - (unat (pr_next p) - 1)") auto
    then have es: "es = drop (unat ?n) ?h" by (simp add: drop_take)
    have hl: "length ?h = unat ?n + length es" using x(2) n by simp
    have la: "unat (e_index (last es)) \<le> length ?g" if "es \<noteq> []"
    proof -
      have "contiguous (1 + unat ?n) es" using contiguous_drop [OF contiguous_take [OF L(4)], of "unat ?n"] es by metis
      then show ?thesis using contiguous_last [OF _ that, of "1 + unat ?n"] x(2) n by simp
    qed
    have s1: "sim ns t0 i w (put_progress to q r)"
      using note_sent_ok [OF app(7)] la L(10) by (intro sim_put_match [OF sm app(2) note_sent_match [OF app(7)]]) auto
    let ?r = "put_progress to q r"
    have P: "r_id ?r = i" "r_term ?r = nterm w i" "r_term r \<noteq> 0"
      using only_sends_eqs(1,2) [OF put_progress_only_sends [of r to q]] N by simp_all
    have st: "pstep ns i w (tell (App (nterm w i) ?h (unat ?n) (pn_commit (w_node w i))) w)"
      using ld N(3) x(2) n by (intro pstep.send [OF refl]) auto
    have "msg_view ns (tell (App (nterm w i) ?h (unat ?n) (pn_commit (w_node w i))) w) (stamped ?m ?r)"
      using P N es t hl x(2) n L(4,5,10) simD(2) [OF sm] contiguous_take [OF L(4), of "unat ?n + length es"]
      by (auto simp: msg_view_def app_view_def stamped_def is_vote_msg_def tm_take dest: in_set_takeD intro!: exI [of _ ?h])
    then show ?thesis
      using app(8) simD(4) [OF s1] by (intro reaches_step [OF s1 st]) (auto simp: send_eq)
  qed
qed

lemma send_append_reaches:
  "send_append to r = Inr r' \<Longrightarrow> sim ns t0 i w r \<Longrightarrow> r_state r = Leader \<Longrightarrow> reaches ns t0 i w r'"
  by (auto simp: send_append_def intro: maybe_send_append_reaches)

lemma send_append_loop_reaches:
  "send_append_loop to r = Inr r' \<Longrightarrow> sim ns t0 i w r \<Longrightarrow> r_state r = Leader \<Longrightarrow> reaches ns t0 i w r'"
proof (induction to r arbitrary: w r' rule: send_append_loop.induct)
  case (1 to r)
  from 1(2) obtain b s where b: "maybe_send_append to False r = Inr (b, s)"
    and rest: "(if b then send_append_loop to s else Inr s) = Inr r'"
    by (subst (asm) send_append_loop.simps) auto
  have l: "r_state s = Leader" using only_sends_eqs(5) [OF sending.R_maybe_send_append [OF b]] 1(4) by simp
  have "reaches ns t0 i w s" using b 1(3,4) by (rule maybe_send_append_reaches)
  moreover have "reaches ns t0 i w' r'" if "sim ns t0 i w' s" for w'
    using rest 1(1) [OF b refl] that l by (cases b) (auto intro: sim_reaches)
  ultimately show ?case by (rule reaches_bind)
qed

lemma bcast_append_reaches:
  assumes "bcast_append r = Inr r'" and "sim ns t0 i w r" and "r_state r = Leader"
  shows "reaches ns t0 i w r'"
  using assms(1) unfolding bcast_append_def
proof (rule reaches_loop [where P = "\<lambda>r. r_state r = Leader"])
  fix x w s s' assume s: "sim ns t0 i w s" "r_state s = Leader" and f: "(if x = r_id s then Inr s else send_append x s) = Inr s'"
  show "reaches ns t0 i w s' \<and> r_state s' = Leader"
  proof (cases "x = r_id s")
    case True
    then show ?thesis using f s by (auto intro: sim_reaches)
  next
    case False
    then have "send_append x s = Inr s'" using f by simp
    then show ?thesis using send_append_reaches s only_sends_eqs(5) [OF sending.R_send_append] by auto
  qed
qed (rule assms)+

lemma send_heartbeat_reaches:
  assumes "send_heartbeat to ctx r = Inr r'" and sm: "sim ns t0 i w r" and ld: "r_state r = Leader"
  shows "reaches ns t0 i w r'"
proof -
  note N = node_viewD [OF simD(4) [OF sm]]
  obtain p where p: "get_progress to r = Some p"
    and s: "send (Message_default\<lparr>m_to := to, m_type := MsgHeartbeat,
             m_commit := min (pr_match p) (rl_committed (r_raft_log r)), m_context := ctx\<rparr>) r = Inr r'" (is "send ?m r = _")
    using assms(1) by (auto simp: send_heartbeat_def)
  show ?thesis
  proof (cases "to \<in> set ns")
    case False
    then have "msg_view ns w (stamped ?m r)" using N(1,6) simD(2) [OF sm] by (simp add: msg_view_def stamped_def is_vote_msg_def)
    then show ?thesis using sim_send [OF sm s] by (simp add: sim_reaches)
  next
    case True
    have c: "unat (min (pr_match p) (rl_committed (r_raft_log r))) = min (pn_match (w_node w i) to) (pn_commit (w_node w i))"
      using N(11) N(13) [OF ld get_voter [OF simD(4) [OF sm] True p]] by simp
    have st: "pstep ns i w (tell (Beat (nterm w i) to (min (pn_match (w_node w i) to) (pn_commit (w_node w i)))) w)"
      using ld N(3) by (intro pstep.beat [OF refl]) simp
    show ?thesis
      using s simD(4) [OF sm] N c simD(2) [OF sm]
      by (intro reaches_step [OF sm st]) (auto simp: send_eq msg_view_def stamped_def is_vote_msg_def)
  qed
qed

lemma bcast_heartbeat_reaches:
  assumes "bcast_heartbeat_with_ctx ctx r = Inr r'" and "sim ns t0 i w r" and "r_state r = Leader"
  shows "reaches ns t0 i w r'"
  using assms(1) unfolding bcast_heartbeat_with_ctx_def
proof (rule reaches_loop [where P = "\<lambda>r. r_state r = Leader"])
  fix x w s s' assume s: "sim ns t0 i w s" "r_state s = Leader" and f: "(if x = r_id s then Inr s else send_heartbeat x ctx s) = Inr s'"
  show "reaches ns t0 i w s' \<and> r_state s' = Leader"
  proof (cases "x = r_id s")
    case True
    then show ?thesis using f s by (auto intro: sim_reaches)
  next
    case False
    then have "send_heartbeat x ctx s = Inr s'" using f by simp
    then show ?thesis using send_heartbeat_reaches s only_sends_eqs(5) [OF sending.R_send_heartbeat] by auto
  qed
qed (rule assms)+

section \<open>Committing and appending\<close>

lemma quorum_match_majority:
  assumes "node_view ns i r p" and "r_state r = Leader" and "distinct ns" and "length ns < 2 ^ 32" and "quorum_match r n"
  shows "majority ns {v \<in> set ns. unat n \<le> pn_match p v}"
proof -
  note N = node_viewD [OF assms(1)]
  let ?f = "filter (\<lambda>(_, q). n \<le> pr_match q) (r_prs r)"
  have len: "length (r_prs r) = length ns" using N(8,9) assms(3) by (metis distinct_card length_map)
  have "set (map fst ?f) \<subseteq> {v \<in> set ns. unat n \<le> pn_match p v}"
    using N(9) N(13) [OF assms(2)] by (force simp: word_le_nat_alt)
  then have "card (set (map fst ?f)) \<le> card {v \<in> set ns. unat n \<le> pn_match p v}" by (intro card_mono) auto
  moreover have "card (set (map fst ?f)) = length ?f" using distinct_map_filter [OF N(8)] distinct_card by fastforce
  ultimately show ?thesis
    using assms(3,5) len unfolding majority_def quorum_match_def by auto
qed

lemma maybe_commit_reaches:
  assumes "maybe_commit r = Inr (b, r')" and sm: "sim ns t0 i w r" and ld: "r_state r = Leader"
  shows "reaches ns t0 i w r'"
proof -
  note N = node_viewD [OF simD(4) [OF sm]] and L = log_viewD [OF N(10)]
  have d: "distinct ns" using votes_invD(1) [OF pinvD(1) [OF simD(1) [OF sm]]] .
  have len: "length (r_prs r) = length ns" using N(8,9) d by (metis distinct_card length_map)
  have ne: "r_prs r \<noteq> []" using N(9) simD(2) [OF sm] by auto
  let ?buf = "sort (map (\<lambda>(_, p). pr_match p) (r_prs r))"
  obtain mci where q: "\<And>n. quorum_match r n \<longleftrightarrow> n \<le> mci" and m: "maybe_commit r =
       Inr (if rl_committed (r_raft_log r) < mci \<and> term_at (r_raft_log r) (unat mci) = r_term r
            then (True, r\<lparr>r_match_buf := ?buf, r_raft_log := (r_raft_log r)\<lparr>rl_committed := mci\<rparr>\<rparr>)
            else (False, r\<lparr>r_match_buf := ?buf\<rparr>))"
    using maybe_commit_spec [OF L(1) N(6) ne] len simD(3) [OF sm] by auto
  show ?thesis
  proof (cases "rl_committed (r_raft_log r) < mci \<and> term_at (r_raft_log r) (unat mci) = r_term r")
    case False
    then show ?thesis using m assms(1) sm by (auto intro: sim_reaches)
  next
    case True
    then have c: "unat (rl_committed (r_raft_log r)) < unat mci" by (simp add: word_less_nat_alt)
    then have t: "tm (nlog w i) (unat mci) = nterm w i" using True view_term_at [OF N(10), of "unat mci"] L(8) N(5) by simp
    then have k: "unat mci \<le> length (nlog w i)" using N(5,6) by (auto simp: tm_def split: if_splits)
    have r': "r' = r\<lparr>r_match_buf := ?buf, r_raft_log := (r_raft_log r)\<lparr>rl_committed := mci\<rparr>\<rparr>" using m assms(1) True by simp
    have "majority ns {v \<in> set ns. unat mci \<le> pn_match (w_node w i) v}"
      using quorum_match_majority [OF simD(4) [OF sm] ld d simD(3) [OF sm]] q by simp
    then have st: "pstep ns i w (put i ((w_node w i)\<lparr>pn_commit := unat mci\<rparr>) w)"
      using ld N(3,11) c k t by (intro pstep.commit [OF refl]) auto
    have "log_view ((r_raft_log r)\<lparr>rl_committed := mci\<rparr>) (nlog w i)" using N(10) c k by (intro view_commit) auto
    then show ?thesis
      using simD(4) [OF sm] by (intro reaches_step [OF sm st]) (auto simp: r' node_view_def)
  qed
qed

lemma stamp_contiguous:
  "unat li + length es < 2 ^ 64 - 1 \<Longrightarrow> contiguous (Suc (unat li)) (stamp_entries t li es)"
proof (induction es arbitrary: li)
  case (Cons e es)
  have u: "unat (li + 1) = Suc (unat li)" using Cons.prems by (subst unat_succ64) auto
  then show ?case using Cons.IH [of "li + 1"] Cons.prems by simp
qed simp

lemma stamp_length [simp]: "length (stamp_entries t li es) = length es"
  by (induction es arbitrary: li) auto

lemma stamp_terms: "e \<in> set (stamp_entries t li es) \<Longrightarrow> e_term e = t"
  by (induction es arbitrary: li) auto

lemma prog_ok_mono: "prog_ok n p \<Longrightarrow> n \<le> m \<Longrightarrow> prog_ok m p"
  by (auto simp: prog_ok_def)

lemma maybe_update_ok:
  assumes "prog_ok n p" and "unat k \<le> n" and "n < 2 ^ 64 - 1"
  shows "prog_ok n (snd (maybe_update k p))" and "unat (pr_match (snd (maybe_update k p))) = max (unat (pr_match p)) (unat k)"
proof -
  have "unat (k + 1) = unat k + 1" using assms(2,3) by (intro unat_succ64) simp
  then show "prog_ok n (snd (maybe_update k p))"
    using assms by (auto simp: maybe_update_def prog_ok_def resume_def Let_def word_less_nat_alt)
  show "unat (pr_match (snd (maybe_update k p))) = max (unat (pr_match p)) (unat k)"
    by (auto simp: maybe_update_def resume_def Let_def word_less_nat_alt)
qed

text \<open>Entries of the leader, appended to its log and counted as its own.\<close>

lemma append_stamped_reaches:
  assumes sm: "sim ns t0 i w r" and ld: "r_state r = Leader" and ne: "es \<noteq> []"
    and room: "length (nlog w i) + length es < 2 ^ 64 - 1"
    and es: "ents = stamp_entries (r_term r) (last_index (r_raft_log r)) es"
    and l: "log_append ents (r_raft_log r) = Inr (li, l)" and p: "get_progress i r = Some p"
  shows "reaches ns t0 i w (put_progress i (snd (maybe_update li p)) (r\<lparr>r_raft_log := l\<rparr>))"
proof -
  note N = node_viewD [OF simD(4) [OF sm]] and L = log_viewD [OF N(10)]
  let ?g = "nlog w i @ ents" and ?q = "snd (maybe_update li p)"
  have len: "length ents = length es" using es by simp
  have t: "\<forall>e \<in> set ents. e_term e = nterm w i" using es stamp_terms N(5) by auto
  have li0: "unat (last_index (r_raft_log r)) = length (nlog w i)" using unat_last_index [OF L(2)] L(3) by simp
  then have "contiguous (Suc (length (nlog w i))) ents" using stamp_contiguous [of "last_index (r_raft_log r)" es] es room by simp
  then have c: "contiguous 1 ?g" using L(4) by simp
  have nz: "\<forall>e \<in> set ents. e_term e \<noteq> 0" using t N(5,6) by auto
  have nz': "\<forall>e \<in> set ents. e_index e \<noteq> 0" using c contiguous_index_nz [of ?g] by auto
  have ne': "ents \<noteq> []" using ne len by auto
  have room': "length (nlog w i) + length ents < 2 ^ 64 - 1" using room len by simp
  note A = view_log_append [OF N(10) c ne' nz room' l]
  let ?w = "ack i (nterm w i) (length ?g) (leads (nterm w i) i ?g
      (put i ((w_node w i)\<lparr>pn_log := ?g, pn_match := (pn_match (w_node w i))(i := length ?g)\<rparr>) w))"
  have st: "pstep ns i w ?w" using ld N(3) t by (intro pstep.propose [OF refl]) auto
  have ip: "(i, p) \<in> set (r_prs r)" using get_voter [OF simD(4) [OF sm] simD(2) [OF sm] p] .
  have P: "prog_ok (length ?g) x" if "(v, x) \<in> set (r_prs r)" for v x
    using N(13) [OF ld that] prog_ok_mono by fastforce
  have q: "prog_ok (length ?g) ?q" "unat (pr_match ?q) = length ?g"
    using maybe_update_ok [OF P [OF ip], of li] A(2) log_viewD(10) [OF A(1)] N(13) [OF ld ip] P [OF ip]
    by (auto simp: prog_ok_def)
  have pm: "map_of (r_prs r) i \<noteq> None" using ip by (auto simp: map_of_eq_None_iff rev_image_eqI)
  have keys: "map fst (AList.update i ?q (r_prs r)) = map fst (r_prs r)" using pm by (rule update_keys_mem)
  have "unat (pr_match x) = (if v = i then length ?g else pn_match (w_node w i) v) \<and> prog_ok (length ?g) x"
    if "(v, x) \<in> set (AList.update i ?q (r_prs r))" for v x
    using set_update_distinct [OF that N(8)] q N(13) [OF ld] P by auto
  then have "node_view ns i (r\<lparr>r_raft_log := l, r_prs := AList.update i ?q (r_prs r)\<rparr>) (w_node ?w i)"
    using simD(4) [OF sm] A keys ld snaps_conf_cong [OF N(14) log_append_snap [OF l]] log_append_off(2) [OF l] nz' unfolding node_view_def by auto
  then show ?thesis
    using pm by (intro reaches_step [OF sm st]) (auto simp: put_progress_def)
qed

lemma append_entry_reaches:
  assumes "append_entry es r = Inr (ok, r')" and sm: "sim ns t0 i w r" and ld: "r_state r = Leader" and ne: "es \<noteq> []"
    and room: "length (nlog w i) + length es < 2 ^ 64 - 1"
  shows "reaches ns t0 i w r'"
proof -
  let ?ents = "stamp_entries (r_term r) (last_index (r_raft_log r)) es"
  obtain b s where s: "increase_uncommitted_size ?ents r = (b, s)" by fastforce
  then obtain u where u: "s = r\<lparr>r_uncommitted_size := u\<rparr> \<or> s = r"
    by (auto simp: increase_uncommitted_size_def Let_def split: if_splits)
  then have ss: "sim ns t0 i w s" "r_state s = Leader" "r_term s = r_term r" "r_raft_log s = r_raft_log r" "r_id s = i"
    using sm ld node_viewD(1) [OF simD(4) [OF sm]] by auto
  show ?thesis
  proof (cases b)
    case False
    then show ?thesis using assms(1) ss by (auto simp: append_entry_def s Let_def intro: sim_reaches)
  next
    case True
    with assms(1) obtain li l p c where l: "log_append ?ents (r_raft_log s) = Inr (li, l)"
      and p: "get_progress (r_id s) (s\<lparr>r_raft_log := l\<rparr>) = Some p"
      and c: "maybe_commit (put_progress (r_id s) (snd (maybe_update li p)) (s\<lparr>r_raft_log := l\<rparr>)) = Inr (c, r')"
      by (auto simp: append_entry_def s Let_def)
    have p': "get_progress i s = Some p" using p ss(5) by (simp add: get_progress_def cong: option.case_cong)
    let ?q = "put_progress i (snd (maybe_update li p)) (s\<lparr>r_raft_log := l\<rparr>)"
    have "reaches ns t0 i w ?q"
      using append_stamped_reaches [OF ss(1,2) ne room _ l p'] ss(3,4) by simp
    moreover have "r_state ?q = Leader" using only_sends_eqs(5) [OF put_progress_only_sends] ss(2) by simp
    ultimately show ?thesis using maybe_commit_reaches [OF c] ss(5) by (auto intro: reaches_bind)
  qed
qed

section \<open>Roles\<close>

lemma become_follower_reaches:
  assumes "become_follower t lead r = Inr r'" and sm: "sim ns t0 i w r" and t: "r_term r \<le> t"
  shows "reaches ns t0 i w r'"
proof -
  note N = node_viewD [OF simD(4) [OF sm]] and F = become_follower_facts [OF assms(1)]
  show ?thesis
  proof (cases "t = r_term r")
    case True
    have st: "pstep ns i w (put i ((w_node w i)\<lparr>pn_role := Follower\<rparr>) w)" by (rule pstep.step_down [OF refl])
    have "node_view ns i r' ((w_node w i)\<lparr>pn_role := Follower\<rparr>)"
      using F N True unfolding node_view_def same_config_def by auto
    then show ?thesis using F(10) by (intro reaches_step [OF sm st]) auto
  next
    case False
    then have lt: "nterm w i < t" using t N(5) by auto
    have st: "pstep ns i w (put i ((w_node w i)\<lparr>pn_term := t, pn_vote := 0, pn_role := Follower\<rparr>) w)"
      using lt by (rule pstep.new_term [OF refl])
    have "t \<noteq> 0" using lt by auto
    then have "node_view ns i r' ((w_node w i)\<lparr>pn_term := t, pn_vote := 0, pn_role := Follower\<rparr>)"
      using F N False unfolding node_view_def same_config_def by auto
    then show ?thesis using F(10) by (intro reaches_step [OF sm st]) auto
  qed
qed

lemma become_candidate_reaches:
  assumes "become_candidate r = Inr r'" and sm: "sim ns t0 i w r" and t: "unat (r_term r) < 2 ^ 64 - 1"
  shows "reaches ns t0 i w r'"
proof -
  note N = node_viewD [OF simD(4) [OF sm]] and F = become_candidate_facts [OF assms(1)]
  have u: "unat (r_term r + 1) = unat (r_term r) + 1" using t by (intro unat_succ64) simp
  then have lt: "nterm w i < r_term r + 1" "r_term r + 1 \<noteq> 0" using N(5) by (auto simp: word_less_nat_alt)
  let ?w = "stands (r_term r + 1) i (nlog w i) (voted i (r_term r + 1) i
      (put i ((w_node w i)\<lparr>pn_term := r_term r + 1, pn_vote := i, pn_role := Candidate, pn_votes := {}\<rparr>) w))"
  have st: "pstep ns i w ?w" using lt(1) by (rule pstep.campaign [OF refl])
  have "node_view ns i r' (w_node ?w i)"
    using F N lt(2) unfolding node_view_def same_config_def by (auto simp: supporters_def)
  then show ?thesis using F(10) by (intro reaches_step [OF sm st]) auto
qed

text \<open>A vote that is counted has been given.\<close>

lemma poll_reaches:
  assumes "poll k ty v r = Inr (g, r')" and sm: "sim ns t0 i w r" and c: "r_state r = Candidate"
    and ok: "v \<Longrightarrow> k = i \<or> VoteOk (nterm w i) k i \<in> w_msgs w"
  shows "reaches ns t0 i w r'"
proof -
  note N = node_viewD [OF simD(4) [OF sm]] and P = poll_eq [OF assms(1)]
  let ?vs = "if map_of (r_votes r) k = None then AList.update k v (r_votes r) else r_votes r"
  have d: "distinct (map fst ?vs)" using N(12) [OF c] by (simp add: distinct_update)
  show ?thesis
  proof (cases v)
    case True
    have st: "pstep ns i w (put i ((w_node w i)\<lparr>pn_votes := insert k (pn_votes (w_node w i))\<rparr>) w)"
      using c N(3) ok True by (intro pstep.tally [OF refl]) auto
    have "supporters ?vs \<subseteq> insert k (pn_votes (w_node w i))"
      using N(12) [OF c] by (auto simp: supporters_def update_fresh)
    then have "node_view ns i r' ((w_node w i)\<lparr>pn_votes := insert k (pn_votes (w_node w i))\<rparr>)"
      using simD(4) [OF sm] d unfolding node_view_def P(1) by auto
    then show ?thesis using P(1) by (intro reaches_step [OF sm st]) auto
  next
    case False
    have "supporters ?vs \<subseteq> pn_votes (w_node w i)"
      using N(12) [OF c] False by (auto simp: supporters_def update_fresh)
    then have "node_view ns i r' (w_node w i)"
      using simD(4) [OF sm] d unfolding node_view_def P(1) by auto
    then show ?thesis using sm P(1) by (intro sim_reaches) (auto simp: sim_def)
  qed
qed

lemma majority_mono: "majority ns Q \<Longrightarrow> Q \<subseteq> R \<Longrightarrow> R \<subseteq> set ns \<Longrightarrow> majority ns R"
  unfolding majority_def using card_mono [of R Q] finite_subset [of R "set ns"] by (meson finite_set le_trans)

lemma fresh_prs:
  assumes "reset t r = Inr s"
  shows "r_prs s = map (\<lambda>(k, p). (k, fresh_progress (r_id r) (r_max_inflight r) (last_index (r_raft_log r)) k p)) (r_prs r)"
  using assms by (auto simp: reset_def Let_def abort_leader_transfer_def fresh_progresses_def elim!: reset_randomized_eq split: if_splits)

lemma become_leader_reaches:
  assumes "become_leader r = Inr r'" and sm: "sim ns t0 i w r" and c: "r_state r = Candidate"
    and m: "majority ns (supporters (r_votes r))" and room: "length (nlog w i) + 1 < 2 ^ 64 - 1"
  shows "reaches ns t0 i w r'"
proof -
  note N = node_viewD [OF simD(4) [OF sm]] and L = log_viewD [OF N(10)]
  obtain s p q where s: "reset (r_term r) (r\<lparr>r_step := Some StepLeader\<rparr>) = Inr s"
    and p: "map_of (r_prs s) (r_id s) = Some p"
    and q: "append_entry [Entry_default]
      (s\<lparr>r_tick := Some TickHeartbeat, r_lead := r_id s, r_state := Leader,
         r_prs := AList.update (r_id s) (become_replicate p) (r_prs s),
         r_pending_conf_index := last_index (r_raft_log s)\<rparr>) = Inr (True, q)" (is "append_entry _ ?s = _")
    and r': "r' = reduce_uncommitted_size [Entry_default] q"
    using assms(1) by (auto simp: become_leader_def Let_def split: if_splits option.splits)
  note S = reset_facts [OF s] and F = fresh_prs [OF s]
  let ?n = "length (nlog w i)"
  let ?w = "ack i (nterm w i) ?n (leads (nterm w i) i (nlog w i)
      (put i ((w_node w i)\<lparr>pn_role := Leader, pn_match := (\<lambda>v. if v = i then ?n else 0)\<rparr>) w))"
  have "pn_votes (w_node w i) \<subseteq> set ns"
    using voter_invD(5) [OF votes_invD(3) [OF pinvD(1) [OF simD(1) [OF sm]] simD(2) [OF sm]]] c N(3) by auto
  then have st: "pstep ns i w ?w"
    using c N(3) majority_mono [OF m] N(12) [OF c] by (intro pstep.win [OF refl]) auto
  have li: "unat (last_index (r_raft_log r)) = ?n" using unat_last_index [OF L(2)] L(3) by simp
  have li1: "unat (last_index (r_raft_log r) + 1) = ?n + 1" using unat_last_index_Suc [OF L(2)] L(3) by simp
  have f: "unat (pr_match x) = (if v = i then ?n else 0) \<and> prog_ok ?n x" if "(v, x) \<in> set (r_prs s)" for v x
    using that N(1) li li1 unfolding F by (auto simp: fresh_progress_def Progress_new_def Let_def prog_ok_def)
  have si: "r_id s = i" using S(1) N(1) by (simp add: same_config_def)
  have pf: "unat (pr_match p) = ?n" using f [of i p] p si by (auto dest: map_of_SomeD)
  have "unat (pr_match p + 1) = ?n + 1" using pf room by (subst unat_succ64) auto
  then have b: "unat (pr_match (become_replicate p)) = ?n \<and> prog_ok ?n (become_replicate p)"
    using pf by (simp add: become_replicate_def reset_state_def prog_ok_def)
  have keys: "map fst (AList.update i (become_replicate p) (r_prs s)) = map fst (r_prs r)"
    using p si S(11) by (simp add: update_keys_mem)
  have ds: "distinct (map fst (r_prs s))" using S(11) N(8) by simp
  have "unat (pr_match x) = (if v = i then ?n else 0) \<and> prog_ok ?n x"
    if "(v, x) \<in> set (AList.update i (become_replicate p) (r_prs s))" for v x
    using set_update_distinct [OF that ds] f b by auto
  then have "node_view ns i ?s (w_node ?w i)"
    using S N keys si unfolding node_view_def same_config_def by auto
  then have "reaches ns t0 i w ?s"
    using S(10) by (intro reaches_step [OF sm st]) auto
  moreover have "reaches ns t0 i w' q" if "sim ns t0 i w' ?s" for w'
  proof -
    have "length (nlog w' i) = ?n"
      using log_viewD(3) [OF node_viewD(10) [OF simD(4) [OF that]]] S(4) L(3) by simp
    then show ?thesis using append_entry_reaches [OF q that] room by simp
  qed
  ultimately have "reaches ns t0 i w q" by (rule reaches_bind)
  then show ?thesis unfolding r' reaches_def reduce_uncommitted_size_def Let_def by auto
qed

section \<open>Elections\<close>

lemma quorum_supporters:
  assumes sm: "sim ns t0 i w r" and c: "r_state r = Candidate" and q: "quorum r = granted_votes (r_votes r)"
  shows "majority ns (supporters (r_votes r))"
proof -
  note N = node_viewD [OF simD(4) [OF sm]] and V = votes_invD [OF pinvD(1) [OF simD(1) [OF sm]]]
  have "pn_votes (w_node w i) \<subseteq> set ns" using voter_invD(5) [OF V(3) [OF simD(2) [OF sm]]] c N(3) by auto
  then show ?thesis using granted_majority [OF V(1) simD(3) [OF sm] N(8,9)] N(12) [OF c] q by blast
qed

lemma send_vote_request_reaches:
  assumes "send_vote_request MsgVote t ct k r = Inr r'" and sm: "sim ns t0 i w r" and c: "r_state r = Candidate" and t: "r_term r = t"
  shows "reaches ns t0 i w r' \<and> r_state r' = Candidate \<and> r_term r' = t"
proof (cases "k = r_id r")
  case True
  then show ?thesis using assms by (auto simp: send_vote_request_def intro: sim_reaches)
next
  case False
  note N = node_viewD [OF simD(4) [OF sm]] and L = log_viewD [OF N(10)]
  let ?lt = "tm (nlog w i) (length (nlog w i))"
  have lt: "last_term (r_raft_log r) = Inr ?lt"
    using last_term_eq [OF L(2)] view_term_at [OF N(10), of "length (nlog w i)"] L(3,8,9) by simp
  have li: "unat (last_index (r_raft_log r)) = length (nlog w i)" using unat_last_index [OF L(2)] L(3) by simp
  let ?m = "Message_default\<lparr>m_term := t, m_to := k, m_type := MsgVote, m_index := last_index (r_raft_log r), m_log_term := ?lt,
                m_context := (if ct = kCampaignTransfer then bytes_of_string kCampaignTransfer else [])\<rparr>"
  have s: "send ?m r = Inr r'" using assms(1) False lt by (auto simp: send_vote_request_def)
  have st: "pstep ns i w (tell (VoteReq (nterm w i) i (length (nlog w i)) ?lt) w)" using c N(3) by (intro pstep.ask [OF refl]) simp
  have "reaches ns t0 i w r'"
    using s simD(4) [OF sm] N li t simD(2) [OF sm]
    by (intro reaches_step [OF sm st]) (auto simp: send_eq msg_view_def stamped_def is_vote_msg_def)
  then show ?thesis using s c t by (auto simp: send_eq)
qed

lemma campaign_reaches:
  assumes "campaign ct r = Inr r'" and ct: "ct \<noteq> kCampaignPreElection" and sm: "sim ns t0 i w r"
    and t: "unat (r_term r) < 2 ^ 64 - 1" and room: "length (nlog w i) + 1 < 2 ^ 64 - 1"
  shows "reaches ns t0 i w r'"
proof -
  obtain s g s' where s: "become_candidate r = Inr s" and p: "poll (r_id s) MsgVoteResp True s = Inr (g, s')"
    and e: "quorum s' = g \<and> become_leader s' = Inr r' \<or>
         quorum s' \<noteq> g \<and> loop_r (send_vote_request MsgVote (r_term s) ct) (map fst (r_prs s')) s' = Inr r'"
    using assms(1) ct by (rule campaign_election_cases)
  note F = become_candidate_facts [OF s] and P = poll_eq [OF p]
  have len: "length (nlog v i) = length (nlog w i)" if "sim ns t0 i v q" "r_raft_log q = r_raft_log r" for v q
    using log_viewD(3) [OF node_viewD(10) [OF simD(4) [OF that(1)]]] log_viewD(3) [OF node_viewD(10) [OF simD(4) [OF sm]]] that(2) by simp
  have "reaches ns t0 i w s" using s sm t by (rule become_candidate_reaches)
  moreover have "reaches ns t0 i v s'" if "sim ns t0 i v s" for v
    using poll_reaches [OF p that F(5)] node_viewD(1) [OF simD(4) [OF that]] by blast
  ultimately have "reaches ns t0 i w s'" by (rule reaches_bind)
  moreover have "reaches ns t0 i v r'" if v: "sim ns t0 i v s'" for v
  proof -
    have c: "r_state s' = Candidate" "r_term s' = r_term s" "r_raft_log s' = r_raft_log r" using F P(1) by simp_all
    from e show ?thesis
    proof
      assume "quorum s' = g \<and> become_leader s' = Inr r'"
      then show ?thesis
        using become_leader_reaches [OF _ v c(1) quorum_supporters [OF v c(1)]] P(2) len [OF v c(3)] room by simp
    next
      assume l: "quorum s' \<noteq> g \<and> loop_r (send_vote_request MsgVote (r_term s) ct) (map fst (r_prs s')) s' = Inr r'"
      show ?thesis
        by (rule reaches_loop [where P = "\<lambda>q. r_state q = Candidate \<and> r_term q = r_term s", OF conjunct2 [OF l] v])
          (use c send_vote_request_reaches in auto)
    qed
  qed
  ultimately show ?thesis by (rule reaches_bind)
qed

section \<open>Follower and candidate\<close>

lemma maybe_append_None: "maybe_append index t c es l = Inr (None, l') \<Longrightarrow> l' = l"
  by (auto simp: maybe_append_def Let_def split: if_splits)

lemma handle_append_entries_reaches:
  assumes "handle_append_entries msg r = Inr r'" and sm: "sim ns t0 i w r" and fo: "r_state r = Follower"
    and m: "msg_view ns w msg" "m_type msg = MsgApp" "m_to msg = i" "m_term msg = r_term r"
  shows "reaches ns t0 i w r'"
proof -
  note N = node_viewD [OF simD(4) [OF sm]] and L = log_viewD [OF N(10)]
  have "app_view w msg" using m simD(2) [OF sm] by (simp add: msg_view_def)
  then obtain g where g: "App (nterm w i) g (unat (m_index msg)) (unat (m_commit msg)) \<in> w_msgs w"
    "m_entries msg = drop (unat (m_index msg)) g" "m_log_term msg = tm g (unat (m_index msg))" "unat (m_index msg) \<le> length g"
    "contiguous 1 g" "\<forall>e \<in> set g. e_term e \<noteq> 0" "length g < 2 ^ 64 - 1"
    unfolding app_view_def m(4) N(5) by blast
  show ?thesis
  proof (cases "m_index msg < rl_committed (r_raft_log r)")
    case True
    let ?c = "pn_commit (w_node w i)"
    have s: "send (Message_default\<lparr>m_to := m_from msg, m_type := MsgAppResp, m_index := rl_committed (r_raft_log r)\<rparr>) r = Inr r'"
      using assms(1) True by (simp add: handle_append_entries_def)
    have st: "pstep ns i w (tell (Ack (nterm w i) i ?c) (ack i (nterm w i) ?c w))"
      using fo N(3,11) True g(1) by (intro pstep.stale [OF refl]) (auto simp: word_less_nat_alt)
    show ?thesis
      using s simD(4) [OF sm] N simD(2) [OF sm]
      by (intro reaches_step [OF sm st]) (auto simp: send_eq msg_view_def stamped_def is_vote_msg_def)
  next
    case False
    then have com: "unat (rl_committed (r_raft_log r)) \<le> unat (m_index msg)" by (simp add: word_less_nat_alt)
    from False assms(1) obtain ok l where
      a: "maybe_append (m_index msg) (m_log_term msg) (m_commit msg) (m_entries msg) (r_raft_log r) = Inr (ok, l)"
      by (auto simp: handle_append_entries_def)
    show ?thesis
    proof (cases ok)
      case None
      then have l: "l = r_raft_log r" using a maybe_append_None by blast
      have s: "send (Message_default\<lparr>m_to := m_from msg, m_type := MsgAppResp, m_index := m_index msg,
          m_reject := True, m_reject_hint := last_index (r_raft_log r)\<rparr>) r = Inr r'"
        using assms(1) False a None l by (auto simp: handle_append_entries_def)
      show ?thesis using sim_send_inert [OF sm s] by (simp add: inert_def sim_reaches)
    next
      case (Some li)
      then have s: "send (Message_default\<lparr>m_to := m_from msg, m_type := MsgAppResp, m_index := li\<rparr>) (r\<lparr>r_raft_log := l\<rparr>) = Inr r'"
        using assms(1) False a by (simp add: handle_append_entries_def)
      have a': "maybe_append (m_index msg) (m_log_term msg) (m_commit msg) (drop (unat (m_index msg)) g) (r_raft_log r) = Inr (Some li, l)"
        using a Some g(2) by simp
      note A = view_maybe_append [OF N(10) g(5,6,7) refl g(4) com g(3) a']
      let ?w = "tell (Ack (nterm w i) i (length g)) (ack i (nterm w i) (length g)
        (put i ((w_node w i)\<lparr>pn_log := merge (nlog w i) (unat (m_index msg)) g,
           pn_commit := max (pn_commit (w_node w i)) (min (unat (m_commit msg)) (length g))\<rparr>) w))"
      have st: "pstep ns i w ?w"
        using fo N(3,11) com g(1) A(1,2) by (intro pstep.accept [OF refl]) auto
      have ap: "rl_applied l = rl_applied (r_raft_log r)"
        using maybe_append_off(2) [OF a] g(2,5) contiguous_index_nz [of g] by (auto dest: in_set_dropD)
      have "node_view ns i (r\<lparr>r_raft_log := l\<rparr>) (w_node ?w i)"
        using simD(4) [OF sm] A(3,5) fo snaps_conf_cong [OF N(14) maybe_append_snap [OF a]] ap unfolding node_view_def by auto
      then show ?thesis
        using s N simD(2) [OF sm] A(4)
        by (intro reaches_step [OF sm st]) (auto simp: send_eq msg_view_def stamped_def is_vote_msg_def)
    qed
  qed
qed

lemma handle_heartbeat_reaches:
  assumes "handle_heartbeat msg r = Inr r'" and sm: "sim ns t0 i w r" and fo: "r_state r = Follower"
    and m: "msg_view ns w msg" "m_type msg = MsgHeartbeat" "m_to msg = i" "m_term msg = r_term r"
  shows "reaches ns t0 i w r'"
proof -
  note N = node_viewD [OF simD(4) [OF sm]]
  from assms(1) obtain l where l: "commit_to (m_commit msg) (r_raft_log r) = Inr l"
    and s: "send (Message_default\<lparr>m_to := m_from msg, m_type := MsgHeartbeatResp\<rparr>) (r\<lparr>r_raft_log := l\<rparr>) = Inr r'"
    by (auto simp: handle_heartbeat_def)
  note C = view_commit_to [OF N(10) l]
  let ?w = "put i ((w_node w i)\<lparr>pn_commit := max (pn_commit (w_node w i)) (unat (m_commit msg))\<rparr>) w"
  have b: "Beat (nterm w i) i (unat (m_commit msg)) \<in> w_msgs w" using m simD(2) [OF sm] N(5) by (simp add: msg_view_def)
  have st: "pstep ns i w ?w"
    using fo N(3) b C(3) log_viewD(9) [OF N(10)] by (intro pstep.heed [OF refl]) auto
  have "node_view ns i (r\<lparr>r_raft_log := l\<rparr>) (w_node ?w i)"
    using simD(4) [OF sm] C(1,2) fo snaps_conf_commit_to [OF N(14) l] commit_to_applied [OF l] unfolding node_view_def by auto
  then have "reaches ns t0 i w (r\<lparr>r_raft_log := l\<rparr>)" by (intro reaches_step [OF sm st]) auto
  then show ?thesis by (rule reaches_sim) (use sim_send_inert [OF _ s] in \<open>simp add: inert_def\<close>)
qed

text \<open>Taking over a snapshot is accepting the log it stands for.\<close>

lemma merge_from_start:
  assumes "traced w lg" and "traced w g"
  shows "merge lg 0 g = (if length g \<le> length lg \<and> tm lg (length g) = tm g (length g) then lg else g)"
proof -
  note M = merge_cases [OF assms, of 0]
  consider "merge lg 0 g = lg" "take (length g) lg = g"
    | p where "merge lg 0 g = g" "p < length g" "take p lg = take p g" "Suc p \<le> length lg \<Longrightarrow> tm lg (Suc p) \<noteq> tm g (Suc p)"
    using M by auto
  then show ?thesis
  proof cases
    case 1
    then have "length g \<le> length lg" by (metis length_take min.cobounded1)
    moreover have "tm lg (length g) = tm g (length g)" using 1(2) tm_cong [of "length g" lg g] by simp
    ultimately show ?thesis using 1(1) by simp
  next
    case 2
    have False if a: "length g \<le> length lg" "tm lg (length g) = tm g (length g)"
    proof -
      have "take (length g) lg = take (length g) g" using a assms by (intro traced_match) auto
      then have "tm lg (Suc p) = tm g (Suc p)" using 2(2) by (rule tm_cong [OF _ Suc_leI])
      then show False using 2(2,4) a(1) by simp
    qed
    then show ?thesis using 2(1) by auto
  qed
qed

text \<open>Operations that only add voters.\<close>

definition adds_voters :: "u64 list \<Rightarrow> Raft \<Rightarrow> Raft \<Rightarrow> bool" where
  "adds_voters xs r r' \<longleftrightarrow> r' = r\<lparr>r_is_learner := r_is_learner r', r_prs := r_prs r'\<rparr> \<and>
     set (map fst (r_prs r')) = set xs \<union> set (map fst (r_prs r)) \<and>
     (distinct (map fst (r_prs r)) \<longrightarrow> distinct (map fst (r_prs r')))"

lemma adds_votersD:
  assumes "adds_voters xs r r'"
  shows "r' = r\<lparr>r_is_learner := r_is_learner r', r_prs := r_prs r'\<rparr>"
    and "set (map fst (r_prs r')) = set xs \<union> set (map fst (r_prs r))"
    and "distinct (map fst (r_prs r)) \<Longrightarrow> distinct (map fst (r_prs r'))"
  using assms unfolding adds_voters_def by blast+

lemma adds_voterI:
  assumes "r' = r\<lparr>r_is_learner := b, r_prs := AList.update k p (r_prs r)\<rparr>"
  shows "adds_voters [k] r r'"
proof -
  have "distinct (map fst (r_prs r)) \<longrightarrow> distinct (map fst (AList.update k p (r_prs r)))" by (intro impI distinct_update)
  moreover have "set (map fst (AList.update k p (r_prs r))) = {k} \<union> set (map fst (r_prs r))" by (auto simp: update_keys)
  ultimately show ?thesis by (simp add: adds_voters_def assms)
qed

lemma adds_voters_learners: "adds_voters xs r r' \<Longrightarrow> r_learner_prs r' = r_learner_prs r"
  using arg_cong [OF adds_votersD(1), of xs r r' r_learner_prs] by simp

lemma adds_voters_Cons:
  assumes "adds_voters [x] r q" and "adds_voters xs q r'"
  shows "adds_voters (x # xs) r r'"
proof -
  note A = adds_votersD [OF assms(1)] and B = adds_votersD [OF assms(2)]
  have "q\<lparr>r_is_learner := b, r_prs := ps\<rparr> = r\<lparr>r_is_learner := b, r_prs := ps\<rparr>" for b ps
    by (subst A(1)) simp
  then have "r' = r\<lparr>r_is_learner := r_is_learner r', r_prs := r_prs r'\<rparr>" using B(1) by metis
  moreover have "set (map fst (r_prs r')) = set (x # xs) \<union> set (map fst (r_prs r))" using A(2) B(2) by auto
  ultimately show ?thesis using A(3) B(3) unfolding adds_voters_def by blast
qed

lemma loop_adds_voters:
  assumes "\<And>x r q. f x r = Inr q \<Longrightarrow> r_learner_prs r = [] \<Longrightarrow> adds_voters [x] r q"
    and "loop_r f xs r = Inr r'" and "r_learner_prs r = []"
  shows "adds_voters xs r r'"
  using assms(2,3)
proof (induction xs arbitrary: r)
  case Nil
  then show ?case by (simp add: adds_voters_def)
next
  case (Cons x xs)
  then obtain q where q: "f x r = Inr q" "loop_r f xs q = Inr r'" by auto
  have a: "adds_voters [x] r q" using assms(1) [OF q(1) Cons.prems(2)] .
  then have "adds_voters xs q r'" using Cons.IH [OF q(2)] adds_voters_learners Cons.prems(2) by metis
  with a show ?case by (rule adds_voters_Cons)
qed

lemma restore_one_voter:
  assumes "restore_one False x r = Inr r'" and "r_learner_prs r = []"
  shows "adds_voters [x] r r'"
  by (rule adds_voterI [where b = "if x = r_id r then False else r_is_learner r" and
        p = "(Progress_new (r_max_inflight r))\<lparr>pr_next := last_index (r_raft_log r) + 1, pr_match := (if x = r_id r then last_index (r_raft_log r) else 0)\<rparr>"])
    (use assms in \<open>auto simp: restore_one_def set_progress_def Let_def\<close>)

lemma restore_cases:
  assumes "restore s r = Inr (b, r')"
  obtains (same) "r' = r"
    | (ahead) l where "unat (rl_committed (r_raft_log r)) < unat (sm_index (s_metadata s))"
        and "match_term (sm_index (s_metadata s)) (sm_term (s_metadata s)) (r_raft_log r) = Inr True"
        and "commit_to (sm_index (s_metadata s)) (r_raft_log r) = Inr l" and "r' = r\<lparr>r_raft_log := l\<rparr>"
    | (taken) q where "unat (rl_committed (r_raft_log r)) < unat (sm_index (s_metadata s))"
        and "match_term (sm_index (s_metadata s)) (sm_term (s_metadata s)) (r_raft_log r) = Inr False"
        and "restore_node (cs_nodes (sm_conf_state (s_metadata s))) False
          (r\<lparr>r_raft_log := log_restore s (r_raft_log r), r_prs := [], r_learner_prs := []\<rparr>) = Inr q"
        and "restore_node (cs_learners (sm_conf_state (s_metadata s))) True q = Inr r'"
proof (cases "sm_index (s_metadata s) \<le> rl_committed (r_raft_log r)")
  case True
  then show thesis using assms same by (simp add: restore_def)
next
  case False
  then have c: "unat (rl_committed (r_raft_log r)) < unat (sm_index (s_metadata s))" by (simp add: word_le_nat_alt)
  obtain m where m: "match_term (sm_index (s_metadata s)) (sm_term (s_metadata s)) (r_raft_log r) = Inr m"
    using assms False by (auto simp: restore_def Let_def)
  show thesis
    using assms False m c by (cases m) (auto simp: restore_def Let_def split: if_splits intro: same ahead taken)
qed

lemma handle_snapshot_reaches:
  assumes "handle_snapshot msg r = Inr r'" and sm: "sim ns t0 i w r" and fo: "r_state r = Follower"
    and m: "msg_view ns w msg" "m_type msg = MsgSnap" "m_term msg = r_term r"
    and k: "unat (sm_index (s_metadata (m_snapshot msg))) < 2 ^ 64 - 2"
  shows "reaches ns t0 i w r'"
proof -
  let ?s = "m_snapshot msg"
  note N = node_viewD [OF simD(4) [OF sm]] and L = log_viewD [OF N(10)]
  obtain b q where q: "restore ?s r = Inr (b, q)"
    and s: "send (Message_default\<lparr>m_to := m_from msg, m_type := MsgAppResp\<rparr>) q = Inr r'"
    using assms(1) by (auto simp: handle_snapshot_def)
  obtain g c where g: "App (nterm w i) g 0 c \<in> w_msgs w" "length g = unat (sm_index (s_metadata ?s))" "length g \<le> c"
    "sm_term (s_metadata ?s) = tm g (length g)" "contiguous 1 g" "\<forall>e \<in> set g. e_term e \<noteq> 0" "snap_conf ns ?s"
    using m N(5) unfolding msg_view_def snap_view_def by auto
  obtain h where h: "leader_log w (nterm w i) h" "g = take (length g) h" "good_log w (nterm w i) g"
    using appD [OF simD(1) [OF sm] g(1)] by metis
  have gl: "good_log w (nterm w i) (nlog w i)"
    using pinvD(3) [OF simD(1) [OF sm]] simD(2) [OF sm] unfolding leads_inv_def by blast
  note M = merge_from_start [of w "nlog w i" g]
  let ?w = "tell (Ack (nterm w i) i (length g)) (ack i (nterm w i) (length g)
    (put i ((w_node w i)\<lparr>pn_log := merge (nlog w i) 0 g, pn_commit := max (pn_commit (w_node w i)) (min c (length g))\<rparr>) w))"
  have st: "pstep ns i w ?w" using fo N(3) g(1) by (intro pstep.accept [OF refl]) auto
  have "reaches ns t0 i w q"
    using q
  proof (cases rule: restore_cases)
    case same
    then show ?thesis using sm by (simp add: sim_reaches)
  next
    case (ahead l)
    have "term_at (r_raft_log r) (length g) = tm g (length g)" using ahead(2) match_term_eq [OF L(2)] g(2,4) by simp
    then have t: "tm (nlog w i) (length g) = tm g (length g)" using view_term_at [OF N(10), of "length g"] ahead(1) L(8) g(2) by simp
    note C = view_commit_to [OF N(10) ahead(3)]
    have "merge (nlog w i) 0 g = nlog w i" using M gl h(3) t C(3) ahead(1) g(2) by (simp add: good_log_def)
    then have "node_view ns i q (w_node ?w i)"
      using simD(4) [OF sm] C(1,2) fo ahead(4) snaps_conf_commit_to [OF N(14) ahead(3)] commit_to_applied [OF ahead(3)] g(2,3) unfolding node_view_def by auto
    then show ?thesis using ahead(4) by (intro reaches_step [OF sm st]) auto
  next
    case (taken p)
    have "term_at (r_raft_log r) (length g) \<noteq> tm g (length g)" using taken(2) match_term_eq [OF L(2)] g(2,4) by simp
    then have t: "tm (nlog w i) (length g) \<noteq> tm g (length g)" using view_term_at [OF N(10), of "length g"] taken(1) L(8) g(2) by simp
    have mg: "merge (nlog w i) 0 g = g" using M gl h(3) t by (simp add: good_log_def)
    have cs: "set (cs_nodes (sm_conf_state (s_metadata ?s))) = set ns" "cs_learners (sm_conf_state (s_metadata ?s)) = []"
      using g(7) taken(1) by (auto simp: snap_conf_def)
    let ?r = "r\<lparr>r_raft_log := log_restore ?s (r_raft_log r), r_prs := [], r_learner_prs := []\<rparr>"
    have av: "adds_voters (cs_nodes (sm_conf_state (s_metadata ?s))) ?r p"
      using loop_adds_voters [of "restore_one False", OF restore_one_voter taken(3) [unfolded restore_node_def]] by simp
    obtain b ps where p: "p = ?r\<lparr>r_is_learner := b, r_prs := ps\<rparr>" using adds_votersD(1) [OF av] by blast
    have keys: "set (map fst ps) = set ns" "distinct (map fst ps)" using adds_votersD(2,3) [OF av] cs(1) by (simp_all add: p)
    have qp: "q = p" using taken(4) cs(2) by (simp add: restore_node_def)
    have com: "take (unat (rl_committed (r_raft_log r))) g = take (unat (rl_committed (r_raft_log r))) (nlog w i)"
      using committed_in_leader(1) [OF simD(1,2) [OF sm] h(1) order_refl] h(2) taken(1) g(2) N(11)
      by (metis less_imp_le min.absorb1 take_take)
    have lv: "log_view (log_restore ?s (r_raft_log r)) g"
      using taken(1) g k com by (intro view_restore [OF N(10)]) auto
    have "snaps_conf ns (log_restore ?s (r_raft_log r))" using N(14) g(7) by (simp add: snaps_conf_def)
    then have "node_view ns i q (w_node ?w i)"
      using N lv fo g(2,3) keys mg taken(1) log_restore_applied [of ?s "r_raft_log r"] unfolding node_view_def qp p by auto
    then show ?thesis using p qp by (intro reaches_step [OF sm st]) auto
  qed
  then show ?thesis by (rule reaches_sim) (use sim_send_inert [OF _ s] in \<open>simp add: inert_def Message_default_def\<close>)
qed

lemma forward_sim:
  assumes "forward_to_leader msg r = Inr (s, r')" and "sim ns t0 i w r" and "inert msg"
  shows "sim ns t0 i w r'"
  using assms sim_send_inert [OF assms(2), of "msg\<lparr>m_to := r_lead r\<rparr>"] by (auto simp: forward_to_leader_def inert_def)

end
