(* ===== verification/Refinement_Step.thy ===== *)
theory Refinement_Step
  imports Refinement
begin

text \<open>
  The handlers of the three roles, \<^verbatim>\<open>step\<close> and \<^verbatim>\<open>tick\<close> as actions of the protocol.
\<close>

section \<open>Leader\<close>

lemma hear_reaches:
  assumes sm: "sim ns t0 i w r" and ld: "r_state r = Leader" and v: "v \<in> set ns" and p: "get_progress v r = Some p"
    and k: "k = 0 \<or> Ack (nterm w i) v k \<in> w_msgs w"
    and q: "unat (pr_match q) = max (unat (pr_match p)) k" "prog_ok (length (nlog w i)) q"
  shows "reaches ns t0 i w (put_progress v q r)"
proof (cases "k = 0")
  case True
  then show ?thesis
    using q node_viewD(13) [OF simD(4) [OF sm] ld get_voter [OF simD(4) [OF sm] v p]] by (intro sim_reaches sim_put [OF sm]) auto
next
  case False
  note N = node_viewD [OF simD(4) [OF sm]]
  note P = N(13) [OF ld get_voter [OF simD(4) [OF sm] v p]]
  let ?w = "put i ((w_node w i)\<lparr>pn_match := (pn_match (w_node w i))(v := max (pn_match (w_node w i) v) k)\<rparr>) w"
  have st: "pstep ns i w ?w" using False k ld N(3) by (intro pstep.hear [OF refl]) auto
  have pm: "map_of (r_prs r) v \<noteq> None" using get_voter [OF simD(4) [OF sm] v p] by (auto simp: map_of_eq_None_iff rev_image_eqI)
  have keys: "map fst (AList.update v q (r_prs r)) = map fst (r_prs r)" using pm by (rule update_keys_mem)
  have "unat (pr_match x) = pn_match (w_node ?w i) u \<and> prog_ok (length (nlog w i)) x"
    if "(u, x) \<in> set (AList.update v q (r_prs r))" for u x
    using set_update_distinct [OF that N(8)] q P N(13) [OF ld] by auto
  then have "node_view ns i (r\<lparr>r_prs := AList.update v q (r_prs r)\<rparr>) (w_node ?w i)"
    using simD(4) [OF sm] keys ld unfolding node_view_def by auto
  then show ?thesis using pm by (intro reaches_step [OF sm st]) (auto simp: put_progress_def)
qed

text \<open>What is acknowledged to a leader is in its log.\<close>

lemma ack_bound:
  assumes "sim ns t0 i w r" and "r_state r = Leader" and "Ack (nterm w i) v k \<in> w_msgs w"
  shows "k \<le> length (nlog w i)"
proof -
  note N = node_viewD [OF simD(4) [OF assms(1)]] and I = pinvD [OF simD(1) [OF assms(1)]]
  have "(v, nterm w i, k) \<in> w_ack w" using I(4) assms(3) unfolding acks_inv_def by blast
  then have "acked w v (nterm w i) k" unfolding acked_def by blast
  moreover have "leader_log w (nterm w i) (nlog w i)"
    using I(3) simD(2) [OF assms(1)] assms(2) N(3) unfolding leads_inv_def leader_log_def by metis
  ultimately show ?thesis using acked_bound(1) [OF I(4)] by blast
qed

lemma become_probe_ok: "prog_ok n p \<Longrightarrow> n < 2 ^ 64 - 1 \<Longrightarrow> prog_ok n (become_probe p) \<and> pr_match (become_probe p) = pr_match p"
  using unat_succ64 [of "pr_match p"] unat_succ64 [of "pr_pending_snapshot p"]
  by (auto simp: become_probe_def reset_state_def prog_ok_def)

lemma pause_ok [simp]:
  "pr_match (set_pause p) = pr_match p" "prog_ok n (set_pause p) = prog_ok n p" "pr_match (become_probe p) = pr_match p"
  "pr_match (snapshot_failure p) = pr_match p"
  by (simp_all add: set_pause_def prog_ok_def become_probe_def reset_state_def snapshot_failure_def)

lemma snapshot_failure_ok: "prog_ok n p \<Longrightarrow> prog_ok n (snapshot_failure p)"
  by (simp add: snapshot_failure_def prog_ok_def)

lemma become_replicate_ok:
  "prog_ok n p \<Longrightarrow> n < 2 ^ 64 - 1 \<Longrightarrow> prog_ok n (become_replicate p) \<and> pr_match (become_replicate p) = pr_match p"
  using unat_succ64 [of "pr_match p"] by (auto simp: become_replicate_def reset_state_def prog_ok_def)

lemma maybe_decreases_ok:
  assumes "maybe_decreases_to rej hint p = (d, q)" and "prog_ok n p" and "n < 2 ^ 64 - 1"
  shows "prog_ok n q \<and> pr_match q = pr_match p"
proof -
  have m: "unat (pr_match p + 1) = unat (pr_match p) + 1" using assms(2,3) by (intro unat_succ64) (simp add: prog_ok_def)
  have x: "unat (pr_next p - 1) = unat (pr_next p) - 1" using assms(2) by (intro unat_pred64) (simp add: prog_ok_def)
  have one: "x < 1 \<longleftrightarrow> unat x = 0" for x :: u64 by (simp add: word_less_nat_alt)
  have pos: "x \<noteq> 0 \<Longrightarrow> 0 < unat x" for x :: u64 by (simp add: unat_gt_0)
  have "pr_next p \<noteq> 1 \<Longrightarrow> unat (pr_next p) \<noteq> 1" using word_eq_unat [of "pr_next p" 1] by simp
  then show ?thesis
    using assms(1,2) m x by (auto simp: maybe_decreases_to_def prog_ok_def resume_def Let_def one min_def word_le_nat_alt pos split: if_splits)
qed

lemma leader_app_resp_reaches:
  assumes "leader_app_resp msg pr r = Inr (s, r')" and sm: "sim ns t0 i w r" and ld: "r_state r = Leader"
    and pr: "get_progress (m_from msg) r = Some pr"
    and m: "msg_view ns w msg" "m_type msg = MsgAppResp" "m_term msg = r_term r"
  shows "reaches ns t0 i w r'"
proof -
  note N = node_viewD [OF simD(4) [OF sm]] and L = log_viewD [OF N(10)]
  let ?v = "m_from msg" and ?n = "length (nlog w i)" and ?pr = "pr\<lparr>pr_recent_active := True\<rparr>"
  have v: "?v \<in> set ns" using m(1) by (simp add: msg_view_def)
  have ok: "prog_ok ?n ?pr" "prog_ok ?n pr"
    using N(13) [OF ld get_voter [OF simD(4) [OF sm] v pr]] by (simp_all add: prog_ok_def)
  show ?thesis
  proof (cases "m_reject msg")
    case True
    obtain d q where d: "maybe_decreases_to (m_index msg) (m_reject_hint msg) ?pr = (d, q)" by fastforce
    note D = maybe_decreases_ok [OF d ok(1) L(10)]
    have S: "sim ns t0 i w (put_progress ?v x r)" if "x = q \<or> x = become_probe q" for x
      using that D become_probe_ok [of ?n q] L(10) by (intro sim_put_match [OF sm pr]) auto
    have "r_state (put_progress ?v x r) = Leader" for x using only_sends_eqs(5) [OF put_progress_only_sends] ld by simp
    then show ?thesis
      using assms(1) True d S by (auto simp: leader_app_resp_def Let_def split: if_splits intro: send_append_reaches sim_reaches)
  next
    case False
    let ?k = "unat (m_index msg)"
    have k: "?k = 0 \<or> Ack (nterm w i) ?v ?k \<in> w_msgs w" using m False N(5) by (auto simp: msg_view_def)
    then have kn: "?k \<le> ?n" using ack_bound [OF sm ld] by auto
    obtain upd p1 where u: "maybe_update (m_index msg) ?pr = (upd, p1)" by fastforce
    note U = maybe_update_ok [OF ok(1) kn L(10), unfolded u snd_conv]
    have H: "reaches ns t0 i w (put_progress ?v x r)" if "pr_match x = pr_match p1" "prog_ok ?n x" for x
      using hear_reaches [OF sm ld v pr k, of x] that U(2) by simp
    have st: "r_state (put_progress ?v x r) = Leader" for x using only_sends_eqs(5) [OF put_progress_only_sends] ld by simp
    show ?thesis
    proof (cases upd)
      case F: False
      then show ?thesis using assms(1) False u H [OF refl U(1)] by (auto simp: leader_app_resp_def)
    next
      case T: True
      with assms(1) False u obtain p2 com r1 r2 r3 and p3 :: Progress where
        p2: "(case pr_state p1 of
              ProgressStateProbe \<Rightarrow> Inr (become_replicate p1)
            | ProgressStateSnapshot \<Rightarrow> Inr (if need_snapshot_abort p1 then become_probe p1 else p1)
            | ProgressStateReplicate \<Rightarrow>
                bind_r (inf_free_to (m_index msg) (pr_inflights p1)) (\<lambda>f. Inr (p1\<lparr>pr_inflights := f\<rparr>))) = Inr p2"
        and c: "maybe_commit (put_progress ?v p2 r) = Inr (com, r1)"
        and b: "(if com then bcast_append r1 else if is_paused ?pr then send_append ?v r1 else Inr r1) = Inr r2"
        and l: "send_append_loop ?v r2 = Inr r3"
        and e: "(if ?v = r_lead_transferee r3 \<and> pr_match p3 = last_index (r_raft_log r3)
            then ok_with (send_timeout_now ?v r3) else Inr (OK, r3)) = Inr (s, r')"
        by (auto simp: leader_app_resp_def Let_def)
      have "pr_match p2 = pr_match p1 \<and> prog_ok ?n p2"
        using p2 U(1) become_replicate_ok [OF U(1) L(10)] become_probe_ok [OF U(1) L(10)]
        by (auto split: ProgressState.splits if_splits simp: prog_ok_def)
      then have "reaches ns t0 i w (put_progress ?v p2 r)" using H by blast
      then have "reaches ns t0 i w r1" by (rule reaches_bind) (rule maybe_commit_reaches [OF c _ st])
      moreover have l1: "r_state r1 = Leader" using role.R_maybe_commit [OF c] st by (simp add: keeps_role_def)
      then have "reaches ns t0 i w' r2" if "sim ns t0 i w' r1" for w'
        using b that by (auto split: if_splits intro: bcast_append_reaches send_append_reaches sim_reaches)
      ultimately have "reaches ns t0 i w r2" by (rule reaches_bind)
      moreover have "r_state r2 = Leader"
        using b l1 only_sends_eqs(5) [OF sending.R_bcast_append] only_sends_eqs(5) [OF sending.R_send_append] by (auto split: if_splits)
      ultimately have "reaches ns t0 i w r3" using send_append_loop_reaches [OF l] by (auto intro: reaches_bind)
      then show ?thesis
        by (rule reaches_sim) (use e in \<open>auto simp: send_timeout_now_def inert_def split: if_splits elim!: sim_send_inert [rotated]\<close>)
    qed
  qed
qed

lemma answer_read_sim:
  assumes "answer_read k req r = Inr r'" and "sim ns t0 i w r"
  shows "sim ns t0 i w r'"
  using assms(1) sim_send_inert [OF assms(2)] assms(2)
  by (auto simp: answer_read_def inert_def split: if_splits)

lemma leader_heartbeat_resp_reaches:
  assumes "leader_heartbeat_resp msg pr r = Inr (s, r')" and sm: "sim ns t0 i w r" and ld: "r_state r = Leader"
    and pr: "get_progress (m_from msg) r = Some pr"
  shows "reaches ns t0 i w r'"
proof -
  let ?v = "m_from msg" and ?pr = "resume (pr\<lparr>pr_recent_active := True\<rparr>)"
  from assms(1) obtain p1 r1 where
    p1: "(if pr_state ?pr = ProgressStateReplicate \<and> inf_is_full (pr_inflights ?pr)
              then bind_r (inf_free_first_one (pr_inflights ?pr)) (\<lambda>f. Inr (?pr\<lparr>pr_inflights := f\<rparr>))
              else Inr ?pr) = Inr p1"
    and s1: "(if pr_match p1 < last_index (r_raft_log (put_progress ?v p1 r))
        then send_append ?v (put_progress ?v p1 r) else Inr (put_progress ?v p1 r)) = Inr r1"
    and rest: "(if ro_option (r_read_only r1) \<noteq> ReadOnlySafe \<or> m_context msg = [] then Inr (OK, r1)
      else let (ack_count, ro) = recv_ack msg (r_read_only r1); r2 = r1\<lparr>r_read_only := ro\<rparr> in
        if ack_count < quorum r2 then Inr (OK, r2)
        else bind_r (advance msg (r_read_only r2)) (\<lambda>(rss, ro).
          ok_with (loop_r (\<lambda>rs. answer_read (ri_index rs) (ri_req rs)) rss (r2\<lparr>r_read_only := ro\<rparr>)))) = Inr (s, r')"
    by (auto simp: leader_heartbeat_resp_def Let_def)
  have "pr_match p1 = pr_match pr" "\<And>n. prog_ok n pr \<Longrightarrow> prog_ok n p1"
    using p1 by (auto simp: resume_def prog_ok_def split: if_splits)
  then have "sim ns t0 i w (put_progress ?v p1 r)" by (intro sim_put_match [OF sm pr]) auto
  moreover have "r_state (put_progress ?v p1 r) = Leader" using only_sends_eqs(5) [OF put_progress_only_sends] ld by simp
  ultimately have "reaches ns t0 i w r1" using s1 by (auto split: if_splits intro: send_append_reaches sim_reaches)
  then show ?thesis
  proof (rule reaches_sim)
    fix w' assume w': "sim ns t0 i w' r1"
    have "sim ns t0 i w' r'" if "loop_r (\<lambda>rs. answer_read (ri_index rs) (ri_req rs)) rss (r1\<lparr>r_read_only := ro\<rparr>) = Inr r'" for rss ro
      by (rule loop_r_invariant [OF that]) (use w' answer_read_sim in auto)
    then show "sim ns t0 i w' r'" using rest w' by (auto simp: Let_def split: if_splits prod.splits)
  qed
qed

lemma leader_transfer_reaches:
  assumes "leader_transfer msg pr r = Inr (s, r')" and "sim ns t0 i w r" and "r_state r = Leader"
  shows "reaches ns t0 i w r'"
proof -
  have T: "sim ns t0 i w q'" if "send_timeout_now k q = Inr q'" "sim ns t0 i w q" for k q q'
    using sim_send_inert [OF that(2)] that(1) by (auto simp: send_timeout_now_def inert_def)
  show ?thesis
    using assms unfolding leader_transfer_def Let_def
    by (auto simp: abort_leader_transfer_def split: if_splits intro: sim_reaches [OF T] sim_reaches send_append_reaches)
qed

lemma leader_read_index_reaches:
  assumes "leader_read_index msg r = Inr (s, r')" and "sim ns t0 i w r" and "r_state r = Leader"
  shows "reaches ns t0 i w r'"
proof -
  have B: "reaches ns t0 i w r'" if "bcast_heartbeat_with_ctx c (r\<lparr>r_read_only := ro\<rparr>) = Inr r'" for c ro
    using bcast_heartbeat_reaches [OF that] assms(2,3) by simp
  have A: "reaches ns t0 i w r'" if "answer_read k msg r = Inr r'" for k
    using sim_reaches [OF answer_read_sim [OF that assms(2)]] .
  have S: "reaches ns t0 i w r" "reaches ns t0 i w (r\<lparr>r_read_states := rs\<rparr>)" for rs
    using assms(2) by (simp_all add: sim_reaches)
  show ?thesis
    using assms(1) S
    by (auto simp: leader_read_index_def Let_def split: if_splits sum.splits ReadOnlyOption.splits dest!: A B)
qed

lemma prop_entries_length: "prop_entries a li es pci = (es', pci') \<Longrightarrow> length es' = length es"
  by (induction es arbitrary: li pci es' pci') (auto simp: Let_def split: if_splits prod.splits)

lemma leader_prop_reaches:
  assumes "leader_prop msg r = Inr (s, r')" and sm: "sim ns t0 i w r" and ld: "r_state r = Leader"
    and room: "length (nlog w i) + length (m_entries msg) < 2 ^ 64 - 1"
  shows "reaches ns t0 i w r'"
proof -
  obtain es pci where p: "prop_entries (rl_applied (r_raft_log r)) (last_index (r_raft_log r)) (m_entries msg)
      (r_pending_conf_index r) = (es, pci)" by fastforce
  note len = prop_entries_length [OF p]
  have A: "reaches ns t0 i w q \<and> r_state q = Leader" if "append_entry es (r\<lparr>r_pending_conf_index := pci\<rparr>) = Inr (b, q)" "m_entries msg \<noteq> []" for b q
  proof
    show "reaches ns t0 i w q" by (rule append_entry_reaches [OF that(1)]) (use sm ld len room that(2) in auto)
    show "r_state q = Leader" using role.R_append_entry [OF that(1)] ld by (simp add: keeps_role_def)
  qed
  show ?thesis
    using assms(1) sim_reaches [OF sm]
    by (auto simp: leader_prop_def p split: if_splits dest!: A intro: reaches_bind [OF _ bcast_append_reaches])
qed

section \<open>Dispatch\<close>

text \<open>What a node is given: a message of the network addressed to it, or an input of its own process.\<close>

definition client_input :: "Message \<Rightarrow> bool" where
  "client_input m \<longleftrightarrow> m_term m = 0 \<and>
     m_type m \<in> {MsgHup, MsgBeat, MsgProp, MsgUnreachable, MsgSnapStatus, MsgCheckQuorum, MsgTransferLeader, MsgTimeoutNow, MsgReadIndex}"

definition given :: "u64 list \<Rightarrow> u64 \<Rightarrow> world \<Rightarrow> Message \<Rightarrow> bool" where
  "given ns i w msg \<longleftrightarrow> unat (m_term msg) < 2 ^ 64 - 1 \<and> (client_input msg \<or> msg_view ns w msg \<and> m_to msg = i)"

definition room :: "Message \<Rightarrow> Raft \<Rightarrow> bool" where
  "room msg r \<longleftrightarrow> unat (r_term r) < 2 ^ 64 - 1 \<and> log_last (r_raft_log r) + length (m_entries msg) + 1 < 2 ^ 64 - 1 \<and>
     unat (sm_index (s_metadata (m_snapshot msg))) < 2 ^ 64 - 2"

lemma given_mono: "given ns i w msg \<Longrightarrow> w_msgs w \<subseteq> w_msgs w' \<Longrightarrow> given ns i w' msg"
  by (auto simp: given_def dest: msg_view_mono)

lemma givenD:
  assumes "given ns i w msg"
  shows "m_type msg \<noteq> MsgPreVote" "m_type msg \<noteq> MsgPreVoteResp" "msg_term_ok msg"
    and "m_type msg \<in> {MsgApp, MsgAppResp, MsgHeartbeat, MsgVote, MsgVoteResp, MsgSnap} \<Longrightarrow> msg_view ns w msg \<and> m_to msg = i \<and> m_term msg \<noteq> 0"
  using assms by (auto simp: given_def client_input_def msg_view_def msg_term_ok_def split: MessageType.splits)

lemma step_leader_reaches:
  assumes "step_leader msg r = Inr (s, r')" and sm: "sim ns t0 i w r" and ld: "r_state r = Leader"
    and g: "given ns i w msg" and t: "m_term msg = 0 \<or> m_term msg = r_term r" and rm: "room msg r"
  shows "reaches ns t0 i w r'"
proof -
  note N = node_viewD [OF simD(4) [OF sm]] and G = givenD [OF g]
  have rm': "length (nlog w i) + length (m_entries msg) < 2 ^ 64 - 1" using rm log_viewD(3) [OF N(10)] by (simp add: room_def)
  have P: "sim ns t0 i w (put_progress k q r)" if "get_progress k r = Some p" "pr_match q = pr_match p"
    "\<And>n. prog_ok n p \<Longrightarrow> n < 2 ^ 64 - 1 \<Longrightarrow> prog_ok n q" for k p q
    using that log_viewD(10) [OF N(10)] by (intro sim_put_match [OF sm that(1,2)]) auto
  have SS: "sim ns t0 i w (leader_snap_status msg p r)" if "get_progress (m_from msg) r = Some p" for p
    using sm by (auto simp: leader_snap_status_def intro!: P [OF that] snapshot_failure_ok
        conjunct1 [OF become_probe_ok])
  have UN: "sim ns t0 i w (leader_unreachable msg p r)" if "get_progress (m_from msg) r = Some p" for p
    using sm by (auto simp: leader_unreachable_def intro!: P [OF that] conjunct1 [OF become_probe_ok])
  have AR: "reaches ns t0 i w r'" if "leader_app_resp msg p r = Inr (s, r')" "get_progress (m_from msg) r = Some p" "m_type msg = MsgAppResp" for p
    using leader_app_resp_reaches [OF that(1) sm ld that(2) _ that(3)] G(4) that(3) t by auto
  have W: "reaches ns t0 i w r'" if "leader_with_progress msg r = Inr (s, r')"
    using that sm ld
    by (auto simp: leader_with_progress_def split: option.splits MessageType.splits
        intro: AR leader_heartbeat_resp_reaches leader_transfer_reaches sim_reaches SS UN)
  have F: "reaches ns t0 i w r'" if "become_follower (r_term r) 0 r = Inr r'"
    using that sm by (rule become_follower_reaches) simp
  show ?thesis
    using assms(1) sm ld rm' bcast_heartbeat_reaches [OF _ sm ld]
    by (auto simp: step_leader_def bcast_heartbeat_def split: MessageType.splits if_splits
        intro: W F leader_prop_reaches leader_read_index_reaches sim_reaches)
qed

lemma sim_room: "sim ns t0 i w r \<Longrightarrow> room msg r \<Longrightarrow> unat (r_term r) < 2 ^ 64 - 1 \<and> length (nlog w i) + 1 < 2 ^ 64 - 1"
  using log_viewD(3) [OF node_viewD(10) [OF simD(4)], of ns t0 i w r] by (auto simp: room_def)

lemma not_pre_election: "kCampaignElection \<noteq> kCampaignPreElection" "kCampaignTransfer \<noteq> kCampaignPreElection"
  by (simp_all add: kCampaignElection_def kCampaignPreElection_def kCampaignTransfer_def)

lemma step_follower_reaches:
  assumes "step_follower msg r = Inr (s, r')" and sm: "sim ns t0 i w r" and fo: "r_state r = Follower"
    and g: "given ns i w msg" and t: "m_term msg = 0 \<or> m_term msg = r_term r" and rm: "room msg r"
  shows "reaches ns t0 i w r'"
proof -
  note G = givenD [OF g] and R = sim_room [OF sm rm]
  let ?r = "r\<lparr>r_election_elapsed := 0, r_lead := m_from msg\<rparr>"
  have h: "sim ns t0 i w ?r" "r_state ?r = Follower" using sm fo by simp_all
  have APP: "reaches ns t0 i w r'" if "handle_append_entries msg ?r = Inr r'" "m_type msg = MsgApp"
    using handle_append_entries_reaches [OF that(1) h _ that(2)] G(4) that(2) t by auto
  have HB: "reaches ns t0 i w r'" if "handle_heartbeat msg ?r = Inr r'" "m_type msg = MsgHeartbeat"
    using handle_heartbeat_reaches [OF that(1) h _ that(2)] G(4) that(2) t by auto
  have SN: "reaches ns t0 i w r'" if "handle_snapshot msg ?r = Inr r'" "m_type msg = MsgSnap"
    using handle_snapshot_reaches [OF that(1) h _ that(2)] G(4) that(2) t rm by (auto simp: room_def)
  have CA: "reaches ns t0 i w r'" if "campaign kCampaignTransfer r = Inr r'"
    using campaign_reaches [OF that not_pre_election(2) sm] R by blast
  have FW: "reaches ns t0 i w r'" if "forward_to_leader msg r = Inr (s, r')" "m_type msg \<in> {MsgProp, MsgTransferLeader, MsgReadIndex}"
    using forward_sim [OF that(1) sm] that(2) by (auto simp: inert_def intro: sim_reaches)
  have RS: "reaches ns t0 i w (r\<lparr>r_read_states := x\<rparr>)" for x using sm by (simp add: sim_reaches)
  show ?thesis
    using assms(1) sim_reaches [OF sm] RS
    by (auto simp: step_follower_def split: MessageType.splits if_splits list.splits intro: APP HB SN CA FW)
qed

lemma handle_vote_resp_reaches:
  assumes "handle_vote_resp msg r = Inr r'" and sm: "sim ns t0 i w r" and c: "r_state r = Candidate"
    and m: "msg_view ns w msg" "m_type msg = MsgVoteResp" "m_to msg = i" "m_term msg = r_term r" and rm: "room msg r"
  shows "reaches ns t0 i w r'"
proof -
  note N = node_viewD [OF simD(4) [OF sm]]
  obtain g q where p: "poll (m_from msg) (m_type msg) (\<not> m_reject msg) r = Inr (g, q)"
    and e: "(if ucast (quorum q) = (ucast g :: u64)
     then if r_state q = PreCandidate then campaign kCampaignElection q
          else bind_r (guard_r (r_state q = Candidate) (Assert ''state_ == RaftState::Candidate'')) (\<lambda>_.
            bind_r (become_leader q) bcast_append)
     else if ucast (quorum q) = of_nat (length (r_votes q)) - (ucast g :: u64) then become_follower (r_term q) 0 q
     else Inr q) = Inr r'"
    using assms(1) by (auto simp: handle_vote_resp_def Let_def)
  note P = poll_eq [OF p]
  have q: "r_state q = Candidate" "r_raft_log q = r_raft_log r" using P(1) c by simp_all
  have "reaches ns t0 i w q"
    by (rule poll_reaches [OF p sm c]) (use m N(5) in \<open>auto simp: msg_view_def\<close>)
  moreover have "reaches ns t0 i w' r'" if w': "sim ns t0 i w' q" for w'
  proof (cases "ucast (quorum q) = (ucast g :: u64)")
    case True
    then have qq: "quorum q = granted_votes (r_votes q)" using P(2) by (metis unat_ucast32 word_unat_eq_iff)
    from True e q(1) obtain l where l: "become_leader q = Inr l" "bcast_append l = Inr r'" by auto
    have "length (nlog w' i) + 1 < 2 ^ 64 - 1"
      using rm q(2) log_viewD(3) [OF node_viewD(10) [OF simD(4) [OF w']]] by (simp add: room_def)
    then have "reaches ns t0 i w' l" using become_leader_reaches [OF l(1) w' q(1) quorum_supporters [OF w' q(1) qq]] by blast
    then show ?thesis by (rule reaches_bind) (rule bcast_append_reaches [OF l(2) _ become_leader_facts(4) [OF l(1)]])
  next
    case False
    then show ?thesis using e w' become_follower_reaches [OF _ w'] by (auto split: if_splits intro: sim_reaches)
  qed
  ultimately show ?thesis by (rule reaches_bind)
qed

lemma step_candidate_reaches:
  assumes "step_candidate msg r = Inr (s, r')" and sm: "sim ns t0 i w r" and c: "r_state r = Candidate"
    and g: "given ns i w msg" and t: "m_term msg = 0 \<or> m_term msg = r_term r" and rm: "room msg r"
  shows "reaches ns t0 i w r'"
proof -
  note G = givenD [OF g]
  have B: "reaches ns t0 i w r'" if b: "become_follower (m_term msg) l r = Inr q" and e: "m_term msg = r_term r"
    and h: "\<And>w'. sim ns t0 i w' q \<Longrightarrow> w_msgs w \<subseteq> w_msgs w' \<Longrightarrow> r_state q = Follower \<Longrightarrow> m_term msg = r_term q \<Longrightarrow> reaches ns t0 i w' r'" for l q
    by (rule reaches_bind [OF become_follower_reaches [OF b sm]]) (use e h become_follower_facts(2,5) [OF b] in auto)
  have APP: "reaches ns t0 i w r'" if "become_follower (m_term msg) l r = Inr q" "handle_append_entries msg q = Inr r'" "m_type msg = MsgApp" for l q
    using B [OF that(1)] handle_append_entries_reaches [OF that(2) _ _ _ that(3)] G(4) that(3) t msg_view_mono by auto
  have HB: "reaches ns t0 i w r'" if "become_follower (m_term msg) l r = Inr q" "handle_heartbeat msg q = Inr r'" "m_type msg = MsgHeartbeat" for l q
    using B [OF that(1)] handle_heartbeat_reaches [OF that(2) _ _ _ that(3)] G(4) that(3) t msg_view_mono by auto
  have SN: "reaches ns t0 i w r'" if "become_follower (m_term msg) l r = Inr q" "handle_snapshot msg q = Inr r'" "m_type msg = MsgSnap" for l q
    using B [OF that(1)] handle_snapshot_reaches [OF that(2) _ _ _ that(3)] G(4) that(3) t rm msg_view_mono by (auto simp: room_def)
  have VR: "reaches ns t0 i w r'" if "handle_vote_resp msg r = Inr r'" "m_type msg = MsgVoteResp"
    using handle_vote_resp_reaches [OF that(1) sm c _ that(2) _ _ rm] G(4) that(2) t by auto
  show ?thesis
    using assms(1) G(2) sim_reaches [OF sm]
    by (auto simp: step_candidate_def split: MessageType.splits intro: APP HB SN VR)
qed

lemma step_vote_reaches:
  assumes "step_vote msg r = Inr (s, r')" and sm: "sim ns t0 i w r" and ty: "m_type msg = MsgVote"
    and g: "given ns i w msg" and t: "m_term msg = 0 \<or> m_term msg = r_term r"
  shows "reaches ns t0 i w r'"
proof (cases "r_is_learner r")
  case True
  then show ?thesis using assms(1) sm by (auto simp: step_vote_def intro: sim_reaches)
next
  case False
  note N = node_viewD [OF simD(4) [OF sm]] and L = log_viewD [OF N(10)] and G = givenD(4) [OF g]
  have m: "msg_view ns w msg" "m_term msg = nterm w i" "m_from msg \<in> set ns"
    "VoteReq (nterm w i) (m_from msg) (unat (m_index msg)) (m_log_term msg) \<in> w_msgs w"
    using G ty t N(5) by (auto simp: msg_view_def)
  obtain grant where u: "(if r_vote r = m_from msg \<or> r_vote r = 0 \<and> r_lead r = 0
      then is_up_to_date (m_index msg) (m_log_term msg) (r_raft_log r) else Inr False) = Inr grant"
    and e: "(if grant
        then bind_r (send (Message_default\<lparr>m_to := m_from msg, m_term := m_term msg, m_type := MsgVoteResp\<rparr>) r) (\<lambda>r.
          Inr (OK, r\<lparr>r_election_elapsed := 0, r_vote := m_from msg\<rparr>))
        else ok_with (send (Message_default\<lparr>m_to := m_from msg, m_term := r_term r, m_type := MsgVoteResp,
                           m_reject := True\<rparr>) r)) = Inr (s, r')"
    using assms(1) False by (auto simp: step_vote_def Let_def vote_resp_msg_type_def ty cong: if_cong)
  show ?thesis
  proof (cases grant)
    case False
    then have sd: "send (Message_default\<lparr>m_to := m_from msg, m_term := r_term r, m_type := MsgVoteResp, m_reject := True\<rparr>) r = Inr r'"
      using e by simp
    show ?thesis
      using sim_send [OF sm sd] N(1,6) simD(2) [OF sm]
      by (intro sim_reaches) (auto simp: msg_view_def stamped_def is_vote_msg_def)
  next
    case True
    then have v: "r_vote r = m_from msg \<or> r_vote r = 0" and up: "is_up_to_date (m_index msg) (m_log_term msg) (r_raft_log r) = Inr True"
      using u by (auto split: if_splits)
    have "term_at (r_raft_log r) (log_last (r_raft_log r)) = tm (nlog w i) (length (nlog w i))"
      using view_term_at [OF N(10), of "length (nlog w i)"] L(3,8,9) by simp
    then have new: "at_least_as_new (unat (m_index msg)) (m_log_term msg) (nlog w i)"
      using up is_up_to_date_eq [OF L(2)] L(3) by (simp add: at_least_as_new_def word_less_nat_alt)
    let ?w = "tell (VoteOk (nterm w i) i (m_from msg)) (voted i (nterm w i) (m_from msg)
        (put i ((w_node w i)\<lparr>pn_vote := m_from msg\<rparr>) w))"
    have st: "pstep ns i w ?w" using m(4) v N(7) new by (intro pstep.grant [OF refl]) auto
    obtain q where sd: "send (Message_default\<lparr>m_to := m_from msg, m_term := m_term msg, m_type := MsgVoteResp\<rparr>) r = Inr q"
      and r': "r' = q\<lparr>r_election_elapsed := 0, r_vote := m_from msg\<rparr>" using e True by auto
    have "node_view ns i (r\<lparr>r_vote := m_from msg\<rparr>) (w_node ?w i)" using simD(4) [OF sm] unfolding node_view_def by auto
    then have nv: "node_view ns i r' (w_node ?w i)"
      using sd unfolding r' by (auto simp: send_eq node_view_def)
    show ?thesis
      using sd N m(2) simD(2) [OF sm]
      by (intro reaches_step [OF sm st nv]) (auto simp: send_eq r' msg_view_def stamped_def is_vote_msg_def)
  qed
qed

section \<open>step and tick\<close>

lemma step_hup_reaches:
  assumes "step_hup r = Inr (s, r')" and sm: "sim ns t0 i w r" and rm: "room msg r"
  shows "reaches ns t0 i w r'"
proof -
  have "reaches ns t0 i w r'" if "campaign kCampaignElection r = Inr r'"
    using campaign_reaches [OF that not_pre_election(1) sm] sim_room [OF sm rm] by blast
  then show ?thesis
    using assms(1) sim_reaches [OF sm] node_viewD(2) [OF simD(4) [OF sm]]
    by (auto simp: step_hup_def Let_def split: if_splits sum.splits)
qed

lemma step_lower_term_sim:
  assumes "step_lower_term msg r = Inr (s, r')" and "sim ns t0 i w r" and "m_type msg \<noteq> MsgPreVote"
  shows "sim ns t0 i w r'"
  using assms sim_send_inert [OF assms(2), of "Message_default\<lparr>m_to := m_from msg, m_type := MsgAppResp\<rparr>"]
  by (auto simp: step_lower_term_def inert_def Message_default_def split: if_splits)

lemma step_current_reaches:
  assumes "step_current msg r = Inr (s, r')" and sm: "sim ns t0 i w r" and ro: "role_ok r"
    and g: "given ns i w msg" and t: "m_term msg = 0 \<or> m_term msg = r_term r" and rm: "room msg r"
  shows "reaches ns t0 i w r'"
proof -
  note N = node_viewD [OF simD(4) [OF sm]] and G = givenD [OF g]
  have D: "reaches ns t0 i w r'" if "step_dispatch msg r = Inr (s, r')"
    using that role_okD(1) [OF ro] N(4) sm g t rm
    by (cases "r_state r") (auto simp: step_dispatch_def intro: step_follower_reaches step_candidate_reaches step_leader_reaches)
  show ?thesis
    using assms(1) G(1) D step_hup_reaches [OF _ sm rm] step_vote_reaches [OF _ sm _ g t]
    by (auto simp: step_current_def split: MessageType.splits)
qed

lemma step_reaches:
  assumes "step msg r = Inr (s, r')" and sm: "sim ns t0 i w r" and ro: "role_ok r"
    and g: "given ns i w msg" and rm: "room msg r"
  shows "reaches ns t0 i w r'"
proof -
  note G = givenD [OF g]
  have tr: "unat (r_term r) < 2 ^ 64 - 1" using rm by (simp add: room_def)
  from assms(1) G(3) tr G(1,2) show ?thesis
  proof (cases rule: step_term_cases)
    case cur
    then show ?thesis using step_current_reaches [OF _ sm ro g _ rm] by blast
  next
    case low
    then show ?thesis using step_lower_term_sim [OF _ sm G(1)] by (blast intro: sim_reaches)
  next
    case lease
    then show ?thesis using sm by (simp add: sim_reaches)
  next
    case (high q lead)
    note F = become_follower_facts [OF high(1)]
    have rq: "room msg q" using rm high(5) F(4) by (simp add: room_def)
    have oq: "role_ok q" using in_role_after [OF high(1)] role_okD(3) [OF ro] by blast
    have "reaches ns t0 i w q" using high(1) sm by (rule become_follower_reaches) (use high(3) in simp)
    then show ?thesis
      by (rule reaches_bind) (use step_current_reaches [OF high(2) _ oq given_mono [OF g] _ rq] high(4) in auto)
  qed
qed

text \<open>The messages of a node to itself.\<close>

lemma step_own_reaches:
  assumes "step (Message_default\<lparr>m_from := k, m_type := t\<rparr>) r = Inr (s, r')" and "sim ns t0 i w r" and "role_ok r"
    and "t \<in> {MsgHup, MsgCheckQuorum, MsgBeat}" and "unat (r_term r) < 2 ^ 64 - 1" and "log_last (r_raft_log r) + 1 < 2 ^ 64 - 1"
  shows "reaches ns t0 i w r'"
  using assms by (intro step_reaches [OF assms(1-3)]) (auto simp: given_def client_input_def room_def Message_default_def Snapshot_default_def)

lemma check_quorum_log:
  assumes "step (Message_default\<lparr>m_from := k, m_type := MsgCheckQuorum\<rparr>) r = Inr (s, r')" and "r_step r = Some StepLeader"
  shows "r_raft_log r' = r_raft_log r"
  using assms become_follower_facts(4) [of "r_term r" 0 r]
  by (auto simp: step_def step_current_def step_dispatch_def step_leader_def Message_default_def split: if_splits)

lemma role_ok_timers [simp]:
  "role_ok (r\<lparr>r_heartbeat_elapsed := a, r_election_elapsed := b\<rparr>) = role_ok r" "role_ok (r\<lparr>r_election_elapsed := b\<rparr>) = role_ok r"
  "role_ok (r\<lparr>r_heartbeat_elapsed := a\<rparr>) = role_ok r" "role_ok (abort_leader_transfer r) = role_ok r"
  by (simp_all add: role_ok_def abort_leader_transfer_def)

lemma tick_check_quorum_reaches:
  assumes "tick_check_quorum r = Inr r'" and sm: "sim ns t0 i w r" and ro: "role_ok r" and ld: "r_state r = Leader"
    and R: "unat (r_term r) < 2 ^ 64 - 1" "log_last (r_raft_log r) + 1 < 2 ^ 64 - 1"
  shows "reaches ns t0 i w r' \<and> r_raft_log r' = r_raft_log r"
proof (cases "r_election_elapsed r \<ge> r_election_timeout r")
  case False
  then show ?thesis using assms(1) sim_reaches [OF sm] by (simp add: tick_check_quorum_def)
next
  case True
  let ?r = "r\<lparr>r_election_elapsed := 0\<rparr>"
  from True assms(1) obtain p where
    p: "(if r_check_quorum r
        then bind_r (step (Message_default\<lparr>m_from := r_id ?r, m_type := MsgCheckQuorum\<rparr>) ?r) (\<lambda>(_, r). Inr r)
        else Inr ?r) = Inr p"
    and r': "r' = (if r_state p = Leader \<and> r_lead_transferee p \<noteq> 0 then abort_leader_transfer p else p)"
    by (auto simp: tick_check_quorum_def Let_def)
  have C: "reaches ns t0 i w p \<and> r_raft_log p = r_raft_log r"
    if "step (Message_default\<lparr>m_from := r_id r, m_type := MsgCheckQuorum\<rparr>) ?r = Inr (s, p)" for s p
    using step_own_reaches [OF that] check_quorum_log [OF that] sm ro R role_okD(1) [OF ro] ld by simp
  have "reaches ns t0 i w p \<and> r_raft_log p = r_raft_log r"
    using p sm by (auto split: if_splits dest!: C intro: sim_reaches)
  then show ?thesis unfolding r' reaches_def by (auto simp: abort_leader_transfer_def)
qed

lemma tick_reaches:
  assumes "Raft.tick r = Inr r'" and sm: "sim ns t0 i w r" and ro: "role_ok r" and rm: "room Message_default r"
  shows "reaches ns t0 i w r'"
proof -
  have R: "unat (r_term r) < 2 ^ 64 - 1" "log_last (r_raft_log r) + 1 < 2 ^ 64 - 1" using rm by (auto simp: room_def)
  show ?thesis
  proof (cases "r_state r = Leader")
    case False
    then have "tick_election r = Inr r'" using assms(1) role_okD(2) [OF ro] by (cases "r_state r") (auto simp: tick_def)
    then show ?thesis
      using sm ro R
      by (auto simp: tick_election_def Let_def split: if_splits intro: sim_reaches elim!: step_own_reaches)
  next
    case True
    let ?r = "r\<lparr>r_heartbeat_elapsed := r_heartbeat_elapsed r + 1, r_election_elapsed := r_election_elapsed r + 1\<rparr>"
    obtain p where p: "tick_check_quorum ?r = Inr p" and b: "tick_beat p = Inr r'"
      using assms(1) role_okD(2) [OF ro] True by (auto simp: tick_def tick_heartbeat_def)
    have P: "reaches ns t0 i w p" "r_raft_log p = r_raft_log r"
      using tick_check_quorum_reaches [OF p, of ns t0 i w] sm ro True R by simp_all
    have E: "role_ok p" "r_term p = r_term r"
      using tick_check_quorum_evolves [OF p] ro True R(1) by (simp_all add: evolves_def)
    from P(1) show ?thesis
    proof (rule reaches_bind)
      fix w' assume w': "sim ns t0 i w' p"
      have "reaches ns t0 i w' r'" if "step (Message_default\<lparr>m_from := k, m_type := MsgBeat\<rparr>) (p\<lparr>r_heartbeat_elapsed := 0\<rparr>) = Inr (s, r')" for k s
        using step_own_reaches [OF that] w' E P(2) R by simp
      then show "reaches ns t0 i w' r'" using b sim_reaches [OF w'] by (auto simp: tick_beat_def split: if_splits)
    qed
  qed
qed

end
