(* ===== verification/Log_Upkeep.thy ===== *)
theory Log_Upkeep
  imports Log_View
begin

text \<open>
  What the server does to the log of a node does not change the abstract log behind it: saving a \<open>Ready\<close>,
  taking a snapshot of the applied entries, dropping applied entries from the storage. The entries handed
  out to be applied are the next ones of the abstract log.
\<close>

section \<open>Snapshots and compaction\<close>

lemma view_stored:
  assumes "log_view l g" and "u_snapshot (rl_unstable l) = None" and "i \<le> unat (rl_applied l)" and "log_base l < i"
  shows "ms_at (rl_storage l) i = Some (g ! (i - 1))" and "i \<le> ms_last (rl_storage l)" and "e_term (g ! (i - 1)) = tm g i"
proof -
  note L = log_viewD [OF assms(1)]
  have i: "i < log_off l" using assms(3) L(14) by simp
  have le: "i \<le> length g" using assms(3) log_invD(4) [OF L(1)] L(9) by simp
  then show "ms_at (rl_storage l) i = Some (g ! (i - 1))" using L(6) [OF assms(4)] i assms(4) by (simp add: log_at_def)
  show "i \<le> ms_last (rl_storage l)" using log_wfD(4) [OF L(2) assms(2)] i by simp
  show "e_term (g ! (i - 1)) = tm g i" using assms(4) le by (simp add: tm_def)
qed

lemma view_create_snapshot:
  assumes v: "log_view l g" and sn: "u_snapshot (rl_unstable l) = None" and k: "unat k \<le> unat (rl_applied l)"
    and c: "ms_create_snapshot k cs d (rl_storage l) = Inr (st, snap, s)"
  shows "log_view (l\<lparr>rl_storage := s\<rparr>) g" and "s = rl_storage l \<or> s = (rl_storage l)\<lparr>ms_snap := snap\<rparr> \<and>
     (\<forall>c. cs = Some c \<longrightarrow> sm_conf_state (s_metadata snap) = c)"
proof -
  note L = log_viewD [OF v] and D = ms_invD [OF log_wfD(1) [OF log_viewD(2) [OF v]]]
  have base: "log_base l = ms_offset (rl_storage l)" using sn by (simp add: log_base_def)
  show s: "s = rl_storage l \<or> s = (rl_storage l)\<lparr>ms_snap := snap\<rparr> \<and> (\<forall>c. cs = Some c \<longrightarrow> sm_conf_state (s_metadata snap) = c)"
    using c by (auto simp: ms_create_snapshot_def Let_def split: if_splits option.splits)
  have meta: "sm_index (s_metadata snap) = k \<and> sm_term (s_metadata snap) = tm g (unat k)" if ne: "s \<noteq> rl_storage l"
  proof -
    let ?j = "unat (k - e_index (ms_ents (rl_storage l) ! 0))"
    have j: "?j < length (ms_ents (rl_storage l))" and m: "sm_index (s_metadata snap) = k"
      "sm_term (s_metadata snap) = e_term (ms_ents (rl_storage l) ! ?j)"
      using c ne by (auto simp: ms_create_snapshot_def Let_def split: if_splits option.splits)
    have ge: "ms_offset (rl_storage l) \<le> unat k"
    proof (rule ccontr)
      assume lt: "\<not> ms_offset (rl_storage l) \<le> unat k"
      then have "?j = 2 ^ 64 + unat k - ms_offset (rl_storage l)"
        by (simp add: ms_offset_def unat_sub_if_size word_size)
      then show False using j D(3) lt by simp
    qed
    then have jj: "?j = unat k - ms_offset (rl_storage l)" by (subst unat_sub_le) (simp_all add: ms_offset_def)
    show ?thesis
    proof (cases "unat k = ms_offset (rl_storage l)")
      case True
      then show ?thesis using m jj L(7) sn base by (simp add: log_base_term_def)
    next
      case False
      then have lt: "log_base l < unat k" using ge base by simp
      have "ms_at (rl_storage l) (unat k) = Some (ms_ents (rl_storage l) ! ?j)"
        using view_stored(2) [OF v sn k lt] lt base jj by (simp add: ms_at_def ms_first_def)
      then show ?thesis using m view_stored(1,3) [OF v sn k lt] by simp
    qed
  qed
  have F: "ms_inv (t\<lparr>ms_snap := x\<rparr>) = ms_inv t" "ms_offset (t\<lparr>ms_snap := x\<rparr>) = ms_offset t" "ms_at (t\<lparr>ms_snap := x\<rparr>) = ms_at t"
    "ms_first (t\<lparr>ms_snap := x\<rparr>) = ms_first t" "ms_last (t\<lparr>ms_snap := x\<rparr>) = ms_last t" for t x
    by (simp_all add: ms_inv_def ms_offset_def ms_at_def ms_first_def ms_last_def fun_eq_iff)
  show "log_view (l\<lparr>rl_storage := s\<rparr>) g"
  proof (cases "s = rl_storage l")
    case True
    then show ?thesis using v by simp
  next
    case False
    then have e: "s = (rl_storage l)\<lparr>ms_snap := snap\<rparr>" using s by blast
    have "unat k \<le> unat (rl_committed l)" using k log_invD(4) [OF L(1)] by simp
    moreover have "log_wf (l\<lparr>rl_storage := s\<rparr>) = log_wf l" "log_base (l\<lparr>rl_storage := s\<rparr>) = log_base l"
      "log_base_term (l\<lparr>rl_storage := s\<rparr>) = log_base_term l" "log_last (l\<lparr>rl_storage := s\<rparr>) = log_last l"
      "log_off (l\<lparr>rl_storage := s\<rparr>) = log_off l"
      by (simp_all add: e F log_wf_def log_base_def log_base_term_def log_off_def log_last_def split: option.splits)
    moreover from this have "log_at (l\<lparr>rl_storage := s\<rparr>) = log_at l" by (simp add: e F log_at_def fun_eq_iff)
    moreover have "snap_newer (l\<lparr>rl_storage := s\<rparr>)" using sn by (simp add: snap_newer_def)
    ultimately show ?thesis
      using v meta [OF False] by (simp add: log_view_def log_inv_def) (simp add: e)
  qed
qed

lemma view_compact:
  assumes v: "log_view l g" and sn: "u_snapshot (rl_unstable l) = None" and k: "unat k \<le> unat (rl_applied l)"
    and c: "ms_compact k (rl_storage l) = Inr (st, s)"
  shows "log_view (l\<lparr>rl_storage := s\<rparr>) g" and "ms_snap s = ms_snap (rl_storage l)"
proof -
  note L = log_viewD [OF v] and W = log_wfD [OF log_viewD(2) [OF v]]
  have base: "log_base l = ms_offset (rl_storage l)" using sn by (simp add: log_base_def)
  show snp: "ms_snap s = ms_snap (rl_storage l)"
    using c by (auto simp: ms_compact_def Let_def split: if_splits)
  show "log_view (l\<lparr>rl_storage := s\<rparr>) g"
  proof (cases "unat k \<le> ms_offset (rl_storage l)")
    case True
    then have "s = rl_storage l" using c ms_compact_old by simp
    then show ?thesis using v by simp
  next
    case False
    then have lo: "ms_offset (rl_storage l) < unat k" by simp
    have S: "ms_at (rl_storage l) (unat k) = Some (g ! (unat k - 1))" "unat k \<le> ms_last (rl_storage l)"
      "e_term (g ! (unat k - 1)) = tm g (unat k)"
      using view_stored [OF v sn k] lo base by simp_all
    note C = ms_compact_inv_at [OF W(1) lo S(2) c]
    let ?l = "l\<lparr>rl_storage := s\<rparr>"
    have com: "unat k \<le> unat (rl_committed l)" "unat k < log_off l" using k log_invD(4) [OF L(1)] L(14) by simp_all
    have b: "log_base ?l = unat k" "log_base_term ?l = tm g (unat k)" using sn C(3,6) S(1,3) by (simp_all add: log_base_def log_base_term_def)
    have at: "log_at ?l i = Some (g ! (i - 1))" if "unat k < i" "i \<le> length g" for i
      using L(6) [of i] that lo base b(1) C(5) by (auto simp: log_at_def log_off_def split: if_splits)
    have "ms_first s \<le> log_off l" using C(3) com(2) by (simp add: ms_first_def)
    then have wf: "log_wf ?l" using L(2) C(2,4) by (auto simp: log_wf_def log_off_def)
    have "log_inv ?l" using wf L(1) b(1) com(1) by (simp add: log_inv_def log_last_def)
    then show ?thesis
      using L b at snp sn unfolding log_view_def by (simp add: log_last_def log_off_def snap_newer_def)
  qed
qed

section \<open>Saving\<close>

lemma persist_snap:
  assumes "persist rd (rl_storage l) = Inr s" and "snap_newer l"
    and "rd_snapshot rd = (case u_snapshot (rl_unstable l) of Some s \<Rightarrow> s | None \<Rightarrow> Snapshot_default)"
  shows "ms_snap s = log_snapshot l"
proof -
  let ?t = "if \<not> snapshot_is_empty (rd_snapshot rd) then snd (ms_apply_snapshot (rd_snapshot rd) (rl_storage l)) else rl_storage l"
  have "ms_snap ?t = log_snapshot l"
    using assms(2,3) by (auto simp: ms_apply_snapshot_def log_snapshot_def ms_snapshot_def snap_newer_def snapshot_is_empty_def
        Snapshot_default_def split: option.splits)
  then show ?thesis using assms(1) ms_append_snap by (auto simp: persist_def Let_def split: if_splits)
qed

text \<open>The entries of a \<open>Ready\<close> are the next ones of the abstract log.\<close>

lemma view_next_entries:
  assumes v: "log_view l g" and n: "next_entries l = Inr es"
  shows "es = take (length es) (drop (max (unat (rl_applied l)) (log_base l)) g)"
    and "max (unat (rl_applied l)) (log_base l) + length es \<le> unat (rl_committed l)"
proof -
  let ?a = "max (unat (rl_applied l)) (log_base l)" and ?c = "unat (rl_committed l)"
  note L = log_viewD [OF v] and I = log_invD [OF log_viewD(1) [OF v]]
  have a: "?a \<le> ?c" using I by simp
  have "max (unat (rl_applied l) + 1) (log_first l) = ?a + 1" by (simp add: log_first_def)
  then have "es = entry_limit_size (rl_max_next_ents_size l) (seg (log_at l) (?a + 1) (?c + 1))"
    using next_entries_eq [OF L(1)] n by simp
  moreover have "seg (log_at l) (?a + 1) (?c + 1) = take (?c - ?a) (drop ?a g)"
    using view_seg [OF v, of "?a + 1" "?c + 1"] a L(9) by simp
  ultimately obtain k where k: "es = take k (take (?c - ?a) (drop ?a g))"
    using entry_limit_size_prefix by metis
  then show "es = take (length es) (drop ?a g)" by (simp add: min_def)
  have "length es \<le> ?c - ?a" unfolding k by simp
  then show "?a + length es \<le> ?c" using a by linarith
qed

lemma rn_ready_frame:
  assumes "rn_ready n = Inr (rd, n1)"
  obtains u where "rn_raft n1 = (rn_raft n)\<lparr>r_msgs := [], r_uncommitted_size := u\<rparr>"
proof -
  have "\<exists>u. reduce_uncommitted_size es r = r\<lparr>r_uncommitted_size := u\<rparr>" for es r
    by (rule exI [of _ "r_uncommitted_size (reduce_uncommitted_size es r)"]) (simp add: reduce_uncommitted_size_def Let_def)
  then show thesis using assms that by (fastforce simp: rn_ready_def Ready_new_def Let_def)
qed

lemma rn_advance_frame:
  assumes "rn_advance rd n = Inr n'"
  obtains rs where "rn_raft n' = (rn_raft n)\<lparr>r_raft_log := rn_log n', r_read_states := rs\<rparr>"
proof -
  have "rn_raft n' = (rn_raft n)\<lparr>r_raft_log := rn_log n', r_read_states := r_read_states (rn_raft n')\<rparr>"
    using assms by (auto simp: rn_advance_def Let_def split: if_splits option.splits)
  then show thesis by (rule that)
qed

text \<open>A round of the server: the node keeps its abstract log and loses only its messages, which are handed out.\<close>

lemma view_round:
  assumes v: "log_view (rn_log n) g"
    and r: "rn_ready n = Inr (rd, n1)" and p: "persist rd (rl_storage (rn_log n1)) = Inr s"
    and a: "rn_advance rd (with_storage s n1) = Inr n'"
  shows "log_view (rn_log n') g" and "rl_committed (rn_log n') = rl_committed (rn_log n)"
    and "ms_snap (rl_storage (rn_log n')) = log_snapshot (rn_log n)" and "u_snapshot (rl_unstable (rn_log n')) = None"
    and "rd_messages rd = r_msgs (rn_raft n)" and "next_entries (rn_log n) = Inr (rd_committed_entries rd)"
    and "max (unat (rl_applied (rn_log n))) (log_base (rn_log n)) + length (rd_committed_entries rd) \<le> unat (rl_applied (rn_log n')) \<or>
       rd_committed_entries rd = [] \<and> rl_applied (rn_log n) \<le> rl_applied (rn_log n')"
    and "\<exists>u rs. rn_raft n' = (rn_raft n)\<lparr>r_msgs := [], r_uncommitted_size := u, r_raft_log := rn_log n', r_read_states := rs\<rparr>"
proof -
  let ?l = "rn_log n" and ?l' = "rn_log n'"
  note L = log_viewD [OF v]
  obtain rd0 n10 s0 n0 where P: "rn_ready n = Inr (rd0, n10)" "persist rd0 (rl_storage (rn_log n10)) = Inr s0"
     "rn_advance rd0 (with_storage s0 n10) = Inr n0"
     "log_inv (rn_log n0)" "log_at (rn_log n0) = log_at ?l" "term_at (rn_log n0) = term_at ?l"
     "log_base (rn_log n0) = log_base ?l" "log_last (rn_log n0) = log_last ?l" "rl_committed (rn_log n0) = rl_committed ?l"
     "u_entries (rl_unstable (rn_log n0)) = []" "u_snapshot (rl_unstable (rn_log n0)) = None" "rl_storage (rn_log n0) = s0"
     "rd_messages rd0 = r_msgs (rn_raft n)" "next_entries ?l = Inr (rd_committed_entries rd0)"
     "rd_committed_entries rd0 \<noteq> [] \<longrightarrow> unat (rl_applied (rn_log n0)) =
        max (unat (rl_applied ?l)) (log_base ?l) + length (rd_committed_entries rd0)"
     "rl_applied (rn_log n0) = (if applied_cursor rd0 > 0 then applied_cursor rd0 else rl_applied ?l)"
    using persist_round [OF L(1,13)] by metis
  have e: "rd0 = rd" "n10 = n1" "s0 = s" "n0 = n'" using P(1,2,3) r p a by auto
  note P = P [unfolded e]
  note F = rn_ready_fields [OF r]
  show sn: "ms_snap (rl_storage ?l') = log_snapshot ?l" using persist_snap [OF _ L(13) F(4)] p F(2) P(12) by simp
  have nl: "log_off ?l' = log_last ?l' + 1" using log_last_Suc [OF log_invD(1) [OF P(4)]] P(10) by (simp add: u_end_log)
  have ap: "unat (rl_applied ?l') \<le> log_last ?l'" using log_invD(3,4) [OF P(4)] by simp
  have bt: "log_base_term ?l' = log_base_term ?l" using P(6,7) by (metis term_at_def)
  have S: "unat (sm_index (s_metadata (log_snapshot ?l))) \<le> unat (rl_committed ?l)"
    "sm_term (s_metadata (log_snapshot ?l)) = tm g (unat (sm_index (s_metadata (log_snapshot ?l))))"
    using view_snapshot [OF v] by simp_all
  show "log_view ?l' g"
    unfolding log_view_def using L P(4,5,7,8,9,11) nl ap bt S sn by (simp add: snap_newer_def)
  show "rl_committed ?l' = rl_committed ?l" "u_snapshot (rl_unstable ?l') = None"
    "rd_messages rd = r_msgs (rn_raft n)" "next_entries ?l = Inr (rd_committed_entries rd)" using P by simp_all
  have "unat (rl_applied ?l) \<le> log_base ?l" if "u_snapshot (rl_unstable ?l) = Some x" for x
    using that L(14) u_invD(4) [OF log_wfD(2) [OF L(2)] that] by (simp add: log_off_def log_base_def)
  then have "rl_applied ?l \<le> rl_applied ?l'" if "rd_committed_entries rd = []"
    using P(16) F(4) that
    by (cases "u_snapshot (rl_unstable ?l)") (auto simp: applied_cursor_def log_base_def word_le_nat_alt Snapshot_default_def)
  then show "max (unat (rl_applied ?l)) (log_base ?l) + length (rd_committed_entries rd) \<le> unat (rl_applied ?l') \<or>
       rd_committed_entries rd = [] \<and> rl_applied ?l \<le> rl_applied ?l'"
    using P(15) by (cases "rd_committed_entries rd = []") simp_all
  obtain u where "rn_raft n1 = (rn_raft n)\<lparr>r_msgs := [], r_uncommitted_size := u\<rparr>" using r by (rule rn_ready_frame)
  moreover obtain rs where "rn_raft n' = (rn_raft (with_storage s n1))\<lparr>r_raft_log := ?l', r_read_states := rs\<rparr>"
    using a by (rule rn_advance_frame)
  ultimately show "\<exists>u rs. rn_raft n' = (rn_raft n)\<lparr>r_msgs := [], r_uncommitted_size := u, r_raft_log := ?l', r_read_states := rs\<rparr>"
    by (intro exI [of _ u] exI [of _ rs]) (simp add: with_storage_def)
qed

end
