(* ===== verification/Protocol_Start.thy ===== *)
theory Protocol_Start
  imports Protocol_Steps
begin

text \<open>
  Where the protocol starts: all nodes are followers with the same log, whose entries count as chosen. The
  history before has one leader for every term of the log.
\<close>

definition last_tm :: "Entry list \<Rightarrow> u64" where
  "last_tm es = tm es (length es)"

definition first_world :: "u64 list \<Rightarrow> Entry list \<Rightarrow> (u64 \<Rightarrow> pnode) \<Rightarrow> world" where
  "first_world ns es p = \<lparr>w_node = p, w_msgs = {}, w_vote = (\<lambda>_ _. 0), w_cand = (\<lambda>_ _. None),
     w_lead = (\<lambda>u. if u \<le> last_tm es then Some (0, takeWhile (\<lambda>e. e_term e \<le> u) es) else None),
     w_ack = {(v, last_tm es, length es) |v. v \<in> set ns}\<rparr>"

lemma takeWhile_covers:
  assumes "terms_sorted es" and "0 < k" and "k \<le> length es" and "tm es k \<le> u"
  shows "k \<le> length (takeWhile (\<lambda>e. e_term e \<le> u) es)"
proof (rule ccontr)
  let ?n = "length (takeWhile (\<lambda>e. e_term e \<le> u) es)"
  assume a: "\<not> k \<le> ?n"
  then have "\<not> e_term (es ! ?n) \<le> u" using nth_length_takeWhile [of "\<lambda>e. e_term e \<le> u" es] assms(3) by simp
  moreover have "tm es (Suc ?n) \<le> tm es k" using assms(1,3) a by (intro tm_mono) auto
  moreover have "tm es (Suc ?n) = e_term (es ! ?n)" using a assms(3) by (simp add: tm_def)
  ultimately show False using assms(4) by simp
qed

lemma terms_le_last: "terms_sorted es \<Longrightarrow> e \<in> set es \<Longrightarrow> e_term e \<le> last_tm es"
  unfolding last_tm_def in_set_conv_nth by (metis Suc_leI diff_Suc_1 order_refl tm_def tm_mono zero_less_Suc)

lemma takeWhile_last: "terms_sorted es \<Longrightarrow> takeWhile (\<lambda>e. e_term e \<le> last_tm es) es = es"
  using terms_le_last by simp

lemma take_takeWhile: "k \<le> length (takeWhile P xs) \<Longrightarrow> take k (takeWhile P xs) = take k xs"
  by (metis append_take_drop_id take_append take_all takeWhile_eq_take min.absorb1 take_take)

lemma first_leader:
  assumes "leader_log (first_world ns es p) t h"
  shows "t \<le> last_tm es" and "h = takeWhile (\<lambda>e. e_term e \<le> t) es"
  using assms by (auto simp: leader_log_def first_world_def split: if_splits)

lemma first_traced:
  assumes s: "terms_sorted es"
  shows "traced (first_world ns es p) (take n es)"
  unfolding traced_def
proof (intro allI impI)
  fix k assume k: "0 < k" "k \<le> length (take n es)"
  let ?h = "takeWhile (\<lambda>e. e_term e \<le> tm es k) es"
  have kl: "k \<le> length es" "k \<le> n" using k by auto
  have t: "tm (take n es) k = tm es k" using kl(2) by (rule tm_take)
  have "tm es k \<le> last_tm es" unfolding last_tm_def using s kl(1) by (intro tm_mono) auto
  then have "leader_log (first_world ns es p) (tm es k) ?h" by (simp add: leader_log_def first_world_def)
  moreover have c: "k \<le> length ?h" using s k(1) kl(1) by (intro takeWhile_covers) auto
  moreover have "take k (take n es) = take k ?h" using take_takeWhile [OF c] kl(2) by (simp add: min.absorb1)
  ultimately show "\<exists>h. leader_log (first_world ns es p) (tm (take n es) k) h \<and> k \<le> length h \<and> take k (take n es) = take k h"
    unfolding t by blast
qed

lemma first_good:
  assumes "terms_sorted es" and "\<forall>e \<in> set (take n es). e_term e \<le> t"
  shows "good_log (first_world ns es p) t (take n es)"
  using assms first_traced terms_sorted_take by (auto simp: good_log_def)

lemma majority_all: "distinct ns \<Longrightarrow> ns \<noteq> [] \<Longrightarrow> majority ns (set ns)"
  by (cases ns) (auto simp: majority_def distinct_card)

lemma first_inv:
  assumes ns: "distinct ns" "0 \<notin> set ns" "ns \<noteq> []" and s: "terms_sorted es"
    and p: "\<And>v. v \<in> set ns \<Longrightarrow> pn_log (p v) = es \<and> pn_role (p v) = Follower \<and> last_tm es \<le> pn_term (p v) \<and> pn_commit (p v) \<le> length es"
  shows "pinv ns (last_tm es) (first_world ns es p)"
proof -
  let ?w = "first_world ns es p"
  have F: "w_node ?w = p" "w_msgs ?w = {}" "w_vote ?w = (\<lambda>_ _. 0)" "w_cand ?w = (\<lambda>_ _. None)"
    "w_ack ?w = {(v, last_tm es, length es) |v. v \<in> set ns}"
    by (simp_all add: first_world_def)
  have L: "leader_log ?w (last_tm es) es" using takeWhile_last [OF s] by (simp add: leader_log_def first_world_def)
  have G: "good_log ?w t es" if "last_tm es \<le> t" for t
    using first_good [OF s, of "length es" t] terms_le_last [OF s] that by (auto intro: order_trans)
  have A: "acked ?w v t k \<longleftrightarrow> v \<in> set ns \<and> t = last_tm es \<and> k \<le> length es" for v t k by (auto simp: acked_def F)
  have C: "chosen ns ?w (last_tm es) (length es) es"
    using L majority_all [OF ns(1,3)] by (auto simp: chosen_def last_tm_def [symmetric] A)
  have "votes_inv ns (last_tm es) ?w" using ns p by (auto simp: votes_inv_def voter_inv_def F)
  moreover have "cands_inv ns ?w" using p by (auto simp: cands_inv_def F)
  moreover have "leads_inv ns (last_tm es) ?w"
  proof -
    have "good_log ?w t h \<and> t \<le> last_tm es" if "w_lead ?w t = Some (l, h)" for t l h
    proof -
      have h: "t \<le> last_tm es" "h = takeWhile (\<lambda>e. e_term e \<le> t) es" using first_leader [of ns es p t h] that by (auto simp: leader_log_def)
      have "h = take (length h) es" using h(2) by (metis takeWhile_eq_take)
      moreover have "\<forall>e \<in> set h. e_term e \<le> t" using h(2) set_takeWhileD by fastforce
      ultimately show ?thesis using first_good [OF s, of "length h" t] h(1) by metis
    qed
    moreover have "good_log ?w (pn_term (p v)) (pn_log (p v))" if "v \<in> set ns" for v using p [OF that] G by simp
    ultimately show ?thesis using p unfolding leads_inv_def F(1) by fastforce
  qed
  moreover have "acks_inv ns ?w" using p L unfolding acks_inv_def F by auto
  moreover have "keep_inv ns ?w"
    using p L leader_log_unique unfolding keep_inv_def A F(1) by (metis pending_def)
  moreover have "grant_inv ns ?w" by (simp add: grant_inv_def F)
  moreover have "safe_inv ns ?w"
    unfolding safe_inv_def
  proof (intro allI impI)
    fix t' h' t k h
    assume l': "leader_log ?w t' h'" and tt: "t < t'" and pe: "pending ns ?w t k h"
    have h': "h' = takeWhile (\<lambda>e. e_term e \<le> t') es" using first_leader(2) [OF l'] .
    have h: "h = takeWhile (\<lambda>e. e_term e \<le> t) es" "k \<le> length h" using pe first_leader(2) [of ns es p t h] by (auto simp: pending_def)
    have "h = takeWhile (\<lambda>e. e_term e \<le> t) h'" unfolding h(1) h' takeWhile_takeWhile
      using tt by (intro takeWhile_cong) auto
    then show "take k h' = take k h" using h(2) take_takeWhile by metis
  qed
  moreover have "commit_inv ns ?w"
  proof -
    have "settled ns ?w (pn_term (p v)) (pn_log (p v)) (pn_commit (p v))" if "v \<in> set ns" for v
      using C p [OF that] unfolding settled_def by blast
    then show ?thesis using p by (simp add: commit_inv_def F)
  qed
  ultimately show ?thesis by (simp add: pinv_def)
qed

end
