(* ===== verification/Replicas.thy ===== *)
theory Replicas
  imports Refinement_Step Log_Upkeep Protocol_Start
begin

text \<open>
  A cluster of \<^verbatim>\<open>RawNode\<close>s, each driven by its server: it ticks, makes calls, steps messages of the network
  (any message, any number of times, in any order), saves a \<open>Ready\<close> and sends its messages, takes snapshots
  of what it has applied and compacts its storage. The voters are fixed and pre-vote is off. Every run is
  a run of the protocol (\<open>Protocol\<close>), and so logs match, leaders have all committed entries, and no two nodes
  apply different entries at the same position.
\<close>

section \<open>The system\<close>

record Replicas =
  rp_node :: "u64 \<Rightarrow> RawNode"
  rp_net :: "Message list"
  rp_applied :: "u64 \<Rightarrow> Entry list"

definition set_replica :: "u64 \<Rightarrow> RawNode \<Rightarrow> Replicas \<Rightarrow> Replicas" where
  "set_replica i n c = c\<lparr>rp_node := (rp_node c)(i := n)\<rparr>"

text \<open>The calls of the server. Configuration changes that are applied keep the voters.\<close>

inductive rn_call :: "u64 list \<Rightarrow> RawNode \<Rightarrow> RawNode \<Rightarrow> bool" for ns :: "u64 list" where
  tick: "rn_tick n = Inr n' \<Longrightarrow> rn_call ns n n'"
| campaign: "rn_campaign n = Inr (s, n') \<Longrightarrow> rn_call ns n n'"
| propose: "rn_propose d n = Inr (s, n') \<Longrightarrow> rn_call ns n n'"
| propose_conf_change: "rn_propose_conf_change pack cc n = Inr (s, n') \<Longrightarrow> rn_call ns n n'"
| read_index: "rn_read_index d n = Inr (s, n') \<Longrightarrow> rn_call ns n n'"
| transfer_leadership: "rn_transfer_leadership lead transferee n = Inr n' \<Longrightarrow> rn_call ns n n'"
| report_unreachable: "rn_report_unreachable k n = Inr n' \<Longrightarrow> rn_call ns n n'"
| report_snapshot: "rn_report_snapshot k status n = Inr n' \<Longrightarrow> rn_call ns n n'"
| apply_conf_change: "rn_apply_conf_change cc n = Inr (cs, n') \<Longrightarrow>
    cc_type cc = ConfChangeUpdateNode \<or> cc_type cc = ConfChangeAddNode \<and> cc_node_id cc \<in> set ns \<Longrightarrow> rn_call ns n n'"

text \<open>Terms and positions are not about to wrap around.\<close>

definition has_room :: "RawNode \<Rightarrow> bool" where
  "has_room n \<longleftrightarrow> unat (r_term (rn_raft n)) < 2 ^ 64 - 1 \<and> log_last (rn_log n) + 2 < 2 ^ 64 - 1"

inductive replica_step :: "u64 list \<Rightarrow> Replicas \<Rightarrow> Replicas \<Rightarrow> bool" for ns :: "u64 list" where
  call: "i \<in> set ns \<Longrightarrow> has_room (rp_node c i) \<Longrightarrow> rn_call ns (rp_node c i) n' \<Longrightarrow> replica_step ns c (set_replica i n' c)"
| receive: "i \<in> set ns \<Longrightarrow> msg \<in> set (rp_net c) \<Longrightarrow> m_to msg = i \<Longrightarrow> unat (m_term msg) < 2 ^ 64 - 1 \<Longrightarrow>
    room msg (rn_raft (rp_node c i)) \<Longrightarrow> rn_step msg (rp_node c i) = Inr (s, n') \<Longrightarrow>
    replica_step ns c (set_replica i n' c)"
| round: "i \<in> set ns \<Longrightarrow> rn_ready (rp_node c i) = Inr (rd, n1) \<Longrightarrow> persist rd (rl_storage (rn_log n1)) = Inr s \<Longrightarrow>
    rn_advance rd (with_storage s n1) = Inr n' \<Longrightarrow>
    replica_step ns c ((set_replica i n' c)\<lparr>rp_net := rp_net c @ rd_messages rd,
      rp_applied := (rp_applied c)(i := rp_applied c i @ rd_committed_entries rd)\<rparr>)"
| snapshot: "i \<in> set ns \<Longrightarrow> n = rp_node c i \<Longrightarrow> u_snapshot (rl_unstable (rn_log n)) = None \<Longrightarrow>
    unat k \<le> unat (rl_applied (rn_log n)) \<Longrightarrow> set (cs_nodes cs) = set ns \<Longrightarrow> cs_learners cs = [] \<Longrightarrow>
    ms_create_snapshot k (Some cs) d (rl_storage (rn_log n)) = Inr (st, snap, s) \<Longrightarrow>
    replica_step ns c (set_replica i (with_storage s n) c)"
| compact: "i \<in> set ns \<Longrightarrow> n = rp_node c i \<Longrightarrow> u_snapshot (rl_unstable (rn_log n)) = None \<Longrightarrow>
    unat k \<le> unat (rl_applied (rn_log n)) \<Longrightarrow> ms_compact k (rl_storage (rn_log n)) = Inr (st, s) \<Longrightarrow>
    replica_step ns c (set_replica i (with_storage s n) c)"

section \<open>Simulation\<close>

text \<open>What the state machine of a node was given is in its abstract log, in order, up to the applied position.\<close>

definition fed :: "pnode \<Rightarrow> Entry list \<Rightarrow> bool" where
  "fed p es \<longleftrightarrow> sorted_wrt (<) (map (\<lambda>e. unat (e_index e)) es) \<and>
     (\<forall>e \<in> set es. unat (e_index e) \<le> pn_applied p \<and> 0 < unat (e_index e) \<and> pn_log p ! (unat (e_index e) - 1) = e)"

definition replica_view :: "u64 list \<Rightarrow> u64 \<Rightarrow> world \<Rightarrow> Replicas \<Rightarrow> bool" where
  "replica_view ns t0 w c \<longleftrightarrow> pinv ns t0 w \<and>
     (\<forall>i \<in> set ns. sim ns t0 i w (rn_raft (rp_node c i)) \<and> role_ok (rn_raft (rp_node c i)) \<and>
        fed (w_node w i) (rp_applied c i)) \<and>
     (\<forall>m \<in> set (rp_net c). msg_view ns w m)"

lemma replica_viewD:
  assumes "replica_view ns t0 w c"
  shows "i \<in> set ns \<Longrightarrow> sim ns t0 i w (rn_raft (rp_node c i))" and "i \<in> set ns \<Longrightarrow> role_ok (rn_raft (rp_node c i))"
    and "i \<in> set ns \<Longrightarrow> fed (w_node w i) (rp_applied c i)" and "m \<in> set (rp_net c) \<Longrightarrow> msg_view ns w m" and "pinv ns t0 w"
  using assms unfolding replica_view_def by blast+

text \<open>A step of the cluster is a sequence of actions of one node.\<close>

definition protocol_step :: "u64 list \<Rightarrow> world \<Rightarrow> world \<Rightarrow> bool" where
  "protocol_step ns w w' \<longleftrightarrow> (\<exists>i \<in> set ns. pstep ns i w w')"

lemma psteps_protocol:
  assumes "(pstep ns i)\<^sup>*\<^sup>* w w'" and "i \<in> set ns"
  shows "(protocol_step ns)\<^sup>*\<^sup>* w w'"
  using assms(1)
proof (induction rule: rtranclp_induct)
  case (step u v)
  have "protocol_step ns u v" using step(2) assms(2) by (auto simp: protocol_step_def)
  with step(3) show ?case by (rule rtranclp.rtrancl_into_rtrancl)
qed simp

lemma sim_other:
  assumes "sim ns t0 j w r" and "(pstep ns i)\<^sup>*\<^sup>* w w'" and "j \<noteq> i" and "pinv ns t0 w'"
  shows "sim ns t0 j w' r"
  using assms psteps_others [OF assms(2,3)] msg_view_mono [OF _ psteps_msgs [OF assms(2)]] by (simp add: sim_def)

text \<open>Applied entries are committed, and so they stay.\<close>

lemma sim_applied: "sim ns t0 i w r \<Longrightarrow> pn_applied (w_node w i) \<le> pn_commit (w_node w i)"
  using node_viewD(10,11,15) [OF simD(4)] log_invD(4) [OF log_viewD(1)] by metis

lemma pstep_applied: "pstep ns i w w' \<Longrightarrow> pn_applied (w_node w i) \<le> pn_applied (w_node w' i)"
  by (cases rule: pstep.cases) auto

lemma psteps_applied: "(pstep ns i)\<^sup>*\<^sup>* w w' \<Longrightarrow> pn_applied (w_node w i) \<le> pn_applied (w_node w' i)"
  by (induction rule: rtranclp_induct) (auto dest: pstep_applied)

lemma fed_kept:
  assumes "fed p es" and "pn_applied p \<le> pn_applied p'" and "pn_applied p \<le> c" and "take c (pn_log p') = take c (pn_log p)"
  shows "fed p' es"
proof -
  have "pn_log p' ! (unat (e_index e) - 1) = e" if e: "e \<in> set es" for e
  proof -
    have f: "unat (e_index e) \<le> pn_applied p" "0 < unat (e_index e)" "pn_log p ! (unat (e_index e) - 1) = e"
      using assms(1) e by (auto simp: fed_def)
    have k: "unat (e_index e) - 1 < c" using f assms(3) by linarith
    show ?thesis
      using arg_cong [OF assms(4), of "\<lambda>x. x ! (unat (e_index e) - 1)"] f(3) nth_take [OF k] by metis
  qed
  then show ?thesis using assms(1,2) by (auto simp: fed_def intro: order_trans)
qed

lemma fed_more:
  assumes f: "fed p es" and p: "pn_applied p = unat (rl_applied l)" "pn_log p = g" and v: "log_view l g" and n: "next_entries l = Inr ds"
    and a: "max (unat (rl_applied l)) (log_base l) + length ds \<le> k \<or> ds = [] \<and> unat (rl_applied l) \<le> k"
  shows "fed (p\<lparr>pn_applied := k\<rparr>) (es @ ds)"
proof -
  define a where "a = max (unat (rl_applied l)) (log_base l)"
  note L = log_viewD [OF v]
  have ds: "ds = take (length ds) (drop a g)" and le: "a + length ds \<le> length g"
    using view_next_entries [OF v n] L(9) unfolding a_def by linarith+
  have nth: "ds ! j = g ! (a + j)" if "j < length ds" for j
    using that le by (subst ds) simp
  then have idx: "unat (e_index (ds ! j)) = a + j + 1" if "j < length ds" for j
    using contiguous_nth [OF L(4), of "a + j"] that le by simp
  have sd: "sorted_wrt (<) (map (\<lambda>e. unat (e_index e)) ds)" using idx by (simp add: sorted_wrt_iff_nth_less)
  have new: "unat (e_index e) \<le> k \<and> a < unat (e_index e) \<and> g ! (unat (e_index e) - 1) = e" if ed: "e \<in> set ds" for e
  proof -
    obtain j where j: "j < length ds" "e = ds ! j" using ed by (auto simp: in_set_conv_nth)
    have "a + length ds \<le> k" using assms(6) j(1) unfolding a_def by auto
    then show ?thesis using idx [OF j(1)] nth [OF j(1)] j by auto
  qed
  have old: "unat (e_index e) \<le> unat (rl_applied l) \<and> 0 < unat (e_index e) \<and> g ! (unat (e_index e) - 1) = e" if "e \<in> set es" for e
    using f p that by (auto simp: fed_def)
  have ak: "unat (rl_applied l) \<le> k" "unat (rl_applied l) \<le> a" using assms(6) unfolding a_def by auto
  have "unat (e_index e) < unat (e_index d)" if "e \<in> set es" "d \<in> set ds" for e d
    using old [OF that(1)] new [OF that(2)] ak(2) by linarith
  then have so: "sorted_wrt (<) (map (\<lambda>e. unat (e_index e)) (es @ ds))"
    using sd f by (simp add: fed_def sorted_wrt_append)
  have "unat (e_index e) \<le> k \<and> 0 < unat (e_index e) \<and> g ! (unat (e_index e) - 1) = e" if "e \<in> set (es @ ds)" for e
    using that old [of e] new [of e] ak(1) by auto
  with so show ?thesis using p(2) by (simp add: fed_def)
qed

text \<open>One node moves; the others and the network keep their meaning.\<close>

lemma replica_moves:
  assumes v: "replica_view ns t0 w c" and i: "i \<in> set ns" and r: "reaches ns t0 i w (rn_raft n')" and ro: "role_ok (rn_raft n')"
  shows "\<exists>w'. (protocol_step ns)\<^sup>*\<^sup>* w w' \<and> replica_view ns t0 w' (set_replica i n' c)"
proof -
  note V = replica_viewD [OF v]
  obtain w' where w': "(pstep ns i)\<^sup>*\<^sup>* w w'" "sim ns t0 i w' (rn_raft n')" using r by (auto simp: reaches_def)
  have P: "pinv ns t0 w'" using w'(2) by (simp add: sim_def)
  have F: "fed (w_node w' i) (rp_applied c i)"
    using V(3) [OF i] psteps_applied [OF w'(1)] sim_applied [OF V(1) [OF i]] psteps_committed(2) [OF w'(1) V(5) i] by (rule fed_kept)
  have "replica_view ns t0 w' (set_replica i n' c)"
    unfolding replica_view_def set_replica_def
    using P F w' ro V sim_other [OF V(1) w'(1)] psteps_others [OF w'(1)] msg_view_mono [OF _ psteps_msgs [OF w'(1)]] by auto
  then show ?thesis using psteps_protocol [OF w'(1) i] by blast
qed

section \<open>Calls and messages\<close>

lemma step_with_reaches:
  assumes "step_with msg n = Inr (s, n')" and sm: "sim ns t0 i w (rn_raft n)" and ro: "role_ok (rn_raft n)"
    and g: "given ns i w msg" and rm: "room msg (rn_raft n)"
  shows "reaches ns t0 i w (rn_raft n') \<and> evolves (rn_raft n) (rn_raft n')"
proof -
  obtain r' where r': "step msg (rn_raft n) = Inr (s, r')" "rn_raft n' = r'" using assms(1) by (auto simp: step_with_def)
  have "unat (r_term (rn_raft n)) < 2 ^ 64 - 1" using rm by (simp add: room_def)
  then have "evolves (rn_raft n) r'" using step_evolves [OF r'(1) ro _ givenD(3) [OF g]] by blast
  then show ?thesis using step_reaches [OF r'(1) sm ro g rm] r'(2) by auto
qed

lemma input_reaches:
  assumes "step_with msg n = Inr (s, n')" and "sim ns t0 i w (rn_raft n)" and "role_ok (rn_raft n)" and "has_room n"
    and "client_input msg" and "length (m_entries msg) \<le> 1" and "m_snapshot msg = Snapshot_default"
  shows "reaches ns t0 i w (rn_raft n') \<and> evolves (rn_raft n) (rn_raft n')"
  using assms by (intro step_with_reaches [OF assms(1-3)])
    (auto simp: given_def client_input_def room_def has_room_def Snapshot_default_def)

lemma add_voter_sim:
  assumes "add_node_or_learner k False r = Inr r'" and sm: "sim ns t0 i w r" and k: "k \<in> set ns" and ro: "role_ok r"
  shows "sim ns t0 i w r' \<and> role_ok r'"
proof -
  note N = node_viewD [OF simD(4) [OF sm]]
  have "k \<in> set (map fst (r_prs r))" using k N(9) by simp
  then obtain p where p: "map_of (r_prs r) k = Some p" by (metis map_of_eq_None_iff not_None_eq set_map)
  then have g: "get_progress k r = Some p" by (simp add: get_progress_def)
  have kp: "(k, p) \<in> set (r_prs r)" using p by (rule map_of_SomeD)
  show ?thesis
  proof (cases "pr_is_learner p")
    case False
    then show ?thesis using assms(1) g sm ro by (simp add: add_node_or_learner_def)
  next
    case True
    let ?q = "p\<lparr>pr_is_learner := False, pr_recent_active := True\<rparr>"
    have "\<exists>b lp. r' = r\<lparr>r_is_learner := b, r_learner_prs := lp, r_prs := AList.update k ?q (r_prs r)\<rparr>"
      using assms(1) g True
      by (intro exI [of _ "if r_id r = k then False else r_is_learner r"] exI [of _ "AList.delete k (r_learner_prs r)"])
        (auto simp: add_node_or_learner_def mark_added_def put_progress_def get_progress_def update_conv' Let_def)
    then obtain b lp where r': "r' = r\<lparr>r_is_learner := b, r_learner_prs := lp, r_prs := AList.update k ?q (r_prs r)\<rparr>" by blast
    have keys: "map fst (AList.update k ?q (r_prs r)) = map fst (r_prs r)" using p by (intro update_keys_mem) simp
    have "unat (pr_match x) = pn_match (w_node w i) v \<and> prog_ok (length (nlog w i)) x"
      if "r_state r = Leader" "(v, x) \<in> set (AList.update k ?q (r_prs r))" for v x
      using set_update_distinct [OF that(2) N(8)] N(13) [OF that(1)] N(13) [OF that(1) kp] by (auto simp: prog_ok_def)
    then have "node_view ns i r' (w_node w i)" using simD(4) [OF sm] keys unfolding node_view_def r' by auto
    then show ?thesis using sm ro r' by (simp add: sim_def role_ok_def)
  qed
qed

lemma call_reaches:
  assumes "rn_call ns n n'" and sm: "sim ns t0 i w (rn_raft n)" and ro: "role_ok (rn_raft n)" and rm: "has_room n"
  shows "reaches ns t0 i w (rn_raft n') \<and> evolves (rn_raft n) (rn_raft n')"
  using assms(1)
proof (cases rule: rn_call.cases)
  case tick
  then obtain r' where r': "Raft.tick (rn_raft n) = Inr r'" "rn_raft n' = r'" by (auto simp: rn_tick_def on_raft_def)
  have "unat (r_term (rn_raft n)) < 2 ^ 64 - 1" "room Message_default (rn_raft n)"
    using rm by (auto simp: has_room_def room_def Message_default_def Snapshot_default_def)
  then show ?thesis
    using tick_reaches [OF r'(1) sm ro] tick_evolves [OF r'(1) ro] r'(2) by auto
next
  case (apply_conf_change cc cs)
  have A: "reaches ns t0 i w (rn_raft m) \<and> evolves (rn_raft n) (rn_raft m)"
    if "on_raft (add_node_or_learner (cc_node_id cc) False) n = Inr m" "cc_node_id cc \<in> set ns" for m
    using that add_voter_sim [OF _ sm that(2) ro] same_but_members_evolves [OF add_node_members]
    by (auto simp: on_raft_def intro: sim_reaches)
  show ?thesis
    using apply_conf_change sim_reaches [OF sm]
    by (auto simp: rn_apply_conf_change_def split: if_splits dest!: A)
qed (auto simp: rn_campaign_def rn_propose_def rn_propose_conf_change_def rn_read_index_def rn_transfer_leadership_def
      rn_report_unreachable_def rn_report_snapshot_def client_input_def Message_default_def
      dest: input_reaches [OF _ sm ro rm])

section \<open>Runs\<close>

lemma with_storage_sim:
  assumes sm: "sim ns t0 i w (rn_raft n)" and v: "\<And>g. log_view (rn_log n) g \<Longrightarrow> log_view ((rn_log n)\<lparr>rl_storage := s\<rparr>) g"
    and c: "snaps_conf ns ((rn_log n)\<lparr>rl_storage := s\<rparr>)"
  shows "sim ns t0 i w (rn_raft (with_storage s n))"
proof -
  note N = node_viewD [OF simD(4) [OF sm]]
  have "node_view ns i (rn_raft (with_storage s n)) (w_node w i)"
    using simD(4) [OF sm] v [OF N(10)] c unfolding node_view_def with_storage_def by auto
  then show ?thesis using sm by (simp add: sim_def with_storage_def)
qed

lemma with_storage_role [simp]: "role_ok (rn_raft (with_storage s n)) = role_ok (rn_raft n)"
  by (simp add: with_storage_def role_ok_def)

lemma node_view_log:
  assumes "node_view ns i r p" and "log_view l (pn_log p)" and "snaps_conf ns l" and "rl_committed l = rl_committed (r_raft_log r)"
  shows "node_view ns i (r\<lparr>r_raft_log := l\<rparr>) (p\<lparr>pn_applied := unat (rl_applied l)\<rparr>)"
  using assms unfolding node_view_def by auto

lemma round_view:
  assumes v: "replica_view ns t0 w c" and i: "i \<in> set ns"
    and r: "rn_ready (rp_node c i) = Inr (rd, n1)" "persist rd (rl_storage (rn_log n1)) = Inr s"
      "rn_advance rd (with_storage s n1) = Inr n'"
  shows "\<exists>w'. (protocol_step ns)\<^sup>*\<^sup>* w w' \<and> replica_view ns t0 w' ((set_replica i n' c)\<lparr>rp_net := rp_net c @ rd_messages rd,
      rp_applied := (rp_applied c)(i := rp_applied c i @ rd_committed_entries rd)\<rparr>)"
proof -
  let ?n = "rp_node c i" and ?p = "w_node w i" and ?k = "unat (rl_applied (rn_log n'))"
  let ?w = "put i (?p\<lparr>pn_applied := ?k\<rparr>) w"
  note V = replica_viewD [OF v] and N = node_viewD [OF simD(4) [OF replica_viewD(1) [OF v i]]]
  note R = view_round [OF N(10) r]
  have k: "pn_applied ?p \<le> ?k" using R(7) N(15) by (auto simp: word_le_nat_alt)
  have "?k \<le> pn_commit ?p" using log_invD(4) [OF log_viewD(1) [OF R(1)]] R(2) N(11) by simp
  with k have st: "pstep ns i w ?w" by (rule pstep.apply_entries [OF refl])
  then have sts: "(pstep ns i)\<^sup>*\<^sup>* w ?w" by blast
  have P: "pinv ns t0 ?w" using st V(5) i by (rule pstep_inv)
  obtain u rs where n': "rn_raft n' = (rn_raft ?n)\<lparr>r_msgs := [], r_uncommitted_size := u, r_raft_log := rn_log n', r_read_states := rs\<rparr>"
    using R(8) by blast
  have sc: "snaps_conf ns (rn_log n')" using snaps_conf_snapshot [OF N(14)] R(3,4) by (simp add: snaps_conf_def)
  have nv: "node_view ns i (rn_raft n') (w_node ?w i)"
    using node_view_log [OF simD(4) [OF V(1) [OF i]] R(1) sc R(2)] by (subst n') (auto simp: node_view_def)
  have ms: "r_msgs (rn_raft n') = []" by (subst n') simp
  have S: "sim ns t0 i ?w (rn_raft n')" using P V(1) [OF i] nv ms by (simp add: sim_def)
  have "fed (w_node ?w i) (rp_applied c i @ rd_committed_entries rd)"
    using fed_more [OF V(3) [OF i] N(15) [symmetric] refl N(10) R(6)] R(7) by (simp add: word_le_nat_alt)
  moreover have "role_ok (rn_raft n')" using V(2) [OF i] by (subst n') (simp add: role_ok_def)
  moreover have "msg_view ns ?w m" if "m \<in> set (rp_net c @ rd_messages rd)" for m
    using that V(4) simD(5) [OF V(1) [OF i]] R(5) msg_view_mono [of ns w m ?w] by auto
  moreover have "sim ns t0 j ?w (rn_raft (rp_node c j))" if "j \<in> set ns" "j \<noteq> i" for j
    using sim_other [OF V(1) [OF that(1)] sts that(2) P] .
  ultimately have "replica_view ns t0 ?w ((set_replica i n' c)\<lparr>rp_net := rp_net c @ rd_messages rd,
      rp_applied := (rp_applied c)(i := rp_applied c i @ rd_committed_entries rd)\<rparr>)"
    using P S V(2,3) unfolding replica_view_def set_replica_def by auto
  then show ?thesis using psteps_protocol [OF sts i] by blast
qed

lemma replica_step_view:
  assumes "replica_step ns c c'" and v: "replica_view ns t0 w c"
  shows "\<exists>w'. (protocol_step ns)\<^sup>*\<^sup>* w w' \<and> replica_view ns t0 w' c'"
proof -
  note V = replica_viewD [OF v]
  from assms(1) show ?thesis
  proof (cases rule: replica_step.cases)
    case (call i n')
    then show ?thesis using call_reaches [OF call(4) V(1,2)] evolves_role_ok V(2) replica_moves [OF v] by blast
  next
    case (receive i msg s n')
    have g: "given ns i w msg" using V(4) [OF receive(3)] receive(4,5) by (simp add: given_def)
    have "reaches ns t0 i w (rn_raft n') \<and> evolves (rn_raft (rp_node c i)) (rn_raft n')"
      using receive(7) step_with_reaches [OF _ V(1) V(2) g receive(6), of s n'] receive(2) sim_reaches [OF V(1)]
      by (auto simp: rn_step_def split: if_splits)
    then show ?thesis using replica_moves [OF v receive(2)] evolves_role_ok V(2) [OF receive(2)] receive(1) by blast
  next
    case (round i rd n1 s n')
    then show ?thesis using round_view [OF v] by blast
  next
    case (snapshot i n k cs d st snap s)
    note S = V(1) [OF snapshot(2)]
    have n: "node_view ns i (rn_raft n) (w_node w i)" using simD(4) [OF S] snapshot(3) by simp
    have "snaps_conf ns ((rn_log n)\<lparr>rl_storage := s\<rparr>)"
      using node_viewD(14) [OF n] view_create_snapshot(2) [OF node_viewD(10) [OF n] snapshot(4,5,8)] snapshot(6,7)
      by (auto simp: snaps_conf_def snap_conf_def)
    then have "sim ns t0 i w (rn_raft (with_storage s n))"
      using S snapshot(3) view_create_snapshot(1) [OF _ snapshot(4,5,8)] by (intro with_storage_sim) auto
    then show ?thesis using replica_moves [OF v snapshot(2) sim_reaches] V(2) [OF snapshot(2)] snapshot(1,3) by simp
  next
    case (compact i n k st s)
    note S = V(1) [OF compact(2)]
    have n: "node_view ns i (rn_raft n) (w_node w i)" using simD(4) [OF S] compact(3) by simp
    have "snaps_conf ns ((rn_log n)\<lparr>rl_storage := s\<rparr>)"
      using node_viewD(14) [OF n] view_compact(2) [OF node_viewD(10) [OF n] compact(4,5,6)] by (simp add: snaps_conf_def)
    then have "sim ns t0 i w (rn_raft (with_storage s n))"
      using S compact(3) view_compact(1) [OF _ compact(4,5,6)] by (intro with_storage_sim) auto
    then show ?thesis using replica_moves [OF v compact(2) sim_reaches] V(2) [OF compact(2)] compact(1,3) by simp
  qed
qed

interpretation replicas: forward_simulation "replica_step ns" "protocol_step ns" "replica_view ns t0" for ns t0
  by unfold_locales (rule replica_step_view)

section \<open>Start\<close>

text \<open>All nodes are followers with the same log of entries that count as agreed on.\<close>

definition replica_start :: "u64 list \<Rightarrow> Entry list \<Rightarrow> u64 \<Rightarrow> RawNode \<Rightarrow> bool" where
  "replica_start ns es i n \<longleftrightarrow> (let r = rn_raft n in
     r_id r = i \<and> \<not> r_pre_vote r \<and> role_ok r \<and> r_state r = Follower \<and> r_term r \<noteq> 0 \<and> last_tm es \<le> r_term r \<and>
     distinct (map fst (r_prs r)) \<and> set (map fst (r_prs r)) = set ns \<and> r_msgs r = [] \<and>
     log_view (r_raft_log r) es \<and> snaps_conf ns (r_raft_log r))"

definition replicas_start :: "u64 list \<Rightarrow> Entry list \<Rightarrow> Replicas \<Rightarrow> bool" where
  "replicas_start ns es c \<longleftrightarrow> distinct ns \<and> ns \<noteq> [] \<and> 0 \<notin> set ns \<and> length ns < 2 ^ 32 \<and> terms_sorted es \<and>
     rp_net c = [] \<and> (\<forall>i \<in> set ns. rp_applied c i = [] \<and> replica_start ns es i (rp_node c i))"

definition pnode_of :: "Entry list \<Rightarrow> RawNode \<Rightarrow> pnode" where
  "pnode_of es n = (let r = rn_raft n in
     \<lparr>pn_term = r_term r, pn_vote = r_vote r, pn_role = r_state r, pn_votes = {}, pn_match = (\<lambda>_. 0), pn_log = es,
      pn_commit = unat (rl_committed (r_raft_log r)), pn_applied = unat (rl_applied (r_raft_log r))\<rparr>)"

lemma start_view:
  assumes "replicas_start ns es c"
  shows "replica_view ns (last_tm es) (first_world ns es (\<lambda>i. pnode_of es (rp_node c i))) c"
proof -
  let ?p = "\<lambda>i. pnode_of es (rp_node c i)"
  let ?w = "first_world ns es ?p"
  have ns: "distinct ns" "0 \<notin> set ns" "ns \<noteq> []" "length ns < 2 ^ 32" and s: "terms_sorted es" and net: "rp_net c = []"
    and N: "\<And>i. i \<in> set ns \<Longrightarrow> rp_applied c i = [] \<and> replica_start ns es i (rp_node c i)"
    using assms by (auto simp: replicas_start_def)
  have C: "unat (rl_committed (rn_log (rp_node c i))) \<le> length es" if "i \<in> set ns" for i
    using N [OF that] log_viewD(9) [of "rn_log (rp_node c i)" es] by (auto simp: replica_start_def Let_def)
  have P: "pinv ns (last_tm es) ?w"
    using N C by (intro first_inv [OF ns(1,2,3) s]) (auto simp: pnode_of_def replica_start_def Let_def)
  have "sim ns (last_tm es) i ?w (rn_raft (rp_node c i)) \<and> role_ok (rn_raft (rp_node c i)) \<and> fed (w_node ?w i) (rp_applied c i)"
    if "i \<in> set ns" for i
    using N [OF that] P ns(4) that
    by (auto simp: sim_def node_view_def replica_start_def fed_def pnode_of_def first_world_def Let_def)
  with P net show ?thesis by (simp add: replica_view_def)
qed

lemma reachable_view:
  assumes "replicas_start ns es c" and "(replica_step ns)\<^sup>*\<^sup>* c c'"
  obtains w where "(protocol_step ns)\<^sup>*\<^sup>* (first_world ns es (\<lambda>i. pnode_of es (rp_node c i))) w" and "replica_view ns (last_tm es) w c'"
  using replicas.run_simulates [OF assms(2) start_view [OF assms(1)]] by blast

text \<open>The timers of a node keep their range.\<close>

lemma evolves_timer: "evolves r r' \<Longrightarrow> timer_ok r \<Longrightarrow> timer_ok r'"
  by (auto simp: evolves_def advances_def intro: same_config_timer)

lemma with_storage_timer [simp]: "timer_ok (rn_raft (with_storage s n)) = timer_ok (rn_raft n)"
  by (simp add: with_storage_def timer_ok_def)

lemma replica_step_timer:
  assumes "replica_step ns c c'" and v: "replica_view ns t0 w c" and t: "timer_ok (rn_raft (rp_node c j))"
  shows "timer_ok (rn_raft (rp_node c' j))"
proof -
  note V = replica_viewD [OF v]
  have M: "timer_ok (rn_raft (rp_node (set_replica i n' c) j))"
    if "evolves (rn_raft (rp_node c i)) (rn_raft n') \<or> timer_ok (rn_raft (rp_node c i)) = timer_ok (rn_raft n')" for i n'
    using that t evolves_timer by (auto simp: set_replica_def)
  from assms(1) show ?thesis
  proof (cases rule: replica_step.cases)
    case (call i n')
    then show ?thesis using call_reaches [OF call(4) V(1,2)] M by blast
  next
    case (receive i msg s n')
    have g: "given ns i w msg" using V(4) [OF receive(3)] receive(4,5) by (simp add: given_def)
    have "evolves (rn_raft (rp_node c i)) (rn_raft n')"
      using receive(7) step_with_reaches [OF _ V(1) V(2) g receive(6), of s n'] receive(2) by (auto simp: rn_step_def split: if_splits)
    then show ?thesis using M receive(1) by blast
  next
    case (round i rd n1 s n')
    obtain u l rs where "rn_raft n' = (rn_raft (rp_node c i))\<lparr>r_msgs := [], r_uncommitted_size := u, r_raft_log := l, r_read_states := rs\<rparr>"
      using view_round(8) [OF node_viewD(10) [OF simD(4) [OF V(1) [OF round(2)]]] round(3-5)] by blast
    then have "timer_ok (rn_raft (rp_node c i)) = timer_ok (rn_raft n')" by (simp add: timer_ok_def)
    then show ?thesis using M [of i n'] round(1) by (simp add: set_replica_def)
  qed (use M in auto)
qed

lemma reachable_timer:
  assumes "replicas_start ns es c" and "(replica_step ns)\<^sup>*\<^sup>* c c'" and "timer_ok (rn_raft (rp_node c j))"
  shows "timer_ok (rn_raft (rp_node c' j))"
  using assms(2)
proof (induction rule: rtranclp_induct)
  case (step x y)
  obtain w where "replica_view ns (last_tm es) w x" using reachable_view [OF assms(1) step(1)] .
  then show ?case using replica_step_timer [OF step(2)] step(3) by blast
qed (rule assms(3))

lemma replica_logD:
  assumes "replica_view ns t0 w c" and "i \<in> set ns"
  shows "log_view (rn_log (rp_node c i)) (nlog w i)" and "unat (rl_committed (rn_log (rp_node c i))) = pn_commit (w_node w i)"
    and "r_term (rn_raft (rp_node c i)) = nterm w i" and "r_state (rn_raft (rp_node c i)) = pn_role (w_node w i)"
  using node_viewD(3,5,10,11) [OF simD(4) [OF replica_viewD(1) [OF assms]]] by simp_all

lemma view_at_eq:
  assumes "log_view l g" and "log_view l' g'" and "take k g = take k g'" and "m \<le> k" and "k \<le> length g" and "k \<le> length g'"
    and "log_base l < m" and "log_base l' < m"
  shows "log_at l m = log_at l' m"
proof -
  have "g ! (m - 1) = g' ! (m - 1)"
    using arg_cong [OF assms(3), of "\<lambda>x. x ! (m - 1)"] assms(4,7) by simp
  then show ?thesis using log_viewD(6) [OF assms(1,7)] log_viewD(6) [OF assms(2,8)] assms(4-6) by simp
qed

end
