(* ===== verification/Bootstrap.thy ===== *)
theory Bootstrap
  imports Replicas
begin

text \<open>
  A new cluster: every server calls the first constructor of \<^verbatim>\<open>RawNode\<close> with an empty storage and the same
  peers. The states it builds are a start of the runs of \<open>Replicas\<close>.
\<close>

text \<open>The state the constructor leaves, when every server starts with an empty storage and the same peers.\<close>

definition bootstrapped :: "(ConfChange \<Rightarrow> bytes) \<Rightarrow> PeerContext list \<Rightarrow> Replicas \<Rightarrow> bool" where
  "bootstrapped pack_cc peers c \<longleftrightarrow> rp_net c = [] \<and> (\<forall>i \<in> set (map pc_id peers). rp_applied c i = [] \<and>
     (\<exists>conf seq. c_id conf = i \<and> c_storage conf = Some MemoryStorage_new \<and> c_peers conf = [] \<and> c_learners conf = [] \<and>
        c_applied conf = 0 \<and> \<not> c_pre_vote conf \<and> RawNode_start pack_cc conf seq peers = Inr (rp_node c i)))"

lemma empty_log_view: "log_view (RaftLog_new MemoryStorage_new m) []"
proof -
  have s: "ms_inv MemoryStorage_new" "ms_offset MemoryStorage_new = 0" "ms_last MemoryStorage_new = 0"
    by (simp_all add: ms_inv_def ms_offset_def ms_last_def MemoryStorage_new_def Entry_default_def)
  note R = RaftLog_new_inv [OF s(1), of m]
  have "log_off (RaftLog_new MemoryStorage_new m) = 1" "unat (rl_applied (RaftLog_new MemoryStorage_new m)) = 0"
    "log_base_term (RaftLog_new MemoryStorage_new m) = 0" "snap_newer (RaftLog_new MemoryStorage_new m)"
    by (simp_all add: log_off_def log_base_term_def snap_newer_def RaftLog_new_def Unstable_new_def MemoryStorage_new_def
        Entry_default_def ms_last_index_def ms_first_index_def)
  moreover have "ms_snap (rl_storage (RaftLog_new MemoryStorage_new m)) = Snapshot_default"
    by (simp add: RaftLog_new_def MemoryStorage_new_def)
  ultimately show ?thesis using R s by (simp add: log_view_def Snapshot_default_def)
qed

lemma bootstrap_length [simp]: "length (bootstrap_entries pack_cc k ps) = length ps"
  by (induction ps arbitrary: k) auto

lemma bootstrap_terms: "e \<in> set (bootstrap_entries pack_cc k ps) \<Longrightarrow> e_term e = 1"
  by (induction ps arbitrary: k) auto

lemma bootstrap_contiguous: "k + length ps < 2 ^ 64 \<Longrightarrow> contiguous (k + 1) (bootstrap_entries pack_cc k ps)"
proof (induction ps arbitrary: k)
  case (Cons p ps)
  have "unat (of_nat (k + 1) :: u64) = k + 1" using Cons.prems by (intro unat_of_nat_small) simp
  then show ?case using Cons.IH [of "k + 1"] Cons.prems by simp
qed simp

lemma bootstrap_sorted: "terms_sorted (bootstrap_entries pack_cc k ps)"
proof -
  have "map e_term (bootstrap_entries pack_cc k ps) = replicate (length ps) 1" by (induction ps arbitrary: k) auto
  then show ?thesis by (simp add: terms_sorted_def)
qed

lemma add_node_voter:
  assumes "add_node k r = Inr r'" and "r_learner_prs r = []"
  shows "adds_voters [k] r r'"
proof (cases "map_of (r_prs r) k")
  case None
  then have "r' = r\<lparr>r_is_learner := (if r_id r = k then False else r_is_learner r), r_prs := AList.update k
      (Progress_new (r_max_inflight r)\<lparr>pr_next := last_index (r_raft_log r) + 1, pr_match := 0, pr_recent_active := True\<rparr>) (r_prs r)\<rparr>"
    using assms by (auto simp: add_node_def add_node_or_learner_def mark_added_def set_progress_def get_progress_def put_progress_def
        update_conv' Let_def split: if_splits)
  then show ?thesis by (rule adds_voterI)
next
  case (Some p)
  then have k: "k \<in> set (map fst (r_prs r))" by (auto intro: rev_image_eqI dest: map_of_SomeD)
  show ?thesis
  proof (cases "pr_is_learner p")
    case False
    then have "r' = r" using assms Some by (simp add: add_node_def add_node_or_learner_def get_progress_def)
    then show ?thesis using k by (auto simp: adds_voters_def)
  next
    case True
    then have "r' = r\<lparr>r_is_learner := (if r_id r = k then False else r_is_learner r), r_prs := AList.update k
        (p\<lparr>pr_is_learner := False, pr_recent_active := True\<rparr>) (r_prs r)\<rparr>"
      using assms Some by (auto simp: add_node_def add_node_or_learner_def mark_added_def get_progress_def put_progress_def
          update_conv' Let_def split: if_splits)
    then show ?thesis by (rule adds_voterI)
  qed
qed

lemma Raft_new_empty:
  assumes "Raft_new conf seq = Inr r" and "c_storage conf = Some MemoryStorage_new" and "c_peers conf = []" and "c_learners conf = []"
    and "c_applied conf = 0"
  shows "become_follower 0 0 (Raft_init conf MemoryStorage_new seq) = Inr r"
  using assms
  by (auto simp: Raft_new_def ms_initial_state_def MemoryStorage_new_def Snapshot_default_def HardState_default_def is_empty_state_def
      Raft_init_def Let_def)

lemma log_append_applied: "log_append es l = Inr (i, l') \<Longrightarrow> rl_applied l' = rl_applied l"
  by (auto simp: log_append_def Let_def split: if_splits)

text \<open>The state of a new node.\<close>

definition new_node :: "u64 list \<Rightarrow> Entry list \<Rightarrow> Config \<Rightarrow> RawNode \<Rightarrow> bool" where
  "new_node ns es conf n \<longleftrightarrow> (let r = rn_raft n; l = rn_log n in
     r_id r = c_id conf \<and> r_state r = Follower \<and> r_term r = 1 \<and> r_vote r = 0 \<and> r_lead r = 0 \<and> r_msgs r = [] \<and>
     distinct (map fst (r_prs r)) \<and> set (map fst (r_prs r)) = set ns \<and> r_learner_prs r = [] \<and>
     log_last l = length es \<and> (\<forall>k < length es. log_at l (Suc k) = Some (es ! k)) \<and>
     unat (rl_committed l) = length es \<and> rl_applied l = 0)"

lemma bootstrap_state:
  assumes st: "RawNode_start pack_cc conf seq peers = Inr n" and c: "c_id conf = i" "c_storage conf = Some MemoryStorage_new"
      "c_peers conf = []" "c_learners conf = []" "c_applied conf = 0"
    and p: "peers \<noteq> []" "i \<noteq> 0" "length peers < 2 ^ 32"
  shows "new_node (map pc_id peers) (bootstrap_entries pack_cc 0 peers) conf n"
    and "\<not> c_pre_vote conf \<Longrightarrow> replica_start (map pc_id peers) (bootstrap_entries pack_cc 0 peers) i n"
    and "unat (c_election_tick conf) < 2 ^ 31 \<Longrightarrow> timer_ok (rn_raft n)"
proof -
  let ?es = "bootstrap_entries pack_cc 0 peers" and ?ids = "map pc_id peers"
  have li: "ms_last_index MemoryStorage_new = 0" by (simp add: ms_last_index_def MemoryStorage_new_def Entry_default_def)
  obtain r1 r2 li' l r3 where r1: "Raft_new conf seq = Inr r1" and r2: "become_follower 1 0 r1 = Inr r2"
    and l: "log_append ?es (r_raft_log r2) = Inr (li', l)"
    and r3: "loop_r (\<lambda>p. add_node (pc_id p)) peers (r2\<lparr>r_raft_log := l\<lparr>rl_committed := of_nat (length ?es)\<rparr>\<rparr>) = Inr r3"
    and n: "n = with_prev 0 r3"
    using st c(2) li by (auto simp: RawNode_start_def Let_def)
  have i1: "become_follower 0 0 (Raft_init conf MemoryStorage_new seq) = Inr r1" using Raft_new_empty [OF r1 c(2-5)] .
  note F1 = become_follower_facts [OF i1] and F2 = become_follower_facts [OF r2]
  let ?l = "l\<lparr>rl_committed := of_nat (length ?es)\<rparr>"
  let ?q = "r2\<lparr>r_raft_log := ?l\<rparr>"
  have l2: "r_raft_log r2 = RaftLog_new MemoryStorage_new (c_max_committed_size_per_ready conf)" using F1(4) F2(4) by (simp add: Raft_init_def)
  have ct: "contiguous 1 ?es" using bootstrap_contiguous [of 0 peers pack_cc] p(3) by simp
  have ne: "?es \<noteq> []" using p(1) by (metis bootstrap_length length_0_conv)
  have v: "log_view (r_raft_log r2) []" unfolding l2 by (rule empty_log_view)
  have A: "log_view l ([] @ ?es)" "rl_committed l = rl_committed (r_raft_log r2)"
    using view_log_append [OF v _ ne _ _ l] ct bootstrap_terms [of _ pack_cc 0 peers] p(3) by auto
  have cm: "unat (of_nat (length ?es) :: u64) = length ?es" using p(3) by (intro unat_of_nat_small) simp
  then have lv: "log_view ?l ?es"
    using A log_viewD(9) [OF v] by (intro view_commit) simp_all
  have "snap_conf ?ids (ms_snap (rl_storage l)) \<and> u_snapshot (rl_unstable l) = None" "log_base ?l = 0" "rl_applied ?l = 0"
    using log_append_snap [OF l] log_append_applied [OF l]
    by (simp_all add: snap_conf_def l2 RaftLog_new_def Unstable_new_def MemoryStorage_new_def Snapshot_default_def log_base_def ms_offset_def
        Entry_default_def ms_first_index_def)
  then have lg: "snaps_conf ?ids ?l" "log_base ?l = 0" "rl_applied ?l = 0" by (simp_all add: snaps_conf_def)
  have "loop_r add_node (map pc_id ps) q = loop_r (\<lambda>p. add_node (pc_id p)) ps q" for ps :: "PeerContext list" and q
    by (induction ps arbitrary: q) (simp_all add: bind_r_def split: sum.splits)
  then have "loop_r add_node ?ids ?q = Inr r3" using r3 by simp
  then have av: "adds_voters ?ids ?q r3"
    using loop_adds_voters [of add_node, OF add_node_voter] F1(13) F2(13) by (simp add: Raft_init_def)
  have keys: "r_prs ?q = []" using F1(12) F2(12) by (simp add: Raft_init_def)
  have lt: "last_tm ?es = 1" using ne p(1) bootstrap_terms [of "?es ! (length ?es - 1)" pack_cc 0 peers] by (simp add: last_tm_def tm_def)
  note V = adds_votersD [OF av]
  have nr: "rn_raft n = r3" using n by (simp add: with_prev_def)
  have P: "set (map fst (r_prs r3)) = set ?ids" "distinct (map fst (r_prs r3))" using V(2,3) keys by simp_all
  obtain b ps where r: "rn_raft n = ?q\<lparr>r_is_learner := b, r_prs := ps\<rparr>" and ps: "set (map fst ps) = set ?ids" "distinct (map fst ps)"
    using V(1) P nr by metis
  have cf: "same_config (Raft_init conf MemoryStorage_new seq) r2" by (rule same_config_trans [OF F1(1)]) (rule F2(1))
  show "new_node ?ids ?es conf n"
    using ps F1 F2 c cf lg(2,3) cm log_viewD(3) [OF lv] log_viewD(6) [OF lv]
    by (simp add: new_node_def r same_config_def Raft_init_def Let_def)
  show "replica_start ?ids ?es i n" if "\<not> c_pre_vote conf"
    using that ps lv lg(1) F1 F2 c p lt cf by (simp add: replica_start_def r role_ok_def same_config_def Raft_init_def Let_def)
  show "timer_ok (rn_raft n)" if "unat (c_election_tick conf) < 2 ^ 31"
    using same_config_timer [OF cf] that by (simp add: r timer_ok_def Raft_init_def)
qed

lemma bootstrap_run:
  assumes "bootstrapped pack_cc peers c" and "peers \<noteq> []" and "distinct (map pc_id peers)" and "0 \<notin> set (map pc_id peers)"
    and "length peers < 2 ^ 32"
  shows "replicas_start (map pc_id peers) (bootstrap_entries pack_cc 0 peers) c"
proof -
  have "replica_start (map pc_id peers) (bootstrap_entries pack_cc 0 peers) i (rp_node c i)" if i: "i \<in> set (map pc_id peers)" for i
  proof -
    obtain conf seq where "c_id conf = i" "c_storage conf = Some MemoryStorage_new" "c_peers conf = []" "c_learners conf = []"
      "c_applied conf = 0" "\<not> c_pre_vote conf" "RawNode_start pack_cc conf seq peers = Inr (rp_node c i)"
      using assms(1) i unfolding bootstrapped_def by blast
    moreover have "i \<noteq> 0" using i assms(4) by metis
    ultimately show ?thesis using assms(2,5) by (intro bootstrap_state(2))
  qed
  then show ?thesis using assms bootstrap_sorted by (simp add: replicas_start_def bootstrapped_def)
qed

text \<open>The constructor returns.\<close>

lemma add_nodes_total: "\<exists>r'. loop_r (\<lambda>p. add_node (pc_id p)) ps r = Inr r'"
  by (induction ps arbitrary: r) (use add_node_total in \<open>fastforce simp: bind_r_eq_Inr add_node_def\<close>)+

lemma Raft_new_total:
  assumes "c_storage conf = Some MemoryStorage_new" and "c_peers conf = []" and "c_learners conf = []" and "c_applied conf = 0"
    and "unat (c_election_tick conf) < 2 ^ 31"
  shows "\<exists>r. Raft_new conf seq = Inr r \<and> timer_ok r \<and> r_raft_log r = RaftLog_new MemoryStorage_new (c_max_committed_size_per_ready conf)"
proof -
  let ?q = "Raft_init conf MemoryStorage_new seq"
  have "timer_ok ?q" using assms(5) by (simp add: timer_ok_def Raft_init_def)
  then obtain r where r: "become_follower 0 0 ?q = Inr r" "timer_ok r" using become_follower_total by blast
  have l: "r_raft_log r = RaftLog_new MemoryStorage_new (c_max_committed_size_per_ready conf)"
    using become_follower_facts(4) [OF r(1)] by (simp add: Raft_init_def)
  have "\<exists>t. last_term (r_raft_log r) = Inr t" using last_term_eq [OF log_viewD(2) [OF empty_log_view]] l by metis
  moreover have "r_term ?q = 0" by (simp add: Raft_init_def)
  ultimately show ?thesis using assms(1-4) r l
    by (auto simp: Raft_new_def ms_initial_state_def MemoryStorage_new_def Snapshot_default_def HardState_default_def is_empty_state_def Let_def)
qed

lemma bootstrap_returns:
  assumes c: "c_storage conf = Some MemoryStorage_new" "c_peers conf = []" "c_learners conf = []" "c_applied conf = 0"
      "unat (c_election_tick conf) < 2 ^ 31" and p: "peers \<noteq> []" "length peers < 2 ^ 32"
  shows "\<exists>n. RawNode_start pack_cc conf seq peers = Inr n"
proof -
  let ?es = "bootstrap_entries pack_cc 0 peers" and ?l = "RaftLog_new MemoryStorage_new (c_max_committed_size_per_ready conf)"
  obtain r where r: "Raft_new conf seq = Inr r" "timer_ok r" "r_raft_log r = ?l" using Raft_new_total [OF c] by blast
  obtain q where q: "become_follower 1 0 r = Inr q" using become_follower_total [OF r(2)] by blast
  note L = log_viewD [OF empty_log_view [of "c_max_committed_size_per_ready conf"]]
  have ct: "contiguous 1 ?es" using bootstrap_contiguous [of 0 peers pack_cc] p(2) by simp
  have ne: "?es \<noteq> []" using p(1) by (metis bootstrap_length length_0_conv)
  have e0: "unat (e_index (?es ! 0)) = 1" using contiguous_nth [OF ct, of 0] p(1) by simp
  have b: "batch_ok ?es" using ct e0 p(2) by (simp add: batch_ok_def)
  obtain l where l: "log_append ?es ?l = Inr (last_index l, l)"
    by (rule log_append_eq [OF L(2) b ne L(8)]) (use e0 L(3,9) in auto)
  have "r_raft_log q = ?l" using become_follower_facts(4) [OF q] r(3) by simp
  moreover obtain x where "loop_r (\<lambda>p. add_node (pc_id p)) peers (q\<lparr>r_raft_log := l\<lparr>rl_committed := of_nat (length ?es)\<rparr>\<rparr>) = Inr x"
    using add_nodes_total by blast
  moreover have "ms_last_index MemoryStorage_new = 0" by (simp add: ms_last_index_def MemoryStorage_new_def Entry_default_def)
  ultimately show ?thesis using r(1) q l c(1) by (simp add: RawNode_start_def Let_def)
qed

text \<open>
  C20. A new node: when the constructor for new clusters runs on an empty storage with an election timeout
  below half of the 32 bits, it returns, and the node is a follower of term 1 that has given no vote, knows no
  leader and has no message queued, with exactly the peers as voters and no learners, and with a log of one configuration
  change per peer, at the indexes from 1 on, all of them committed and none applied. Without pre-vote
  this is a start of the runs for which agreement is proved.
\<close>

theorem bootstrap_node:
  assumes "c_storage conf = Some MemoryStorage_new" and "c_peers conf = []" and "c_learners conf = []"
    and "c_applied conf = 0" and "unat (c_election_tick conf) < 2 ^ 31"
    and "peers \<noteq> []" and "c_id conf \<noteq> 0" and "length peers < 2 ^ 32"
  shows "\<exists>n. RawNode_start pack_cc conf seq peers = Inr n \<and>
     new_node (map pc_id peers) (bootstrap_entries pack_cc 0 peers) conf n \<and>
     (\<not> c_pre_vote conf \<longrightarrow> replica_start (map pc_id peers) (bootstrap_entries pack_cc 0 peers) (c_id conf) n)"
  using bootstrap_returns [OF assms(1-6,8)] bootstrap_state(1,2) [OF _ refl assms(1-4,6-8)] by blast

section \<open>Concrete runs\<close>

datatype op = Op_Tick u64 | Op_Campaign u64 | Op_Propose u64 bytes | Op_Receive nat | Op_Round u64
  | Op_Snapshot u64 u64 "u64 list" | Op_Compact u64 u64

definition small_log :: "RaftLog \<Rightarrow> bool" where
  "small_log l \<longleftrightarrow> u_offset (rl_unstable l) < 0x100000000 \<and> length (u_entries (rl_unstable l)) < 100"

definition small_msg :: "Message \<Rightarrow> bool" where
  "small_msg m \<longleftrightarrow> bounded (m_term m) \<and> length (m_entries m) < 100 \<and> sm_index (s_metadata (m_snapshot m)) < 0x100000000"

definition small_node :: "RawNode \<Rightarrow> bool" where
  "small_node n \<longleftrightarrow> bounded (r_term (rn_raft n)) \<and> small_log (rn_log n)"

lemma small_node_room: "small_node n \<Longrightarrow> has_room n"
  by (auto simp: small_node_def small_log_def has_room_def bounded_unat log_last_def u_end_def word_less_nat_alt)

lemma small_msg_room: "small_msg m \<Longrightarrow> small_node n \<Longrightarrow> room m (rn_raft n)"
  by (auto simp: small_msg_def small_node_def small_log_def room_def bounded_unat log_last_def u_end_def word_less_nat_alt)

definition put_result :: "u64 \<Rightarrow> fault + RawNode \<Rightarrow> Replicas \<Rightarrow> Replicas option" where
  "put_result i res c = (case res of Inl _ \<Rightarrow> None | Inr n \<Rightarrow> Some (set_replica i n c))"

definition save_round :: "u64 \<Rightarrow> Replicas \<Rightarrow> fault + Replicas" where
  "save_round i c =
     bind_r (rn_ready (rp_node c i)) (\<lambda>(rd, n1).
     bind_r (persist rd (rl_storage (rn_log n1))) (\<lambda>s.
     bind_r (rn_advance rd (with_storage s n1)) (\<lambda>n'.
     Inr ((set_replica i n' c)\<lparr>rp_net := rp_net c @ rd_messages rd,
       rp_applied := (rp_applied c)(i := rp_applied c i @ rd_committed_entries rd)\<rparr>))))"

definition can_compact :: "u64 \<Rightarrow> RawNode \<Rightarrow> bool" where
  "can_compact k n \<longleftrightarrow> u_snapshot (rl_unstable (rn_log n)) = None \<and> k \<le> rl_applied (rn_log n)"

fun perform :: "u64 list \<Rightarrow> op \<Rightarrow> Replicas \<Rightarrow> Replicas option" where
  "perform ns (Op_Tick i) c =
     (if i \<in> set ns \<and> small_node (rp_node c i) then put_result i (rn_tick (rp_node c i)) c else None)"
| "perform ns (Op_Campaign i) c =
     (if i \<in> set ns \<and> small_node (rp_node c i) then put_result i (map_sum (\<lambda>f. f) snd (rn_campaign (rp_node c i))) c else None)"
| "perform ns (Op_Propose i d) c =
     (if i \<in> set ns \<and> small_node (rp_node c i) then put_result i (map_sum (\<lambda>f. f) snd (rn_propose d (rp_node c i))) c else None)"
| "perform ns (Op_Receive k) c =
     (if k < length (rp_net c) then
        let msg = rp_net c ! k; i = m_to msg in
        if i \<in> set ns \<and> small_msg msg \<and> small_node (rp_node c i)
        then put_result i (map_sum (\<lambda>f. f) snd (rn_step msg (rp_node c i))) c else None
      else None)"
| "perform ns (Op_Round i) c =
     (if i \<in> set ns then case save_round i c of Inl _ \<Rightarrow> None | Inr c' \<Rightarrow> Some c' else None)"
| "perform ns (Op_Snapshot i k ms) c =
     (if i \<in> set ns \<and> set ms = set ns \<and> can_compact k (rp_node c i)
      then put_result i (bind_r (ms_create_snapshot k (Some \<lparr>cs_nodes = ms, cs_learners = []\<rparr>) [] (rl_storage (rn_log (rp_node c i))))
        (\<lambda>(_, _, s). Inr (with_storage s (rp_node c i)))) c
      else None)"
| "perform ns (Op_Compact i k) c =
     (if i \<in> set ns \<and> can_compact k (rp_node c i)
      then put_result i (bind_r (ms_compact k (rl_storage (rn_log (rp_node c i)))) (\<lambda>(_, s). Inr (with_storage s (rp_node c i)))) c
      else None)"

fun perform_all :: "u64 list \<Rightarrow> op list \<Rightarrow> Replicas \<Rightarrow> Replicas option" where
  "perform_all ns [] c = Some c"
| "perform_all ns (x # xs) c = Option.bind (perform ns x c) (perform_all ns xs)"

lemma put_result_eq: "put_result i res c = Some c' \<longleftrightarrow> (\<exists>n. res = Inr n \<and> c' = set_replica i n c)"
  by (auto simp: put_result_def split: sum.splits)

lemma perform_step: "perform ns x c = Some c' \<Longrightarrow> replica_step ns c c'"
proof (cases x)
  case (Op_Receive k)
  assume "perform ns x c = Some c'"
  then show ?thesis
    using Op_Receive small_msg_room
    by (auto simp: put_result_eq map_snd_Inr Let_def small_msg_def bounded_unat split: if_splits intro!: replica_step.receive [OF _ nth_mem refl])
next
  case (Op_Round i)
  assume "perform ns x c = Some c'"
  then have "i \<in> set ns" "save_round i c = Inr c'" using Op_Round by (auto split: if_splits sum.splits)
  then show ?thesis by (auto simp: save_round_def intro: replica_step.round)
next
  case (Op_Snapshot i k ms)
  assume "perform ns x c = Some c'"
  then obtain st snap s where i: "i \<in> set ns" and ms: "set ms = set ns" and k: "can_compact k (rp_node c i)"
    and s: "ms_create_snapshot k (Some \<lparr>cs_nodes = ms, cs_learners = []\<rparr>) [] (rl_storage (rn_log (rp_node c i))) = Inr (st, snap, s)"
    and c': "c' = set_replica i (with_storage s (rp_node c i)) c"
    using Op_Snapshot by (auto simp: put_result_eq split: if_splits simp del: set_eq_iff)
  have "u_snapshot (rl_unstable (rn_log (rp_node c i))) = None" "unat k \<le> unat (rl_applied (rn_log (rp_node c i)))"
    using k by (simp_all add: can_compact_def word_le_nat_alt)
  then show ?thesis unfolding c' using i ms s by (intro replica_step.snapshot [OF _ refl]) simp_all
next
  case (Op_Compact i k)
  assume "perform ns x c = Some c'"
  then show ?thesis
    using Op_Compact
    by (auto simp: put_result_eq can_compact_def word_le_nat_alt split: if_splits intro!: replica_step.compact [OF _ refl])
qed (auto simp: put_result_eq map_snd_Inr small_node_room split: if_splits intro: replica_step.call rn_call.intros)

lemma perform_run: "perform_all ns xs c = Some c' \<Longrightarrow> (replica_step ns)\<^sup>*\<^sup>* c c'"
  by (induction xs arbitrary: c) (auto simp: bind_eq_Some_conv dest!: perform_step intro: converse_rtranclp_into_rtranclp)

text \<open>A new cluster of three.\<close>

definition three_peers :: "PeerContext list" where
  "three_peers = map (\<lambda>i. \<lparr>pc_id = i, pc_context = []\<rparr>) [1, 2, 3]"

definition three_config :: "u64 \<Rightarrow> Config" where
  "three_config i = example_config\<lparr>c_id := i, c_peers := []\<rparr>"

definition three_nodes :: Replicas where
  "three_nodes = \<lparr>rp_node = (\<lambda>i. projr (RawNode_start (\<lambda>_. []) (three_config i) (\<lambda>_. 3) three_peers)), rp_net = [], rp_applied = (\<lambda>_. [])\<rparr>"

theorem bootstrap_node_witness:
  "\<exists>n. RawNode_start (\<lambda>_. []) (three_config 2) (\<lambda>_. 3) three_peers = Inr n \<and>
     new_node [1, 2, 3] (bootstrap_entries (\<lambda>_. []) 0 three_peers) (three_config 2) n \<and>
     replica_start [1, 2, 3] (bootstrap_entries (\<lambda>_. []) 0 three_peers) 2 n"
  using bootstrap_node [of "three_config 2" three_peers "\<lambda>_. []" "\<lambda>_. 3"]
  by (simp add: three_config_def three_peers_def example_config_def Config_default_def)

lemma three_ids: "map pc_id three_peers = [1, 2, 3]"
  by (simp add: three_peers_def)

lemma three_bootstrapped: "bootstrapped (\<lambda>_. []) three_peers three_nodes"
proof -
  have "\<exists>n. RawNode_start (\<lambda>_. []) (three_config i) (\<lambda>_. 3) three_peers = Inr n" for i
    by (rule bootstrap_returns) (simp_all add: three_config_def three_peers_def example_config_def Config_default_def)
  then have S: "RawNode_start (\<lambda>_. []) (three_config i) (\<lambda>_. 3) three_peers = Inr (rp_node three_nodes i)" for i
    by (metis Replicas.select_convs(1) sum.sel(2) three_nodes_def)
  have C: "c_id (three_config i) = i \<and> c_storage (three_config i) = Some MemoryStorage_new \<and> c_peers (three_config i) = [] \<and>
      c_learners (three_config i) = [] \<and> c_applied (three_config i) = 0 \<and> \<not> c_pre_vote (three_config i)" for i
    by (simp add: three_config_def example_config_def Config_default_def)
  have "rp_net three_nodes = [] \<and> rp_applied three_nodes i = []" for i by (simp add: three_nodes_def)
  then show ?thesis unfolding bootstrapped_def three_ids using S C by auto
qed

lemma three_timer: "i \<noteq> 0 \<Longrightarrow> timer_ok (rn_raft (rp_node three_nodes i))"
proof -
  assume i: "i \<noteq> 0"
  obtain n where n: "RawNode_start (\<lambda>_. []) (three_config i) (\<lambda>_. 3) three_peers = Inr n"
    using bootstrap_returns [of "three_config i" three_peers "\<lambda>_. []" "\<lambda>_. 3"]
    by (auto simp: three_config_def three_peers_def example_config_def Config_default_def)
  have "timer_ok (rn_raft n)"
    by (rule bootstrap_state(3) [OF n])
      (use i in \<open>simp_all add: three_config_def three_peers_def example_config_def Config_default_def\<close>)
  then show ?thesis using n by (simp add: three_nodes_def)
qed

lemma three_start: "replicas_start [1, 2, 3] (bootstrap_entries (\<lambda>_. []) 0 three_peers) three_nodes"
  using bootstrap_run [OF three_bootstrapped] unfolding three_ids by (simp add: three_peers_def)

text \<open>Node 1 is elected and commits its first entry with node 2.\<close>

definition three_ops :: "op list" where
  "three_ops = [Op_Round 1, Op_Round 2, Op_Campaign 1, Op_Round 1, Op_Receive 0, Op_Round 2, Op_Receive 2, Op_Round 1,
     Op_Receive 3, Op_Round 2, Op_Receive 5, Op_Round 1, Op_Receive 6, Op_Round 2]"

lemma three_run: "case perform_all [1, 2, 3] three_ops three_nodes of None \<Rightarrow> False | Some c \<Rightarrow>
    r_state (rn_raft (rp_node c 1)) = Leader \<and> r_term (rn_raft (rp_node c 1)) = 2 \<and> r_term (rn_raft (rp_node c 2)) = 2 \<and>
    log_base (rn_log (rp_node c 1)) = 0 \<and> log_base (rn_log (rp_node c 2)) = 0 \<and>
    last_index (rn_log (rp_node c 1)) = 4 \<and> last_index (rn_log (rp_node c 2)) = 4 \<and> rl_committed (rn_log (rp_node c 2)) = 4 \<and>
    map_option e_term (log_at (rn_log (rp_node c 1)) 4) = Some 2 \<and> map_option e_term (log_at (rn_log (rp_node c 2)) 4) = Some 2 \<and>
    4 < length (rp_net c) \<and> m_type (rp_net c ! 4) = MsgApp \<and> m_to (rp_net c ! 4) = 3 \<and> m_term (rp_net c ! 4) = 2 \<and>
    r_term (rn_raft (rp_node c 3)) = 1"
  by code_simp

definition three_snap_ops :: "op list" where
  "three_snap_ops = [Op_Snapshot 1 4 [3, 1, 2], Op_Compact 1 4, Op_Round 3, Op_Tick 1, Op_Round 1, Op_Receive 9, Op_Round 3, Op_Receive 10,
     Op_Round 1, Op_Receive 11, Op_Round 3]"

lemma three_snap_run: "case perform_all [1, 2, 3] (three_ops @ three_snap_ops) three_nodes of None \<Rightarrow> False | Some c \<Rightarrow>
    log_base (rn_log (rp_node c 1)) = 4 \<and> log_base (rn_log (rp_node c 3)) = 4 \<and> rl_committed (rn_log (rp_node c 3)) = 4 \<and>
    rl_applied (rn_log (rp_node c 3)) = 4 \<and> map e_index (rp_applied c 1) = [1, 2, 3, 4] \<and> map e_index (rp_applied c 3) = [1, 2, 3]"
  by code_simp

end
