(* ===== verification/Replica_Safety.thy ===== *)
theory Replica_Safety
  imports Bootstrap
begin

text \<open>
  What runs of the replicated system guarantee, read off the protocol by the simulation of \<open>Replicas\<close>: it
  refines the protocol, logs match, leaders are complete, state machines agree and see every entry once and
  in order, and a follower is never asked to commit what it does not have. The instances are about the
  cluster of three that \<open>Bootstrap\<close> starts.
\<close>

section \<open>The instance\<close>

lemma three_reached:
  obtains c where "(replica_step [1, 2, 3])\<^sup>*\<^sup>* three_nodes c" and "r_state (rn_raft (rp_node c 1)) = Leader"
    and "r_term (rn_raft (rp_node c 1)) = 2" and "r_term (rn_raft (rp_node c 2)) = 2"
    and "log_base (rn_log (rp_node c 1)) = 0" and "log_base (rn_log (rp_node c 2)) = 0"
    and "last_index (rn_log (rp_node c 1)) = 4" and "last_index (rn_log (rp_node c 2)) = 4" and "rl_committed (rn_log (rp_node c 2)) = 4"
    and "map_option e_term (log_at (rn_log (rp_node c 1)) 4) = Some 2" and "map_option e_term (log_at (rn_log (rp_node c 2)) 4) = Some 2"
  using three_run perform_run [of "[1, 2, 3]" three_ops three_nodes] by (auto split: option.splits)

lemma three_message:
  obtains c msg where "(replica_step [1, 2, 3])\<^sup>*\<^sup>* three_nodes c" and "msg \<in> set (rp_net c)" and "m_type msg = MsgApp" and "m_to msg = 3"
    and "r_term (rn_raft (rp_node c 3)) < m_term msg"
proof -
  obtain c where c: "perform_all [1, 2, 3] three_ops three_nodes = Some c" "4 < length (rp_net c)" "m_type (rp_net c ! 4) = MsgApp"
    "m_to (rp_net c ! 4) = 3" "r_term (rn_raft (rp_node c 3)) < m_term (rp_net c ! 4)"
    using three_run by (auto split: option.splits)
  show thesis by (rule that [OF perform_run [OF c(1)] nth_mem [OF c(2)] c(3,4,5)])
qed

lemma three_snap_reached:
  obtains c where "(replica_step [1, 2, 3])\<^sup>*\<^sup>* three_nodes c" and "log_base (rn_log (rp_node c 3)) = 4"
    and "map e_index (rp_applied c 1) = [1, 2, 3, 4]" and "map e_index (rp_applied c 3) = [1, 2, 3]"
  using three_snap_run perform_run [of "[1, 2, 3]" "three_ops @ three_snap_ops" three_nodes] by (auto split: option.splits)

lemma reached_last:
  assumes "replicas_start ns es c" and "(replica_step ns)\<^sup>*\<^sup>* c c'" and "i \<in> set ns"
  shows "log_last (rn_log (rp_node c' i)) = unat (last_index (rn_log (rp_node c' i)))"
proof -
  obtain w where v: "replica_view ns (last_tm es) w c'" using reachable_view [OF assms(1,2)] .
  show ?thesis using unat_last_index [OF log_viewD(2) [OF replica_logD(1) [OF v assms(3)]]] by simp
qed

section \<open>Refinement\<close>



section \<open>Logs\<close>

text \<open>
  C4. Log matching: if the logs of two nodes have the same term at a position, they have the same entries at
  every position up to it that both still store.
\<close>

theorem log_matching_property:
  assumes "replicas_start ns es c" and "(replica_step ns)\<^sup>*\<^sup>* c c'" and "i \<in> set ns" and "j \<in> set ns"
    and "l = rn_log (rp_node c' i)" and "l' = rn_log (rp_node c' j)"
    and "log_base l < m" and "log_base l' < m" and "m \<le> k" and "k \<le> log_last l" and "k \<le> log_last l'"
    and "term_at l k = term_at l' k"
  shows "log_at l m = log_at l' m"
proof -
  obtain w where v: "replica_view ns (last_tm es) w c'" using reachable_view [OF assms(1,2)] .
  note L = replica_logD [OF v assms(3), folded assms(5)] and L' = replica_logD [OF v assms(4), folded assms(6)]
  have k: "k \<le> length (nlog w i)" "k \<le> length (nlog w j)" using assms(10,11) log_viewD(3) [OF L(1)] log_viewD(3) [OF L'(1)] by simp_all
  have "tm (nlog w i) k = tm (nlog w j) k"
    using assms(7-9,12) view_term_at [OF L(1), of k] view_term_at [OF L'(1), of k] by simp
  then have "take k (nlog w i) = take k (nlog w j)" using log_matching [OF replica_viewD(5) [OF v] assms(3,4) k] by simp
  then show ?thesis using view_at_eq [OF L(1) L'(1)] assms(7-9) k by blast
qed

theorem log_matching_property_witness:
  "\<exists>(c :: Replicas). (replica_step [1, 2, 3])\<^sup>*\<^sup>* three_nodes c \<and> last_index (rn_log (rp_node c 1)) = 4 \<and>
     log_at (rn_log (rp_node c 1)) 1 = log_at (rn_log (rp_node c 2)) 1 \<and> log_at (rn_log (rp_node c 1)) 4 = log_at (rn_log (rp_node c 2)) 4"
proof -
  obtain c where c: "(replica_step [1, 2, 3])\<^sup>*\<^sup>* three_nodes c" "log_base (rn_log (rp_node c 1)) = 0" "log_base (rn_log (rp_node c 2)) = 0"
    "last_index (rn_log (rp_node c 1)) = 4" "last_index (rn_log (rp_node c 2)) = 4"
    "map_option e_term (log_at (rn_log (rp_node c 1)) 4) = Some 2" "map_option e_term (log_at (rn_log (rp_node c 2)) 4) = Some 2"
    by (rule three_reached)
  have l: "4 \<le> log_last (rn_log (rp_node c 1))" "4 \<le> log_last (rn_log (rp_node c 2))"
    using reached_last [OF three_start c(1)] c(4,5) by simp_all
  have t: "term_at (rn_log (rp_node c 1)) 4 = term_at (rn_log (rp_node c 2)) 4" using c(2,3,6,7) by (auto simp: term_at_def)
  have "log_at (rn_log (rp_node c 1)) m = log_at (rn_log (rp_node c 2)) m" if "0 < m" "m \<le> 4" for m
    using log_matching_property [OF three_start c(1) _ _ refl refl _ _ that(2) l t] that(1) c(2,3) by simp
  then show ?thesis using c(1,4) by (intro exI [of _ c]) simp
qed

text \<open>
  C3. Leader completeness: what any node has committed is in the log of every leader of its term or a later
  one, at every position both still store.
\<close>

theorem leader_completeness_property:
  assumes "replicas_start ns es c" and "(replica_step ns)\<^sup>*\<^sup>* c c'" and "i \<in> set ns" and "j \<in> set ns"
    and "l = rn_log (rp_node c' i)" and "l' = rn_log (rp_node c' j)"
    and "r_state (rn_raft (rp_node c' j)) = Leader" and "r_term (rn_raft (rp_node c' i)) \<le> r_term (rn_raft (rp_node c' j))"
    and "m \<le> unat (rl_committed l)"
  shows "m \<le> log_last l' \<and> (log_base l < m \<longrightarrow> log_base l' < m \<longrightarrow> log_at l' m = log_at l m)"
proof -
  obtain w where v: "replica_view ns (last_tm es) w c'" using reachable_view [OF assms(1,2)] .
  note L = replica_logD [OF v assms(3), folded assms(5)] and L' = replica_logD [OF v assms(4), folded assms(6)]
  have C: "take (pn_commit (w_node w i)) (nlog w j) = take (pn_commit (w_node w i)) (nlog w i)" "pn_commit (w_node w i) \<le> length (nlog w j)"
    using leader_completeness [OF replica_viewD(5) [OF v] assms(3,4)] assms(7,8) L(3) L'(3,4) by simp_all
  have "m \<le> log_last l'" using assms(9) C(2) L(2) log_viewD(3) [OF L'(1)] by simp
  moreover have "log_at l' m = log_at l m" if "log_base l < m" "log_base l' < m"
    using view_at_eq [OF L'(1) L(1) C(1)] that assms(9) C(2) L(2) log_viewD(9) [OF L(1)] by simp
  ultimately show ?thesis by blast
qed

theorem leader_completeness_property_witness:
  "\<exists>(c :: Replicas). (replica_step [1, 2, 3])\<^sup>*\<^sup>* three_nodes c \<and> r_state (rn_raft (rp_node c 1)) = Leader \<and>
     rl_committed (rn_log (rp_node c 2)) = 4 \<and> log_at (rn_log (rp_node c 1)) 4 = log_at (rn_log (rp_node c 2)) 4"
proof -
  obtain c where c: "(replica_step [1, 2, 3])\<^sup>*\<^sup>* three_nodes c" "r_state (rn_raft (rp_node c 1)) = Leader"
    "r_term (rn_raft (rp_node c 1)) = 2" "r_term (rn_raft (rp_node c 2)) = 2" "log_base (rn_log (rp_node c 1)) = 0"
    "log_base (rn_log (rp_node c 2)) = 0" "rl_committed (rn_log (rp_node c 2)) = 4" by (rule three_reached)
  have "log_at (rn_log (rp_node c 1)) 4 = log_at (rn_log (rp_node c 2)) 4"
    using leader_completeness_property [OF three_start c(1) _ _ refl refl c(2), of 2 4] c(3-7) by simp
  then show ?thesis using c(1,2,7) by blast
qed

section \<open>State machines\<close>

lemma applied_agree:
  assumes v: "replica_view ns t0 w c" and i: "i \<in> set ns" and j: "j \<in> set ns"
    and e: "e \<in> set (rp_applied c i)" and d: "d \<in> set (rp_applied c j)" and k: "e_index e = e_index d"
  shows "e = d"
proof -
  note V = replica_viewD [OF v]
  let ?k = "unat (e_index e)"
  have e: "0 < ?k" "?k \<le> pn_applied (w_node w i)" "nlog w i ! (?k - 1) = e"
    and d: "?k \<le> pn_applied (w_node w j)" "nlog w j ! (?k - 1) = d"
    using V(3) [OF i] V(3) [OF j] e d k by (auto simp: fed_def)
  have "take ?k (nlog w i) = take ?k (nlog w j)"
    using commit_agreement [OF V(5) i j] e(2) d(1) sim_applied [OF V(1) [OF i]] sim_applied [OF V(1) [OF j]]
    by (meson order_trans)
  then have "take ?k (nlog w i) ! (?k - 1) = take ?k (nlog w j) ! (?k - 1)" by simp
  then show ?thesis using e d by simp
qed



section \<open>Followers\<close>

text \<open>A heartbeat carries no more than the follower has acknowledged.\<close>

lemma beat_in_log:
  assumes "pinv ns t0 w" and "i \<in> set ns" and "Beat (nterm w i) i c \<in> w_msgs w"
  shows "c \<le> length (nlog w i)"
proof (cases "c = 0")
  case False
  then have "acked w i (nterm w i) c" using pinvD(8) [OF assms(1)] assms(3) unfolding commit_inv_def by blast
  then obtain k where k: "c \<le> k" "(i, nterm w i, k) \<in> w_ack w" by (auto simp: acked_def)
  obtain h where "k \<le> length h" "take k (nlog w i) = take k h" using acks_invD [OF pinvD(4) [OF assms(1)] k(2)] by metis
  then show ?thesis using k(1) take_eq_length order_trans by metis
qed simp

lemma maybe_append_total:
  assumes v: "log_view l lg" and c1: "contiguous 1 g" and nz: "\<forall>e \<in> set g. e_term e \<noteq> 0" and len: "length g < 2 ^ 64 - 1"
    and n: "unat index \<le> length g" and com: "unat (rl_committed l) \<le> unat index" and t: "log_term = tm g (unat index)"
  shows "\<exists>ok l'. maybe_append index log_term c (drop (unat index) g) l = Inr (ok, l')"
proof (cases "log_term = term_at l (unat index)")
  case False
  then show ?thesis using maybe_append_nomatch [OF log_viewD(2) [OF v]] by blast
next
  case tt: True
  note L = log_viewD [OF v]
  have ok: "sent_ok index (drop (unat index) g)"
    using contiguous_drop [OF c1, of "unat index"] nz len n by (auto simp: sent_ok_def dest: in_set_dropD)
  have "unat index \<le> log_last l"
  proof (rule ccontr)
    assume a: "\<not> unat index \<le> log_last l"
    then have "tm g (unat index) = 0" using tt t rl.at_after_last [OF L(2), of "unat index"] L(3,8,9) com by (auto simp: term_at_def)
    moreover have "0 < unat index" using a by simp
    ultimately show False using tm_mem [of "unat index" g] n nz by fastforce
  qed
  note M = maybe_append_conflict [OF L(1) ok this] maybe_append_known [OF L(1) ok this]
  show ?thesis
  proof (cases "matched l (drop (unat index) g) < length (drop (unat index) g)")
    case True
    show ?thesis by (rule M(1) [OF True]) (use com tt in auto)
  next
    case False
    then have "matched l (drop (unat index) g) = length (drop (unat index) g)" using matched_le [of l "drop (unat index) g"] by simp
    then show ?thesis using M(2) tt by auto
  qed
qed

lemma leader_message_handled:
  assumes sm: "sim ns t0 i w r" and m: "msg_view ns w msg" "m_to msg = i" "m_term msg = r_term r"
  shows "m_type msg = MsgHeartbeat \<Longrightarrow> \<exists>r'. handle_heartbeat msg r = Inr r'"
    and "m_type msg = MsgApp \<Longrightarrow> \<exists>r'. handle_append_entries msg r = Inr r'"
proof -
  note N = node_viewD [OF simD(4) [OF sm]] and i = simD(2) [OF sm]
  note L = log_viewD [OF N(10)]
  have S: "\<exists>q'. send x q = Inr q'" if "m_type x \<in> {MsgHeartbeatResp, MsgAppResp}" "m_term x = 0" for x q
    using that by (auto simp: send_def is_vote_msg_def)
  show "\<exists>r'. handle_heartbeat msg r = Inr r'" if "m_type msg = MsgHeartbeat"
  proof -
    have "Beat (nterm w i) i (unat (m_commit msg)) \<in> w_msgs w" using m that i N(5) by (simp add: msg_view_def)
    then have "unat (m_commit msg) \<le> log_last (r_raft_log r)" using beat_in_log [OF simD(1) [OF sm] i] L(3) by simp
    then have "commit_to (m_commit msg) (r_raft_log r) = Inr ((r_raft_log r)\<lparr>rl_committed := max (rl_committed (r_raft_log r)) (m_commit msg)\<rparr>)"
      by (rule commit_to_eq [OF L(2)])
    then show ?thesis using S by (simp add: handle_heartbeat_def Message_default_def)
  qed
  show "\<exists>r'. handle_append_entries msg r = Inr r'" if "m_type msg = MsgApp"
  proof -
    have "app_view w msg" using m that i by (simp add: msg_view_def)
    then obtain g where g: "m_entries msg = drop (unat (m_index msg)) g" "m_log_term msg = tm g (unat (m_index msg))" "unat (m_index msg) \<le> length g"
      "contiguous 1 g" "\<forall>e \<in> set g. e_term e \<noteq> 0" "length g < 2 ^ 64 - 1"
      unfolding app_view_def by blast
    show ?thesis
    proof (cases "m_index msg < rl_committed (r_raft_log r)")
      case True
      then show ?thesis using S by (simp add: handle_append_entries_def Message_default_def)
    next
      case False
      then have "unat (rl_committed (r_raft_log r)) \<le> unat (m_index msg)" by (simp add: word_less_nat_alt)
      then obtain ok l where a: "maybe_append (m_index msg) (m_log_term msg) (m_commit msg) (m_entries msg) (r_raft_log r) = Inr (ok, l)"
        using maybe_append_total [OF N(10) g(4,5,6,3) _ g(2)] g(1) by metis
      have "\<exists>t. term_of (m_index msg) l = Inr t" if "ok = None" using maybe_append_None a that term_of_eq [OF L(2)] by metis
      then show ?thesis using False a S by (cases ok) (auto simp: handle_append_entries_def Message_default_def)
    qed
  qed
qed

text \<open>A node that becomes follower at the term of the message handles it, too.\<close>

lemma follows_and_handles:
  assumes sm: "sim ns t0 i w r" and tr: "timer_ok r" and m: "msg_view ns w msg" "m_to msg = i" and t: "r_term r \<le> m_term msg"
  obtains q w' where "become_follower (m_term msg) (m_from msg) r = Inr q" and "sim ns t0 i w' q" and "msg_view ns w' msg" and "timer_ok q"
proof -
  obtain q where q: "become_follower (m_term msg) (m_from msg) r = Inr q" "timer_ok q" using become_follower_total [OF tr] by blast
  obtain w' where "(pstep ns i)\<^sup>*\<^sup>* w w'" "sim ns t0 i w' q" using become_follower_reaches [OF q(1) sm t] by (auto simp: reaches_def)
  then show thesis using that [OF q(1)] msg_view_mono [OF m(1) psteps_msgs] q(2) by blast
qed

lemma current_message_handled:
  assumes sm: "sim ns t0 i w r" and ro: "role_ok r" and tr: "timer_ok r" and m: "msg_view ns w msg" "m_to msg = i" "m_term msg = r_term r"
    and ty: "m_type msg = MsgHeartbeat \<or> m_type msg = MsgApp"
  shows "\<exists>s r'. step_current msg r = Inr (s, r')"
proof -
  have cur: "step_current msg r = step_dispatch msg r" using ty by (auto simp: step_current_def)
  note s = role_okD(1) [OF ro]
  have C: "\<exists>s r'. step_candidate msg r = Inr (s, r')"
  proof -
    obtain q w' where q: "become_follower (m_term msg) (m_from msg) r = Inr q" "sim ns t0 i w' q" "msg_view ns w' msg"
      by (rule follows_and_handles [OF sm tr m(1,2)]) (use m(3) in auto)
    have "m_term msg = r_term q" using become_follower_facts(2) [OF q(1)] by simp
    then show ?thesis using leader_message_handled [OF q(2,3) m(2)] q(1) ty by (auto simp: step_candidate_def ok_with_def)
  qed
  show ?thesis
  proof (cases "r_state r")
    case Follower
    have h: "sim ns t0 i w (r\<lparr>r_election_elapsed := 0, r_lead := m_from msg\<rparr>)" using sm by simp
    have "\<exists>s r'. step_follower msg r = Inr (s, r')"
      using ty leader_message_handled [OF h m(1,2)] m(3) by (elim disjE) (auto simp: step_follower_def ok_with_def)
    then show ?thesis using s Follower by (simp add: cur step_dispatch_def)
  next
    case Leader
    then show ?thesis using s ty by (auto simp: cur step_dispatch_def step_leader_def leader_with_progress_def split: option.splits)
  qed (use C s in \<open>simp_all add: cur step_dispatch_def\<close>)
qed

lemma leader_message_stepped:
  assumes sm: "sim ns t0 i w r" and ro: "role_ok r" and tr: "timer_ok r" and m: "msg_view ns w msg" "m_to msg = i"
    and ty: "m_type msg = MsgHeartbeat \<or> m_type msg = MsgApp"
  shows "\<exists>s r'. step msg r = Inr (s, r')"
proof -
  have z: "m_term msg \<noteq> 0" using m(1) ty by (auto simp: msg_view_def)
  consider "m_term msg = r_term r" | "m_term msg < r_term r" | (high) "r_term r < m_term msg" by fastforce
  then show ?thesis
  proof cases
    case high
    obtain q w' where q: "become_follower (m_term msg) (m_from msg) r = Inr q" "sim ns t0 i w' q" "msg_view ns w' msg" "timer_ok q"
      by (rule follows_and_handles [OF sm tr m]) (use high in auto)
    note F = become_follower_facts [OF q(1)]
    have "role_ok q" using F role_okD(3) [OF ro] by (simp add: role_ok_def same_config_def)
    moreover have "step_higher_term msg r = Inr (Some q)" using q(1) ty by (auto simp: step_higher_term_def)
    ultimately show ?thesis using current_message_handled [OF q(2) _ q(4,3) m(2) _ ty] F(2) high z by (simp add: step_def)
  qed (use z ty current_message_handled [OF sm ro tr m _ ty] in \<open>auto simp: step_def step_lower_term_def send_def ok_with_def Message_default_def is_vote_msg_def\<close>)
qed



end
