(* ===== verification/Byte_Codec.thy ===== *)
theory Byte_Codec
  imports Kv_Prelude
begin

text \<open>
  Bytes as the program lays them out: integers of the packed structs in the little-endian order of
  the host and in network order, and the sixteen hexadecimal digits that file names are made of. The
  locale \<open>fixed_codec\<close> is what the record formats rely on: an encoding of fixed width that can be
  taken off the front of a byte sequence.
\<close>

unbundle bit_operations_syntax

section \<open>Codecs of fixed width\<close>

locale fixed_codec =
  fixes enc :: "'a \<Rightarrow> bytes" and dec :: "bytes \<Rightarrow> 'a" and width :: nat
  assumes length_enc [simp]: "length (enc x) = width" and dec_enc [simp]: "dec (enc x) = x"
begin

lemma dec_front [simp]: "dec (take width (enc x @ rest)) = x"
  by simp

lemma drop_front [simp]: "drop width (enc x @ rest) = rest"
  by simp

lemma enc_inject [simp]: "enc x = enc y \<longleftrightarrow> x = y"
  by (metis dec_enc)

lemma enc_append_inject: "enc x @ xs = enc y @ ys \<longleftrightarrow> x = y \<and> xs = ys"
  by (metis dec_front drop_front)

end

section \<open>Integers\<close>

text \<open>A \<^verbatim>\<open>uint32_t\<close> copied out of memory on the little-endian hosts the program is built for.\<close>

definition le32 :: "u32 \<Rightarrow> bytes" where
  "le32 w = [ucast w, ucast (drop_bit 8 w), ucast (drop_bit 16 w), ucast (drop_bit 24 w)]"

definition un_le32 :: "bytes \<Rightarrow> u32" where
  "un_le32 bs = ucast (bs ! 0) OR push_bit 8 (ucast (bs ! 1)) OR push_bit 16 (ucast (bs ! 2)) OR push_bit 24 (ucast (bs ! 3))"

text \<open>The same in network order, \<^verbatim>\<open>htonl\<close> before the copy and \<^verbatim>\<open>ntohl\<close> after it.\<close>

definition be32 :: "u32 \<Rightarrow> bytes" where
  "be32 w = rev (le32 w)"

definition un_be32 :: "bytes \<Rightarrow> u32" where
  "un_be32 bs = un_le32 (rev bs)"

lemma un_le32_le32: "un_le32 (le32 w) = w"
proof (rule bit_word_eqI)
  fix n assume "n < LENGTH(32)"
  then have n: "n < 32" by simp
  then consider "n < 8" | "8 \<le> n" "n < 16" | "16 \<le> n" "n < 24" | "24 \<le> n" by linarith
  then show "bit (un_le32 (le32 w)) n \<longleftrightarrow> bit w n"
    by cases (use n in \<open>auto simp: un_le32_def le32_def bit_simps\<close>)
qed

interpretation le32: fixed_codec le32 un_le32 4
  by unfold_locales (simp_all add: un_le32_le32, simp add: le32_def)

interpretation be32: fixed_codec be32 un_be32 4
  by unfold_locales (simp_all add: be32_def un_be32_def)

section \<open>Hexadecimal numbers\<close>

definition hex_digit :: "nat \<Rightarrow> char" where
  "hex_digit n = ''0123456789abcdef'' ! n"

text \<open>\<^verbatim>\<open>"%016" PRIx64\<close>.\<close>

definition hex16 :: "u64 \<Rightarrow> string" where
  "hex16 w = map (\<lambda>k. hex_digit (unat (drop_bit (4 * k) w AND 15))) (rev [0..<16])"

definition hex_value :: "char \<Rightarrow> nat option" where
  "hex_value c =
     (let n = of_char c :: nat in
      if 48 \<le> n \<and> n \<le> 57 then Some (n - 48)
      else if 97 \<le> n \<and> n \<le> 102 then Some (n - 87)
      else if 65 \<le> n \<and> n \<le> 70 then Some (n - 55)
      else None)"

definition is_hex :: "char \<Rightarrow> bool" where
  "is_hex c \<longleftrightarrow> hex_value c \<noteq> None"

definition hex_number :: "string \<Rightarrow> nat" where
  "hex_number ds = foldl (\<lambda>a d. 16 * a + the (hex_value d)) 0 ds"

definition is_space :: "char \<Rightarrow> bool" where
  "is_space c \<longleftrightarrow> c = CHR '' '' \<or> (of_char c :: nat) \<in> {9, 10, 11, 12, 13}"

text \<open>
  \<^verbatim>\<open>std::stringstream ss; ss << std::hex << str; ss >> x\<close> for an unsigned 64-bit \<^verbatim>\<open>x\<close>: leading white
  space is skipped, a sign and a \<^verbatim>\<open>0x\<close> are accepted, the digits end at the first other character, no
  digits give zero, and a number that does not fit gives the largest value.
\<close>

definition strip_0x :: "string \<Rightarrow> string" where
  "strip_0x s = (case s of a # b # t \<Rightarrow> if a = CHR ''0'' \<and> (b = CHR ''x'' \<or> b = CHR ''X'') then t else s | _ \<Rightarrow> s)"

definition hex_magnitude :: "string \<Rightarrow> nat" where
  "hex_magnitude s = hex_number (takeWhile is_hex (strip_0x s))"

definition ss_hex :: "string \<Rightarrow> u64" where
  "ss_hex str =
     (let s = dropWhile is_space str;
          neg = (s \<noteq> [] \<and> hd s = CHR ''-'');
          s = (if s \<noteq> [] \<and> (hd s = CHR ''-'' \<or> hd s = CHR ''+'') then tl s else s);
          n = hex_magnitude s
      in if n \<ge> 2 ^ 64 then 0xFFFFFFFFFFFFFFFF
         else if neg then - of_nat n else of_nat n)"

lemma hex_value_digit [simp]: "n < 16 \<Longrightarrow> hex_value (hex_digit n) = Some n"
proof -
  have "\<forall>n \<in> set [0..<16]. hex_value (hex_digit n) = Some n" by code_simp
  then show "n < 16 \<Longrightarrow> hex_value (hex_digit n) = Some n" by auto
qed

lemma is_hex_digit [simp]: "n < 16 \<Longrightarrow> is_hex (hex_digit n)"
  by (simp add: is_hex_def)

lemma nibble: "unat (drop_bit (4 * k) w AND 15) = unat (w :: u64) div 16 ^ k mod 16"
proof -
  have "drop_bit (4 * k) w AND 15 = take_bit 4 (drop_bit (4 * k) w)"
    by (simp add: take_bit_eq_mask mask_eq_exp_minus_1)
  moreover have "unat (take_bit 4 (drop_bit (4 * k) w)) = take_bit 4 (drop_bit (4 * k) (unat w))"
    using take_bit_nat_eq_self [of "unat w" 64] unat_lt64 [of w]
    by (simp only: unsigned_take_bit_eq unsigned_drop_bit_eq) simp
  ultimately show ?thesis by (simp add: take_bit_eq_mod drop_bit_eq_div power_mult)
qed

lemma hex_number_digits:
  "foldl (\<lambda>a d. 16 * a + the (hex_value d)) a
     (map (\<lambda>k. hex_digit (unat (drop_bit (4 * k) w AND 15))) (rev [0..<n])) =
   a * 16 ^ n + unat (w :: u64) mod 16 ^ n"
proof (induction n arbitrary: a)
  case (Suc n)
  have "unat w mod 16 ^ Suc n = unat w div 16 ^ n mod 16 * 16 ^ n + unat w mod 16 ^ n"
    using mod_mult2_eq [of "unat w" "16 ^ n" 16] by (simp add: mult.commute)
  then show ?case using Suc.IH [of "16 * a + unat w div 16 ^ n mod 16"] by (simp add: nibble) (simp add: algebra_simps)
qed simp

lemma hex_number_hex16: "hex_number (hex16 w) = unat w"
  using hex_number_digits [of 0 w 16] unat_lt64 [of w] by (simp add: hex_number_def hex16_def)

lemma hex16_is_hex: "c \<in> set (hex16 w) \<Longrightarrow> is_hex c"
  by (auto simp: hex16_def nibble)

lemma length_hex16 [simp]: "length (hex16 w) = 16"
  by (simp add: hex16_def)

lemma hex_not_special: "is_hex c \<Longrightarrow> \<not> is_space c \<and> c \<noteq> CHR ''-'' \<and> c \<noteq> CHR ''+'' \<and> c \<noteq> CHR ''x'' \<and> c \<noteq> CHR ''X'' \<and>
    c \<noteq> CHR ''.'' \<and> c \<noteq> CHR ''/''"
  by (auto simp: is_hex_def hex_value_def is_space_def Let_def split: if_splits)

text \<open>Reading back sixteen digits gives the number.\<close>

lemma ss_hex_hex16: "ss_hex (hex16 w) = w"
proof -
  obtain a b t where h: "hex16 w = a # b # t"
    by (simp add: hex16_def upt_rec)
  have hx: "is_hex c" if "c \<in> set (a # b # t)" for c using that h hex16_is_hex [of c w] by simp
  have "takeWhile is_hex (a # b # t) = a # b # t" using hx by (intro takeWhile_eq_all_conv [THEN iffD2]) blast
  moreover have "strip_0x (a # b # t) = a # b # t" using hex_not_special [OF hx [of b]] by (simp add: strip_0x_def)
  ultimately have m: "hex_magnitude (hex16 w) = unat w" by (simp add: hex_magnitude_def h hex_number_hex16 [symmetric])
  have "dropWhile is_space (hex16 w) = hex16 w" using hex_not_special [OF hx [of a]] by (simp add: h)
  moreover have "hd (hex16 w) \<noteq> CHR ''-''" "hd (hex16 w) \<noteq> CHR ''+''" using hex_not_special [OF hx [of a]] by (simp_all add: h)
  moreover have "\<not> 2 ^ 64 \<le> unat w" using unat_lt64 [of w] by simp
  ultimately show ?thesis by (simp add: ss_hex_def Let_def m)
qed

section \<open>Streams of blocks\<close>

text \<open>Every prefix of a sequence of blocks ends inside one block.\<close>

lemma take_concat_blocks:
  "\<exists>j \<le> length rs. \<exists>k. take n (concat (map f rs)) =
     concat (map f (take j rs)) @ (if j < length rs then take k (f (rs ! j)) else []) \<and>
     (j < length rs \<longrightarrow> k < length (f (rs ! j)))"
proof (induction rs arbitrary: n)
  case (Cons x rs)
  show ?case
  proof (cases "n < length (f x)")
    case True
    then show ?thesis by (intro exI [of _ 0] conjI exI [of _ n]) auto
  next
    case False
    obtain j k where "j \<le> length rs" "take (n - length (f x)) (concat (map f rs)) =
      concat (map f (take j rs)) @ (if j < length rs then take k (f (rs ! j)) else [])"
      "j < length rs \<longrightarrow> k < length (f (rs ! j))" using Cons.IH by blast
    with False show ?thesis by (intro exI [of _ "Suc j"] conjI exI [of _ k]) auto
  qed
qed simp

end
