(* ===== verification/Wal.thy ===== *)
theory Wal
  imports Proto Byte_Codec "HOL-Library.List_Lexorder" "HOL-Library.Char_ord"
begin

text \<open>
  The write-ahead log of \<^verbatim>\<open>wal/wal.h\<close> and \<^verbatim>\<open>wal/wal.cpp\<close>: records with a type, a 24-bit length and a
  checksum, files named by sequence number and index, replay after a restart. The encodings of
  msgpack and the checksum of boost are not part of the repository: they are the fields of the record
  \<open>Wal_Codec\<close>, an argument of every definition that uses them. A file is the bytes its stream has
  been given; what of them survives a crash is any prefix, and the recovery theorem is about every
  prefix.
\<close>

unbundle bit_operations_syntax

section \<open>Records\<close>

record WAL_Snapshot =
  ws_index :: u64
  ws_term :: u64

record Wal_Codec =
  wc_crc :: "bytes \<Rightarrow> u32"
  wc_pack_entry :: "Entry \<Rightarrow> bytes"
  wc_unpack_entry :: "bytes \<Rightarrow> Entry option"
  wc_pack_state :: "HardState \<Rightarrow> bytes"
  wc_unpack_state :: "bytes \<Rightarrow> HardState option"
  wc_pack_snap :: "WAL_Snapshot \<Rightarrow> bytes"
  wc_unpack_snap :: "bytes \<Rightarrow> WAL_Snapshot option"

definition wal_InvalidType :: u8 where "wal_InvalidType = 0"
definition wal_EntryType :: u8 where "wal_EntryType = 1"
definition wal_StateType :: u8 where "wal_StateType = 2"
definition wal_CrcType :: u8 where "wal_CrcType = 3"
definition wal_snapshot_Type :: u8 where "wal_snapshot_Type = 4"

definition SegmentSizeBytes :: int where
  "SegmentSizeBytes = 64 * 1000 * 1000"

record WAL_Record =
  wr_type :: u8
  wr_len :: bytes
  wr_crc :: u32

definition MAX_WAL_RECORD_LEN :: u32 where
  "MAX_WAL_RECORD_LEN = 0x00FFFFFF"

definition WAL_Record_len :: "WAL_Record \<Rightarrow> u32" where
  "WAL_Record_len r = push_bit 16 (ucast (wr_len r ! 2)) OR push_bit 8 (ucast (wr_len r ! 1)) OR push_bit 0 (ucast (wr_len r ! 0))"

definition set_WAL_Record_len :: "u32 \<Rightarrow> WAL_Record \<Rightarrow> WAL_Record" where
  "set_WAL_Record_len len r =
     (let len = min len MAX_WAL_RECORD_LEN in
      r\<lparr>wr_len := [ucast (drop_bit 0 len AND 0xFF), ucast (drop_bit 8 len AND 0xFF), ucast (drop_bit 16 len AND 0xFF)]\<rparr>)"

text \<open>The packed struct in memory, eight bytes.\<close>

definition record_size :: nat where
  "record_size = 8"

definition record_bytes :: "WAL_Record \<Rightarrow> bytes" where
  "record_bytes r = wr_type r # wr_len r @ le32 (wr_crc r)"

definition bytes_record :: "bytes \<Rightarrow> WAL_Record" where
  "bytes_record bs = \<lparr>wr_type = bs ! 0, wr_len = take 3 (drop 1 bs), wr_crc = un_le32 (take 4 (drop 4 bs))\<rparr>"

section \<open>Files\<close>

record WAL_File =
  wf_buffer :: bytes
  wf_seq :: u64
  wf_size :: int
  wf_stream :: bytes

text \<open>
  The constructor on a file with these bytes; \<open>pos\<close> is what \<^verbatim>\<open>ftell\<close> reports right after \<^verbatim>\<open>fopen\<close> in mode
  \<^verbatim>\<open>a+\<close>, which C leaves to the implementation.
\<close>

definition WAL_File_new :: "bytes \<Rightarrow> int \<Rightarrow> u64 \<Rightarrow> fault + WAL_File" where
  "WAL_File_new stream pos seq =
     bind_r (guard_r (pos \<noteq> -1) (Fatal ''ftell error'')) (\<lambda>_.
     Inr \<lparr>wf_buffer = [], wf_seq = seq, wf_size = pos, wf_stream = stream\<rparr>)"

definition wf_truncate :: "nat \<Rightarrow> WAL_File \<Rightarrow> WAL_File" where
  "wf_truncate offset f = f\<lparr>wf_stream := take offset (wf_stream f), wf_size := int offset, wf_buffer := []\<rparr>"

definition wf_append :: "Wal_Codec \<Rightarrow> u8 \<Rightarrow> bytes \<Rightarrow> WAL_File \<Rightarrow> WAL_File" where
  "wf_append c type data f =
     (let record = set_WAL_Record_len (of_nat (length data)) \<lparr>wr_type = type, wr_len = [], wr_crc = wc_crc c data\<rparr>
      in f\<lparr>wf_buffer := wf_buffer f @ record_bytes record @ data\<rparr>)"

definition wf_sync :: "WAL_File \<Rightarrow> WAL_File" where
  "wf_sync f =
     (if wf_buffer f = [] then f
      else f\<lparr>wf_stream := wf_stream f @ wf_buffer f, wf_size := wf_size f + int (length (wf_buffer f)), wf_buffer := []\<rparr>)"

definition wf_read_all :: "WAL_File \<Rightarrow> bytes" where
  "wf_read_all f = wf_stream f"

section \<open>File names\<close>

definition wal_name :: "u64 \<Rightarrow> u64 \<Rightarrow> string" where
  "wal_name seq index = hex16 seq @ ''-'' @ hex16 index @ ''.wal''"

text \<open>\<open>ext\<close> is \<^verbatim>\<open>boost::filesystem::path::extension\<close>.\<close>

definition parse_wal_name :: "(string \<Rightarrow> string) \<Rightarrow> string \<Rightarrow> (u64 \<times> u64) option" where
  "parse_wal_name ext name =
     (if ext name \<noteq> ''.wal'' then None
      else
        let filename = take (length name - 4) name in
        if CHR ''-'' \<notin> set filename then None
        else
          let pos = length (takeWhile (\<lambda>ch. ch \<noteq> CHR ''-'') filename);
              seq = ss_hex (take pos filename) in
          if pos = length filename - 1 then None
          else Some (seq, ss_hex (drop (pos + 1) filename)))"

fun is_valid_seq_loop :: "(string \<Rightarrow> string) \<Rightarrow> u64 \<Rightarrow> string list \<Rightarrow> fault + bool" where
  "is_valid_seq_loop ext lastSeq [] = Inr True"
| "is_valid_seq_loop ext lastSeq (name # names) =
     (case parse_wal_name ext name of
        None \<Rightarrow> Inl (Fatal ''parse correct name should never fail'')
      | Some (curSeq, _) \<Rightarrow>
          if lastSeq \<noteq> 0 \<and> lastSeq \<noteq> curSeq - 1 then Inr False
          else is_valid_seq_loop ext curSeq names)"

definition is_valid_seq :: "(string \<Rightarrow> string) \<Rightarrow> string list \<Rightarrow> fault + bool" where
  "is_valid_seq ext names = is_valid_seq_loop ext 0 names"

text \<open>The loop runs \<open>i\<close> down to zero; \<open>None\<close> is the result \<^verbatim>\<open>false\<close>.\<close>

fun search_index_loop :: "(string \<Rightarrow> string) \<Rightarrow> string list \<Rightarrow> u64 \<Rightarrow> nat \<Rightarrow> fault + nat option" where
  "search_index_loop ext names index i =
     bind_r (nth_r names i) (\<lambda>name.
     case parse_wal_name ext name of
       None \<Rightarrow> Inl (Fatal ''invalid wal name'')
     | Some (_, curIndex) \<Rightarrow>
         if index \<ge> curIndex then Inr (Some i)
         else if i = 0 then Inr None
         else search_index_loop ext names index (i - 1))"

definition search_index :: "(string \<Rightarrow> string) \<Rightarrow> string list \<Rightarrow> u64 \<Rightarrow> fault + nat option" where
  "search_index ext names index = search_index_loop ext names index (unat (of_nat (length names) - 1 :: u64))"

section \<open>The log\<close>

record WAL =
  w_state :: HardState
  w_start :: WAL_Snapshot
  w_enti :: u64
  w_files :: "WAL_File list"

text \<open>A directory maps file names to contents.\<close>

type_synonym directory = "(string, bytes) umap"

definition wal_create :: "Wal_Codec \<Rightarrow> int \<Rightarrow> directory \<Rightarrow> fault + directory" where
  "wal_create c pos dir =
     (let name = wal_name 0 0; tmp = name @ ''.tmp''; dir = AList.delete tmp dir in
      bind_r (WAL_File_new [] pos 0) (\<lambda>f.
      let f = wf_sync (wf_append c wal_snapshot_Type (wc_pack_snap c \<lparr>ws_index = 0, ws_term = 0\<rparr>) f)
      in Inr (AList.update name (wf_stream f) dir)))"

definition get_wal_names :: "(string \<Rightarrow> string) \<Rightarrow> directory \<Rightarrow> string list" where
  "get_wal_names ext dir = sort (filter (\<lambda>name. ext name = ''.wal'') (map fst dir))"

text \<open>\<open>pos name\<close> is the result of \<^verbatim>\<open>ftell\<close> for that file; a name in the list is in the directory.\<close>

primrec open_files :: "(string \<Rightarrow> string) \<Rightarrow> (string \<Rightarrow> int) \<Rightarrow> directory \<Rightarrow> string list \<Rightarrow> fault + WAL_File list" where
  "open_files ext pos dir [] = Inr []"
| "open_files ext pos dir (name # names) =
     (case parse_wal_name ext name of
        None \<Rightarrow> Inl (Fatal ''invalid wal name'')
      | Some (seq, _) \<Rightarrow>
          bind_r (WAL_File_new (case map_of dir name of None \<Rightarrow> [] | Some bs \<Rightarrow> bs) (pos name) seq) (\<lambda>f.
          bind_r (open_files ext pos dir names) (\<lambda>fs. Inr (f # fs))))"

definition wal_open :: "(string \<Rightarrow> string) \<Rightarrow> (string \<Rightarrow> int) \<Rightarrow> directory \<Rightarrow> WAL_Snapshot \<Rightarrow> fault + WAL" where
  "wal_open ext pos dir snap =
     (let names = get_wal_names ext dir in
      bind_r (guard_r (names \<noteq> []) (Fatal ''wal not found'')) (\<lambda>_.
      bind_r (search_index ext names (ws_index snap)) (\<lambda>found.
      case found of
        None \<Rightarrow> Inl (Fatal ''wal not found'')
      | Some nameIndex \<Rightarrow>
          let check_names = drop nameIndex names in
          bind_r (is_valid_seq ext check_names) (\<lambda>valid.
          bind_r (guard_r valid (Fatal ''invalid wal seq'')) (\<lambda>_.
          bind_r (open_files ext pos dir check_names) (\<lambda>fs.
          Inr \<lparr>w_state = HardState_default, w_start = snap, w_enti = 0, w_files = fs\<rparr>))))))"

section \<open>Replay\<close>

text \<open>
  What replay builds up: the out parameters of \<^verbatim>\<open>read_all\<close>, the flag \<^verbatim>\<open>matchsnap\<close> and \<^verbatim>\<open>enti_\<close>. An element
  of \<open>rp_ents\<close> is a pointer, null where \<^verbatim>\<open>resize\<close> has filled a gap.
\<close>

record Replay =
  rp_enti :: u64
  rp_match :: bool
  rp_hs :: HardState
  rp_ents :: "Entry option list"

definition ptr_resize :: "nat \<Rightarrow> 'a option list \<Rightarrow> 'a option list" where
  "ptr_resize n xs = take n xs @ replicate (n - length xs) None"

definition unpack_r :: "'a option \<Rightarrow> fault + 'a" where
  "unpack_r m = (case m of None \<Rightarrow> Inl (Fatal ''msgpack'') | Some x \<Rightarrow> Inr x)"

definition handle_record_wal_record :: "Wal_Codec \<Rightarrow> WAL_Snapshot \<Rightarrow> u8 \<Rightarrow> bytes \<Rightarrow> Replay \<Rightarrow> fault + Replay" where
  "handle_record_wal_record c start type data st =
     (if type = wal_EntryType then
        bind_r (unpack_r (wc_unpack_entry c data)) (\<lambda>e.
        let st = (if e_index e > ws_index start
                  then st\<lparr>rp_ents := ptr_resize (unat (e_index e - ws_index start - 1)) (rp_ents st) @ [Some e]\<rparr>
                  else st)
        in Inr (st\<lparr>rp_enti := e_index e\<rparr>))
      else if type = wal_StateType then
        bind_r (unpack_r (wc_unpack_state c data)) (\<lambda>hs. Inr (st\<lparr>rp_hs := hs\<rparr>))
      else if type = wal_snapshot_Type then
        bind_r (unpack_r (wc_unpack_snap c data)) (\<lambda>snap.
        if ws_index snap = ws_index start then
          if ws_term snap \<noteq> ws_term start then Inl (Fatal ''wal: snapshot mismatch'')
          else Inr (st\<lparr>rp_match := True\<rparr>)
        else Inr st)
      else if type = wal_CrcType then Inl (Fatal ''wal crc type'')
      else Inl (Fatal ''invalid record type''))"

text \<open>
  The inner loop of \<^verbatim>\<open>read_all\<close> on the bytes from \<open>offset\<close> on; the second component of the result is the
  offset of a \<^verbatim>\<open>truncate\<close>.
\<close>

function read_loop :: "Wal_Codec \<Rightarrow> WAL_Snapshot \<Rightarrow> nat \<Rightarrow> bytes \<Rightarrow> Replay \<Rightarrow> fault + (Replay \<times> nat option)" where
  "read_loop c start offset data st =
     (if data = [] then Inr (st, None)
      else if length data < record_size then Inr (st, Some offset)
      else
        let record = bytes_record (take record_size data);
            left = drop record_size data in
        if wr_type record = wal_InvalidType then Inr (st, None)
        else
          let record_data_len = unat (WAL_Record_len record) in
          if length left < record_data_len then Inr (st, Some offset)
          else
            let d = take record_data_len left; crc = wc_crc c d in
            if wr_crc record \<noteq> 0 \<and> crc \<noteq> wr_crc record then Inr (st, Some offset)
            else
              bind_r (handle_record_wal_record c start (wr_type record) d st) (\<lambda>st.
              let st = (if wr_type record = wal_snapshot_Type then st\<lparr>rp_match := True\<rparr> else st)
              in read_loop c start (offset + record_size + record_data_len) (drop record_data_len left) st))"
  by pat_completeness auto
termination
  by (relation "measure (\<lambda>(c, start, offset, data, st). length data)") (auto simp: record_size_def)

declare read_loop.simps [simp del]

definition read_file :: "Wal_Codec \<Rightarrow> WAL_Snapshot \<Rightarrow> WAL_File \<Rightarrow> Replay \<Rightarrow> fault + (Replay \<times> WAL_File)" where
  "read_file c start f st =
     bind_r (read_loop c start 0 (wf_read_all f) (st\<lparr>rp_match := False\<rparr>)) (\<lambda>(st, trunc).
     let f = (case trunc of None \<Rightarrow> f | Some offset \<Rightarrow> wf_truncate offset f) in
     bind_r (guard_r (rp_match st) (Fatal ''wal: snapshot not found'')) (\<lambda>_. Inr (st, f)))"

primrec read_files :: "Wal_Codec \<Rightarrow> WAL_Snapshot \<Rightarrow> WAL_File list \<Rightarrow> Replay \<Rightarrow> fault + (Replay \<times> WAL_File list)" where
  "read_files c start [] st = Inr (st, [])"
| "read_files c start (f # fs) st =
     bind_r (read_file c start f st) (\<lambda>(st, f).
     bind_r (read_files c start fs st) (\<lambda>(st, fs). Inr (st, f # fs)))"

definition wal_read_all :: "Wal_Codec \<Rightarrow> HardState \<Rightarrow> Entry option list \<Rightarrow> WAL \<Rightarrow> fault + (HardState \<times> Entry option list \<times> WAL)" where
  "wal_read_all c hs ents w =
     bind_r (read_files c (w_start w) (w_files w) \<lparr>rp_enti = w_enti w, rp_match = False, rp_hs = hs, rp_ents = ents\<rparr>) (\<lambda>(st, fs).
     Inr (rp_hs st, rp_ents st, w\<lparr>w_enti := rp_enti st, w_files := fs\<rparr>))"

section \<open>Saving\<close>

text \<open>\<^verbatim>\<open>files_.back()\<close> is undefined when there is no file.\<close>

definition with_last :: "(WAL_File \<Rightarrow> WAL_File) \<Rightarrow> WAL \<Rightarrow> fault + WAL" where
  "with_last g w =
     (if w_files w = [] then Inl (Undefined ''vector back'')
      else Inr (w\<lparr>w_files := butlast (w_files w) @ [g (last (w_files w))]\<rparr>))"

definition save_entry :: "Wal_Codec \<Rightarrow> Entry \<Rightarrow> WAL \<Rightarrow> fault + WAL" where
  "save_entry c e w =
     bind_r (with_last (wf_append c wal_EntryType (wc_pack_entry c e)) w) (\<lambda>w. Inr (w\<lparr>w_enti := e_index e\<rparr>))"

definition save_hard_state :: "Wal_Codec \<Rightarrow> HardState \<Rightarrow> WAL \<Rightarrow> fault + WAL" where
  "save_hard_state c hs w =
     (if is_empty_state hs then Inr w
      else with_last (wf_append c wal_StateType (wc_pack_state c hs)) (w\<lparr>w_state := hs\<rparr>))"

definition save_snapshot :: "Wal_Codec \<Rightarrow> WAL_Snapshot \<Rightarrow> WAL \<Rightarrow> fault + WAL" where
  "save_snapshot c snap w =
     bind_r (with_last (wf_append c wal_snapshot_Type (wc_pack_snap c snap)) w) (\<lambda>w.
     with_last wf_sync (if w_enti w < ws_index snap then w\<lparr>w_enti := ws_index snap\<rparr> else w))"

definition wal_cut :: "WAL \<Rightarrow> fault + WAL" where
  "wal_cut w = with_last wf_sync w"

definition wal_save :: "Wal_Codec \<Rightarrow> HardState \<Rightarrow> Entry list \<Rightarrow> WAL \<Rightarrow> fault + WAL" where
  "wal_save c hs ents w =
     (if is_empty_state hs \<and> ents = [] then Inr w
      else
        let mustSync = is_must_sync hs (w_state w) (length ents) in
        bind_r (loop_r (save_entry c) ents w) (\<lambda>w.
        bind_r (save_hard_state c hs w) (\<lambda>w.
        if w_files w = [] then Inl (Undefined ''vector back'')
        else if wf_size (last (w_files w)) < SegmentSizeBytes
        then if mustSync then with_last wf_sync w else Inr w
        else wal_cut w)))"

definition release_to :: "u64 \<Rightarrow> WAL \<Rightarrow> Status \<times> WAL" where
  "release_to index w = (OK, w)"

declare search_index_loop.simps [simp del]

section \<open>Framing\<close>

lemma bit_255: "bit (255 :: 32 word) i \<longleftrightarrow> i < 8" "bit (255 :: 8 word) i \<longleftrightarrow> i < 8" "bit (255 :: int) i \<longleftrightarrow> i < 8"
  "bit (255 :: nat) i \<longleftrightarrow> i < 8"
proof -
  have m: "(255 :: 32 word) = mask 8" "(255 :: 8 word) = mask 8" "(255 :: int) = mask 8" "(255 :: nat) = mask 8"
    by (simp_all add: mask_eq_exp_minus_1)
  show "bit (255 :: 32 word) i \<longleftrightarrow> i < 8" "bit (255 :: 8 word) i \<longleftrightarrow> i < 8" "bit (255 :: int) i \<longleftrightarrow> i < 8"
    "bit (255 :: nat) i \<longleftrightarrow> i < 8"
    unfolding m bit_mask_iff by auto
qed

text \<open>Reading back a length gives the length, cut to the largest value of 24 bits.\<close>

lemma wal_record_len_min: "WAL_Record_len (set_WAL_Record_len n r) = min n MAX_WAL_RECORD_LEN"
proof -
  let ?m = "min n MAX_WAL_RECORD_LEN"
  have "?m < 2 ^ 24" by (simp add: MAX_WAL_RECORD_LEN_def min_def word_less_nat_alt word_le_nat_alt)
  then have hi: "\<not> bit ?m i" if "24 \<le> i" for i
    using that by (metis bit_take_bit_iff less_mask_eq linorder_not_less take_bit_eq_mask)
  show ?thesis
  proof (rule bit_word_eqI)
    fix i assume "i < LENGTH(32)"
    then have i: "i < 32" by simp
    then consider "i < 8" | "8 \<le> i" "i < 16" | "16 \<le> i" "i < 24" | "24 \<le> i" by linarith
    then show "bit (WAL_Record_len (set_WAL_Record_len n r)) i \<longleftrightarrow> bit ?m i"
      by cases (use i hi [of i] in \<open>auto simp: WAL_Record_len_def set_WAL_Record_len_def Let_def bit_simps bit_255\<close>)
  qed
qed

definition frame :: "Wal_Codec \<Rightarrow> u8 \<times> bytes \<Rightarrow> bytes" where
  "frame c = (\<lambda>(t, d). record_bytes (set_WAL_Record_len (of_nat (length d)) \<lparr>wr_type = t, wr_len = [], wr_crc = wc_crc c d\<rparr>) @ d)"

lemma wf_append_frame: "wf_append c t d f = f\<lparr>wf_buffer := wf_buffer f @ frame c (t, d)\<rparr>"
  by (simp add: wf_append_def frame_def Let_def)

text \<open>A record the length field can express.\<close>

definition frame_ok :: "u8 \<times> bytes \<Rightarrow> bool" where
  "frame_ok = (\<lambda>(t, d). t \<noteq> wal_InvalidType \<and> length d \<le> 0xFFFFFF)"

lemma set_len_sel [simp]: "wr_type (set_WAL_Record_len n r) = wr_type r" "wr_crc (set_WAL_Record_len n r) = wr_crc r"
  "length (wr_len (set_WAL_Record_len n r)) = 3"
  by (simp_all add: set_WAL_Record_len_def Let_def)

lemma length_record_bytes [simp]: "length (wr_len r) = 3 \<Longrightarrow> length (record_bytes r) = record_size"
  by (simp add: record_bytes_def record_size_def)

lemma bytes_record_bytes: "length (wr_len r) = 3 \<Longrightarrow> bytes_record (record_bytes r) = r"
  by (simp add: bytes_record_def record_bytes_def)

lemma length_frame: "length (frame c (t, d)) = record_size + length d"
  by (simp add: frame_def)

lemma frame_len:
  assumes "length d \<le> 0xFFFFFF"
  shows "unat (WAL_Record_len (set_WAL_Record_len (of_nat (length d)) r)) = length d"
proof -
  have "unat (of_nat (length d) :: u32) = length d" using assms by (intro unat_of_nat_small) simp
  with assms show ?thesis by (simp add: wal_record_len_min MAX_WAL_RECORD_LEN_def)
qed

text \<open>One record of the replay.\<close>

definition replay_record :: "Wal_Codec \<Rightarrow> WAL_Snapshot \<Rightarrow> u8 \<times> bytes \<Rightarrow> Replay \<Rightarrow> fault + Replay" where
  "replay_record c start = (\<lambda>(t, d) st.
     bind_r (handle_record_wal_record c start t d st) (\<lambda>st.
     Inr (if t = wal_snapshot_Type then st\<lparr>rp_match := True\<rparr> else st)))"

lemma read_loop_Nil [simp]: "read_loop c start off [] st = Inr (st, None)"
  by (simp add: read_loop.simps)

lemma read_loop_frame:
  assumes "frame_ok (t, d)"
  shows "read_loop c start off (frame c (t, d) @ rest) st =
    bind_r (replay_record c start (t, d) st) (read_loop c start (off + length (frame c (t, d))) rest)"
proof -
  let ?r = "set_WAL_Record_len (of_nat (length d)) \<lparr>wr_type = t, wr_len = [], wr_crc = wc_crc c d\<rparr>"
  have d: "length d \<le> 0xFFFFFF" and t: "t \<noteq> wal_InvalidType" using assms by (simp_all add: frame_ok_def)
  have f: "frame c (t, d) @ rest = record_bytes ?r @ d @ rest" by (simp add: frame_def)
  have ne: "record_bytes ?r \<noteq> []" by (simp add: record_bytes_def)
  have tk: "take record_size (record_bytes ?r @ d @ rest) = record_bytes ?r"
    and dr: "drop record_size (record_bytes ?r @ d @ rest) = d @ rest" by simp_all
  show ?thesis
    unfolding f
    by (subst read_loop.simps)
      (simp add: ne tk dr bytes_record_bytes t frame_len [OF d] length_frame replay_record_def Let_def add.assoc)
qed

lemma read_loop_frames:
  assumes "\<forall>x \<in> set rs. frame_ok x"
  shows "read_loop c start off (concat (map (frame c) rs) @ rest) st =
    bind_r (loop_r (replay_record c start) rs st)
      (read_loop c start (off + length (concat (map (frame c) rs))) rest)"
  using assms
proof (induction rs arbitrary: off st)
  case (Cons x rs)
  obtain t d where x: "x = (t, d)" by fastforce
  from Cons show ?case by (simp add: x read_loop_frame add.assoc bind_r_def split: sum.splits)
qed simp

text \<open>A record cut short is dropped, and the file is cut where it began.\<close>

lemma read_loop_torn:
  assumes "frame_ok (t, d)" and "0 < k" and "k < length (frame c (t, d))"
  shows "read_loop c start off (take k (frame c (t, d))) st = Inr (st, Some off)"
proof (cases "k < record_size")
  case True
  then show ?thesis using assms(2,3) by (subst read_loop.simps) auto
next
  case False
  let ?r = "set_WAL_Record_len (of_nat (length d)) \<lparr>wr_type = t, wr_len = [], wr_crc = wc_crc c d\<rparr>"
  have d: "length d \<le> 0xFFFFFF" and t: "t \<noteq> wal_InvalidType" using assms(1) by (simp_all add: frame_ok_def)
  let ?d = "take (k - record_size) d"
  have f: "take k (frame c (t, d)) = record_bytes ?r @ ?d" using False by (simp add: frame_def)
  have ne: "record_bytes ?r \<noteq> []" by (simp add: record_bytes_def)
  have tk: "take record_size (record_bytes ?r @ ?d) = record_bytes ?r"
    and dr: "drop record_size (record_bytes ?r @ ?d) = ?d" by simp_all
  have "k - record_size < length d" using assms(3) False by (simp add: length_frame)
  then show ?thesis
    unfolding f
    by (subst read_loop.simps) (simp add: ne tk dr bytes_record_bytes t frame_len [OF d] Let_def)
qed

text \<open>
  C16. Crash recovery: whatever prefix of a sequence of written records has reached the disk, reading
  it back replays exactly the records that are complete in it, in order, and cuts the file after the
  last of them; nothing of a torn record is seen.
\<close>

theorem wal_crash_recovery:
  assumes "\<forall>x \<in> set rs. frame_ok x"
  shows "\<exists>j \<le> length rs. \<exists>trunc.
     read_loop c start 0 (take n (concat (map (frame c) rs))) st =
       bind_r (loop_r (replay_record c start) (take j rs) st) (\<lambda>st. Inr (st, trunc)) \<and>
     (case trunc of None \<Rightarrow> take n (concat (map (frame c) rs)) | Some off \<Rightarrow> take off (take n (concat (map (frame c) rs)))) =
       concat (map (frame c) (take j rs)) \<and>
     (j < length rs \<longrightarrow> n < length (concat (map (frame c) (take (Suc j) rs))))"
proof -
  let ?all = "concat (map (frame c) rs)"
  obtain j k where j: "j \<le> length rs" and tk: "take n ?all =
      concat (map (frame c) (take j rs)) @ (if j < length rs then take k (frame c (rs ! j)) else [])"
    and k: "j < length rs \<longrightarrow> k < length (frame c (rs ! j))" using take_concat_blocks by blast
  let ?done = "concat (map (frame c) (take j rs))"
  have ok: "\<forall>x \<in> set (take j rs). frame_ok x" using assms by (meson in_set_takeD)
  have bound: "n < length (concat (map (frame c) (take (Suc j) rs)))" if l: "j < length rs"
  proof -
    have "length (take n ?all) = length ?done + k" using tk k l by simp
    moreover have "length (concat (map (frame c) (take (Suc j) rs))) \<le> length ?all"
      by (metis append_take_drop_id concat_append length_append le_add1 map_append)
    ultimately show ?thesis using k l by (auto simp: take_Suc_conv_app_nth)
  qed
  show ?thesis
  proof (cases "j < length rs \<and> 0 < k")
    case True
    obtain t d where x: "rs ! j = (t, d)" by fastforce
    have f: "frame_ok (t, d)" using assms True x nth_mem by metis
    have "read_loop c start 0 (take n ?all) st =
        bind_r (loop_r (replay_record c start) (take j rs) st) (\<lambda>st. Inr (st, Some (length ?done)))"
      unfolding tk using True k x
      by (simp add: read_loop_frames [OF ok]) (rule bind_r_cong [OF refl], simp add: read_loop_torn [OF f])
    moreover have "take (length ?done) (take n ?all) = ?done" unfolding tk by simp
    ultimately show ?thesis using j bound by (intro exI [of _ j] conjI exI [of _ "Some (length ?done)"]) auto
  next
    case False
    then have "take n ?all = ?done" using tk by auto
    moreover have "read_loop c start 0 ?done st = bind_r (loop_r (replay_record c start) (take j rs) st) (\<lambda>st. Inr (st, None))"
      using read_loop_frames [OF ok, of c start 0 "[]" st] by (simp cong: bind_r_cong)
    ultimately show ?thesis using j bound by (intro exI [of _ j] conjI exI [of _ None]) auto
  qed
qed

section \<open>Saving and reading back\<close>

text \<open>The bytes a file has been given and those still to be given to it.\<close>

definition pending :: "WAL_File \<Rightarrow> bytes" where
  "pending f = wf_stream f @ wf_buffer f"

definition save_records :: "Wal_Codec \<Rightarrow> HardState \<Rightarrow> Entry list \<Rightarrow> (u8 \<times> bytes) list" where
  "save_records c hs ents = map (\<lambda>e. (wal_EntryType, wc_pack_entry c e)) ents @
     (if is_empty_state hs then [] else [(wal_StateType, wc_pack_state c hs)])"

text \<open>A log with one file: what an operation adds to it.\<close>

definition adds :: "Wal_Codec \<Rightarrow> (u8 \<times> bytes) list \<Rightarrow> WAL \<Rightarrow> WAL \<Rightarrow> bool" where
  "adds c rs w w' \<longleftrightarrow> w_start w' = w_start w \<and>
     (\<exists>f f'. w_files w = [f] \<and> w_files w' = [f'] \<and> pending f' = pending f @ concat (map (frame c) rs))"

lemma addsI: "w_start w' = w_start w \<Longrightarrow> w_files w = [f] \<Longrightarrow> w_files w' = [f'] \<Longrightarrow>
    pending f' = pending f @ concat (map (frame c) rs) \<Longrightarrow> adds c rs w w'"
  by (auto simp: adds_def)

lemma adds_trans: "adds c rs w w' \<Longrightarrow> adds c rs' w' w'' \<Longrightarrow> adds c (rs @ rs') w w''"
  by (auto simp: adds_def)

lemma pending_sync [simp]: "pending (wf_sync f) = pending f" "wf_buffer (wf_sync f) = []"
  by (simp_all add: pending_def wf_sync_def)

lemma with_last_single: "w_files w = [f] \<Longrightarrow> with_last g w = Inr (w\<lparr>w_files := [g f]\<rparr>)"
  by (simp add: with_last_def)

lemma save_entry_adds:
  assumes "w_files w = [f]"
  shows "\<exists>w'. save_entry c e w = Inr w' \<and> adds c [(wal_EntryType, wc_pack_entry c e)] w w'"
  using assms by (simp add: save_entry_def with_last_single wf_append_frame adds_def pending_def)

lemma save_entries_adds:
  assumes "w_files w = [f]"
  shows "\<exists>w'. loop_r (save_entry c) ents w = Inr w' \<and> adds c (map (\<lambda>e. (wal_EntryType, wc_pack_entry c e)) ents) w w'"
  using assms
proof (induction ents arbitrary: w f)
  case Nil
  then show ?case by (simp add: adds_def)
next
  case (Cons e ents)
  obtain w1 where w1: "save_entry c e w = Inr w1" "adds c [(wal_EntryType, wc_pack_entry c e)] w w1"
    using save_entry_adds [OF Cons.prems] by blast
  then obtain f1 where "w_files w1 = [f1]" by (auto simp: adds_def)
  then obtain w2 where "loop_r (save_entry c) ents w1 = Inr w2"
    "adds c (map (\<lambda>e. (wal_EntryType, wc_pack_entry c e)) ents) w1 w2" using Cons.IH by blast
  then show ?case using w1 adds_trans [OF w1(2)] by auto
qed

lemma save_hard_state_adds:
  assumes "w_files w = [f]"
  shows "\<exists>w'. save_hard_state c hs w = Inr w' \<and>
     adds c (if is_empty_state hs then [] else [(wal_StateType, wc_pack_state c hs)]) w w'"
  using assms by (simp add: save_hard_state_def with_last_single wf_append_frame adds_def pending_def)

lemma sync_adds: "w_files w = [f] \<Longrightarrow> with_last wf_sync w = Inr (w\<lparr>w_files := [wf_sync f]\<rparr>) \<and> adds c [] w (w\<lparr>w_files := [wf_sync f]\<rparr>)"
  by (simp add: with_last_single adds_def)

text \<open>\<^verbatim>\<open>save\<close> adds the records of the entries and then of the state, and leaves nothing unwritten when it must sync.\<close>

lemma wal_save_adds:
  assumes "w_files w = [f]"
  shows "\<exists>w'. wal_save c hs ents w = Inr w' \<and> adds c (save_records c hs ents) w w' \<and>
     (is_must_sync hs (w_state w) (length ents) \<and> \<not> (is_empty_state hs \<and> ents = []) \<longrightarrow> wf_buffer (last (w_files w')) = [])"
proof (cases "is_empty_state hs \<and> ents = []")
  case True
  then show ?thesis using assms by (simp add: wal_save_def save_records_def adds_def)
next
  case False
  obtain w1 where w1: "loop_r (save_entry c) ents w = Inr w1"
    "adds c (map (\<lambda>e. (wal_EntryType, wc_pack_entry c e)) ents) w w1" using save_entries_adds [OF assms] by blast
  then obtain f1 where "w_files w1 = [f1]" by (auto simp: adds_def)
  then obtain w2 where w2: "save_hard_state c hs w1 = Inr w2"
    "adds c (if is_empty_state hs then [] else [(wal_StateType, wc_pack_state c hs)]) w1 w2"
    using save_hard_state_adds by blast
  have a: "adds c (save_records c hs ents) w w2"
    using adds_trans [OF w1(2) w2(2)] by (simp add: save_records_def)
  obtain f2 where f2: "w_files w2 = [f2]" using w2(2) by (auto simp: adds_def)
  let ?w3 = "w2\<lparr>w_files := [wf_sync f2]\<rparr>"
  have s: "with_last wf_sync w2 = Inr ?w3" "adds c (save_records c hs ents) w ?w3"
    using sync_adds [OF f2, of c] adds_trans [OF a, of "[]"] by auto
  show ?thesis
  proof (cases "wf_size f2 < SegmentSizeBytes \<and> \<not> is_must_sync hs (w_state w) (length ents)")
    case True
    then have "wal_save c hs ents w = Inr w2"
      using False w1(1) w2(1) f2 by (auto simp: wal_save_def Let_def)
    then show ?thesis using a True by blast
  next
    case sync: False
    then have "wal_save c hs ents w = Inr ?w3"
      using False w1(1) w2(1) f2 s(1) by (auto simp: wal_save_def wal_cut_def Let_def)
    then show ?thesis using s(2) by simp
  qed
qed

lemma save_entries_exact:
  assumes "w_files w = [f]"
  shows "\<exists>w'. loop_r (save_entry c) es w = Inr w' \<and> w_start w' = w_start w \<and> w_state w' = w_state w \<and>
     w_files w' = [f\<lparr>wf_buffer := wf_buffer f @ concat (map (frame c) (map (\<lambda>e. (wal_EntryType, wc_pack_entry c e)) es))\<rparr>]"
  using assms
proof (induction es arbitrary: w f)
  case (Cons e es)
  let ?f = "f\<lparr>wf_buffer := wf_buffer f @ frame c (wal_EntryType, wc_pack_entry c e)\<rparr>"
  have "save_entry c e w = Inr (w\<lparr>w_files := [?f], w_enti := e_index e\<rparr>)"
    using Cons.prems by (simp add: save_entry_def with_last_single wf_append_frame)
  then show ?case using Cons.IH [of "w\<lparr>w_files := [?f], w_enti := e_index e\<rparr>" ?f] by simp
qed simp

text \<open>
  Which bytes of a \<^verbatim>\<open>save\<close> are in the file: all of them, or none and then it has only changed the commit index.
\<close>

lemma wal_save_exact:
  assumes "w_files w = [f]"
  shows "\<exists>w' f'. wal_save c hs es w = Inr w' \<and> w_files w' = [f'] \<and> w_start w' = w_start w \<and>
     w_state w' = (if is_empty_state hs then w_state w else hs) \<and>
     (wf_stream f' = pending f @ concat (map (frame c) (save_records c hs es)) \<and> wf_buffer f' = [] \<or>
      wf_stream f' = wf_stream f \<and> wf_buffer f' = wf_buffer f @ concat (map (frame c) (save_records c hs es)) \<and>
        es = [] \<and> (is_empty_state hs \<or> \<not> is_must_sync hs (w_state w) 0))"
proof (cases "is_empty_state hs \<and> es = []")
  case True
  then show ?thesis using assms by (simp add: wal_save_def save_records_def)
next
  case False
  obtain w1 where w1: "loop_r (save_entry c) es w = Inr w1" "w_start w1 = w_start w" "w_state w1 = w_state w"
    "w_files w1 = [f\<lparr>wf_buffer := wf_buffer f @ concat (map (frame c) (map (\<lambda>e. (wal_EntryType, wc_pack_entry c e)) es))\<rparr>]"
    using save_entries_exact [OF assms] by blast
  define f2 where "f2 = f\<lparr>wf_buffer := wf_buffer f @ concat (map (frame c) (save_records c hs es))\<rparr>"
  have "\<exists>w2. save_hard_state c hs w1 = Inr w2 \<and> w_files w2 = [f2] \<and> w_start w2 = w_start w \<and>
      w_state w2 = (if is_empty_state hs then w_state w else hs)"
    using w1 by (cases "is_empty_state hs") (simp_all add: save_hard_state_def with_last_single wf_append_frame f2_def save_records_def)
  then obtain w2 where w2: "save_hard_state c hs w1 = Inr w2" "w_files w2 = [f2]" "w_start w2 = w_start w"
    "w_state w2 = (if is_empty_state hs then w_state w else hs)" by blast
  have p: "wf_stream (wf_sync f2) = pending f @ concat (map (frame c) (save_records c hs es))" "wf_buffer (wf_sync f2) = []"
    using pending_sync [of f2] by (simp_all add: pending_def f2_def)
  have sy: "with_last wf_sync w2 = Inr (w2\<lparr>w_files := [wf_sync f2]\<rparr>)" using with_last_single [OF w2(2)] by simp
  show ?thesis
  proof (cases "wf_size f2 < SegmentSizeBytes \<and> \<not> is_must_sync hs (w_state w) (length es)")
    case True
    then have "wal_save c hs es w = Inr w2" using False w1(1) w2(1,2) by (auto simp: wal_save_def Let_def)
    moreover have "es = []" using True by (simp add: is_must_sync_def)
    ultimately show ?thesis using True w2 by (simp add: f2_def)
  next
    case sync: False
    then have "wal_save c hs es w = Inr (w2\<lparr>w_files := [wf_sync f2]\<rparr>)"
      using False w1(1) w2(1,2) sy by (auto simp: wal_save_def wal_cut_def Let_def)
    then show ?thesis using w2 p by simp
  qed
qed

lemma wal_saves_adds:
  assumes "w_files w = [f]"
  shows "\<exists>w'. loop_r (\<lambda>(hs, es). wal_save c hs es) ss w = Inr w' \<and>
     adds c (concat (map (\<lambda>(hs, es). save_records c hs es) ss)) w w'"
  using assms
proof (induction ss arbitrary: w f)
  case Nil
  then show ?case by (simp add: adds_def)
next
  case (Cons s ss)
  obtain hs es where s: "s = (hs, es)" by fastforce
  obtain w1 where w1: "wal_save c hs es w = Inr w1" "adds c (save_records c hs es) w w1"
    using wal_save_adds [OF Cons.prems] by blast
  then obtain f1 where "w_files w1 = [f1]" by (auto simp: adds_def)
  then obtain w2 where "loop_r (\<lambda>(hs, es). wal_save c hs es) ss w1 = Inr w2"
    "adds c (concat (map (\<lambda>(hs, es). save_records c hs es) ss)) w1 w2" using Cons.IH by blast
  then show ?case using w1 adds_trans [OF w1(2)] by (auto simp: s)
qed

subsection \<open>What is read back\<close>

text \<open>A saved entry replaces the log from its index on; entries up to the starting snapshot are skipped.\<close>

definition overwrite :: "u64 \<Rightarrow> Entry list \<Rightarrow> Entry \<Rightarrow> Entry list" where
  "overwrite s0 l e = (if e_index e > s0 then take (unat (e_index e) - unat s0 - 1) l @ [e] else l)"

text \<open>No entry leaves a gap behind the log it is saved to.\<close>

primrec gapless :: "u64 \<Rightarrow> Entry list \<Rightarrow> Entry list \<Rightarrow> bool" where
  "gapless s0 l [] \<longleftrightarrow> True"
| "gapless s0 l (e # es) \<longleftrightarrow> unat (e_index e) \<le> unat s0 + length l + 1 \<and> gapless s0 (overwrite s0 l e) es"

lemma gapless_append: "gapless s0 l (es @ fs) \<longleftrightarrow> gapless s0 l es \<and> gapless s0 (foldl (overwrite s0) l es) fs"
  by (induction es arbitrary: l) auto

text \<open>The last hard state that is not empty.\<close>

definition last_state :: "HardState \<Rightarrow> HardState list \<Rightarrow> HardState" where
  "last_state h hss = foldl (\<lambda>h hs. if is_empty_state hs then h else hs) h hss"

definition codec_inverts :: "Wal_Codec \<Rightarrow> HardState \<times> Entry list \<Rightarrow> bool" where
  "codec_inverts c = (\<lambda>(hs, es). wc_unpack_state c (wc_pack_state c hs) = Some hs \<and> length (wc_pack_state c hs) \<le> 0xFFFFFF \<and>
     (\<forall>e \<in> set es. wc_unpack_entry c (wc_pack_entry c e) = Some e \<and> length (wc_pack_entry c e) \<le> 0xFFFFFF))"

lemma save_records_ok: "codec_inverts c (hs, es) \<Longrightarrow> \<forall>x \<in> set (save_records c hs es). frame_ok x"
  by (auto simp: codec_inverts_def save_records_def frame_ok_def wal_InvalidType_def wal_EntryType_def wal_StateType_def)

lemma unat_index_diff: "s0 < i \<Longrightarrow> unat (i - s0 - 1 :: u64) = unat i - unat s0 - 1"
proof -
  assume a: "s0 < i"
  then have "unat (i - s0) = unat i - unat s0" by (intro unat_sub_le) (simp add: word_less_nat_alt)
  with a show ?thesis by (subst unat_sub_le) (simp_all add: word_less_nat_alt)
qed

lemma replay_entry:
  assumes "wc_unpack_entry c (wc_pack_entry c e) = Some e" and "unat (e_index e) \<le> unat (ws_index start) + length l + 1"
    and "rp_ents st = map Some l"
  shows "\<exists>st'. replay_record c start (wal_EntryType, wc_pack_entry c e) st = Inr st' \<and>
     rp_ents st' = map Some (overwrite (ws_index start) l e) \<and> rp_hs st' = rp_hs st \<and> rp_match st' = rp_match st"
proof -
  let ?k = "unat (e_index e) - unat (ws_index start) - 1"
  have "ptr_resize ?k (map Some l) = map Some (take ?k l)" using assms(2) by (simp add: ptr_resize_def take_map)
  then show ?thesis
    using assms
    by (auto simp: replay_record_def handle_record_wal_record_def unpack_r_def overwrite_def unat_index_diff
        wal_EntryType_def wal_snapshot_Type_def)
qed

lemma replay_entries:
  assumes "\<forall>e \<in> set es. wc_unpack_entry c (wc_pack_entry c e) = Some e" and "gapless (ws_index start) l es"
    and "rp_ents st = map Some l"
  shows "\<exists>st'. loop_r (replay_record c start) (map (\<lambda>e. (wal_EntryType, wc_pack_entry c e)) es) st = Inr st' \<and>
     rp_ents st' = map Some (foldl (overwrite (ws_index start)) l es) \<and> rp_hs st' = rp_hs st \<and> rp_match st' = rp_match st"
  using assms
proof (induction es arbitrary: l st)
  case (Cons e es)
  obtain st1 where st1: "replay_record c start (wal_EntryType, wc_pack_entry c e) st = Inr st1"
    "rp_ents st1 = map Some (overwrite (ws_index start) l e)" "rp_hs st1 = rp_hs st" "rp_match st1 = rp_match st"
    using replay_entry [of c e start l st] Cons.prems by auto
  then show ?case using Cons.IH [of "overwrite (ws_index start) l e" st1] Cons.prems by auto
qed simp

lemma loop_r_append: "loop_r f (xs @ ys) s = bind_r (loop_r f xs s) (loop_r f ys)"
  by (induction xs arbitrary: s) (auto simp: bind_r_def split: sum.splits)

lemma replay_save:
  assumes "codec_inverts c (hs, es)" and "gapless (ws_index start) l es" and "rp_ents st = map Some l"
  shows "\<exists>st'. loop_r (replay_record c start) (save_records c hs es) st = Inr st' \<and>
     rp_ents st' = map Some (foldl (overwrite (ws_index start)) l es) \<and>
     rp_hs st' = (if is_empty_state hs then rp_hs st else hs) \<and> rp_match st' = rp_match st"
proof -
  obtain st1 where "loop_r (replay_record c start) (map (\<lambda>e. (wal_EntryType, wc_pack_entry c e)) es) st = Inr st1"
    "rp_ents st1 = map Some (foldl (overwrite (ws_index start)) l es)" "rp_hs st1 = rp_hs st" "rp_match st1 = rp_match st"
    using replay_entries [of es c start l st] assms by (auto simp: codec_inverts_def)
  then show ?thesis
    using assms(1)
    by (auto simp: save_records_def loop_r_append replay_record_def handle_record_wal_record_def unpack_r_def
        codec_inverts_def wal_EntryType_def wal_StateType_def wal_snapshot_Type_def)
qed

lemma replay_saves:
  assumes "\<forall>s \<in> set ss. codec_inverts c s" and "gapless (ws_index start) l (concat (map snd ss))" and "rp_ents st = map Some l"
  shows "\<exists>st'. loop_r (replay_record c start) (concat (map (\<lambda>(hs, es). save_records c hs es) ss)) st = Inr st' \<and>
     rp_ents st' = map Some (foldl (overwrite (ws_index start)) l (concat (map snd ss))) \<and>
     rp_hs st' = last_state (rp_hs st) (map fst ss) \<and> rp_match st' = rp_match st"
  using assms
proof (induction ss arbitrary: l st)
  case Nil
  then show ?case by (simp add: last_state_def)
next
  case (Cons s ss)
  obtain hs es where s: "s = (hs, es)" by fastforce
  obtain st1 where st1: "loop_r (replay_record c start) (save_records c hs es) st = Inr st1"
     "rp_ents st1 = map Some (foldl (overwrite (ws_index start)) l es)"
     "rp_hs st1 = (if is_empty_state hs then rp_hs st else hs)" "rp_match st1 = rp_match st"
    using replay_save [of c hs es start l st] Cons.prems by (auto simp: s gapless_append)
  then show ?case
    using Cons.IH [of "foldl (overwrite (ws_index start)) l es" st1] Cons.prems
    by (auto simp: s loop_r_append gapless_append last_state_def)
qed

text \<open>Reading a file that holds the record of the starting snapshot and what some calls of \<^verbatim>\<open>save\<close> have added.\<close>

lemma read_saved:
  assumes "w_files w = [f]"
    and "wf_stream f = concat (map (frame c) ((wal_snapshot_Type, wc_pack_snap c (w_start w)) # concat (map (\<lambda>(hs, es). save_records c hs es) ss)))"
    and "wc_unpack_snap c (wc_pack_snap c (w_start w)) = Some (w_start w)" and "length (wc_pack_snap c (w_start w)) \<le> 0xFFFFFF"
    and "\<forall>s \<in> set ss. codec_inverts c s" and "gapless (ws_index (w_start w)) [] (concat (map snd ss))"
  shows "\<exists>i. wal_read_all c HardState_default [] w =
     Inr (last_state HardState_default (map fst ss),
          map Some (foldl (overwrite (ws_index (w_start w))) [] (concat (map snd ss))), w\<lparr>w_enti := i\<rparr>)"
proof -
  let ?rs = "concat (map (\<lambda>(hs, es). save_records c hs es) ss)" and ?snap = "(wal_snapshot_Type, wc_pack_snap c (w_start w))"
  have ok: "\<forall>x \<in> set (?snap # ?rs). frame_ok x"
  proof -
    have "frame_ok x" if "x \<in> set ?rs" for x using that assms(5) save_records_ok by fastforce
    moreover have "frame_ok ?snap" using assms(4) by (simp add: frame_ok_def wal_InvalidType_def wal_snapshot_Type_def)
    ultimately show ?thesis by simp
  qed
  let ?st = "\<lparr>rp_enti = w_enti w, rp_match = False, rp_hs = HardState_default, rp_ents = []\<rparr>"
  have s: "replay_record c (w_start w) ?snap ?st = Inr (?st\<lparr>rp_match := True\<rparr>)"
    using assms(3) by (simp add: replay_record_def handle_record_wal_record_def unpack_r_def wal_EntryType_def
        wal_StateType_def wal_snapshot_Type_def)
  obtain st where st: "loop_r (replay_record c (w_start w)) ?rs (?st\<lparr>rp_match := True\<rparr>) = Inr st"
     "rp_ents st = map Some (foldl (overwrite (ws_index (w_start w))) [] (concat (map snd ss)))"
     "rp_hs st = last_state HardState_default (map fst ss)" "rp_match st"
    using replay_saves [OF assms(5,6), of "?st\<lparr>rp_match := True\<rparr>"] by auto
  have "read_loop c (w_start w) 0 (wf_stream f) ?st = Inr (st, None)"
    unfolding assms(2) using read_loop_frames [OF ok, of c "w_start w" 0 "[]" ?st] s st(1) by simp
  then have "wal_read_all c HardState_default [] w = Inr (rp_hs st, rp_ents st, w\<lparr>w_enti := rp_enti st, w_files := [f]\<rparr>)"
    using st(4) assms(1) by (simp add: wal_read_all_def read_file_def wf_read_all_def)
  moreover have "w\<lparr>w_enti := rp_enti st, w_files := [f]\<rparr> = w\<lparr>w_enti := rp_enti st\<rparr>" using assms(1) by (cases w) simp
  ultimately show ?thesis using st(2,3) by auto
qed

text \<open>
  C15. Saving and reading back: on a log whose file starts with the record of its snapshot, every
  sequence of \<^verbatim>\<open>save\<close> calls succeeds, and after a final \<^verbatim>\<open>cut\<close> reading the file gives the last hard state
  that was not empty and the log in which each saved entry has replaced everything from its index
  on. (\<open>codec_inverts\<close> is the round trip of msgpack on the saved values and the limit on their size.)
\<close>

theorem wal_round_trip:
  assumes "w_files w = [f]" and "pending f = frame c (wal_snapshot_Type, wc_pack_snap c (w_start w))"
    and "wc_unpack_snap c (wc_pack_snap c (w_start w)) = Some (w_start w)" and "length (wc_pack_snap c (w_start w)) \<le> 0xFFFFFF"
    and "\<forall>s \<in> set ss. codec_inverts c s" and "gapless (ws_index (w_start w)) [] (concat (map snd ss))"
  shows "\<exists>w' w''. bind_r (loop_r (\<lambda>(hs, es). wal_save c hs es) ss w) wal_cut = Inr w' \<and>
     wal_read_all c HardState_default [] w' =
       Inr (last_state HardState_default (map fst ss),
            map Some (foldl (overwrite (ws_index (w_start w))) [] (concat (map snd ss))), w'')"
proof -
  let ?rs = "concat (map (\<lambda>(hs, es). save_records c hs es) ss)" and ?snap = "(wal_snapshot_Type, wc_pack_snap c (w_start w))"
  obtain w1 where w1: "loop_r (\<lambda>(hs, es). wal_save c hs es) ss w = Inr w1" "adds c ?rs w w1"
    using wal_saves_adds [OF assms(1)] by blast
  then obtain f1 where f1: "w_files w1 = [f1]" "pending f1 = concat (map (frame c) (?snap # ?rs))" "w_start w1 = w_start w"
    using assms(1,2) by (auto simp: adds_def)
  have "wf_stream (wf_sync f1) = concat (map (frame c) (?snap # ?rs))"
    using f1(2) pending_sync [of f1] by (simp add: pending_def)
  then show ?thesis
    using read_saved [of "w1\<lparr>w_files := [wf_sync f1]\<rparr>" "wf_sync f1" c ss] assms(3-6) w1(1) f1(1,3)
    by (auto simp: wal_cut_def with_last_single)
qed

definition example_codec :: Wal_Codec where
  "example_codec = \<lparr>wc_crc = (\<lambda>d. of_nat (length d)),
     wc_pack_entry = (\<lambda>e. [ucast (e_index e), ucast (e_term e)]),
     wc_unpack_entry = (\<lambda>d. Some \<lparr>e_type = EntryNormal, e_term = ucast (d ! 1), e_index = ucast (d ! 0), e_data = []\<rparr>),
     wc_pack_state = (\<lambda>h. [ucast (hs_term h), ucast (hs_vote h), ucast (hs_commit h)]),
     wc_unpack_state = (\<lambda>d. Some \<lparr>hs_term = ucast (d ! 0), hs_vote = ucast (d ! 1), hs_commit = ucast (d ! 2)\<rparr>),
     wc_pack_snap = (\<lambda>s. [ucast (ws_index s), ucast (ws_term s)]),
     wc_unpack_snap = (\<lambda>d. Some \<lparr>ws_index = ucast (d ! 0), ws_term = ucast (d ! 1)\<rparr>)\<rparr>"

definition example_entry :: "u64 \<Rightarrow> u64 \<Rightarrow> Entry" where
  "example_entry i t = \<lparr>e_type = EntryNormal, e_term = t, e_index = i, e_data = []\<rparr>"

definition example_wal :: WAL where
  "example_wal = \<lparr>w_state = HardState_default, w_start = \<lparr>ws_index = 0, ws_term = 0\<rparr>, w_enti = 0,
     w_files = [\<lparr>wf_buffer = [], wf_seq = 0, wf_size = 0, wf_stream = frame example_codec (wal_snapshot_Type, [0, 0])\<rparr>]\<rparr>"

definition example_replay :: Replay where
  "example_replay = \<lparr>rp_enti = 0, rp_match = False, rp_hs = HardState_default, rp_ents = []\<rparr>"

definition example_records :: "(u8 \<times> bytes) list" where
  "example_records = [(wal_EntryType, [1, 1]), (wal_EntryType, [2, 1])]"

theorem wal_crash_recovery_witness:
  "\<exists>j \<le> length example_records. \<exists>trunc.
     read_loop example_codec \<lparr>ws_index = 0, ws_term = 0\<rparr> 0 (take 15 (concat (map (frame example_codec) example_records))) example_replay =
       bind_r (loop_r (replay_record example_codec \<lparr>ws_index = 0, ws_term = 0\<rparr>) (take j example_records) example_replay)
         (\<lambda>st. Inr (st, trunc))"
proof -
  have ok: "\<forall>x \<in> set example_records. frame_ok x"
    by (simp add: example_records_def frame_ok_def wal_EntryType_def wal_InvalidType_def)
  show ?thesis
    using wal_crash_recovery [OF ok, of example_codec "\<lparr>ws_index = 0, ws_term = 0\<rparr>" 15 example_replay] by blast
qed

theorem wal_round_trip_witness:
  "\<exists>w' w''. bind_r (loop_r (\<lambda>(hs, es). wal_save example_codec hs es)
       [(HardState_default, [example_entry 1 1, example_entry 2 1]), (\<lparr>hs_term = 2, hs_vote = 1, hs_commit = 1\<rparr>, [example_entry 2 2])]
       example_wal) wal_cut = Inr w' \<and>
     wal_read_all example_codec HardState_default [] w' =
       Inr (\<lparr>hs_term = 2, hs_vote = 1, hs_commit = 1\<rparr>, [Some (example_entry 1 1), Some (example_entry 2 2)], w'')"
proof -
  let ?ss = "[(HardState_default, [example_entry 1 1, example_entry 2 1]), (\<lparr>hs_term = 2, hs_vote = 1, hs_commit = 1\<rparr>, [example_entry 2 2])]"
  have 1: "\<forall>s \<in> set ?ss. codec_inverts example_codec s"
    by (simp add: codec_inverts_def example_codec_def example_entry_def HardState_default_def)
  have 2: "gapless 0 [] (concat (map snd ?ss))" by code_simp
  have 3: "last_state HardState_default (map fst ?ss) = \<lparr>hs_term = 2, hs_vote = 1, hs_commit = 1\<rparr>" by code_simp
  have 4: "foldl (overwrite 0) [] (concat (map snd ?ss)) = [example_entry 1 1, example_entry 2 2]" by code_simp
  show ?thesis
    using wal_round_trip [of example_wal "hd (w_files example_wal)" example_codec ?ss] 1 2 3 4
    by (simp add: example_wal_def example_codec_def pending_def)
qed

section \<open>Names and segments\<close>

text \<open>
  What the code relies on of \<^verbatim>\<open>path::extension\<close>: it is the part from the last dot on.
\<close>

definition extension_law :: "(string \<Rightarrow> string) \<Rightarrow> bool" where
  "extension_law ext \<longleftrightarrow> ext [] = [] \<and> (\<forall>stem e. stem \<noteq> [] \<and> CHR ''/'' \<notin> set (stem @ e) \<and> CHR ''.'' \<notin> set e \<longrightarrow>
     ext (stem @ CHR ''.'' # e) = CHR ''.'' # e)"

lemma wal_name_parses:
  assumes "extension_law ext"
  shows "parse_wal_name ext (wal_name seq index) = Some (seq, index)"
proof -
  let ?f = "hex16 seq @ ''-'' @ hex16 index"
  have nd: "CHR ''-'' \<notin> set (hex16 w)" "CHR ''/'' \<notin> set (hex16 w)" for w
    using hex16_is_hex [of _ w] hex_not_special by blast+
  have "?f \<noteq> [] \<and> CHR ''/'' \<notin> set (?f @ ''wal'') \<and> CHR ''.'' \<notin> set ''wal''" using nd by auto
  then have "ext (?f @ CHR ''.'' # ''wal'') = CHR ''.'' # ''wal''" using assms unfolding extension_law_def by blast
  then have e: "ext (wal_name seq index) = ''.wal''" by (simp add: wal_name_def)
  have f: "take (length (wal_name seq index) - 4) (wal_name seq index) = ?f" by (simp add: wal_name_def)
  have p: "takeWhile (\<lambda>ch. ch \<noteq> CHR ''-'') ?f = hex16 seq"
    using nd(1) [of seq] by (subst takeWhile_append2) auto
  have "take 16 ?f = hex16 seq" "drop (Suc 16) ?f = hex16 index" by simp_all
  then show ?thesis
    unfolding parse_wal_name_def e f Let_def p by (simp add: ss_hex_hex16)
qed

definition dot_suffix :: "string \<Rightarrow> string" where
  "dot_suffix s = (if CHR ''.'' \<in> set s then CHR ''.'' # rev (takeWhile (\<lambda>ch. ch \<noteq> CHR ''.'') (rev s)) else [])"

lemma dot_suffix_law: "extension_law dot_suffix"
  by (auto simp: extension_law_def dot_suffix_def takeWhile_append takeWhile_tail)

text \<open>
  Names of log files: \<^verbatim>\<open>parse_wal_name\<close> reads back the sequence number and the index that \<^verbatim>\<open>wal_name\<close>
  has written, for all 64-bit values, and two names are equal only for the same file.
\<close>

lemma wal_name_round_trip:
  assumes "extension_law ext"
  shows "parse_wal_name ext (wal_name seq index) = Some (seq, index) \<and>
     (wal_name seq index = wal_name seq' index' \<longrightarrow> seq = seq' \<and> index = index')"
  using wal_name_parses [OF assms] by (metis option.inject prod.inject)

definition name_index :: "(string \<Rightarrow> string) \<Rightarrow> string \<Rightarrow> u64" where
  "name_index ext name = snd (the (parse_wal_name ext name))"

lemma search_index_loop_spec:
  assumes "\<forall>n \<in> set names. parse_wal_name ext n \<noteq> None" and "i < length names"
  shows "(\<exists>k \<le> i. search_index_loop ext names index i = Inr (Some k) \<and> name_index ext (names ! k) \<le> index \<and>
       (\<forall>j. k < j \<and> j \<le> i \<longrightarrow> index < name_index ext (names ! j))) \<or>
     search_index_loop ext names index i = Inr None \<and> (\<forall>j \<le> i. index < name_index ext (names ! j))"
  using assms(2)
proof (induction i)
  case 0
  then obtain s x where "parse_wal_name ext (names ! 0) = Some (s, x)" using assms(1) nth_mem by fastforce
  with 0 show ?case by (auto simp: search_index_loop.simps name_index_def not_le)
next
  case (Suc i)
  obtain s x where x: "parse_wal_name ext (names ! Suc i) = Some (s, x)" using assms(1) Suc.prems nth_mem by fastforce
  show ?case
  proof (cases "x \<le> index")
    case True
    then show ?thesis using Suc.prems x by (intro disjI1 exI [of _ "Suc i"]) (auto simp: search_index_loop.simps name_index_def)
  next
    case False
    then have "search_index_loop ext names index (Suc i) = search_index_loop ext names index i"
      using Suc.prems x by (subst search_index_loop.simps) simp
    moreover have "index < name_index ext (names ! Suc i)" using False x by (simp add: name_index_def)
    ultimately show ?thesis using Suc.IH Suc.prems by (auto simp: le_Suc_eq)
  qed
qed

text \<open>
  \<^verbatim>\<open>search_index\<close> on names that all parse finds the last one whose index is at most the given index,
  and reports that there is none exactly if every index is greater; it never reads outside the list.
\<close>

lemma search_index_correct:
  assumes "\<forall>n \<in> set names. parse_wal_name ext n \<noteq> None" and "names \<noteq> []" and "length names < 2 ^ 64"
  shows "(\<exists>k < length names. search_index ext names index = Inr (Some k) \<and> name_index ext (names ! k) \<le> index \<and>
       (\<forall>j. k < j \<and> j < length names \<longrightarrow> index < name_index ext (names ! j))) \<or>
     search_index ext names index = Inr None \<and> (\<forall>j < length names. index < name_index ext (names ! j))"
proof -
  have "unat (of_nat (length names) :: u64) = length names" using assms(3) by (intro unat_of_nat_small) simp
  then have "unat (of_nat (length names) - 1 :: u64) = length names - 1"
    using assms(2) by (subst unat_sub_le) (simp_all add: Suc_le_eq)
  then show ?thesis
    using search_index_loop_spec [OF assms(1), of "length names - 1" index] assms(2)
    unfolding search_index_def by (cases names) (auto simp: less_Suc_eq_le)
qed

text \<open>
  The check of the sequence numbers accepts every successor of number zero: \<^verbatim>\<open>lastSeq == 0\<close> means both
  that no file has been seen and that file zero has.
\<close>

lemma is_valid_seq_zero:
  "parse_wal_name ext a = Some (0, i) \<Longrightarrow> is_valid_seq ext (a # names) = is_valid_seq ext names"
  by (simp add: is_valid_seq_def)

lemma is_valid_seq_step:
  "parse_wal_name ext a = Some (s, i) \<Longrightarrow> parse_wal_name ext b = Some (t, j) \<Longrightarrow> s \<noteq> 0 \<Longrightarrow>
   is_valid_seq ext (a # b # names) = (if t = s + 1 then is_valid_seq ext (b # names) else Inr False)"
  by (auto simp: is_valid_seq_def)

end
