(* ===== verification/Snapshotter.thy ===== *)
theory Snapshotter
  imports Wal
begin

text \<open>
  \<^verbatim>\<open>Snapshotter\<close> of \<^verbatim>\<open>snap/snapshotter\<close>: one file per snapshot, with a header of length and checksum, named by
  term and index so that the newest file has the greatest name. Files are addressed by their path;
  msgpack and the checksum are the fields of \<open>Snap_Codec\<close>, and \<open>disk\<close> is what the file system grants a
  writer: nothing (\<^verbatim>\<open>fopen\<close> fails) or a number of bytes.
\<close>

section \<open>Saving and loading\<close>

record Snap_Codec =
  sc_crc :: "bytes \<Rightarrow> u32"
  sc_pack :: "Snapshot \<Rightarrow> bytes"
  sc_unpack :: "bytes \<Rightarrow> Snapshot option"

definition snap_name :: "u64 \<Rightarrow> u64 \<Rightarrow> string" where
  "snap_name term index = hex16 term @ ''-'' @ hex16 index @ ''.snap''"

definition snap_path :: "string \<Rightarrow> string \<Rightarrow> string" where
  "snap_path dir name = dir @ ''/'' @ name"

text \<open>\<^verbatim>\<open>snprintf\<close> into a buffer of 128 bytes keeps 127 characters.\<close>

definition save_path :: "string \<Rightarrow> Snapshot \<Rightarrow> string" where
  "save_path dir s = take 127 (snap_path dir (snap_name (sm_term (s_metadata s)) (sm_index (s_metadata s))))"

definition snap_record :: "Snap_Codec \<Rightarrow> Snapshot \<Rightarrow> bytes" where
  "snap_record c s =
     (let sbuf = sc_pack c s; data_len = of_nat (length sbuf) :: u32 in
      take (8 + unat data_len) (le32 data_len @ le32 (sc_crc c sbuf) @ sbuf))"

definition save_snap ::
  "Snap_Codec \<Rightarrow> string \<Rightarrow> (string \<Rightarrow> nat option) \<Rightarrow> Snapshot \<Rightarrow> directory \<Rightarrow> Status \<times> directory"
where
  "save_snap c dir disk s fs =
     (let path = save_path dir s; record = snap_record c s in
      case disk path of
        None \<Rightarrow> (IOError ''errno'', fs)
      | Some n \<Rightarrow>
          (if n < length record then IOError ''errno'' else OK, AList.update path (take n record) fs))"

definition get_snap_names :: "(string \<Rightarrow> string) \<Rightarrow> string \<Rightarrow> directory \<Rightarrow> string list" where
  "get_snap_names ext dir fs =
     rev (sort (filter (\<lambda>name. ext name = ''.snap'')
       (map (drop (length dir + 1))
         (filter (\<lambda>p. take (length dir + 1) p = dir @ ''/'' \<and> CHR ''/'' \<notin> set (drop (length dir + 1) p)) (map fst fs)))))"

text \<open>The checks of \<^verbatim>\<open>load_snap\<close> on the content of a file; every \<^verbatim>\<open>goto invalid_snap\<close> is \<open>None\<close>.\<close>

definition decode_snap :: "Snap_Codec \<Rightarrow> bytes \<Rightarrow> Snapshot option" where
  "decode_snap c bs =
     (if length bs < 8 then None
      else
        let data_len = un_le32 (take 4 bs); crc32 = un_le32 (take 4 (drop 4 bs)); rest = drop 8 bs in
        if data_len = 0 \<or> crc32 = 0 then None
        else if length rest < unat data_len then None
        else
          let data = take (unat data_len) rest in
          if sc_crc c data \<noteq> crc32 then None else sc_unpack c data)"

text \<open>A broken file is renamed; renaming a file that does not exist throws.\<close>

definition load_snap :: "Snap_Codec \<Rightarrow> string \<Rightarrow> string \<Rightarrow> directory \<Rightarrow> fault + (Status \<times> Snapshot option \<times> directory)" where
  "load_snap c dir filename fs =
     (let path = snap_path dir filename in
      case map_of fs path of
        None \<Rightarrow> Inl (Fatal ''filesystem rename'')
      | Some bs \<Rightarrow>
          (case decode_snap c bs of
             Some s \<Rightarrow> Inr (OK, Some s, fs)
           | None \<Rightarrow> Inr (IOError ''unexpected empty snapshot'', None,
                         AList.update (path @ ''.broken'') bs (AList.delete path fs))))"

primrec load_loop :: "Snap_Codec \<Rightarrow> string \<Rightarrow> string list \<Rightarrow> directory \<Rightarrow> fault + (Status \<times> Snapshot option \<times> directory)" where
  "load_loop c dir [] fs = Inr (NotFound ''snap not found'', None, fs)"
| "load_loop c dir (name # names) fs =
     bind_r (load_snap c dir name fs) (\<lambda>(status, s, fs).
     if is_ok status then Inr (OK, s, fs) else load_loop c dir names fs)"

definition snap_load :: "(string \<Rightarrow> string) \<Rightarrow> Snap_Codec \<Rightarrow> string \<Rightarrow> directory \<Rightarrow> fault + (Status \<times> Snapshot option \<times> directory)" where
  "snap_load ext c dir fs = load_loop c dir (get_snap_names ext dir fs) fs"

section \<open>One file\<close>

text \<open>What msgpack and the checksum give for a snapshot that can be stored.\<close>

definition storable :: "Snap_Codec \<Rightarrow> Snapshot \<Rightarrow> bool" where
  "storable c s \<longleftrightarrow> sc_unpack c (sc_pack c s) = Some s \<and> sc_pack c s \<noteq> [] \<and> length (sc_pack c s) < 2 ^ 32 \<and>
     sc_crc c (sc_pack c s) \<noteq> 0"

lemma decode_record:
  assumes "storable c s"
  shows "decode_snap c (snap_record c s) = Some s"
proof -
  let ?d = "sc_pack c s" and ?n = "of_nat (length (sc_pack c s)) :: u32"
  have n: "unat ?n = length ?d" using assms by (intro unat_of_nat_small) (simp add: storable_def)
  then have n0: "?n \<noteq> 0" using assms by (auto simp: storable_def word_eq_unat)
  have r: "snap_record c s = le32 ?n @ le32 (sc_crc c ?d) @ ?d" using n by (simp add: snap_record_def Let_def)
  have "take 4 (snap_record c s) = le32 ?n" "take 4 (drop 4 (snap_record c s)) = le32 (sc_crc c ?d)" "drop 8 (snap_record c s) = ?d"
    by (simp_all add: r)
  then show ?thesis using assms n n0 by (simp add: decode_snap_def storable_def Let_def r)
qed

lemma save_snap_ok:
  assumes "disk (save_path dir s) = Some n" and "length (snap_record c s) \<le> n"
  shows "save_snap c dir disk s fs = (OK, AList.update (save_path dir s) (snap_record c s) fs)"
  using assms by (simp add: save_snap_def Let_def)

section \<open>The order of names\<close>

text \<open>Names of fixed width are ordered as the numbers they are made of.\<close>

definition digits_value :: "nat list \<Rightarrow> nat" where
  "digits_value ds = foldl (\<lambda>a d. 16 * a + d) 0 ds"

lemma foldl_digits: "foldl (\<lambda>a d. 16 * a + d) a ds = a * 16 ^ length ds + digits_value ds"
  unfolding digits_value_def
proof (induction ds arbitrary: a)
  case (Cons d ds)
  show ?case using Cons.IH [of "16 * a + d"] Cons.IH [of d] by (simp add: algebra_simps)
qed simp

lemma digits_value_Cons: "digits_value (d # ds) = d * 16 ^ length ds + digits_value ds"
  using foldl_digits [of d ds] by (simp add: digits_value_def)

lemma digits_value_less: "\<forall>d \<in> set ds. d < 16 \<Longrightarrow> digits_value ds < 16 ^ length ds"
proof (induction ds)
  case (Cons d ds)
  then have "digits_value ds < 16 ^ length ds" and d: "d \<le> 15" by auto
  moreover have "d * 16 ^ length ds \<le> 15 * 16 ^ length ds" using d by (rule mult_le_mono1)
  ultimately have "digits_value (d # ds) < 15 * 16 ^ length ds + 16 ^ length ds" unfolding digits_value_Cons by linarith
  then show ?case by simp
qed (simp add: digits_value_def)

lemma hex_digit_less: "m < 16 \<Longrightarrow> n < 16 \<Longrightarrow> hex_digit m < hex_digit n \<longleftrightarrow> m < n"
proof -
  have "\<forall>m \<in> set [0..<16]. \<forall>n \<in> set [0..<16]. (hex_digit m < hex_digit n) = (m < n)" by code_simp
  then show "m < 16 \<Longrightarrow> n < 16 \<Longrightarrow> hex_digit m < hex_digit n \<longleftrightarrow> m < n" by auto
qed

lemma hex_digit_eq: "m < 16 \<Longrightarrow> n < 16 \<Longrightarrow> hex_digit m = hex_digit n \<longleftrightarrow> m = n"
  using hex_value_digit by (metis option.inject)

lemma lead_digit: "(v :: nat) < p \<Longrightarrow> w < p \<Longrightarrow> d * p + v < e * p + w \<longleftrightarrow> d < e \<or> d = e \<and> v < w"
proof -
  assume v: "v < p" and w: "w < p"
  have "d * p + v < e * p + w" if "d < e"
  proof -
    have "(d + 1) * p \<le> e * p" using that by (intro mult_le_mono1) simp
    with v show ?thesis by (simp add: algebra_simps)
  qed
  moreover have "\<not> d * p + v < e * p + w" if "e < d"
  proof -
    have "(e + 1) * p \<le> d * p" using that by (intro mult_le_mono1) simp
    with w show ?thesis by (simp add: algebra_simps)
  qed
  ultimately show ?thesis by (cases d e rule: linorder_cases) auto
qed

lemma hex_digits_less:
  assumes "length ds = length es" and "\<forall>d \<in> set ds. d < 16" and "\<forall>e \<in> set es. e < 16"
  shows "map hex_digit ds @ xs < map hex_digit es @ ys \<longleftrightarrow>
     digits_value ds < digits_value es \<or> ds = es \<and> xs < ys"
  using assms
proof (induction ds es rule: list_induct2)
  case (Cons d ds e es)
  have "digits_value ds < 16 ^ length es" "digits_value es < 16 ^ length es"
    using digits_value_less Cons by (metis list.set_intros(2))+
  then show ?case
    using Cons by (auto simp: digits_value_Cons lead_digit hex_digit_less hex_digit_eq)
qed simp

definition nibbles :: "u64 \<Rightarrow> nat list" where
  "nibbles w = map (\<lambda>k. unat (drop_bit (4 * k) w AND 15)) (rev [0..<16])"

lemma hex16_nibbles: "hex16 w = map hex_digit (nibbles w)"
  by (simp add: hex16_def nibbles_def)

lemma nibbles_ok: "length (nibbles w) = 16" "\<forall>d \<in> set (nibbles w). d < 16"
  by (auto simp: nibbles_def nibble)

lemma nibbles_value: "digits_value (nibbles w) = unat w"
proof -
  have "hex_number (map hex_digit ds) = digits_value ds" if "\<forall>d \<in> set ds. d < 16" for ds
  proof -
    have "foldl (\<lambda>a d. 16 * a + the (hex_value d)) a (map hex_digit ds) = foldl (\<lambda>a d. 16 * a + d) a ds" for a
      using that by (induction ds arbitrary: a) auto
    then show ?thesis by (simp add: hex_number_def digits_value_def)
  qed
  from this [OF nibbles_ok(2), of w] show ?thesis using hex_number_hex16 [of w] by (simp add: hex16_nibbles)
qed

lemma hex16_less: "hex16 a @ xs < hex16 b @ ys \<longleftrightarrow> a < b \<or> a = b \<and> xs < ys"
proof -
  have "nibbles a = nibbles b \<longleftrightarrow> a = b" by (metis nibbles_value word_unat_eq_iff)
  then show ?thesis
    using hex_digits_less [of "nibbles a" "nibbles b" xs ys] nibbles_ok
    by (simp add: hex16_nibbles nibbles_value word_less_nat_alt)
qed

lemma snap_name_less: "snap_name t i < snap_name t' i' \<longleftrightarrow> t < t' \<or> t = t' \<and> i < i'"
  by (simp add: snap_name_def hex16_less)

section \<open>The newest file\<close>

lemma get_snap_names_mem:
  "name \<in> set (get_snap_names ext dir fs) \<longleftrightarrow>
     ext name = ''.snap'' \<and> CHR ''/'' \<notin> set name \<and> map_of fs (snap_path dir name) \<noteq> None"
proof -
  have eq: "take (length dir + 1) p = dir @ ''/'' \<and> drop (length dir + 1) p = name \<longleftrightarrow> p = snap_path dir name" for p
  proof
    assume a: "take (length dir + 1) p = dir @ ''/'' \<and> drop (length dir + 1) p = name"
    show "p = snap_path dir name"
      using append_take_drop_id [of "length dir + 1" p] a by (metis append.assoc snap_path_def)
  qed (simp add: snap_path_def)
  have "name \<in> set (get_snap_names ext dir fs) \<longleftrightarrow> ext name = ''.snap'' \<and> CHR ''/'' \<notin> set name \<and>
      (\<exists>p \<in> fst ` set fs. take (length dir + 1) p = dir @ ''/'' \<and> drop (length dir + 1) p = name)"
    by (auto simp: get_snap_names_def)
  also have "(\<exists>p \<in> fst ` set fs. take (length dir + 1) p = dir @ ''/'' \<and> drop (length dir + 1) p = name) \<longleftrightarrow>
      snap_path dir name \<in> fst ` set fs" unfolding eq by simp
  finally show ?thesis by (simp add: map_of_eq_None_iff)
qed

lemma get_snap_names_distinct:
  assumes "distinct (map fst fs)"
  shows "distinct (get_snap_names ext dir fs)"
proof -
  let ?q = "\<lambda>p. take (length dir + 1) p = dir @ ''/'' \<and> CHR ''/'' \<notin> set (drop (length dir + 1) p)"
  have "inj_on (drop (length dir + 1)) (set (filter ?q (map fst fs)))"
  proof (rule inj_onI)
    fix p p' assume "p \<in> set (filter ?q (map fst fs))" "p' \<in> set (filter ?q (map fst fs))"
      and e: "drop (length dir + 1) p = drop (length dir + 1) p'"
    then have "take (length dir + 1) p = take (length dir + 1) p'" unfolding set_filter mem_Collect_eq by simp
    with e show "p = p'" by (metis append_take_drop_id)
  qed
  then have "distinct (map (drop (length dir + 1)) (filter ?q (map fst fs)))"
    using distinct_filter [OF assms, of ?q] by (simp only: distinct_map)
  then show ?thesis by (simp add: get_snap_names_def)
qed

lemma get_snap_names_sorted: "sorted_wrt (\<ge>) (get_snap_names ext dir fs)"
  by (simp add: get_snap_names_def sorted_wrt_rev)

text \<open>Broken files are set aside without touching the other names of the list.\<close>

lemma load_loop_first:
  assumes "distinct names" and "\<And>m. m \<in> set names \<Longrightarrow> map_of fs (snap_path dir m) = Some (file m)"
    and "\<And>m n. m \<in> set names \<Longrightarrow> n \<in> set names \<Longrightarrow> n \<noteq> m @ ''.broken''" and "sorted_wrt (\<ge>) names"
  shows "\<exists>fs'. (\<exists>name s. load_loop c dir names fs = Inr (OK, Some s, fs') \<and> name \<in> set names \<and> decode_snap c (file name) = Some s \<and>
       (\<forall>m \<in> set names. decode_snap c (file m) \<noteq> None \<longrightarrow> m \<le> name)) \<or>
     load_loop c dir names fs = Inr (NotFound ''snap not found'', None, fs') \<and> (\<forall>m \<in> set names. decode_snap c (file m) = None)"
  using assms
proof (induction names arbitrary: fs)
  case (Cons m names)
  have m: "map_of fs (snap_path dir m) = Some (file m)" using Cons.prems(2) by simp
  show ?case
  proof (cases "decode_snap c (file m)")
    case (Some s)
    then have "load_loop c dir (m # names) fs = Inr (OK, Some s, fs)" using m by (simp add: load_snap_def is_ok_def Let_def)
    then show ?thesis using Some Cons.prems(4) by (intro exI [of _ fs] disjI1 exI [of _ m] exI [of _ s]) auto
  next
    case None
    let ?p = "snap_path dir m"
    let ?fs = "AList.update (?p @ ''.broken'') (file m) (AList.delete ?p fs)"
    have l: "load_loop c dir (m # names) fs = load_loop c dir names ?fs" using None m by (simp add: load_snap_def is_ok_def Let_def)
    have "map_of ?fs (snap_path dir n) = Some (file n)" if "n \<in> set names" for n
    proof -
      have "n \<noteq> m" using that Cons.prems(1) by auto
      moreover have "n \<noteq> m @ ''.broken''" using that Cons.prems(3) by simp
      ultimately show ?thesis using that Cons.prems(2) [of n] by (simp add: update_conv' delete_conv' snap_path_def)
    qed
    then show ?thesis using Cons.IH [of ?fs] Cons.prems None unfolding l by auto
  qed
qed simp

lemma snap_load_newest:
  fixes dir :: string
  assumes "extension_law ext" and "distinct (map fst fs)"
  defines "names \<equiv> get_snap_names ext dir fs" and "file \<equiv> \<lambda>n. the (map_of fs (snap_path dir n))"
  shows "\<exists>fs'. (\<exists>name s. snap_load ext c dir fs = Inr (OK, Some s, fs') \<and> name \<in> set names \<and> decode_snap c (file name) = Some s \<and>
       (\<forall>m \<in> set names. decode_snap c (file m) \<noteq> None \<longrightarrow> m \<le> name)) \<or>
     snap_load ext c dir fs = Inr (NotFound ''snap not found'', None, fs') \<and> (\<forall>m \<in> set names. decode_snap c (file m) = None)"
  unfolding snap_load_def names_def [symmetric]
proof (rule load_loop_first)
  show "distinct names" unfolding names_def using assms(2) by (rule get_snap_names_distinct)
  show "sorted_wrt (\<ge>) names" unfolding names_def by (rule get_snap_names_sorted)
  fix m assume "m \<in> set names"
  then have M: "ext m = ''.snap''" "CHR ''/'' \<notin> set m" "map_of fs (snap_path dir m) \<noteq> None"
    by (simp_all add: names_def get_snap_names_mem)
  then show "map_of fs (snap_path dir m) = Some (file m)" by (auto simp: file_def)
  fix n assume "n \<in> set names"
  then have "ext n = ''.snap''" by (simp add: names_def get_snap_names_mem)
  moreover have "ext (m @ CHR ''.'' # ''broken'') = CHR ''.'' # ''broken''"
  proof -
    have "m \<noteq> []" using M(1) assms(1) by (auto simp: extension_law_def)
    then show ?thesis using M(2) assms(1) by (auto simp: extension_law_def)
  qed
  ultimately show "n \<noteq> m @ ''.broken''" by auto
qed

lemma snap_name_chars: "CHR ''/'' \<notin> set (snap_name t i)" "extension_law ext \<Longrightarrow> ext (snap_name t i) = ''.snap''"
proof -
  have h: "CHR ''/'' \<notin> set (hex16 w)" for w using hex16_is_hex [of _ w] hex_not_special by blast
  then show "CHR ''/'' \<notin> set (snap_name t i)" by (simp add: snap_name_def)
  assume law: "extension_law ext"
  let ?f = "hex16 t @ ''-'' @ hex16 i"
  have "?f \<noteq> [] \<and> CHR ''/'' \<notin> set (?f @ ''snap'') \<and> CHR ''.'' \<notin> set ''snap''" using h by auto
  then have "ext (?f @ CHR ''.'' # ''snap'') = CHR ''.'' # ''snap''" using law unfolding extension_law_def by blast
  then show "ext (snap_name t i) = ''.snap''" by (simp add: snap_name_def)
qed

text \<open>
  C17. A snapshot that has been saved is the one that is loaded, as long as no file of the directory
  with a greater name, that is a later term or a later index of the same term, is intact; broken
  files on the way are skipped.
\<close>

theorem snapshot_save_load:
  assumes "extension_law ext" and "distinct (map fst fs)" and "storable c s"
    and "disk (save_path dir s) = Some n" and "length (snap_record c s) \<le> n" and "length dir \<le> 88"
    and "\<forall>t i. snap_name t i \<in> set (get_snap_names ext dir fs) \<and>
       decode_snap c (the (map_of fs (snap_path dir (snap_name t i)))) \<noteq> None \<longrightarrow>
       t < sm_term (s_metadata s) \<or> t = sm_term (s_metadata s) \<and> i \<le> sm_index (s_metadata s)"
    and "\<forall>m \<in> set (get_snap_names ext dir fs). \<exists>t i. m = snap_name t i"
  shows "\<exists>fs' fs''. save_snap c dir disk s fs = (OK, fs') \<and> snap_load ext c dir fs' = Inr (OK, Some s, fs'')"
proof -
  let ?name = "snap_name (sm_term (s_metadata s)) (sm_index (s_metadata s))"
  let ?p = "snap_path dir ?name"
  have "length ?name = 38" by (simp add: snap_name_def)
  then have p: "save_path dir s = ?p" using assms(6) by (simp add: save_path_def snap_path_def)
  let ?fs = "AList.update ?p (snap_record c s) fs"
  have save: "save_snap c dir disk s fs = (OK, ?fs)" using save_snap_ok assms(4,5) p by metis
  have d: "distinct (map fst ?fs)" using assms(2) by (rule distinct_update)
  have mem: "?name \<in> set (get_snap_names ext dir ?fs)"
    by (simp add: get_snap_names_mem snap_name_chars assms(1) update_conv')
  have here: "decode_snap c (the (map_of ?fs ?p)) = Some s" by (simp add: update_conv' decode_record [OF assms(3)])
  obtain fs' where "(\<exists>name s'. snap_load ext c dir ?fs = Inr (OK, Some s', fs') \<and> name \<in> set (get_snap_names ext dir ?fs) \<and>
       decode_snap c (the (map_of ?fs (snap_path dir name))) = Some s' \<and>
       (\<forall>m \<in> set (get_snap_names ext dir ?fs). decode_snap c (the (map_of ?fs (snap_path dir m))) \<noteq> None \<longrightarrow> m \<le> name)) \<or>
     snap_load ext c dir ?fs = Inr (NotFound ''snap not found'', None, fs') \<and>
       (\<forall>m \<in> set (get_snap_names ext dir ?fs). decode_snap c (the (map_of ?fs (snap_path dir m))) = None)"
    using snap_load_newest [OF assms(1) d] by blast
  then obtain name s' where l: "snap_load ext c dir ?fs = Inr (OK, Some s', fs')" and nm: "name \<in> set (get_snap_names ext dir ?fs)"
    and dec: "decode_snap c (the (map_of ?fs (snap_path dir name))) = Some s'" and le: "?name \<le> name"
    using mem here by fastforce
  have "name = ?name"
  proof (rule ccontr)
    assume ne: "name \<noteq> ?name"
    then have old: "map_of ?fs (snap_path dir name) = map_of fs (snap_path dir name)"
      by (simp add: update_conv' snap_path_def)
    then have old_mem: "name \<in> set (get_snap_names ext dir fs)" using nm by (simp add: get_snap_names_mem)
    then obtain t i where ti: "name = snap_name t i" using assms(8) by blast
    have "?name < name" using ne le by simp
    moreover have "t < sm_term (s_metadata s) \<or> t = sm_term (s_metadata s) \<and> i \<le> sm_index (s_metadata s)"
      using assms(7) old_mem dec old ti by simp
    ultimately show False by (auto simp: ti snap_name_less)
  qed
  then show ?thesis using save l dec here by auto
qed

definition example_snap_codec :: Snap_Codec where
  "example_snap_codec = \<lparr>sc_crc = (\<lambda>d. of_nat (length d)), sc_pack = (\<lambda>s. [ucast (sm_index (s_metadata s))]),
     sc_unpack = (\<lambda>d. Some (Snapshot_default\<lparr>s_metadata := (s_metadata Snapshot_default)\<lparr>sm_index := ucast (d ! 0)\<rparr>\<rparr>))\<rparr>"

definition example_snapshot :: "u64 \<Rightarrow> Snapshot" where
  "example_snapshot i = Snapshot_default\<lparr>s_metadata := (s_metadata Snapshot_default)\<lparr>sm_index := i\<rparr>\<rparr>"

theorem snapshot_save_load_witness:
  "\<exists>fs' fs''. save_snap example_snap_codec ''snap'' (\<lambda>_. Some 100) (example_snapshot 7) [] = (OK, fs') \<and>
     snap_load dot_suffix example_snap_codec ''snap'' fs' = Inr (OK, Some (example_snapshot 7), fs'')"
proof (rule snapshot_save_load [OF dot_suffix_law, where n = 100])
  show "storable example_snap_codec (example_snapshot 7)"
    by (simp add: storable_def example_snap_codec_def example_snapshot_def Snapshot_default_def)
  show "length (snap_record example_snap_codec (example_snapshot 7)) \<le> 100"
    by (simp add: snap_record_def example_snap_codec_def Let_def)
qed (simp_all add: get_snap_names_def)

end
