(* ===== verification/Glob.thy ===== *)
theory Glob
  imports Kv_Prelude
begin

text \<open>
  \<^verbatim>\<open>string_match_len\<close> of \<^verbatim>\<open>server/redis_store.cpp\<close>, the pattern matcher behind \<^verbatim>\<open>KEYS\<close>, and its equivalence
  with the usual meaning of such patterns, given as a parser into items and an inductive matching
  relation. The pointer and the length of the pattern always move together, so the pair is the rest of
  the pattern; both strings end in a NUL byte, which is what \<open>c_at\<close> reads behind the last one.
\<close>

section \<open>The matcher\<close>

abbreviation (input) ch_star :: u8 where "ch_star \<equiv> 42"
abbreviation (input) ch_any :: u8 where "ch_any \<equiv> 63"
abbreviation (input) ch_open :: u8 where "ch_open \<equiv> 91"
abbreviation (input) ch_close :: u8 where "ch_close \<equiv> 93"
abbreviation (input) ch_not :: u8 where "ch_not \<equiv> 94"
abbreviation (input) ch_escape :: u8 where "ch_escape \<equiv> 92"
abbreviation (input) ch_dash :: u8 where "ch_dash \<equiv> 45"

definition c_at :: "bytes \<Rightarrow> nat \<Rightarrow> u8" where
  "c_at s i = (if i < length s then s ! i else 0)"

text \<open>\<^verbatim>\<open>tolower\<close> in the C locale on a \<^verbatim>\<open>char\<close> widened to \<^verbatim>\<open>int\<close>; \<^verbatim>\<open>char\<close> is signed.\<close>

definition tolower :: "int \<Rightarrow> int" where
  "tolower c = (if 65 \<le> c \<and> c \<le> 90 then c + 32 else c)"

definition same_char :: "bool \<Rightarrow> u8 \<Rightarrow> u8 \<Rightarrow> bool" where
  "same_char nocase a b \<longleftrightarrow> (if \<not> nocase then a = b else tolower (sint a) = tolower (sint b))"

definition in_range :: "bool \<Rightarrow> u8 \<Rightarrow> u8 \<Rightarrow> u8 \<Rightarrow> bool" where
  "in_range nocase a b ch =
     (let start = sint a; stop = sint b; c = sint ch;
          (start, stop) = (if start > stop then (stop, start) else (start, stop));
          (start, stop, c) = (if nocase then (tolower start, tolower stop, tolower c) else (start, stop, c))
      in c \<ge> start \<and> c \<le> stop)"

text \<open>
  The loop over a class, \<^verbatim>\<open>while (1)\<close>: \<open>ch\<close> is \<^verbatim>\<open>string[0]\<close>. The result is the pattern behind the class,
  the common \<^verbatim>\<open>pattern++\<close> at the end of the switch included, and \<^verbatim>\<open>match\<close>.
\<close>

function class_loop :: "bool \<Rightarrow> u8 \<Rightarrow> bytes \<Rightarrow> bool \<Rightarrow> bytes \<times> bool" where
  "class_loop nocase ch pat match =
     (if c_at pat 0 = ch_escape \<and> length pat \<ge> 2
      then class_loop nocase ch (drop 2 pat) (match \<or> c_at pat 1 = ch)
      else if c_at pat 0 = ch_close then (drop 1 pat, match)
      else if length pat = 0 then (pat, match)
      else if c_at pat 1 = ch_dash \<and> length pat \<ge> 3
      then class_loop nocase ch (drop 3 pat) (match \<or> in_range nocase (c_at pat 0) (c_at pat 2) ch)
      else class_loop nocase ch (drop 1 pat) (match \<or> same_char nocase (c_at pat 0) ch))"
  by pat_completeness auto
termination by (relation "measure (\<lambda>(nocase, ch, pat, m). length pat)") auto

declare class_loop.simps [simp del]

text \<open>\<^verbatim>\<open>while (pattern[1] == '*') pattern++\<close>.\<close>

fun skip_stars :: "bytes \<Rightarrow> bytes" where
  "skip_stars (a # b # p) = (if b = ch_star then skip_stars (b # p) else a # b # p)"
| "skip_stars p = p"

lemma length_class_loop: "length (fst (class_loop nocase ch pat m)) \<le> length pat"
proof (induction nocase ch pat m rule: class_loop.induct)
  case (1 nocase ch pat m)
  then show ?case by (subst class_loop.simps) (auto intro: le_trans)
qed

lemma length_skip_stars: "length (skip_stars p) \<le> length p"
  by (induction p rule: skip_stars.induct) auto

lemma skip_stars_ne [simp]: "p \<noteq> [] \<Longrightarrow> skip_stars p \<noteq> []"
  by (induction p rule: skip_stars.induct) auto

lemma class_rest_le:
  "length (fst (class_loop nocase ch ps m)) \<le> Suc (length ps)"
  "length (fst (class_loop nocase ch (drop (Suc 0) ps) m)) \<le> Suc (length ps)"
  using length_class_loop [of nocase ch ps m] length_class_loop [of nocase ch "drop (Suc 0) ps" m] by simp_all

lemma skip_rest_less: "length (tl (skip_stars (p # ps))) \<le> length ps"
  using length_skip_stars [of "p # ps"] by simp

text \<open>
  \<open>string_match_len\<close> is one turn of the outer loop. \<open>match_tail\<close> is the end of a turn, from the common
  \<^verbatim>\<open>pattern++\<close> on; \<open>star_loop\<close> is the loop of the case \<^verbatim>\<open>'*'\<close>.
\<close>

function (sequential) string_match_len :: "bytes \<Rightarrow> bytes \<Rightarrow> bool \<Rightarrow> bool"
  and match_tail :: "bytes \<Rightarrow> bytes \<Rightarrow> bool \<Rightarrow> bool"
  and star_loop :: "bytes \<Rightarrow> bytes \<Rightarrow> bool \<Rightarrow> bool"
where
  "string_match_len (p # ps) (c # s) nocase =
     (if p = ch_star then
        (let pat = skip_stars (p # ps) in
         if length pat = 1 then True else star_loop (tl pat) (c # s) nocase)
      else if p = ch_any then match_tail ps s nocase
      else if p = ch_open then
        (let not_match = (c_at ps 0 = ch_not);
             ps = (if not_match then drop 1 ps else ps);
             r = class_loop nocase c ps False;
             match = (if not_match then \<not> snd r else snd r)
         in if \<not> match then False else match_tail (fst r) s nocase)
      else if p = ch_escape \<and> length (p # ps) \<ge> 2 then
        (if \<not> same_char nocase (c_at ps 0) c then False else match_tail (drop 1 ps) s nocase)
      else (if \<not> same_char nocase p c then False else match_tail ps s nocase))"
| "string_match_len pat s nocase \<longleftrightarrow> length pat = 0 \<and> length s = 0"
| "match_tail pat s nocase \<longleftrightarrow>
     (if length s = 0 then length (dropWhile (\<lambda>x. x = ch_star) pat) = 0
      else string_match_len pat s nocase)"
| "star_loop pat [] nocase \<longleftrightarrow> False"
| "star_loop pat (c # s) nocase \<longleftrightarrow>
     (if string_match_len pat (c # s) nocase then True else star_loop pat s nocase)"
  by pat_completeness auto

termination
  by (relation "inv_image (less_than <*lex*> less_than)
      (case_sum (\<lambda>(p, s, n). (length p + length s, 0)) (case_sum (\<lambda>(p, s, n). (length p + length s, 1)) (\<lambda>(p, s, n). (length p + length s, 1))))")
    (use skip_rest_less in \<open>auto simp: less_Suc_eq_le class_rest_le\<close>)

declare string_match_len.simps(1) [simp del] match_tail.simps [simp del]

section \<open>What a pattern means\<close>

text \<open>A member of a class: one byte, an escaped byte (which is never folded to lower case), or a range.\<close>

datatype member = Single u8 | Quoted u8 | Span u8 u8

datatype item = Star | AnyOne | Class bool "member list" | Literal u8

fun accepts_member :: "bool \<Rightarrow> u8 \<Rightarrow> member \<Rightarrow> bool" where
  "accepts_member nocase c (Single a) = same_char nocase a c"
| "accepts_member nocase c (Quoted a) = (a = c)"
| "accepts_member nocase c (Span a b) = in_range nocase a b c"

fun accepts :: "bool \<Rightarrow> item \<Rightarrow> u8 \<Rightarrow> bool" where
  "accepts nocase Star c = False"
| "accepts nocase AnyOne c = True"
| "accepts nocase (Class neg ms) c = ((\<exists>x \<in> set ms. accepts_member nocase c x) \<noteq> neg)"
| "accepts nocase (Literal a) c = same_char nocase a c"

inductive globs :: "bool \<Rightarrow> item list \<Rightarrow> bytes \<Rightarrow> bool" for nocase where
  empty: "globs nocase [] []"
| skip: "globs nocase its s \<Longrightarrow> globs nocase (Star # its) s"
| eat: "globs nocase (Star # its) s \<Longrightarrow> globs nocase (Star # its) (c # s)"
| one: "accepts nocase i c \<Longrightarrow> globs nocase its s \<Longrightarrow> globs nocase (i # its) (c # s)"

code_pred globs .

inductive_simps globs_Nil [simp]: "globs nocase [] s"
inductive_simps globs_Star_Nil: "globs nocase (Star # its) []"
inductive_simps globs_Star_Cons: "globs nocase (Star # its) (c # s)"
inductive_simps globs_Cons: "globs nocase (i # its) s"

text \<open>A class ends at \<^verbatim>\<open>]\<close> or with the pattern.\<close>

fun parse_class :: "bytes \<Rightarrow> member list \<times> bytes" where
  "parse_class [] = ([], [])"
| "parse_class [a] = (if a = ch_close then ([], []) else ([Single a], []))"
| "parse_class (a # b # p) =
     (if a = ch_escape then (Quoted b # fst (parse_class p), snd (parse_class p))
      else if a = ch_close then ([], b # p)
      else if b = ch_dash \<and> p \<noteq> [] then (Span a (hd p) # fst (parse_class (tl p)), snd (parse_class (tl p)))
      else (Single a # fst (parse_class (b # p)), snd (parse_class (b # p))))"

lemma length_parse_class: "length (snd (parse_class p)) \<le> length p"
  by (induction p rule: parse_class.induct) (auto simp: Let_def)

lemma length_parse_class_tl: "length (snd (parse_class (tl p))) \<le> length p"
  using length_parse_class [of "tl p"] by simp

function parse_glob :: "bytes \<Rightarrow> item list" where
  "parse_glob [] = []"
| "parse_glob (p # ps) =
     (if p = ch_star then Star # parse_glob ps
      else if p = ch_any then AnyOne # parse_glob ps
      else if p = ch_open then
        (let neg = (ps \<noteq> [] \<and> hd ps = ch_not); r = parse_class (if neg then tl ps else ps)
         in Class neg (fst r) # parse_glob (snd r))
      else if p = ch_escape \<and> ps \<noteq> [] then Literal (hd ps) # parse_glob (tl ps)
      else Literal p # parse_glob ps)"
  by pat_completeness auto
termination
  by (relation "measure length")
    (auto simp: less_Suc_eq_le length_parse_class length_parse_class_tl)

declare parse_glob.simps(2) [simp del]

section \<open>Equivalence\<close>

lemma class_loop_Nil [simp]: "class_loop nocase ch [] m = ([], m)"
  by (subst class_loop.simps) (simp add: c_at_def)

lemma class_loop_parse:
  "class_loop nocase ch pat m =
     (snd (parse_class pat), m \<or> (\<exists>x \<in> set (fst (parse_class pat)). accepts_member nocase ch x))"
proof (induction pat arbitrary: m rule: parse_class.induct)
  case (2 a)
  show ?case by (subst class_loop.simps) (simp add: c_at_def)
next
  case (3 a b p)
  have "p = hd p # tl p \<and> 1 \<le> length p" if "p \<noteq> []" using that by (cases p) auto
  with 3 show ?case by (subst class_loop.simps) (auto simp: c_at_def nth_Cons' hd_conv_nth drop_Suc)
qed simp

lemma globs_Star: "globs nocase (Star # its) s \<longleftrightarrow> (\<exists>k \<le> length s. globs nocase its (drop k s))"
proof (induction s)
  case Nil
  show ?case by (simp add: globs_Star_Nil)
next
  case (Cons c s)
  have "(\<exists>k \<le> length (c # s). globs nocase its (drop k (c # s))) \<longleftrightarrow>
      globs nocase its (c # s) \<or> (\<exists>k \<le> length s. globs nocase its (drop k s))"
    by (metis Suc_le_mono drop0 drop_Suc_Cons le0 length_Cons not0_implies_Suc)
  with Cons show ?case by (auto simp: globs_Star_Cons)
qed

lemma globs_item: "i \<noteq> Star \<Longrightarrow> globs nocase (i # its) s \<longleftrightarrow> (\<exists>c s'. s = c # s' \<and> accepts nocase i c \<and> globs nocase its s')"
  by (subst globs_Cons) auto

lemma globs_Star_Star: "globs nocase (Star # Star # its) s \<longleftrightarrow> globs nocase (Star # its) s"
proof
  assume "globs nocase (Star # Star # its) s"
  then obtain k j where "k \<le> length s" "j \<le> length s - k" "globs nocase its (drop (j + k) s)"
    by (auto simp: globs_Star)
  then show "globs nocase (Star # its) s" unfolding globs_Star by (intro exI [of _ "j + k"]) auto
qed (rule globs.skip)

lemma parse_star: "parse_glob (ch_star # ps) = Star # parse_glob ps"
  by (simp add: parse_glob.simps)

lemma globs_skip_stars: "globs nocase (parse_glob (skip_stars (ch_star # ps))) s \<longleftrightarrow> globs nocase (parse_glob (ch_star # ps)) s"
proof (induction ps)
  case (Cons p ps)
  then show ?case by (simp add: parse_star globs_Star_Star)
qed simp

lemma skip_stars_star: "\<exists>ps'. skip_stars (ch_star # ps) = ch_star # ps' \<and> (ps' \<noteq> [] \<longrightarrow> hd ps' \<noteq> ch_star)"
  by (induction ps) auto

lemma parse_glob_head: "ps \<noteq> [] \<Longrightarrow> hd ps \<noteq> ch_star \<Longrightarrow> \<exists>i its. parse_glob ps = i # its \<and> i \<noteq> Star"
  by (cases ps) (auto simp: parse_glob.simps Let_def)

lemma globs_parse_Nil: "globs nocase (parse_glob p) [] \<longleftrightarrow> dropWhile (\<lambda>x. x = ch_star) p = []"
proof (induction p)
  case (Cons x p)
  show ?case
  proof (cases "x = ch_star")
    case True
    then show ?thesis using Cons by (simp add: parse_star globs_Star)
  next
    case False
    then show ?thesis using parse_glob_head [of "x # p"] by (auto simp: globs_item)
  qed
qed simp

lemma globs_stars:
  assumes "skip_stars (ch_star # ps) = ch_star # ps'" and "ps' \<noteq> [] \<longrightarrow> hd ps' \<noteq> ch_star"
  shows "globs nocase (parse_glob (ch_star # ps)) s \<longleftrightarrow> ps' = [] \<or> (\<exists>k < length s. globs nocase (parse_glob ps') (drop k s))"
proof -
  have g: "globs nocase (parse_glob (ch_star # ps)) s \<longleftrightarrow> (\<exists>k \<le> length s. globs nocase (parse_glob ps') (drop k s))"
    using globs_skip_stars [of nocase ps s] assms(1) by (simp add: parse_star globs_Star)
  show ?thesis
  proof (cases "ps' = []")
    case True
    then show ?thesis using g by (auto intro: exI [of _ "length s"])
  next
    case False
    then have "\<not> globs nocase (parse_glob ps') []" using assms(2) parse_glob_head [of ps'] by (auto simp: globs_item)
    with g False show ?thesis by (metis drop_all le_less nle_le order_refl)
  qed
qed

text \<open>The class behind an opening bracket.\<close>

definition class_body :: "bytes \<Rightarrow> bytes" where
  "class_body ps = (if c_at ps 0 = ch_not then drop 1 ps else ps)"

definition class_item :: "bytes \<Rightarrow> item" where
  "class_item ps = Class (c_at ps 0 = ch_not) (fst (parse_class (class_body ps)))"

lemma parse_open: "parse_glob (ch_open # ps) = class_item ps # parse_glob (snd (parse_class (class_body ps)))"
proof -
  have neg: "c_at ps 0 = ch_not \<longleftrightarrow> ps \<noteq> [] \<and> hd ps = ch_not" by (cases ps) (simp_all add: c_at_def)
  have "(if ps \<noteq> [] \<and> hd ps = ch_not then tl ps else ps) = class_body ps" by (simp add: class_body_def neg drop_Suc)
  then show ?thesis by (simp add: parse_glob.simps Let_def class_item_def neg)
qed

lemma match_open:
  "string_match_len (ch_open # ps) (c # s) nocase \<longleftrightarrow>
     accepts nocase (class_item ps) c \<and> match_tail (snd (parse_class (class_body ps))) s nocase"
  by (simp add: string_match_len.simps(1) Let_def class_loop_parse class_item_def class_body_def)

lemma match_globs:
  "s \<noteq> [] \<Longrightarrow> string_match_len pat s nocase \<longleftrightarrow> globs nocase (parse_glob pat) s"
  "match_tail pat s nocase \<longleftrightarrow> globs nocase (parse_glob pat) s"
  "star_loop pat s nocase \<longleftrightarrow> (\<exists>k < length s. globs nocase (parse_glob pat) (drop k s))"
proof (induction pat s nocase and pat s nocase and pat s nocase rule: string_match_len_match_tail_star_loop.induct)
  case (1 p ps c s nocase)
  consider (star) "p = ch_star" | (any) "p \<noteq> ch_star" "p = ch_any" | (cls) "p \<noteq> ch_star" "p = ch_open"
    | (esc) "p \<noteq> ch_star" "p = ch_escape \<and> length (p # ps) \<ge> 2"
    | (lit) "p \<noteq> ch_star" "p \<noteq> ch_any" "p \<noteq> ch_open" "\<not> (p = ch_escape \<and> length (p # ps) \<ge> 2)" by blast
  then show ?case
  proof cases
    case star
    obtain ps' where ps': "skip_stars (ch_star # ps) = ch_star # ps'" "ps' \<noteq> [] \<longrightarrow> hd ps' \<noteq> ch_star"
      using skip_stars_star by blast
    then have "star_loop ps' (c # s) nocase \<longleftrightarrow> (\<exists>k < length (c # s). globs nocase (parse_glob ps') (drop k (c # s)))" if "ps' \<noteq> []"
      using 1(1) [OF star refl] star that by simp
    then show ?thesis
      using globs_stars [OF ps', of nocase "c # s"] ps'(1) star by (auto simp: string_match_len.simps(1) Let_def simp del: star_loop.simps)
  next
    case any
    then show ?thesis using 1(2) [OF any] by (simp add: string_match_len.simps(1) parse_glob.simps globs_item)
  next
    case cls
    have "match_tail (snd (parse_class (class_body ps))) s nocase \<longleftrightarrow> globs nocase (parse_glob (snd (parse_class (class_body ps)))) s"
      if "accepts nocase (class_item ps) c"
      using 1(3) [OF cls(1) _ cls(2) refl refl refl refl] that cls by (auto simp: class_loop_parse class_item_def class_body_def split: if_splits)
    moreover have "class_item ps \<noteq> Star" by (simp add: class_item_def)
    ultimately show ?thesis using cls by (auto simp: match_open parse_open globs_item)
  next
    case esc
    then obtain q qs where "ps = q # qs" by (cases ps) auto
    then show ?thesis using 1(4) esc by (auto simp: string_match_len.simps(1) parse_glob.simps globs_item c_at_def)
  next
    case lit
    then show ?thesis using 1(5) by (auto simp: string_match_len.simps(1) parse_glob.simps globs_item Suc_le_eq)
  qed
next
  case (3 pat s nocase)
  then show ?case by (cases s) (simp_all add: match_tail.simps globs_parse_Nil)
next
  case (5 pat c s nocase)
  have "(\<exists>k < length (c # s). globs nocase (parse_glob pat) (drop k (c # s))) \<longleftrightarrow>
      globs nocase (parse_glob pat) (c # s) \<or> (\<exists>k < length s. globs nocase (parse_glob pat) (drop k s))"
    by (metis Suc_less_eq drop0 drop_Suc_Cons length_Cons not0_implies_Suc zero_less_Suc)
  with 5 show ?case by auto
qed auto

text \<open>
  C23. The matcher decides exactly the usual meaning of a pattern, on every pattern and every string, except
  that the empty string is matched by the empty pattern only: \<^verbatim>\<open>*\<close> does not match it.
\<close>

theorem string_match_len_globs:
  "string_match_len pat s nocase \<longleftrightarrow> (if s = [] then pat = [] else globs nocase (parse_glob pat) s)"
  using match_globs(1) [of s pat nocase] by (cases pat) auto

end
