(* ===== verification/Redis_Store.thy ===== *)
theory Redis_Store
  imports Proto Glob
begin

text \<open>
  \<^verbatim>\<open>RedisStore\<close> of \<^verbatim>\<open>server/redis_store\<close>: the key-value map, the requests that wait for their commit, and
  the application of committed entries. Every method runs in the one thread of the store's
  \<^verbatim>\<open>io_service\<close>; what a method posts there is a function of its own here. A callback is an opaque value, and
  a call of it is an output \<open>(callback, status)\<close>. msgpack is an argument (\<open>Store_Codec\<close>); \<^verbatim>\<open>unpack\<close> and
  \<^verbatim>\<open>convert\<close> throw separately, since one of them is outside the \<^verbatim>\<open>try\<close> blocks.
\<close>

section \<open>Data\<close>

datatype 'a unpacked = Malformed | Mistyped | Unpacked 'a

record RedisCommitData =
  rcd_type :: u8
  rcd_strs :: "bytes list"

record RaftCommit =
  cm_node_id :: u32
  cm_commit_id :: u32
  cm_redis_data :: RedisCommitData

record Store_Codec =
  sc_pack_commit :: "RaftCommit \<Rightarrow> bytes"
  sc_unpack_commit :: "bytes \<Rightarrow> RaftCommit unpacked"
  sc_pack_kv :: "(bytes, bytes) umap \<Rightarrow> bytes"
  sc_unpack_kv :: "bytes \<Rightarrow> (bytes, bytes) umap unpacked"

definition kCommitSet :: u8 where "kCommitSet = 0"
definition kCommitDel :: u8 where "kCommitDel = 1"

text \<open>\<open>rs_node_id\<close> is \<^verbatim>\<open>server_->node_id()\<close>.\<close>

record 'cb RedisStore =
  rs_node_id :: u64
  rs_key_values :: "(bytes, bytes) umap"
  rs_next_request_id :: u32
  rs_pending_requests :: "(u32, 'cb) umap"

section \<open>Operations\<close>

definition RedisStore_new :: "Store_Codec \<Rightarrow> u64 \<Rightarrow> bytes \<Rightarrow> fault + 'cb RedisStore" where
  "RedisStore_new c node_id snap =
     bind_r (if snap \<noteq> []
             then (case sc_unpack_kv c snap of
                     Malformed \<Rightarrow> Inl (Fatal ''msgpack exception'')
                   | Mistyped \<Rightarrow> Inr []
                   | Unpacked kv \<Rightarrow> Inr kv)
             else Inr []) (\<lambda>kv.
     Inr \<lparr>rs_node_id = node_id, rs_key_values = kv, rs_next_request_id = 0, rs_pending_requests = []\<rparr>)"

definition store_get :: "bytes \<Rightarrow> 'cb RedisStore \<Rightarrow> bytes option" where
  "store_get key s = map_of (rs_key_values s) key"

text \<open>The commit that a request proposes.\<close>

definition commit_of :: "RedisCommitData \<Rightarrow> 'cb RedisStore \<Rightarrow> RaftCommit" where
  "commit_of data s =
     \<lparr>cm_node_id = ucast (rs_node_id s), cm_commit_id = rs_next_request_id s, cm_redis_data = data\<rparr>"

text \<open>The request of \<^verbatim>\<open>set\<close> and \<^verbatim>\<open>del\<close>: the data to propose and the store that waits for it.\<close>

definition request :: "Store_Codec \<Rightarrow> RedisCommitData \<Rightarrow> 'cb \<Rightarrow> 'cb RedisStore \<Rightarrow> bytes \<times> 'cb RedisStore" where
  "request c data callback s =
     (let commit_id = rs_next_request_id s
      in (sc_pack_commit c (commit_of data s),
          s\<lparr>rs_next_request_id := commit_id + 1,
            rs_pending_requests := AList.update commit_id callback (rs_pending_requests s)\<rparr>))"

definition store_set :: "Store_Codec \<Rightarrow> bytes \<Rightarrow> bytes \<Rightarrow> 'cb \<Rightarrow> 'cb RedisStore \<Rightarrow> bytes \<times> 'cb RedisStore" where
  "store_set c key value callback s = request c \<lparr>rcd_type = kCommitSet, rcd_strs = [key, value]\<rparr> callback s"

definition store_del :: "Store_Codec \<Rightarrow> bytes list \<Rightarrow> 'cb \<Rightarrow> 'cb RedisStore \<Rightarrow> bytes \<times> 'cb RedisStore" where
  "store_del c keys callback s = request c \<lparr>rcd_type = kCommitDel, rcd_strs = keys\<rparr> callback s"

definition reply_pending :: "u32 \<Rightarrow> Status \<Rightarrow> 'cb RedisStore \<Rightarrow> 'cb RedisStore \<times> ('cb \<times> Status) list" where
  "reply_pending commit_id status s =
     (case map_of (rs_pending_requests s) commit_id of
        Some cb \<Rightarrow> (s\<lparr>rs_pending_requests := AList.delete commit_id (rs_pending_requests s)\<rparr>, [(cb, status)])
      | None \<Rightarrow> (s, []))"

text \<open>What the callbacks of the proposal post back, once the consensus core has taken it or refused it.\<close>

definition set_proposed :: "u32 \<Rightarrow> Status \<Rightarrow> 'cb RedisStore \<Rightarrow> 'cb RedisStore \<times> ('cb \<times> Status) list" where
  "set_proposed commit_id status s = (if is_ok status then (s, []) else reply_pending commit_id status s)"

definition del_proposed :: "u32 \<Rightarrow> Status \<Rightarrow> 'cb RedisStore \<Rightarrow> 'cb RedisStore \<times> ('cb \<times> Status) list" where
  "del_proposed commit_id status s = reply_pending commit_id status s"

definition get_snapshot :: "Store_Codec \<Rightarrow> 'cb RedisStore \<Rightarrow> bytes" where
  "get_snapshot c s = sc_pack_kv c (rs_key_values s)"

definition recover_from_snapshot :: "Store_Codec \<Rightarrow> bytes \<Rightarrow> 'cb RedisStore \<Rightarrow> fault + (Status \<times> 'cb RedisStore)" where
  "recover_from_snapshot c snap s =
     (case sc_unpack_kv c snap of
        Malformed \<Rightarrow> Inl (Fatal ''msgpack exception'')
      | Mistyped \<Rightarrow> Inr (IOError ''invalid snapshot'', s)
      | Unpacked kv \<Rightarrow> Inr (OK, s\<lparr>rs_key_values := kv\<rparr>))"

definition store_keys :: "bytes \<Rightarrow> 'cb RedisStore \<Rightarrow> bytes list" where
  "store_keys pattern s = filter (\<lambda>k. string_match_len pattern k False) (map fst (rs_key_values s))"

definition apply_data :: "RedisCommitData \<Rightarrow> (bytes, bytes) umap \<Rightarrow> fault + (bytes, bytes) umap" where
  "apply_data data kv =
     (if rcd_type data = kCommitSet then
        bind_r (guard_r (length (rcd_strs data) = 2) (Assert ''data.strs.size() == 2'')) (\<lambda>_.
        Inr (AList.update (rcd_strs data ! 0) (rcd_strs data ! 1) kv))
      else if rcd_type data = kCommitDel then Inr (fold AList.delete (rcd_strs data) kv)
      else Inr kv)"

definition read_commit :: "Store_Codec \<Rightarrow> Entry \<Rightarrow> 'cb RedisStore \<Rightarrow> fault + ('cb RedisStore \<times> ('cb \<times> Status) list)" where
  "read_commit c entry s =
     (case sc_unpack_commit c (e_data entry) of
        Unpacked commit \<Rightarrow>
          bind_r (apply_data (cm_redis_data commit) (rs_key_values s)) (\<lambda>kv.
          let s = s\<lparr>rs_key_values := kv\<rparr> in
          if ucast (cm_node_id commit) = rs_node_id s then Inr (reply_pending (cm_commit_id commit) OK s)
          else Inr (s, []))
      | _ \<Rightarrow> Inr (s, []))"

section \<open>The replicated map\<close>

text \<open>Running a state machine over a sequence of entries, with the replies in order.\<close>

primrec run_r :: "('e \<Rightarrow> 's \<Rightarrow> fault + ('s \<times> 'o list)) \<Rightarrow> 'e list \<Rightarrow> 's \<Rightarrow> fault + ('s \<times> 'o list)" where
  "run_r f [] s = Inr (s, [])"
| "run_r f (e # es) s =
     bind_r (f e s) (\<lambda>(s, out). bind_r (run_r f es s) (\<lambda>(s, outs). Inr (s, out @ outs)))"

text \<open>
  The contract of a replicated state machine: every valid entry can be applied, and its effect on the
  abstract state depends on the entry alone.
\<close>

locale replicated_machine =
  fixes inv :: "'s \<Rightarrow> bool" and abs :: "'s \<Rightarrow> 'a" and valid :: "'e \<Rightarrow> bool"
    and exec :: "'e \<Rightarrow> 's \<Rightarrow> fault + ('s \<times> 'o list)" and effect :: "'e \<Rightarrow> 'a \<Rightarrow> 'a"
  assumes exec_effect: "inv s \<Longrightarrow> valid e \<Longrightarrow> \<exists>s' out. exec e s = Inr (s', out) \<and> inv s' \<and> abs s' = effect e (abs s)"
begin

lemma run_effect:
  "inv s \<Longrightarrow> \<forall>e \<in> set es. valid e \<Longrightarrow> \<exists>s' out. run_r exec es s = Inr (s', out) \<and> inv s' \<and> abs s' = fold effect es (abs s)"
proof (induction es arbitrary: s)
  case (Cons e es)
  obtain s1 o1 where 1: "exec e s = Inr (s1, o1)" "inv s1" "abs s1 = effect e (abs s)"
    using exec_effect [of s e] Cons.prems by auto
  obtain s2 o2 where "run_r exec es s1 = Inr (s2, o2)" "inv s2" "abs s2 = fold effect es (abs s1)"
    using Cons.IH [OF 1(2)] Cons.prems by auto
  with 1 show ?case by simp
qed simp

lemma run_agree:
  assumes "inv a" and "inv b" and "abs a = abs b" and "\<forall>e \<in> set es. valid e"
  shows "\<exists>a' b' oa ob. run_r exec es a = Inr (a', oa) \<and> run_r exec es b = Inr (b', ob) \<and> abs a' = abs b'"
  using run_effect [OF assms(1,4)] run_effect [OF assms(2,4)] assms(3) by auto

end

datatype command = SetKey bytes bytes | DelKeys "bytes list" | NoCommand

definition command_of :: "RedisCommitData \<Rightarrow> command" where
  "command_of data =
     (if rcd_type data = kCommitSet then SetKey (rcd_strs data ! 0) (rcd_strs data ! 1)
      else if rcd_type data = kCommitDel then DelKeys (rcd_strs data)
      else NoCommand)"

fun run_command :: "command \<Rightarrow> (bytes \<rightharpoonup> bytes) \<Rightarrow> (bytes \<rightharpoonup> bytes)" where
  "run_command (SetKey k v) m = m(k \<mapsto> v)"
| "run_command (DelKeys ks) m = m |` (- set ks)"
| "run_command NoCommand m = m"

definition entry_effect :: "Store_Codec \<Rightarrow> Entry \<Rightarrow> (bytes \<rightharpoonup> bytes) \<Rightarrow> (bytes \<rightharpoonup> bytes)" where
  "entry_effect c e m =
     (case sc_unpack_commit c (e_data e) of Unpacked commit \<Rightarrow> run_command (command_of (cm_redis_data commit)) m | _ \<Rightarrow> m)"

definition well_formed :: "Store_Codec \<Rightarrow> Entry \<Rightarrow> bool" where
  "well_formed c e \<longleftrightarrow>
     (case sc_unpack_commit c (e_data e) of
        Unpacked commit \<Rightarrow> rcd_type (cm_redis_data commit) = kCommitSet \<longrightarrow> length (rcd_strs (cm_redis_data commit)) = 2
      | _ \<Rightarrow> True)"

lemma fold_delete_map: "umap_ok kv \<Longrightarrow> umap_ok (fold AList.delete ks kv) \<and> map_of (fold AList.delete ks kv) = map_of kv |` (- set ks)"
proof (induction ks arbitrary: kv)
  case (Cons k ks)
  then show ?case
    using umap.invar_delete [of kv k] by (auto simp: umap.lookup_delete fun_eq_iff restrict_map_def)
qed (simp add: restrict_map_def)

lemma apply_data_command:
  assumes "umap_ok kv" and "rcd_type data = kCommitSet \<longrightarrow> length (rcd_strs data) = 2"
  shows "\<exists>kv'. apply_data data kv = Inr kv' \<and> umap_ok kv' \<and> map_of kv' = run_command (command_of data) (map_of kv)"
  using assms fold_delete_map [OF assms(1)] umap.invar_update [OF assms(1)]
  by (auto simp: apply_data_def command_of_def umap.lookup_update)

lemma reply_pending_kv [simp]:
  "rs_key_values (fst (reply_pending i st s)) = rs_key_values s" "rs_node_id (fst (reply_pending i st s)) = rs_node_id s"
  by (simp_all add: reply_pending_def split: option.splits)

lemma read_commit_eq:
  assumes "sc_unpack_commit c (e_data e) = Unpacked commit" and "apply_data (cm_redis_data commit) (rs_key_values s) = Inr kv"
  shows "read_commit c e s =
     Inr (if ucast (cm_node_id commit) = rs_node_id s then reply_pending (cm_commit_id commit) OK (s\<lparr>rs_key_values := kv\<rparr>)
          else (s\<lparr>rs_key_values := kv\<rparr>, []))"
  using assms by (simp add: read_commit_def Let_def)

interpretation store: replicated_machine "\<lambda>s. umap_ok (rs_key_values s)" "\<lambda>s. map_of (rs_key_values s)"
  "well_formed c" "read_commit c" "entry_effect c" for c
proof
  fix s :: "'cb RedisStore" and e
  assume s: "umap_ok (rs_key_values s)" and e: "well_formed c e"
  show "\<exists>s' out. read_commit c e s = Inr (s', out) \<and> umap_ok (rs_key_values s') \<and>
      map_of (rs_key_values s') = entry_effect c e (map_of (rs_key_values s))"
  proof (cases "sc_unpack_commit c (e_data e)")
    case (Unpacked commit)
    then obtain kv where kv: "apply_data (cm_redis_data commit) (rs_key_values s) = Inr kv" "umap_ok kv"
      "map_of kv = run_command (command_of (cm_redis_data commit)) (map_of (rs_key_values s))"
      using apply_data_command [OF s] e by (fastforce simp: well_formed_def)
    let ?r = "if ucast (cm_node_id commit) = rs_node_id s then reply_pending (cm_commit_id commit) OK (s\<lparr>rs_key_values := kv\<rparr>)
          else (s\<lparr>rs_key_values := kv\<rparr>, [])"
    have "read_commit c e s = Inr (fst ?r, snd ?r)" using read_commit_eq [OF Unpacked kv(1)] by simp
    moreover have "rs_key_values (fst ?r) = kv" by simp
    ultimately show ?thesis using kv Unpacked by (fastforce simp: entry_effect_def)
  qed (use s in \<open>simp_all add: read_commit_def entry_effect_def\<close>)
qed

text \<open>
  C18. The store is a replicated map: two replicas with the same contents that apply the same sequence
  of well-formed committed entries do not fail, whatever requests wait in them and whatever their
  node ids are, and hold the same map afterwards, the result of running the commands of the entries in order.
\<close>

theorem replicas_agree:
  fixes a b :: "'cb RedisStore"
  assumes "umap_ok (rs_key_values a)" and "umap_ok (rs_key_values b)"
    and "map_of (rs_key_values a) = map_of (rs_key_values b)" and "\<forall>e \<in> set es. well_formed c e"
  shows "\<exists>a' b' oa ob. run_r (read_commit c) es a = Inr (a', oa) \<and> run_r (read_commit c) es b = Inr (b', ob) \<and>
     map_of (rs_key_values a') = fold (entry_effect c) es (map_of (rs_key_values a)) \<and>
     map_of (rs_key_values b') = map_of (rs_key_values a')"
proof -
  obtain a' oa where "run_r (read_commit c) es a = Inr (a', oa)"
    "map_of (rs_key_values a') = fold (entry_effect c) es (map_of (rs_key_values a))"
    using store.run_effect [OF assms(1,4)] by blast
  then show ?thesis using store.run_agree [OF assms] by auto
qed

text \<open>A codec for examples: a commit is its numbers and its strings, each behind its length.\<close>

fun un_strs :: "bytes \<Rightarrow> bytes list" where
  "un_strs [] = []"
| "un_strs (n # bs) = take (unat n) bs # un_strs (drop (unat n) bs)"

definition example_store_codec :: Store_Codec where
  "example_store_codec = \<lparr>
     sc_pack_commit = (\<lambda>cm. ucast (cm_node_id cm) # ucast (cm_commit_id cm) # rcd_type (cm_redis_data cm) #
       concat (map (\<lambda>s. of_nat (length s) # s) (rcd_strs (cm_redis_data cm)))),
     sc_unpack_commit = (\<lambda>bs. if length bs < 3 then Malformed else
       Unpacked \<lparr>cm_node_id = ucast (bs ! 0), cm_commit_id = ucast (bs ! 1),
         cm_redis_data = \<lparr>rcd_type = bs ! 2, rcd_strs = un_strs (drop 3 bs)\<rparr>\<rparr>),
     sc_pack_kv = (\<lambda>kv. concat (map (\<lambda>(k, v). of_nat (length k) # k @ of_nat (length v) # v) kv)),
     sc_unpack_kv = (\<lambda>bs. if bs = [] then Malformed else
       let strs = un_strs bs in Unpacked (map (\<lambda>i. (strs ! (2 * i), strs ! (2 * i + 1))) [0..<length strs div 2]))\<rparr>"

definition example_store :: "u64 \<Rightarrow> nat RedisStore" where
  "example_store n = \<lparr>rs_node_id = n, rs_key_values = [([65], [1]), ([66], [2])], rs_next_request_id = 7, rs_pending_requests = []\<rparr>"

definition example_set :: Entry where
  "example_set = Entry_default\<lparr>e_data := fst (store_set example_store_codec [66] [3] (0 :: nat) (example_store 1))\<rparr>"

theorem replicas_agree_witness:
  "\<exists>a' b' oa ob. run_r (read_commit example_store_codec) [example_set] (example_store 1) = Inr (a', oa) \<and>
     run_r (read_commit example_store_codec) [example_set] (example_store 2) = Inr (b', ob) \<and>
     map_of (rs_key_values b') = map_of (rs_key_values a')"
proof -
  have "umap_ok (rs_key_values (example_store 1))" "umap_ok (rs_key_values (example_store 2))" by code_simp+
  moreover have "map_of (rs_key_values (example_store 1)) = map_of (rs_key_values (example_store 2))"
    by (simp add: example_store_def)
  moreover have "\<forall>e \<in> set [example_set]. well_formed example_store_codec e" by code_simp
  ultimately show ?thesis using replicas_agree by blast
qed

section \<open>When a request is answered\<close>

text \<open>The round trip of msgpack on a commit.\<close>

definition roundtrips :: "Store_Codec \<Rightarrow> RaftCommit \<Rightarrow> bool" where
  "roundtrips c commit \<longleftrightarrow> sc_unpack_commit c (sc_pack_commit c commit) = Unpacked commit"

text \<open>An entry that does not carry the number of this node and the number \<open>i\<close> of a request.\<close>

definition foreign :: "Store_Codec \<Rightarrow> u64 \<Rightarrow> u32 \<Rightarrow> Entry \<Rightarrow> bool" where
  "foreign c node i e \<longleftrightarrow>
     (case sc_unpack_commit c (e_data e) of Unpacked commit \<Rightarrow> ucast (cm_node_id commit) \<noteq> node \<or> cm_commit_id commit \<noteq> i | _ \<Rightarrow> True)"

text \<open>Applying an entry only answers the request whose numbers it carries.\<close>

lemma read_commit_cases:
  assumes "read_commit c e s = Inr (s', out)"
  obtains (quiet) kv where "s' = s\<lparr>rs_key_values := kv\<rparr>" and "out = []"
  | (mine) j kv where "reply_pending j OK (s\<lparr>rs_key_values := kv\<rparr>) = (s', out)" and "\<And>i. foreign c (rs_node_id s) i e \<longleftrightarrow> i \<noteq> j"
proof (cases "sc_unpack_commit c (e_data e)")
  case (Unpacked commit)
  obtain kv where kv: "apply_data (cm_redis_data commit) (rs_key_values s) = Inr kv"
    using assms Unpacked by (cases "apply_data (cm_redis_data commit) (rs_key_values s)") (simp_all add: read_commit_def)
  note R = read_commit_eq [OF Unpacked kv]
  show thesis
  proof (cases "ucast (cm_node_id commit) = rs_node_id s")
    case True
    show thesis by (rule mine [of "cm_commit_id commit" kv]) (use assms R True in \<open>auto simp: foreign_def Unpacked\<close>)
  next
    case False
    show thesis by (rule quiet [of kv]) (use assms R False in auto)
  qed
qed (use assms quiet [of "rs_key_values s"] in \<open>simp_all add: read_commit_def\<close>)

text \<open>No request begins to wait.\<close>

lemma read_commit_waits:
  assumes "read_commit c e s = Inr (s', out)"
  shows "map_of (rs_pending_requests s') j = Some y \<Longrightarrow> map_of (rs_pending_requests s) j = Some y" and "rs_node_id s' = rs_node_id s"
    and "x \<in> set out \<Longrightarrow> \<exists>j. \<not> foreign c (rs_node_id s) j e \<and> map_of (rs_pending_requests s) j = Some (fst x)"
    and "foreign c (rs_node_id s) i e \<Longrightarrow> map_of (rs_pending_requests s') i = map_of (rs_pending_requests s) i"
proof -
  have *: "(\<forall>j y. map_of (rs_pending_requests s') j = Some y \<longrightarrow> map_of (rs_pending_requests s) j = Some y) \<and> rs_node_id s' = rs_node_id s \<and>
      (\<forall>x \<in> set out. \<exists>j. \<not> foreign c (rs_node_id s) j e \<and> map_of (rs_pending_requests s) j = Some (fst x)) \<and>
      (\<forall>i. foreign c (rs_node_id s) i e \<longrightarrow> map_of (rs_pending_requests s') i = map_of (rs_pending_requests s) i)"
    using assms
  proof (cases rule: read_commit_cases)
    case (mine j kv)
    show ?thesis
    proof (cases "map_of (rs_pending_requests s) j")
      case None
      then have "s' = s\<lparr>rs_key_values := kv\<rparr>" "out = []" using mine(1) by (simp_all add: reply_pending_def)
      then show ?thesis by simp
    next
      case (Some cb)
      then have "s' = s\<lparr>rs_key_values := kv, rs_pending_requests := AList.delete j (rs_pending_requests s)\<rparr>" "out = [(cb, OK)]"
        using mine(1) by (simp_all add: reply_pending_def)
      then show ?thesis using Some mine(2) by (simp add: delete_conv')
    qed
  qed simp
  show "map_of (rs_pending_requests s') j = Some y \<Longrightarrow> map_of (rs_pending_requests s) j = Some y" "rs_node_id s' = rs_node_id s"
    "x \<in> set out \<Longrightarrow> \<exists>j. \<not> foreign c (rs_node_id s) j e \<and> map_of (rs_pending_requests s) j = Some (fst x)"
    "foreign c (rs_node_id s) i e \<Longrightarrow> map_of (rs_pending_requests s') i = map_of (rs_pending_requests s) i" using * by blast+
qed

lemma run_waits:
  assumes "run_r (read_commit c) es s = Inr (s', out)" and "\<forall>e \<in> set es. foreign c (rs_node_id s) i e"
    and "\<And>j. j \<noteq> i \<Longrightarrow> map_of (rs_pending_requests s) j \<noteq> Some cb"
  shows "rs_node_id s' = rs_node_id s \<and> map_of (rs_pending_requests s') i = map_of (rs_pending_requests s) i \<and>
     (\<forall>j. j \<noteq> i \<longrightarrow> map_of (rs_pending_requests s') j \<noteq> Some cb) \<and> cb \<notin> fst ` set out"
  using assms
proof (induction es arbitrary: s out)
  case (Cons e es)
  obtain s1 o1 o2 where 1: "read_commit c e s = Inr (s1, o1)" "run_r (read_commit c) es s1 = Inr (s', o2)" "out = o1 @ o2"
    using Cons.prems(1) by (auto simp: bind_r_eq_Inr)
  note W = read_commit_waits [OF 1(1)]
  have fo: "foreign c (rs_node_id s) i e" using Cons.prems(2) by simp
  have "cb \<notin> fst ` set o1" using W(3) fo Cons.prems(3) by fastforce
  moreover have "map_of (rs_pending_requests s1) j \<noteq> Some cb" if "j \<noteq> i" for j using W(1) Cons.prems(3) [OF that] by blast
  ultimately show ?case using Cons.IH [OF 1(2)] Cons.prems(2) W(2) W(4) [OF fo] 1(3) by (simp add: image_Un)
qed simp

lemma run_silent:
  assumes "run_r (read_commit c) es s = Inr (s', out)" and "\<And>j. map_of (rs_pending_requests s) j \<noteq> Some cb"
  shows "cb \<notin> fst ` set out"
  using assms
proof (induction es arbitrary: s out)
  case (Cons e es)
  obtain s1 o1 o2 where 1: "read_commit c e s = Inr (s1, o1)" "run_r (read_commit c) es s1 = Inr (s', o2)" "out = o1 @ o2"
    using Cons.prems(1) by (auto simp: bind_r_eq_Inr)
  note W = read_commit_waits [OF 1(1)]
  have "cb \<notin> fst ` set o2" by (rule Cons.IH [OF 1(2)]) (use W(1) Cons.prems(2) in blast)
  moreover have "cb \<notin> fst ` set o1" using W(3) Cons.prems(2) by fastforce
  ultimately show ?case using 1(3) by auto
qed simp

lemma reply_pending_Some:
  "map_of (rs_pending_requests s) i = Some cb \<Longrightarrow> \<exists>s'. reply_pending i st s = (s', [(cb, st)]) \<and>
     rs_key_values s' = rs_key_values s \<and> map_of (rs_pending_requests s') i = None"
  by (simp add: reply_pending_def delete_conv')


text \<open>
  C35. A \<^verbatim>\<open>DEL\<close> is answered with OK as soon as the core has accepted the proposal: the keys are still there,
  and when the entry is applied later nobody is answered.
\<close>

theorem del_answered_before_apply:
  assumes codec: "roundtrips c (commit_of \<lparr>rcd_type = kCommitDel, rcd_strs = ks\<rparr> s)"
    and i: "i = rs_next_request_id s" and del: "store_del c ks cb s = (data, s1)"
    and e: "e_data e = data" and ok: "umap_ok (rs_key_values s)"
  shows "\<exists>s2 s3. del_proposed i OK s1 = (s2, [(cb, OK)]) \<and> (\<forall>k. store_get k s2 = store_get k s) \<and>
     read_commit c e s2 = Inr (s3, []) \<and> (\<forall>k \<in> set ks. store_get k s3 = None)"
proof -
  let ?commit = "commit_of \<lparr>rcd_type = kCommitDel, rcd_strs = ks\<rparr> s"
  have s1: "data = sc_pack_commit c ?commit" "rs_key_values s1 = rs_key_values s" "map_of (rs_pending_requests s1) i = Some cb"
    using del i by (auto simp: store_del_def request_def Let_def update_conv')
  obtain s2 where s2: "reply_pending i OK s1 = (s2, [(cb, OK)])" "rs_key_values s2 = rs_key_values s" "map_of (rs_pending_requests s2) i = None"
    using reply_pending_Some [OF s1(3)] s1(2) by metis
  have u: "sc_unpack_commit c (e_data e) = Unpacked ?commit" using codec e s1(1) by (simp add: roundtrips_def)
  have a: "apply_data (cm_redis_data ?commit) (rs_key_values s2) = Inr (fold AList.delete ks (rs_key_values s))"
    using s2(2) by (simp add: apply_data_def commit_of_def kCommitSet_def kCommitDel_def)
  have "read_commit c e s2 = Inr (s2\<lparr>rs_key_values := fold AList.delete ks (rs_key_values s)\<rparr>, [])"
    using read_commit_eq [OF u a] s2(3) i by (simp add: reply_pending_def commit_of_def)
  then show ?thesis
    using s2(1,2) fold_delete_map [OF ok, of ks] by (simp add: del_proposed_def store_get_def)
qed

definition example_other :: Entry where
  "example_other = Entry_default\<lparr>e_data := fst (store_del example_store_codec [[65]] (0 :: nat) (example_store 2))\<rparr>"


theorem del_answered_before_apply_witness:
  "\<exists>s2 s3. del_proposed 7 OK (snd (store_del example_store_codec [[66]] (9 :: nat) (example_store 2))) = (s2, [(9, OK)]) \<and>
     store_get [66] s2 = Some [2] \<and>
     read_commit example_store_codec
       (Entry_default\<lparr>e_data := fst (store_del example_store_codec [[66]] (9 :: nat) (example_store 2))\<rparr>) s2 = Inr (s3, []) \<and>
     store_get [66] s3 = None"
proof -
  let ?c = example_store_codec and ?s = "example_store 2" and ?q = "store_del example_store_codec [[66]] (9 :: nat) (example_store 2)"
  have codec: "roundtrips ?c (commit_of \<lparr>rcd_type = kCommitDel, rcd_strs = [[66]]\<rparr> ?s)" by code_simp
  have i: "7 = rs_next_request_id ?s" and ok: "umap_ok (rs_key_values ?s)" by code_simp+
  have q: "?q = (fst ?q, snd ?q)" and e: "e_data (Entry_default\<lparr>e_data := fst ?q\<rparr>) = fst ?q" by simp_all
  have g: "store_get [66] ?s = Some [2]" by code_simp
  show ?thesis using del_answered_before_apply [OF codec i q e ok] g by auto
qed

end
