(* ===== verification/Byte_Slice.thy ===== *)
theory Byte_Slice
  imports Kv_Prelude
begin

text \<open>
  \<^verbatim>\<open>Slice\<close> of \<^verbatim>\<open>common/slice.h\<close>: a view of bytes that somebody else owns. The model keeps the bytes the view
  refers to. Its three-way comparison is the lexicographic order, which makes slices a linear order.
\<close>

section \<open>Operations\<close>

datatype Slice = Slice (slice_data: bytes)

definition Slice_new :: Slice where "Slice_new = Slice []"

definition Slice_of_cstr :: "bytes \<Rightarrow> Slice" where
  "Slice_of_cstr s = Slice (takeWhile (\<lambda>b. b \<noteq> 0) s)"

definition slice_size :: "Slice \<Rightarrow> nat" where
  "slice_size s = length (slice_data s)"

definition slice_empty :: "Slice \<Rightarrow> bool" where
  "slice_empty s \<longleftrightarrow> slice_size s = 0"

definition slice_at :: "nat \<Rightarrow> Slice \<Rightarrow> fault + u8" where
  "slice_at n s = bind_r (guard_r (n < slice_size s) (Assert ''n < size()'')) (\<lambda>_. Inr (slice_data s ! n))"

definition slice_clear :: "Slice \<Rightarrow> Slice" where
  "slice_clear s = Slice []"

definition remove_prefix :: "nat \<Rightarrow> Slice \<Rightarrow> fault + Slice" where
  "remove_prefix n s = bind_r (guard_r (n \<le> slice_size s) (Assert ''n <= size()'')) (\<lambda>_. Inr (Slice (drop n (slice_data s))))"

text \<open>The sign of \<^verbatim>\<open>memcmp\<close> on \<open>n\<close> bytes that both sides have.\<close>

fun memcmp :: "bytes \<Rightarrow> bytes \<Rightarrow> nat \<Rightarrow> int" where
  "memcmp (x # xs) (y # ys) (Suc n) = (if x = y then memcmp xs ys n else if x < y then - 1 else 1)"
| "memcmp xs ys n = 0"

definition starts_with :: "Slice \<Rightarrow> Slice \<Rightarrow> bool" where
  "starts_with x s \<longleftrightarrow> slice_size s \<ge> slice_size x \<and> memcmp (slice_data s) (slice_data x) (slice_size x) = 0"

definition slice_eq :: "Slice \<Rightarrow> Slice \<Rightarrow> bool" where
  "slice_eq x y \<longleftrightarrow> slice_size x = slice_size y \<and> memcmp (slice_data x) (slice_data y) (slice_size x) = 0"

definition slice_compare :: "Slice \<Rightarrow> Slice \<Rightarrow> int" where
  "slice_compare a b =
     (let min_len = (if slice_size a < slice_size b then slice_size a else slice_size b);
          r = memcmp (slice_data a) (slice_data b) min_len in
      if r = 0 then if slice_size a < slice_size b then - 1 else if slice_size a > slice_size b then 1 else r
      else r)"

section \<open>The order\<close>

lemma memcmp_prefix: "n \<le> length xs \<Longrightarrow> n \<le> length ys \<Longrightarrow> memcmp xs ys n = 0 \<longleftrightarrow> take n xs = take n ys"
  by (induction xs ys n rule: memcmp.induct) auto

lemma slice_compare_simps:
  "slice_compare (Slice []) (Slice []) = 0"
  "slice_compare (Slice []) (Slice (y # ys)) = - 1"
  "slice_compare (Slice (x # xs)) (Slice []) = 1"
  "slice_compare (Slice (x # xs)) (Slice (y # ys)) =
     (if x = y then slice_compare (Slice xs) (Slice ys) else if x < y then - 1 else 1)"
  by (auto simp: slice_compare_def slice_size_def Let_def)

lemma slice_compare_eq: "slice_compare (Slice xs) (Slice ys) = 0 \<longleftrightarrow> xs = ys"
  by (induction xs ys rule: list_induct2') (auto simp: slice_compare_simps)

lemma slice_compare_swap: "slice_compare (Slice ys) (Slice xs) = - slice_compare (Slice xs) (Slice ys)"
  by (induction xs ys rule: list_induct2') (auto simp: slice_compare_simps not_less_iff_gr_or_eq)

lemma slice_compare_Nil: "slice_compare (Slice []) (Slice zs) \<le> 0"
  by (cases zs) (simp_all add: slice_compare_simps)

lemma slice_compare_trans:
  "slice_compare (Slice xs) (Slice ys) \<le> 0 \<Longrightarrow> slice_compare (Slice ys) (Slice zs) \<le> 0 \<Longrightarrow> slice_compare (Slice xs) (Slice zs) \<le> 0"
proof (induction xs ys arbitrary: zs rule: list_induct2')
  case (4 x xs y ys)
  then show ?case by (cases zs) (auto simp: slice_compare_simps split: if_splits)
qed (auto simp: slice_compare_simps slice_compare_Nil)

instantiation Slice :: linorder
begin

definition less_eq_Slice :: "Slice \<Rightarrow> Slice \<Rightarrow> bool" where
  "a \<le> b \<longleftrightarrow> slice_compare a b \<le> 0"

definition less_Slice :: "Slice \<Rightarrow> Slice \<Rightarrow> bool" where
  "a < b \<longleftrightarrow> slice_compare a b < 0"

instance
proof
  fix a b c :: Slice
  obtain xs ys zs where s: "a = Slice xs" "b = Slice ys" "c = Slice zs" by (cases a, cases b, cases c)
  show "(a < b) = (a \<le> b \<and> \<not> b \<le> a)" "a \<le> b \<or> b \<le> a"
    using slice_compare_swap [of xs ys] by (auto simp: less_eq_Slice_def less_Slice_def s)
  show "a \<le> a" using slice_compare_eq [of xs xs] by (simp add: less_eq_Slice_def s)
  show "a \<le> b \<Longrightarrow> b \<le> c \<Longrightarrow> a \<le> c" using slice_compare_trans by (simp add: less_eq_Slice_def s)
  show "a \<le> b \<Longrightarrow> b \<le> a \<Longrightarrow> a = b"
    using slice_compare_swap [of xs ys] slice_compare_eq [of xs ys] by (simp add: less_eq_Slice_def s)
qed

end

text \<open>The operators agree with the order, and prefixes are prefixes.\<close>

lemma slice_eq_iff: "slice_eq x y \<longleftrightarrow> x = y"
proof -
  obtain xs ys where "x = Slice xs" "y = Slice ys" by (cases x, cases y)
  then show ?thesis using memcmp_prefix [of "length xs" xs ys] by (auto simp: slice_eq_def slice_size_def)
qed

lemma starts_with_iff: "starts_with x s \<longleftrightarrow> (\<exists>rest. slice_data s = slice_data x @ rest)"
  using memcmp_prefix [of "slice_size x" "slice_data s" "slice_data x"]
  by (auto simp: starts_with_def slice_size_def) (metis append_take_drop_id)

lemma remove_prefix_starts:
  "starts_with x s \<Longrightarrow> \<exists>rest. remove_prefix (slice_size x) s = Inr (Slice rest) \<and> slice_data s = slice_data x @ rest"
  by (auto simp: starts_with_iff remove_prefix_def slice_size_def)

end
