(* ===== verification/Byte_Buffer.thy ===== *)
theory Byte_Buffer
  imports Byte_Slice
begin

text \<open>
  \<^verbatim>\<open>ByteBuffer\<close> of \<^verbatim>\<open>common/bytebuffer\<close>, the output buffer of the Redis sessions and of the connections
  to peers. The locale \<open>byte_fifo\<close> is what the sessions rely on: bytes go in at one end and come out at
  the other in the same order.
\<close>

section \<open>The buffer\<close>

record ByteBuffer =
  bb_reader :: u32
  bb_writer :: u32
  bb_buff :: bytes

definition MIN_BUFFERING :: nat where
  "MIN_BUFFERING = 4096"

definition ByteBuffer_new :: ByteBuffer where
  "ByteBuffer_new = \<lparr>bb_reader = 0, bb_writer = 0, bb_buff = replicate MIN_BUFFERING 0\<rparr>"

text \<open>
  \<^verbatim>\<open>put\<close> reads \<open>len\<close> bytes of the caller's data and writes them behind the writer; reading or writing
  past the end of either array is undefined.
\<close>

definition bb_put :: "bytes \<Rightarrow> u32 \<Rightarrow> ByteBuffer \<Rightarrow> fault + ByteBuffer" where
  "bb_put data len b =
     (let left = of_nat (length (bb_buff b)) - bb_writer b;
          buff = (if left < len
                  then bb_buff b @ replicate (length (bb_buff b) + unat len) 0
                  else bb_buff b);
          w = unat (bb_writer b) in
      bind_r (range_r data 0 (unat len)) (\<lambda>d.
      bind_r (guard_r (w + unat len \<le> length buff) (Undefined ''memcpy'')) (\<lambda>_.
      Inr (b\<lparr>bb_buff := take w buff @ d @ drop (w + unat len) buff, bb_writer := bb_writer b + len\<rparr>))))"

definition readable :: "ByteBuffer \<Rightarrow> bool" where
  "readable b \<longleftrightarrow> bb_writer b > bb_reader b"

definition readable_bytes :: "ByteBuffer \<Rightarrow> fault + u32" where
  "readable_bytes b =
     bind_r (guard_r (bb_writer b \<ge> bb_reader b) (Assert ''writer_ >= reader_'')) (\<lambda>_. Inr (bb_writer b - bb_reader b))"

definition may_shrink_to_fit :: "ByteBuffer \<Rightarrow> ByteBuffer" where
  "may_shrink_to_fit b = (if bb_reader b = bb_writer b then b\<lparr>bb_reader := 0, bb_writer := 0\<rparr> else b)"

definition read_bytes :: "u32 \<Rightarrow> ByteBuffer \<Rightarrow> fault + ByteBuffer" where
  "read_bytes n b =
     bind_r (readable_bytes b) (\<lambda>m.
     bind_r (guard_r (m \<ge> n) (Assert ''readable_bytes() >= bytes'')) (\<lambda>_.
     Inr (may_shrink_to_fit (b\<lparr>bb_reader := bb_reader b + n\<rparr>))))"

text \<open>\<^verbatim>\<open>reader()\<close> with \<^verbatim>\<open>readable_bytes()\<close>, which \<^verbatim>\<open>slice()\<close> pairs: the bytes from the reader on.\<close>

definition bb_slice :: "ByteBuffer \<Rightarrow> fault + Slice" where
  "bb_slice b =
     bind_r (readable_bytes b) (\<lambda>n.
     bind_r (range_r (bb_buff b) (unat (bb_reader b)) (unat (bb_reader b) + unat n)) (\<lambda>d. Inr (Slice d)))"

definition bb_reset :: "ByteBuffer \<Rightarrow> ByteBuffer" where
  "bb_reset b =
     b\<lparr>bb_reader := 0, bb_writer := 0,
       bb_buff := take MIN_BUFFERING (bb_buff b @ replicate MIN_BUFFERING 0)\<rparr>"

section \<open>The contract of a byte queue\<close>

locale byte_fifo =
  fixes invar :: "'b \<Rightarrow> bool" and content :: "'b \<Rightarrow> bytes" and room :: "'b \<Rightarrow> nat \<Rightarrow> bool"
    and put :: "bytes \<Rightarrow> u32 \<Rightarrow> 'b \<Rightarrow> fault + 'b" and consume :: "u32 \<Rightarrow> 'b \<Rightarrow> fault + 'b"
  assumes put_ok: "invar b \<Longrightarrow> room b (length d) \<Longrightarrow>
      \<exists>b'. put d (of_nat (length d)) b = Inr b' \<and> invar b' \<and> content b' = content b @ d"
    and put_room: "invar b \<Longrightarrow> room b (length d + m) \<Longrightarrow> put d (of_nat (length d)) b = Inr b' \<Longrightarrow> room b' m"
    and room_less: "room b k \<Longrightarrow> m \<le> k \<Longrightarrow> room b m"
    and consume_ok: "invar b \<Longrightarrow> unat n \<le> length (content b) \<Longrightarrow>
      \<exists>b'. consume n b = Inr b' \<and> invar b' \<and> content b' = drop (unat n) (content b)"
    and consume_too_much: "invar b \<Longrightarrow> length (content b) < unat n \<Longrightarrow> \<exists>e. consume n b = Inl e"
begin

text \<open>What has been taken out, followed by what is still inside, is what was put in.\<close>

lemma consume_order:
  assumes "invar b" and "consume n b = Inr b'"
  shows "invar b' \<and> content b = take (unat n) (content b) @ content b' \<and> unat n \<le> length (content b)"
  using consume_ok [OF assms(1), of n] consume_too_much [OF assms(1), of n] assms(2)
  by (cases "unat n \<le> length (content b)") auto

lemma put_all:
  "invar b \<Longrightarrow> room b (length (concat ds) + m) \<Longrightarrow>
     \<exists>b'. loop_r (\<lambda>d. put d (of_nat (length d))) ds b = Inr b' \<and> invar b' \<and> content b' = content b @ concat ds \<and> room b' m"
proof (induction ds arbitrary: b)
  case (Cons d ds)
  have "room b (length d)" using Cons.prems(2) by (rule room_less) simp
  then obtain b1 where b1: "put d (of_nat (length d)) b = Inr b1" "invar b1" "content b1 = content b @ d"
    using put_ok [OF Cons.prems(1)] by blast
  moreover have "room b1 (length (concat ds) + m)"
    by (rule put_room [OF Cons.prems(1) _ b1(1)]) (use Cons.prems(2) in \<open>simp add: add.assoc\<close>)
  ultimately show ?case using Cons.IH [of b1] by auto
qed simp

end

section \<open>The buffer is a byte queue\<close>

definition bb_inv :: "ByteBuffer \<Rightarrow> bool" where
  "bb_inv b \<longleftrightarrow> bb_reader b \<le> bb_writer b \<and> unat (bb_writer b) \<le> length (bb_buff b) \<and> length (bb_buff b) < 2 ^ 32"

definition bb_content :: "ByteBuffer \<Rightarrow> bytes" where
  "bb_content b = take (unat (bb_writer b) - unat (bb_reader b)) (drop (unat (bb_reader b)) (bb_buff b))"

text \<open>
  Room for \<open>n\<close> more bytes: the vector grows only when the bytes do not fit, and then to less than three
  times the end of the content, so its size still fits the 32-bit positions.
\<close>

definition bb_room :: "ByteBuffer \<Rightarrow> nat \<Rightarrow> bool" where
  "bb_room b n \<longleftrightarrow> 3 * (unat (bb_writer b) + n) < 2 ^ 32"

lemma bb_invD:
  assumes "bb_inv b"
  shows "unat (bb_reader b) \<le> unat (bb_writer b)" and "unat (bb_writer b) \<le> length (bb_buff b)"
    and "length (bb_buff b) < 4294967296"
  using assms by (simp_all add: bb_inv_def word_le_nat_alt)

lemma bb_inv_new: "bb_inv ByteBuffer_new" "bb_content ByteBuffer_new = []"
  by (simp_all add: bb_inv_def bb_content_def ByteBuffer_new_def MIN_BUFFERING_def)

lemma bb_inv_reset: "bb_inv (bb_reset b)" "bb_content (bb_reset b) = []"
  by (simp_all add: bb_inv_def bb_content_def bb_reset_def MIN_BUFFERING_def)

lemma length_bb_content: "bb_inv b \<Longrightarrow> length (bb_content b) = unat (bb_writer b) - unat (bb_reader b)"
  using bb_invD [of b] by (simp add: bb_content_def)

lemma readable_bytes_ok:
  assumes "bb_inv b"
  shows "readable_bytes b = Inr (of_nat (length (bb_content b)))"
proof -
  have "of_nat (length (bb_content b)) = bb_writer b - bb_reader b"
    unfolding length_bb_content [OF assms] by (subst of_nat_diff) (simp_all add: bb_invD [OF assms])
  with assms show ?thesis by (simp add: readable_bytes_def bb_inv_def)
qed

lemma readable_iff: "bb_inv b \<Longrightarrow> readable b \<longleftrightarrow> bb_content b \<noteq> []"
  using length_bb_content [of b] by (simp add: readable_def word_less_nat_alt length_greater_0_conv [symmetric] del: length_greater_0_conv)

lemma bb_slice_ok: "bb_inv b \<Longrightarrow> bb_slice b = Inr (Slice (bb_content b))"
proof -
  assume b: "bb_inv b"
  note D = bb_invD [OF b]
  have "unat (of_nat (length (bb_content b)) :: u32) = length (bb_content b)"
    using D by (intro unat_of_nat_small) (simp add: length_bb_content [OF b])
  then show ?thesis using D by (simp add: bb_slice_def readable_bytes_ok [OF b] length_bb_content [OF b]) (simp add: bb_content_def)
qed

lemma bb_put_ok:
  assumes "bb_inv b" and "bb_room b (length d)"
  shows "\<exists>b'. bb_put d (of_nat (length d)) b = Inr b' \<and> bb_inv b' \<and> bb_content b' = bb_content b @ d \<and>
     unat (bb_writer b') = unat (bb_writer b) + length d"
proof -
  note D = bb_invD [OF assms(1)]
  let ?n = "length (bb_buff b)" and ?w = "unat (bb_writer b)" and ?r = "unat (bb_reader b)" and ?l = "of_nat (length d) :: u32"
  have rm: "3 * (?w + length d) < 4294967296" using assms(2) by (simp add: bb_room_def)
  then have l: "unat ?l = length d" by (intro unat_of_nat_small) simp
  have left: "unat (of_nat ?n - bb_writer b) = ?n - ?w"
    using D by (subst unat_sub_le) (simp_all add: unat_of_nat_small)
  define buff where "buff = (if of_nat ?n - bb_writer b < ?l then bb_buff b @ replicate (?n + unat ?l) 0 else bb_buff b)"
  have buff: "?w + length d \<le> length buff" "length buff < 4294967296" "take ?w buff = take ?w (bb_buff b)" "?n \<le> length buff"
    using D rm l left by (auto simp: buff_def word_less_nat_alt)
  let ?b = "b\<lparr>bb_buff := take ?w buff @ d @ drop (?w + length d) buff, bb_writer := bb_writer b + ?l\<rparr>"
  have w: "unat (bb_writer b + ?l) = ?w + length d" using buff l by (subst unat_add_small) simp_all
  have "bb_put d ?l b = Inr ?b"
    using buff(1) l by (simp add: bb_put_def Let_def buff_def [symmetric])
  moreover have "bb_inv ?b" using D buff w by (simp add: bb_inv_def word_le_nat_alt)
  moreover have "bb_content ?b = bb_content b @ d"
    using D buff(1,3) w by (simp add: bb_content_def drop_take)
  moreover have "unat (bb_writer ?b) = ?w + length d" using w by simp
  ultimately show ?thesis by blast
qed

lemma bb_shrink: "bb_inv b \<Longrightarrow> bb_inv (may_shrink_to_fit b) \<and> bb_content (may_shrink_to_fit b) = bb_content b"
  by (auto simp: may_shrink_to_fit_def bb_inv_def bb_content_def)

lemma bb_read_ok:
  assumes "bb_inv b" and "unat n \<le> length (bb_content b)"
  shows "\<exists>b'. read_bytes n b = Inr b' \<and> bb_inv b' \<and> bb_content b' = drop (unat n) (bb_content b)"
proof -
  note D = bb_invD [OF assms(1)] and L = length_bb_content [OF assms(1)]
  let ?b = "b\<lparr>bb_reader := bb_reader b + n\<rparr>"
  have r: "unat (bb_reader b + n) = unat (bb_reader b) + unat n"
    using assms(2) L D by (subst unat_add_small) simp_all
  have c: "unat (of_nat (length (bb_content b)) :: u32) = length (bb_content b)"
    using D L by (intro unat_of_nat_small) simp
  have inv: "bb_inv ?b" using D r assms(2) L by (simp add: bb_inv_def word_le_nat_alt)
  have "bb_content ?b = drop (unat n) (bb_content b)"
    using r by (simp add: bb_content_def drop_take ac_simps)
  moreover have "read_bytes n b = Inr (may_shrink_to_fit ?b)"
    using assms c by (simp add: read_bytes_def readable_bytes_ok word_le_nat_alt)
  ultimately show ?thesis using bb_shrink [OF inv] by simp
qed

lemma bb_read_fails:
  assumes "bb_inv b" and "length (bb_content b) < unat n"
  shows "read_bytes n b = Inl (Assert ''readable_bytes() >= bytes'')"
proof -
  have "unat (of_nat (length (bb_content b)) :: u32) = length (bb_content b)"
    using bb_invD [OF assms(1)] length_bb_content [OF assms(1)] by (intro unat_of_nat_small) simp
  with assms show ?thesis by (simp add: read_bytes_def readable_bytes_ok word_le_nat_alt)
qed

interpretation buffer: byte_fifo bb_inv bb_content bb_room bb_put read_bytes
proof
  fix b d m b'
  assume b: "bb_inv b" "bb_room b (length d + m)" "bb_put d (of_nat (length d)) b = Inr b'"
  then have "bb_room b (length d)" by (simp add: bb_room_def)
  from bb_put_ok [OF b(1) this] b(2,3) show "bb_room b' m" by (auto simp: bb_room_def)
next
  fix b n m
  assume "bb_room b n" "m \<le> n"
  then show "bb_room b m" by (simp add: bb_room_def)
qed (use bb_put_ok bb_read_ok bb_read_fails in blast)+

text \<open>
  C33. The buffer is a byte queue: as long as the size it can grow to fits 32 bits, \<^verbatim>\<open>put\<close> succeeds, appends the
  bytes and keeps the positions inside the vector; \<^verbatim>\<open>read_bytes\<close> drops bytes from the front and stops on
  an assertion exactly if there are fewer; \<^verbatim>\<open>slice\<close> shows the bytes that are inside.
\<close>

theorem bytebuffer_is_queue:
  assumes "bb_inv b"
  shows "bb_slice b = Inr (Slice (bb_content b)) \<and>
    (bb_room b (length d) \<longrightarrow>
      (\<exists>b'. bb_put d (of_nat (length d)) b = Inr b' \<and> bb_inv b' \<and> bb_content b' = bb_content b @ d)) \<and>
    (unat n \<le> length (bb_content b) \<longrightarrow>
      (\<exists>b'. read_bytes n b = Inr b' \<and> bb_inv b' \<and> bb_content b' = drop (unat n) (bb_content b))) \<and>
    (length (bb_content b) < unat n \<longrightarrow> read_bytes n b = Inl (Assert ''readable_bytes() >= bytes''))"
  using assms buffer.put_ok buffer.consume_ok bb_slice_ok bb_read_fails by blast

theorem bytebuffer_is_queue_witness:
  "bb_slice ByteBuffer_new = Inr (Slice []) \<and>
   (\<exists>b'. bb_put [1, 2, 3] 3 ByteBuffer_new = Inr b' \<and> bb_inv b' \<and> bb_content b' = [1, 2, 3]) \<and>
   read_bytes 1 ByteBuffer_new = Inl (Assert ''readable_bytes() >= bytes'')"
proof -
  have "bb_room ByteBuffer_new (length [1, 2, 3 :: u8])"
    by (simp add: bb_room_def ByteBuffer_new_def MIN_BUFFERING_def)
  then show ?thesis
    using bytebuffer_is_queue [OF bb_inv_new(1), of "[1, 2, 3]" 1] by (simp add: bb_inv_new)
qed

end
