(* ===== verification/Redis_Session.thy ===== *)
theory Redis_Session
  imports Redis_Store Byte_Buffer Raft
begin

text \<open>
  \<^verbatim>\<open>RedisSession\<close> of \<^verbatim>\<open>server/redis_session\<close>: reading commands from a connection, dispatch, and replies through the
  send buffer. The parser of hiredis is an argument (\<open>Reader_Api\<close>): \<^verbatim>\<open>redisReaderFeed\<close> and
  \<^verbatim>\<open>redisReaderGetReply\<close> on an opaque state, \<open>None\<close> for an error. Of an asynchronous read or write
  the session only remembers that it is outstanding; its completion is an operation. The callback of a
  request is the number of its session.
\<close>

section \<open>Texts\<close>

definition crlf :: bytes where "crlf = [13, 10]"

text \<open>\<^verbatim>\<open>c_str()\<close> behind \<^verbatim>\<open>%s\<close> ends at the first NUL.\<close>

definition c_str :: "bytes \<Rightarrow> bytes" where
  "c_str s = takeWhile (\<lambda>b. b \<noteq> 0) s"

definition shared_ok :: bytes where "shared_ok = bytes_of_string ''+OK'' @ crlf"
definition shared_err :: "bytes \<Rightarrow> bytes" where "shared_err m = bytes_of_string ''-ERR '' @ c_str m @ crlf"
definition wrong_type :: bytes where
  "wrong_type = bytes_of_string ''-WRONGTYPE Operation against a key holding the wrong kind of value'' @ crlf"
definition unknown_command :: "bytes \<Rightarrow> bytes" where
  "unknown_command cmd = bytes_of_string ''-ERR unknown command `'' @ c_str cmd @ bytes_of_string ''`'' @ crlf"
definition wrong_number_arguments :: "string \<Rightarrow> bytes" where
  "wrong_number_arguments cmd =
     bytes_of_string ''-ERR wrong number of arguments for '' @ [39] @ bytes_of_string cmd @ [39] @ bytes_of_string '' command'' @ crlf"
definition pong :: bytes where "pong = bytes_of_string ''+PONG'' @ crlf"
definition null_reply :: bytes where "null_reply = bytes_of_string ''$-1'' @ crlf"

definition build_redis_string_array_reply :: "bytes list \<Rightarrow> bytes" where
  "build_redis_string_array_reply strs =
     bytes_of_string ''*'' @ decimal (length strs) @ crlf @
     concat (map (\<lambda>str. bytes_of_string ''$'' @ decimal (length str) @ crlf @ (if str \<noteq> [] then str @ crlf else [])) strs)"

section \<open>The session\<close>

datatype redisReply = ReplyString bytes | ReplyArray "redisReply list" | ReplyOther int

record 'r Reader_Api =
  ra_feed :: "bytes \<Rightarrow> 'r \<Rightarrow> 'r option"
  ra_get_reply :: "'r \<Rightarrow> (redisReply option \<times> 'r) option"

text \<open>\<open>ss_reads\<close> counts the reads started and not completed; \<open>ss_write\<close> is the length of the write under way.\<close>

record 'r RedisSession =
  ss_quit :: bool
  ss_reader :: 'r
  ss_send_buffer :: ByteBuffer
  ss_reads :: nat
  ss_write :: "nat option"

definition RedisSession_new :: "'r \<Rightarrow> 'r RedisSession" where
  "RedisSession_new reader =
     \<lparr>ss_quit = False, ss_reader = reader, ss_send_buffer = ByteBuffer_new, ss_reads = 0, ss_write = None\<rparr>"

definition session_start :: "'r RedisSession \<Rightarrow> 'r RedisSession" where
  "session_start s = (if ss_quit s then s else s\<lparr>ss_reads := ss_reads s + 1\<rparr>)"

definition start_send :: "'r RedisSession \<Rightarrow> fault + 'r RedisSession" where
  "start_send s =
     (if \<not> readable (ss_send_buffer s) then Inr s
      else bind_r (readable_bytes (ss_send_buffer s)) (\<lambda>remaining. Inr (s\<lparr>ss_write := Some (unat remaining)\<rparr>)))"

definition send_reply :: "bytes \<Rightarrow> u32 \<Rightarrow> 'r RedisSession \<Rightarrow> fault + 'r RedisSession" where
  "send_reply data len s =
     bind_r (readable_bytes (ss_send_buffer s)) (\<lambda>bytes.
     bind_r (bb_put data len (ss_send_buffer s)) (\<lambda>b.
     let s = s\<lparr>ss_send_buffer := b\<rparr> in if bytes = 0 then start_send s else Inr s))"

text \<open>A literal or a heap string with its \<^verbatim>\<open>strlen\<close>, and a text formatted into 256 bytes.\<close>

definition send_text :: "bytes \<Rightarrow> 'r RedisSession \<Rightarrow> fault + 'r RedisSession" where
  "send_text text = send_reply text (of_nat (length text))"

definition send_formatted :: "bytes \<Rightarrow> 'r RedisSession \<Rightarrow> fault + 'r RedisSession" where
  "send_formatted text = (case snprintf 256 text of (buffer, n) \<Rightarrow> send_reply buffer n)"

text \<open>The completion of a write.\<close>

definition on_sent :: "bool \<Rightarrow> nat \<Rightarrow> 'r RedisSession \<Rightarrow> fault + 'r RedisSession" where
  "on_sent error bytes s =
     (let s = s\<lparr>ss_write := None\<rparr> in
      if bytes = 0 then Inr s
      else if error then Inr s
      else
        bind_r (range_r (bb_buff (ss_send_buffer s)) (unat (bb_reader (ss_send_buffer s)))
                  (unat (bb_reader (ss_send_buffer s)) + bytes)) (\<lambda>_.
        bind_r (read_bytes (of_nat bytes) (ss_send_buffer s)) (\<lambda>b. start_send (s\<lparr>ss_send_buffer := b\<rparr>))))"

section \<open>Commands\<close>

datatype Command = Ping | Get | Set | Del | Keys

definition command_table :: "(bytes \<times> Command) list" where
  "command_table = map (\<lambda>(n, c). (bytes_of_string n, c))
     [(''ping'', Ping), (''PING'', Ping), (''get'', Get), (''GET'', Get), (''set'', Set), (''SET'', Set),
      (''del'', Del), (''DEL'', Del), (''keys'', Keys), (''KEYS'', Keys)]"

text \<open>
  A session beside the store: \<open>se_proposals\<close> collects what is handed to \<^verbatim>\<open>RaftNode::propose\<close>, with the
  kind and the number of the request its callback is for.
\<close>

record 'r Served =
  se_session :: "'r RedisSession"
  se_store :: "nat RedisStore"
  se_proposals :: "(Command \<times> u32 \<times> bytes) list"

definition reply_with :: "('r RedisSession \<Rightarrow> fault + 'r RedisSession) \<Rightarrow> 'r Served \<Rightarrow> fault + 'r Served" where
  "reply_with f x = bind_r (f (se_session x)) (\<lambda>s. Inr (x\<lparr>se_session := s\<rparr>))"

definition propose_with :: "Command \<Rightarrow> bytes \<times> nat RedisStore \<Rightarrow> 'r Served \<Rightarrow> 'r Served" where
  "propose_with cmd r x =
     x\<lparr>se_store := snd r, se_proposals := se_proposals x @ [(cmd, rs_next_request_id (se_store x), fst r)]\<rparr>"

definition ping_command :: "'r Served \<Rightarrow> fault + 'r Served" where
  "ping_command = reply_with (send_text pong)"

definition get_reply :: "bytes option \<Rightarrow> bytes" where
  "get_reply v =
     (case v of
        None \<Rightarrow> null_reply
      | Some value \<Rightarrow> bytes_of_string ''$'' @ decimal (length value) @ crlf @ c_str value @ crlf)"

definition get_command :: "redisReply list \<Rightarrow> 'r Served \<Rightarrow> fault + 'r Served" where
  "get_command elements x =
     (if length elements \<noteq> 2 then reply_with (send_formatted (wrong_number_arguments ''get'')) x
      else case elements ! 1 of
        ReplyString key \<Rightarrow> reply_with (send_text (get_reply (store_get key (se_store x)))) x
      | _ \<Rightarrow> reply_with (send_text wrong_type) x)"

definition set_command :: "Store_Codec \<Rightarrow> nat \<Rightarrow> redisReply list \<Rightarrow> 'r Served \<Rightarrow> fault + 'r Served" where
  "set_command c self elements x =
     (if length elements \<noteq> 3 then reply_with (send_formatted (wrong_number_arguments ''set'')) x
      else case (elements ! 1, elements ! 2) of
        (ReplyString key, ReplyString value) \<Rightarrow> Inr (propose_with Set (store_set c key value self (se_store x)) x)
      | _ \<Rightarrow> reply_with (send_text wrong_type) x)"

primrec del_keys :: "redisReply list \<Rightarrow> bytes list option" where
  "del_keys [] = Some []"
| "del_keys (e # es) =
     (case e of ReplyString key \<Rightarrow> map_option (\<lambda>keys. key # keys) (del_keys es) | _ \<Rightarrow> None)"

definition del_command :: "Store_Codec \<Rightarrow> nat \<Rightarrow> redisReply list \<Rightarrow> 'r Served \<Rightarrow> fault + 'r Served" where
  "del_command c self elements x =
     (if length elements \<le> 1 then reply_with (send_formatted (wrong_number_arguments ''del'')) x
      else case del_keys (drop 1 elements) of
        None \<Rightarrow> reply_with (send_text wrong_type) x
      | Some keys \<Rightarrow> Inr (propose_with Del (store_del c keys self (se_store x)) x))"

definition keys_command :: "redisReply list \<Rightarrow> 'r Served \<Rightarrow> fault + 'r Served" where
  "keys_command elements x =
     (if length elements \<noteq> 2 then reply_with (send_formatted (wrong_number_arguments ''keys'')) x
      else case elements ! 1 of
        ReplyString pattern \<Rightarrow>
          reply_with (send_text (build_redis_string_array_reply (store_keys pattern (se_store x)))) x
      | _ \<Rightarrow> reply_with (send_text wrong_type) x)"

text \<open>The callback that \<^verbatim>\<open>SET\<close> and \<^verbatim>\<open>DEL\<close> leave in the store.\<close>

definition on_committed :: "Status \<Rightarrow> 'r RedisSession \<Rightarrow> fault + 'r RedisSession" where
  "on_committed status s =
     (if is_ok status then send_text shared_ok s
      else send_formatted (shared_err (bytes_of_string (Status_to_string status))) s)"

definition on_redis_reply :: "Store_Codec \<Rightarrow> nat \<Rightarrow> redisReply \<Rightarrow> 'r Served \<Rightarrow> fault + 'r Served" where
  "on_redis_reply c self reply x =
     (case reply of
        ReplyArray elements \<Rightarrow>
          if length elements < 1 then reply_with (send_formatted (wrong_number_arguments [])) x
          else (case elements ! 0 of
            ReplyString command \<Rightarrow>
              (case map_of command_table command of
                 None \<Rightarrow> reply_with (send_formatted (unknown_command command)) x
               | Some Ping \<Rightarrow> ping_command x
               | Some Get \<Rightarrow> get_command elements x
               | Some Set \<Rightarrow> set_command c self elements x
               | Some Del \<Rightarrow> del_command c self elements x
               | Some Keys \<Rightarrow> keys_command elements x)
          | _ \<Rightarrow> reply_with (send_text wrong_type) x)
      | _ \<Rightarrow> reply_with (send_text wrong_type) x)"

section \<open>Reading\<close>

definition RECEIVE_BUFFER_SIZE :: nat where "RECEIVE_BUFFER_SIZE = 1024 * 512"

text \<open>
  The loop of \<^verbatim>\<open>handle_read\<close> on the bytes from \<^verbatim>\<open>start\<close> to \<^verbatim>\<open>end\<close>: the first component is
  \<^verbatim>\<open>err == REDIS_OK\<close>. What is behind the last line feed is left.
\<close>

function read_lines :: "'r Reader_Api \<Rightarrow> bytes \<Rightarrow> redisReply list \<Rightarrow> 'r RedisSession \<Rightarrow> bool \<times> redisReply list \<times> 'r RedisSession" where
  "read_lines api data replies s =
     (if ss_quit s \<or> data = [] then (True, replies, s)
      else if 10 \<notin> set data then (True, replies, session_start s)
      else
        let n = length (takeWhile (\<lambda>b. b \<noteq> 10) data) + 1 in
        case ra_feed api (take n data) (ss_reader s) of
          None \<Rightarrow> (False, replies, s\<lparr>ss_quit := True\<rparr>)
        | Some r \<Rightarrow>
            (case ra_get_reply api r of
               None \<Rightarrow> (False, replies, s\<lparr>ss_quit := True\<rparr>)
             | Some (reply, r) \<Rightarrow>
                 read_lines api (drop n data) (replies @ (case reply of Some x \<Rightarrow> [x] | None \<Rightarrow> [])) (s\<lparr>ss_reader := r\<rparr>)))"
  by pat_completeness auto
termination by (relation "measure (\<lambda>(api, data, replies, s). length data)") auto

declare read_lines.simps [simp del]

definition handle_read :: "'r Reader_Api \<Rightarrow> Store_Codec \<Rightarrow> nat \<Rightarrow> bytes \<Rightarrow> 'r Served \<Rightarrow> fault + 'r Served" where
  "handle_read api c self data x =
     (case read_lines api data [] (se_session x) of
        (ok, replies, s) \<Rightarrow>
          let x = x\<lparr>se_session := s\<rparr> in
          if ok
          then bind_r (loop_r (on_redis_reply c self) replies x) (\<lambda>x. Inr (x\<lparr>se_session := session_start (se_session x)\<rparr>))
          else Inr x)"

text \<open>The completion of a read with the bytes it has put into the receive buffer.\<close>

definition on_read :: "'r Reader_Api \<Rightarrow> Store_Codec \<Rightarrow> nat \<Rightarrow> bool \<Rightarrow> bytes \<Rightarrow> 'r Served \<Rightarrow> fault + 'r Served" where
  "on_read api c self error data x =
     (let x = x\<lparr>se_session := (se_session x)\<lparr>ss_reads := ss_reads (se_session x) - 1\<rparr>\<rparr> in
      if data = [] then Inr x
      else if error then Inr x
      else handle_read api c self data x)"

section \<open>Replies reach the send buffer\<close>

text \<open>\<open>t\<close> has been queued behind what was there; nothing else of the session has changed but a write that may have started.\<close>

definition queued :: "bytes \<Rightarrow> 'r RedisSession \<Rightarrow> 'r RedisSession \<Rightarrow> bool" where
  "queued t s s' \<longleftrightarrow> bb_inv (ss_send_buffer s') \<and> bb_content (ss_send_buffer s') = bb_content (ss_send_buffer s) @ t \<and>
     ss_quit s' = ss_quit s \<and> ss_reader s' = ss_reader s \<and> ss_reads s' = ss_reads s \<and>
     (bb_content (ss_send_buffer s) = [] \<and> t \<noteq> [] \<longrightarrow> ss_write s' = Some (length t))"

lemma bb_room_small: "bb_room b n \<Longrightarrow> n < 4294967296"
  by (simp add: bb_room_def)

lemma send_text_queued:
  assumes "bb_inv (ss_send_buffer s)" and "bb_room (ss_send_buffer s) (length t)"
  shows "\<exists>s'. send_text t s = Inr s' \<and> queued t s s'"
proof -
  let ?b = "ss_send_buffer s"
  obtain b where b: "bb_put t (of_nat (length t)) ?b = Inr b" "bb_inv b" "bb_content b = bb_content ?b @ t"
    using buffer.put_ok [OF assms] by blast
  have len: "length (bb_content ?b) < 4294967296" using bb_invD [OF assms(1)] length_bb_content [OF assms(1)] by simp
  have z: "(of_nat (length (bb_content ?b)) :: u32) = 0 \<longleftrightarrow> bb_content ?b = []"
    using unat_of_nat_small [of "length (bb_content ?b)", where 'a = 32] len by (simp add: word_eq_unat)
  have "unat (of_nat (length t) :: u32) = length t" using bb_room_small [OF assms(2)] by (intro unat_of_nat_small) simp
  then show ?thesis
    using b z by (cases "bb_content ?b = []"; cases "t = []")
      (auto simp: send_text_def send_reply_def Let_def readable_bytes_ok assms(1) start_send_def readable_iff queued_def)
qed

lemma send_formatted_short:
  assumes "length t \<le> 255"
  shows "send_formatted t = send_text t"
proof -
  have "unat (of_nat (length t) :: u32) = length t" using assms by (intro unat_of_nat_small) simp
  then have "bb_put (t @ [0]) (of_nat (length t)) b = bb_put t (of_nat (length t)) b" for b
    using assms by (simp add: bb_put_def range_r_def)
  then show ?thesis using assms by (simp add: fun_eq_iff send_formatted_def snprintf_def send_text_def send_reply_def)
qed

text \<open>A formatted text that does not fit its array is sent with the length it would have: the code reads behind the array.\<close>

lemma send_formatted_overread:
  assumes "bb_inv (ss_send_buffer s)" and "256 < length t" and "length t < 2 ^ 32"
  shows "\<exists>e. send_formatted t s = Inl (Undefined e)"
proof -
  have "unat (of_nat (length t) :: u32) = length t" using assms(3) by (intro unat_of_nat_small) simp
  then show ?thesis
    using assms(2) by (auto simp: send_formatted_def snprintf_def send_reply_def readable_bytes_ok [OF assms(1)] bb_put_def range_r_def Let_def)
qed

section \<open>What a client reads\<close>

text \<open>A reader of one bulk reply, written from the protocol: \<open>None\<close> inside is the null reply; the rest follows.\<close>

definition resp_line :: "bytes \<Rightarrow> (bytes \<times> bytes) option" where
  "resp_line bs =
     (let l = takeWhile (\<lambda>b. b \<noteq> 13) bs; r = drop (length l) bs
      in if take 2 r = crlf then Some (l, drop 2 r) else None)"

definition resp_bulk :: "bytes \<Rightarrow> (bytes option \<times> bytes) option" where
  "resp_bulk bs =
     (if take 1 bs \<noteq> [36] then None
      else case resp_line (drop 1 bs) of
        None \<Rightarrow> None
      | Some (l, r) \<Rightarrow>
          if l = [45, 49] then Some (None, r)
          else let n = undecimal l in
            if length r < n + 2 \<or> take 2 (drop n r) \<noteq> crlf then None else Some (Some (take n r), drop (n + 2) r))"

lemma takeWhile_stop: "x \<notin> set l \<Longrightarrow> takeWhile (\<lambda>b. b \<noteq> x) (l @ x # r) = l"
  by (induction l) auto

lemma resp_line_append: "13 \<notin> set l \<Longrightarrow> resp_line (l @ crlf @ r) = Some (l, r)"
  by (simp add: resp_line_def crlf_def Let_def takeWhile_stop)

lemma c_str_shorter: "0 \<in> set w \<Longrightarrow> length (c_str w) < length w"
  by (induction w) (auto simp: c_str_def)

lemma bytes_of_dollar [simp]: "bytes_of_string ''$'' = [36]" "bytes_of_string ''$-1'' = [36, 45, 49]"
  by code_simp+

lemma decimal_not_null: "decimal n \<noteq> [45, 49]" "13 \<notin> set (decimal n)"
  using decimal_digits [of 45 n] decimal_digits [of 13 n] by auto

lemma resp_bulk_reply:
  "resp_bulk ([36] @ decimal n @ crlf @ p) =
     (if length p < n + 2 \<or> take 2 (drop n p) \<noteq> crlf then None else Some (Some (take n p), drop (n + 2) p))"
  using resp_line_append [OF decimal_not_null(2), of n p] decimal_not_null(1) [of n]
  by (simp add: resp_bulk_def undecimal_decimal Let_def)

lemma get_reply_decodes:
  "0 \<notin> set (case v of None \<Rightarrow> [] | Some w \<Rightarrow> w) \<Longrightarrow> resp_bulk (get_reply v @ rest) = Some (v, rest)"
  "0 \<in> set w \<Longrightarrow> resp_bulk (get_reply (Some w)) = None"
proof -
  assume v: "0 \<notin> set (case v of None \<Rightarrow> [] | Some w \<Rightarrow> w)"
  show "resp_bulk (get_reply v @ rest) = Some (v, rest)"
  proof (cases v)
    case None
    then show ?thesis
      using resp_line_append [of "[45, 49]" rest] by (simp add: get_reply_def null_reply_def resp_bulk_def)
  next
    case (Some w)
    then have "c_str w = w" using v by (simp add: c_str_def takeWhile_eq_all_conv) (metis)
    then show ?thesis using Some resp_bulk_reply [of "length w" "w @ crlf @ rest"] by (simp add: get_reply_def crlf_def)
  qed
next
  assume w: "0 \<in> set w"
  then have "length (c_str w) < length w" by (rule c_str_shorter)
  then show "resp_bulk (get_reply (Some w)) = None"
    using resp_bulk_reply [of "length w" "c_str w @ crlf"] by (simp add: get_reply_def crlf_def)
qed

text \<open>
  C30. \<^verbatim>\<open>GET\<close> leaves the store alone and queues one reply behind the earlier ones. A client that reads it by the
  protocol gets the stored value, or null if the key is absent, and continues right behind it, as long as
  the value has no NUL byte; for a value with a NUL byte the reply is shorter than it announces and
  cannot be read.
\<close>

theorem get_command_replies:
  assumes "bb_inv (ss_send_buffer (se_session x))"
    and "bb_room (ss_send_buffer (se_session x)) (length (get_reply (store_get key (se_store x))))"
  shows "\<exists>s reply. get_command [cmd, ReplyString key] x = Inr (x\<lparr>se_session := s\<rparr>) \<and> queued reply (se_session x) s \<and>
     (\<forall>w rest. store_get key (se_store x) = Some w \<longrightarrow>
        (if 0 \<notin> set w then resp_bulk (reply @ rest) = Some (Some w, rest) else resp_bulk reply = None)) \<and>
     (store_get key (se_store x) = None \<longrightarrow> (\<forall>rest. resp_bulk (reply @ rest) = Some (None, rest)))"
proof -
  let ?v = "store_get key (se_store x)"
  obtain s where s: "send_text (get_reply ?v) (se_session x) = Inr s" "queued (get_reply ?v) (se_session x) s"
    using send_text_queued [OF assms] by blast
  have "get_command [cmd, ReplyString key] x = Inr (x\<lparr>se_session := s\<rparr>)"
    using s(1) by (simp add: get_command_def reply_with_def)
  moreover have "if 0 \<notin> set w then resp_bulk (get_reply ?v @ rest) = Some (Some w, rest) else resp_bulk (get_reply ?v) = None"
    if "?v = Some w" for w rest
    using that get_reply_decodes(1) [of "Some w" rest] get_reply_decodes(2) [of w] by simp
  moreover have "resp_bulk (get_reply ?v @ rest) = Some (None, rest)" if "?v = None" for rest
    using that get_reply_decodes(1) [of None rest] by simp
  ultimately show ?thesis using s(2) by blast
qed

definition example_served :: "unit Served" where
  "example_served = \<lparr>se_session = RedisSession_new (), se_store = example_store 1, se_proposals = []\<rparr>"

theorem get_command_replies_witness:
  "\<exists>s reply. get_command [ReplyString [103], ReplyString [66]] example_served = Inr (example_served\<lparr>se_session := s\<rparr>) \<and>
     resp_bulk (reply @ [1]) = Some (Some [2], [1]) \<and> bb_content (ss_send_buffer s) = reply"
proof -
  let ?b = "ss_send_buffer (se_session example_served)"
  have b: "?b = ByteBuffer_new" by (simp add: example_served_def RedisSession_new_def)
  have g: "store_get [66] (se_store example_served) = Some [2]" by code_simp
  have "length (get_reply (Some [2])) = 7" by code_simp
  then have r: "bb_room ?b (length (get_reply (store_get [66] (se_store example_served))))"
    unfolding g b by (simp add: bb_room_def ByteBuffer_new_def MIN_BUFFERING_def)
  have i: "bb_inv ?b" unfolding b by (rule bb_inv_new)
  obtain s reply where "get_command [ReplyString [103], ReplyString [66]] example_served = Inr (example_served\<lparr>se_session := s\<rparr>)"
    "queued reply (se_session example_served) s" "resp_bulk (reply @ [1]) = Some (Some [2], [1])"
    using get_command_replies [OF i r, of "ReplyString [103]"] g by fastforce
  then show ?thesis using bb_inv_new(2) b by (auto simp: queued_def)
qed

section \<open>Lines that arrive in pieces\<close>

lemma read_lines_partial:
  assumes "read_lines api xs replies s = (True, replies', s')" and "\<not> ss_quit s'"
    and "xs = [] \<or> last xs = 10" and "ys \<noteq> []" and "10 \<notin> set ys"
  shows "read_lines api (xs @ ys) replies s = (True, replies', session_start s')"
  using assms(1-3)
proof (induction api xs replies s rule: read_lines.induct)
  case (1 api xs replies s)
  show ?case
  proof (cases "xs = []")
    case True
    then show ?thesis using 1(2,3) assms(4,5) by (simp add: read_lines.simps [of api "[]"] read_lines.simps [of api ys])
  next
    case ne: False
    let ?n = "length (takeWhile (\<lambda>b. b \<noteq> 10) xs) + 1"
    have ten: "10 \<in> set xs" using ne 1(4) last_in_set [OF ne] by auto
    have nq: "\<not> ss_quit s" using 1(2,3) by (subst (asm) read_lines.simps) auto
    have n: "?n \<le> length xs" using ten by (induction xs) auto
    have tw: "takeWhile (\<lambda>b. b \<noteq> 10) (xs @ ys) = takeWhile (\<lambda>b. b \<noteq> 10) xs" using ten by (simp add: takeWhile_append1)
    obtain r rep r' where step: "ra_feed api (take ?n xs) (ss_reader s) = Some r" "ra_get_reply api r = Some (rep, r')"
      and rest: "read_lines api (drop ?n xs) (replies @ (case rep of Some x \<Rightarrow> [x] | None \<Rightarrow> [])) (s\<lparr>ss_reader := r'\<rparr>) = (True, replies', s')"
      using 1(2) nq ne ten by (subst (asm) read_lines.simps) (auto simp: Let_def split: option.splits)
    have "drop ?n xs = [] \<or> last (drop ?n xs) = 10" using 1(4) ne by (cases "?n < length xs") (auto simp: last_drop)
    then have "read_lines api (drop ?n xs @ ys) (replies @ (case rep of Some x \<Rightarrow> [x] | None \<Rightarrow> [])) (s\<lparr>ss_reader := r'\<rparr>) =
        (True, replies', session_start s')"
      using 1(1) [of ?n r "(rep, r')" rep r'] nq ne ten step rest 1(3) by simp
    then show ?thesis
      using nq ten step n by (subst read_lines.simps) (auto simp: Let_def tw)
  qed
qed

text \<open>
  C36. A piece of a line is lost: when a read ends in bytes that no line feed follows, the parser is fed
  only up to the last line feed, the rest is dropped, and an additional read is started beside the
  usual one. A read without any line feed changes nothing but that two reads are outstanding.
\<close>

theorem partial_line_dropped:
  assumes "ys \<noteq> []" and "10 \<notin> set ys" and "\<not> ss_quit (se_session x)"
  shows "handle_read api c self ys x = Inr (x\<lparr>se_session := (se_session x)\<lparr>ss_reads := ss_reads (se_session x) + 2\<rparr>\<rparr>) \<and>
     (\<forall>xs replies s. read_lines api xs [] (se_session x) = (True, replies, s) \<and> \<not> ss_quit s \<and> (xs = [] \<or> last xs = 10) \<longrightarrow>
        read_lines api (xs @ ys) [] (se_session x) = (True, replies, s\<lparr>ss_reads := ss_reads s + 1\<rparr>))"
proof -
  have "read_lines api ys [] (se_session x) = (True, [], session_start (se_session x))"
    using assms by (simp add: read_lines.simps)
  then have "handle_read api c self ys x = Inr (x\<lparr>se_session := (se_session x)\<lparr>ss_reads := ss_reads (se_session x) + 2\<rparr>\<rparr>)"
    using assms(3) by (simp add: handle_read_def session_start_def)
  moreover have "read_lines api (xs @ ys) [] (se_session x) = (True, replies, s\<lparr>ss_reads := ss_reads s + 1\<rparr>)"
    if "read_lines api xs [] (se_session x) = (True, replies, s)" "\<not> ss_quit s" "xs = [] \<or> last xs = 10" for xs replies s
    using read_lines_partial [OF that assms(1,2)] that(2) by (simp add: session_start_def)
  ultimately show ?thesis by blast
qed

theorem partial_line_dropped_witness:
  "handle_read \<lparr>ra_feed = (\<lambda>_ r. Some r), ra_get_reply = (\<lambda>r. Some (None, r))\<rparr> example_store_codec 0 [42, 51, 13] example_served =
     Inr (example_served\<lparr>se_session := (se_session example_served)\<lparr>ss_reads := 2\<rparr>\<rparr>)"
proof -
  have "\<not> ss_quit (se_session example_served)" "ss_reads (se_session example_served) = 0"
    by (simp_all add: example_served_def RedisSession_new_def)
  then show ?thesis using partial_line_dropped [of "[42, 51, 13]" example_served] by simp
qed

end
