(* ===== verification/Transport.thy ===== *)
theory Transport
  imports Proto Byte_Codec Byte_Buffer
begin

text \<open>
  \<^verbatim>\<open>transport/\<close>: messages to other nodes. \<^verbatim>\<open>ClientSession\<close> and \<^verbatim>\<open>PeerImpl\<close> of \<^verbatim>\<open>peer.cpp\<close> frame a message and queue
  it for the connection, \<^verbatim>\<open>TransportImpl\<close> of \<^verbatim>\<open>transport.cpp\<close> picks the peer, \<^verbatim>\<open>ServerSession\<close> of \<^verbatim>\<open>raft_server.cpp\<close>
  cuts the received stream back into messages. Sockets, timers and addresses belong to boost::asio: the
  completion of an operation is a function here, and the bytes it brings are its argument. msgpack is an argument.
\<close>

section \<open>Frames\<close>

definition TransportTypeStream :: u8 where "TransportTypeStream = 1"
definition TransportTypePipeline :: u8 where "TransportTypePipeline = 3"
definition TransportTypeDebug :: u8 where "TransportTypeDebug = 5"

text \<open>The packed header; \<open>tm_len\<close> is the value behind \<^verbatim>\<open>ntohl\<close>.\<close>

record TransportMeta =
  tm_type :: u8
  tm_len :: u32

definition meta_size :: nat where "meta_size = 5"

definition meta_bytes :: "TransportMeta \<Rightarrow> bytes" where
  "meta_bytes m = tm_type m # be32 (tm_len m)"

definition bytes_meta :: "bytes \<Rightarrow> TransportMeta" where
  "bytes_meta bs = \<lparr>tm_type = bs ! 0, tm_len = un_be32 (drop 1 bs)\<rparr>"

record DebugMessage =
  dm_a :: u32
  dm_b :: u32

definition debug_bytes :: "DebugMessage \<Rightarrow> bytes" where
  "debug_bytes d = le32 (dm_a d) @ le32 (dm_b d)"

definition bytes_debug :: "bytes \<Rightarrow> DebugMessage" where
  "bytes_debug bs = \<lparr>dm_a = un_le32 (take 4 bs), dm_b = un_le32 (take 4 (drop 4 bs))\<rparr>"

section \<open>The sending side\<close>

text \<open>\<open>cs_write\<close> is the length of the write under way.\<close>

record ClientSession =
  cs_buffer :: ByteBuffer
  cs_connected :: bool
  cs_write :: "nat option"

definition ClientSession_new :: ClientSession where
  "ClientSession_new = \<lparr>cs_buffer = ByteBuffer_new, cs_connected = False, cs_write = None\<rparr>"

definition start_write :: "ClientSession \<Rightarrow> fault + ClientSession" where
  "start_write cs =
     (if \<not> readable (cs_buffer cs) then Inr cs
      else bind_r (readable_bytes (cs_buffer cs)) (\<lambda>remaining. Inr (cs\<lparr>cs_write := Some (unat remaining)\<rparr>)))"

definition cs_send :: "u8 \<Rightarrow> bytes \<Rightarrow> u32 \<Rightarrow> ClientSession \<Rightarrow> fault + ClientSession" where
  "cs_send transport_type data len cs =
     bind_r (readable_bytes (cs_buffer cs)) (\<lambda>remaining.
     bind_r (bb_put (meta_bytes \<lparr>tm_type = transport_type, tm_len = len\<rparr>) (of_nat meta_size) (cs_buffer cs)) (\<lambda>b.
     bind_r (bb_put data len b) (\<lambda>b.
     bind_r (readable_bytes b) (\<lambda>now.
     bind_r (guard_r (unat remaining + meta_size + unat len = unat now)
               (Assert ''remaining + sizeof(TransportMeta) + len == buffer_.readable_bytes()'')) (\<lambda>_.
     let cs = cs\<lparr>cs_buffer := b\<rparr> in
     if cs_connected cs \<and> remaining = 0 then start_write cs else Inr cs)))))"

text \<open>\<open>pe_connects\<close> counts the connection attempts under way. \<^verbatim>\<open>close_session\<close> drops the session.\<close>

record Peer =
  pe_session :: "ClientSession option"
  pe_connects :: nat

definition close_session :: "Peer \<Rightarrow> Peer" where
  "close_session p = p\<lparr>pe_session := None\<rparr>"

definition start_connect :: "Peer \<Rightarrow> Peer" where
  "start_connect p = p\<lparr>pe_connects := pe_connects p + 1\<rparr>"

definition on_connected :: "bool \<Rightarrow> ClientSession \<Rightarrow> Peer \<Rightarrow> fault + Peer" where
  "on_connected err cs p =
     (let p = p\<lparr>pe_connects := pe_connects p - 1\<rparr> in
      if err then Inr (close_session p)
      else
        let cs = cs\<lparr>cs_connected := True\<rparr> in
        bind_r (if readable (cs_buffer cs) then start_write cs else Inr cs) (\<lambda>cs. Inr (p\<lparr>pe_session := Some cs\<rparr>)))"

definition on_written :: "bool \<Rightarrow> nat \<Rightarrow> ClientSession \<Rightarrow> Peer \<Rightarrow> fault + Peer" where
  "on_written error bytes cs p =
     (let cs = cs\<lparr>cs_write := None\<rparr> in
      if error \<or> bytes = 0 then Inr (close_session p)
      else
        bind_r (read_bytes (of_nat bytes) (cs_buffer cs)) (\<lambda>b.
        bind_r (start_write (cs\<lparr>cs_buffer := b\<rparr>)) (\<lambda>cs. Inr (p\<lparr>pe_session := Some cs\<rparr>))))"

definition do_send_data :: "u8 \<Rightarrow> bytes \<Rightarrow> u32 \<Rightarrow> Peer \<Rightarrow> fault + Peer" where
  "do_send_data type data len p =
     (case pe_session p of
        None \<Rightarrow>
          bind_r (cs_send type data len ClientSession_new) (\<lambda>cs. Inr (start_connect (p\<lparr>pe_session := Some cs\<rparr>)))
      | Some cs \<Rightarrow> bind_r (cs_send type data len cs) (\<lambda>cs. Inr (p\<lparr>pe_session := Some cs\<rparr>)))"

definition peer_send :: "(Message \<Rightarrow> bytes) \<Rightarrow> Message \<Rightarrow> Peer \<Rightarrow> fault + Peer" where
  "peer_send pack msg p =
     (let sbuf = pack msg in do_send_data TransportTypeStream sbuf (of_nat (length sbuf)) p)"

text \<open>One run of the timer body; the counter \<^verbatim>\<open>tick\<close> is shared by all peers.\<close>

definition peer_timer :: "u32 \<Rightarrow> Peer \<Rightarrow> fault + (u32 \<times> Peer)" where
  "peer_timer tick p =
     bind_r (do_send_data TransportTypeDebug (debug_bytes \<lparr>dm_a = tick, dm_b = tick + 1\<rparr>) 8 p) (\<lambda>p. Inr (tick + 2, p))"

record TransportImpl =
  tr_peers :: "(u64, Peer) umap"
  tr_tick :: u32

definition add_peer :: "u64 \<Rightarrow> TransportImpl \<Rightarrow> fault + TransportImpl" where
  "add_peer i t =
     (case map_of (tr_peers t) i of
        Some _ \<Rightarrow> Inr t
      | None \<Rightarrow>
          bind_r (peer_timer (tr_tick t) \<lparr>pe_session = None, pe_connects = 0\<rparr>) (\<lambda>(tick, p).
          Inr (t\<lparr>tr_tick := tick, tr_peers := AList.update i p (tr_peers t)\<rparr>)))"

definition send_one :: "(Message \<Rightarrow> bytes) \<Rightarrow> Message \<Rightarrow> TransportImpl \<Rightarrow> fault + TransportImpl" where
  "send_one pack msg t =
     (if m_to msg = 0 then Inr t
      else case map_of (tr_peers t) (m_to msg) of
        Some p \<Rightarrow> bind_r (peer_send pack msg p) (\<lambda>p. Inr (t\<lparr>tr_peers := AList.update (m_to msg) p (tr_peers t)\<rparr>))
      | None \<Rightarrow> Inr t)"

definition transport_send :: "(Message \<Rightarrow> bytes) \<Rightarrow> Message list \<Rightarrow> TransportImpl \<Rightarrow> fault + TransportImpl" where
  "transport_send pack msgs t = loop_r (send_one pack) msgs t"

section \<open>The receiving side\<close>

text \<open>The read that is outstanding; after a \<^verbatim>\<open>return\<close> without a new one there is none.\<close>

datatype ServerPhase = ReadMeta | ReadMessage | Idle

record ServerSession =
  sv_phase :: ServerPhase
  sv_meta :: TransportMeta

definition start_read_meta :: "ServerSession \<Rightarrow> ServerSession" where
  "start_read_meta s = s\<lparr>sv_phase := ReadMeta, sv_meta := \<lparr>tm_type = 0, tm_len = 0\<rparr>\<rparr>"

definition ServerSession_new :: ServerSession where
  "ServerSession_new = start_read_meta \<lparr>sv_phase = Idle, sv_meta = \<lparr>tm_type = 0, tm_len = 0\<rparr>\<rparr>"

definition on_meta :: "bytes \<Rightarrow> ServerSession \<Rightarrow> ServerSession" where
  "on_meta bs s = s\<lparr>sv_phase := ReadMessage, sv_meta := bytes_meta bs\<rparr>"

definition decode_message :: "(bytes \<Rightarrow> Message option) \<Rightarrow> bytes \<Rightarrow> ServerSession \<Rightarrow> fault + (Message list \<times> ServerSession)" where
  "decode_message unpack bs s =
     (if tm_type (sv_meta s) = TransportTypeDebug then
        bind_r (guard_r (length bs = 8) (Assert ''len == sizeof(DebugMessage)'')) (\<lambda>_.
        bind_r (guard_r (dm_a (bytes_debug bs) + 1 = dm_b (bytes_debug bs)) (Assert ''dbg->a + 1 == dbg->b'')) (\<lambda>_.
        Inr ([], start_read_meta s)))
      else if tm_type (sv_meta s) = TransportTypeStream then
        (case unpack bs of
           None \<Rightarrow> Inr ([], s\<lparr>sv_phase := Idle\<rparr>)
         | Some msg \<Rightarrow> Inr ([msg], start_read_meta s))
      else Inr ([], s\<lparr>sv_phase := Idle\<rparr>))"

text \<open>The completion of \<^verbatim>\<open>start_read_message\<close>; a message of length zero ends the session.\<close>

definition on_message :: "(bytes \<Rightarrow> Message option) \<Rightarrow> bytes \<Rightarrow> ServerSession \<Rightarrow> fault + (Message list \<times> ServerSession)" where
  "on_message unpack bs s =
     (if length bs = 0 then Inr ([], s\<lparr>sv_phase := Idle\<rparr>) else decode_message unpack bs s)"

text \<open>
  The session on a stream: a read completes once all its bytes have arrived. The result is what is handed to
  \<^verbatim>\<open>RaftServer::process\<close>, the session, and the bytes no read has taken.
\<close>

function serve :: "(bytes \<Rightarrow> Message option) \<Rightarrow> ServerSession \<Rightarrow> bytes \<Rightarrow> fault + (Message list \<times> ServerSession \<times> bytes)" where
  "serve unpack s bs =
     (case sv_phase s of
        Idle \<Rightarrow> Inr ([], s, bs)
      | ReadMeta \<Rightarrow>
          if length bs < meta_size then Inr ([], s, bs)
          else serve unpack (on_meta (take meta_size bs) s) (drop meta_size bs)
      | ReadMessage \<Rightarrow>
          let len = unat (tm_len (sv_meta s)) in
          if length bs < len then Inr ([], s, bs)
          else
            bind_r (on_message unpack (take len bs) s) (\<lambda>(out, s).
            bind_r (serve unpack s (drop len bs)) (\<lambda>(outs, s, rest). Inr (out @ outs, s, rest))))"
  by pat_completeness auto
termination
  by (relation "measure (\<lambda>(unpack, s, bs). 3 * length bs + (case sv_phase s of Idle \<Rightarrow> 0 | ReadMessage \<Rightarrow> 1 | ReadMeta \<Rightarrow> 2))")
    (auto simp: meta_size_def on_meta_def on_message_def decode_message_def start_read_meta_def bind_r_eq_Inr
      split: if_splits option.splits ServerPhase.splits)

declare serve.simps [simp del]

section \<open>Queueing\<close>

definition msg_frame :: "(Message \<Rightarrow> bytes) \<Rightarrow> Message \<Rightarrow> bytes" where
  "msg_frame pack m = meta_bytes \<lparr>tm_type = TransportTypeStream, tm_len = of_nat (length (pack m))\<rparr> @ pack m"

lemma length_meta_bytes [simp]: "length (meta_bytes m) = meta_size"
  by (simp add: meta_bytes_def meta_size_def)

lemma unat_length32: "length xs < 4294967296 \<Longrightarrow> unat (of_nat (length xs) :: u32) = length xs"
  by (intro unat_of_nat_small) simp

lemma bb_content_small: "bb_inv b \<Longrightarrow> length (bb_content b) < 4294967296"
  using bb_invD [of b] by (simp add: length_bb_content)

lemma cs_send_ok:
  assumes inv: "bb_inv (cs_buffer cs)" and room: "bb_room (cs_buffer cs) (meta_size + length d + n)"
  shows "\<exists>cs'. cs_send ty d (of_nat (length d)) cs = Inr cs' \<and> bb_inv (cs_buffer cs') \<and> bb_room (cs_buffer cs') n \<and>
     bb_content (cs_buffer cs') = bb_content (cs_buffer cs) @ meta_bytes \<lparr>tm_type = ty, tm_len = of_nat (length d)\<rparr> @ d"
proof -
  let ?b = "cs_buffer cs" and ?m = "meta_bytes \<lparr>tm_type = ty, tm_len = of_nat (length d)\<rparr>"
  obtain b2 where L: "loop_r (\<lambda>d. bb_put d (of_nat (length d))) [?m, d] ?b = Inr b2" "bb_inv b2"
    "bb_content b2 = bb_content ?b @ ?m @ d" "bb_room b2 n"
    using buffer.put_all [OF inv, of "[?m, d]" n] room by auto
  then obtain b1 where b: "bb_put ?m (of_nat meta_size) ?b = Inr b1" "bb_put d (of_nat (length d)) b1 = Inr b2"
    by (auto simp: bind_r_eq_Inr)
  have len: "length (bb_content b2) = length (bb_content ?b) + meta_size + length d" using L(3) by simp
  have d: "length d < 4294967296" using bb_content_small [OF L(2)] len by simp
  have g: "unat (of_nat (length (bb_content ?b)) :: u32) + meta_size + unat (of_nat (length d) :: u32) =
      unat (of_nat (length (bb_content b2)) :: u32)"
    using unat_length32 [OF bb_content_small [OF inv]] unat_length32 [OF bb_content_small [OF L(2)]] unat_length32 [OF d] len by simp
  let ?cs = "cs\<lparr>cs_buffer := b2\<rparr>"
  have "cs_send ty d (of_nat (length d)) cs =
      (if cs_connected ?cs \<and> (of_nat (length (bb_content ?b)) :: u32) = 0 then start_write ?cs else Inr ?cs)"
    by (simp add: cs_send_def readable_bytes_ok [OF inv] b readable_bytes_ok [OF L(2)] g Let_def)
  moreover have "\<exists>cs'. start_write ?cs = Inr cs' \<and> cs_buffer cs' = b2"
    by (simp add: start_write_def readable_bytes_ok [OF L(2)])
  ultimately show ?thesis using L by fastforce
qed

text \<open>What waits for a peer, and that it has room for \<open>n\<close> more bytes.\<close>

definition peer_content :: "Peer \<Rightarrow> bytes" where
  "peer_content p = (case pe_session p of None \<Rightarrow> [] | Some cs \<Rightarrow> bb_content (cs_buffer cs))"

definition peer_room :: "Peer \<Rightarrow> nat \<Rightarrow> bool" where
  "peer_room p n \<longleftrightarrow> (case pe_session p of None \<Rightarrow> bb_room ByteBuffer_new n | Some cs \<Rightarrow> bb_inv (cs_buffer cs) \<and> bb_room (cs_buffer cs) n)"

lemma peer_room_less: "peer_room p n \<Longrightarrow> m \<le> n \<Longrightarrow> peer_room p m"
  using buffer.room_less by (auto simp: peer_room_def split: option.splits)

lemma peer_send_ok:
  assumes "peer_room p (length (msg_frame pack m) + n)"
  shows "\<exists>p'. peer_send pack m p = Inr p' \<and> peer_room p' n \<and> peer_content p' = peer_content p @ msg_frame pack m"
proof -
  define cs where "cs = (case pe_session p of None \<Rightarrow> ClientSession_new | Some cs \<Rightarrow> cs)"
  have cs: "bb_inv (cs_buffer cs)" "bb_room (cs_buffer cs) (meta_size + length (pack m) + n)" "bb_content (cs_buffer cs) = peer_content p"
    using assms by (auto simp: cs_def peer_room_def peer_content_def ClientSession_new_def bb_inv_new msg_frame_def split: option.splits)
  show ?thesis
    using cs_send_ok [OF cs(1,2), of TransportTypeStream] cs(3)
    by (cases "pe_session p")
      (auto simp: cs_def peer_send_def do_send_data_def Let_def peer_room_def peer_content_def start_connect_def msg_frame_def)
qed

lemma add_peer_total: "\<exists>t'. add_peer i t = Inr t'"
proof -
  have len: "length (debug_bytes d) = 8" for d by (simp add: debug_bytes_def le32_def)
  have inv: "bb_inv (cs_buffer ClientSession_new)" by (simp add: ClientSession_new_def bb_inv_new)
  have "bb_room (cs_buffer ClientSession_new) (meta_size + length (debug_bytes d) + 0)" for d
    by (simp add: ClientSession_new_def bb_room_def ByteBuffer_new_def meta_size_def len)
  then have "\<exists>cs. cs_send TransportTypeDebug (debug_bytes d) (of_nat (length (debug_bytes d))) ClientSession_new = Inr cs" for d
    using cs_send_ok [OF inv] by blast
  then obtain cs where "cs_send TransportTypeDebug (debug_bytes \<lparr>dm_a = tr_tick t, dm_b = tr_tick t + 1\<rparr>) 8 ClientSession_new = Inr cs"
    by (metis len of_nat_numeral)
  then show ?thesis by (simp add: add_peer_def peer_timer_def do_send_data_def split: option.splits)
qed

lemma send_one_ok:
  assumes room: "\<forall>i p. map_of (tr_peers t) i = Some p \<longrightarrow> peer_room p (length (msg_frame pack m) + n)"
  shows "\<exists>t'. send_one pack m t = Inr t' \<and> (\<forall>i p. map_of (tr_peers t') i = Some p \<longrightarrow> peer_room p n) \<and>
     (\<forall>i p. i \<noteq> 0 \<longrightarrow> map_of (tr_peers t) i = Some p \<longrightarrow>
       (\<exists>p'. map_of (tr_peers t') i = Some p' \<and> peer_content p' = peer_content p @ (if m_to m = i then msg_frame pack m else [])))"
proof -
  have less: "peer_room p n" if "map_of (tr_peers t) i = Some p" for i p
    by (rule peer_room_less) (use room that in auto)
  show ?thesis
  proof (cases "m_to m = 0 \<or> map_of (tr_peers t) (m_to m) = None")
    case True
    then have "send_one pack m t = Inr t" by (auto simp: send_one_def split: option.splits)
    then show ?thesis using less True by auto
  next
    case False
    then obtain p where p: "map_of (tr_peers t) (m_to m) = Some p" by auto
    obtain p' where p': "peer_send pack m p = Inr p'" "peer_room p' n" "peer_content p' = peer_content p @ msg_frame pack m"
      using peer_send_ok room p by blast
    have "send_one pack m t = Inr (t\<lparr>tr_peers := AList.update (m_to m) p' (tr_peers t)\<rparr>)"
      using False p p'(1) by (simp add: send_one_def)
    then show ?thesis using less p p' by (auto simp: update_conv')
  qed
qed

lemma transport_send_ok:
  assumes "\<forall>i p. map_of (tr_peers t) i = Some p \<longrightarrow> peer_room p (length (concat (map (msg_frame pack) ms)))"
  shows "\<exists>t'. transport_send pack ms t = Inr t' \<and> (\<forall>i p. i \<noteq> 0 \<longrightarrow> map_of (tr_peers t) i = Some p \<longrightarrow>
     (\<exists>p'. map_of (tr_peers t') i = Some p' \<and>
       peer_content p' = peer_content p @ concat (map (msg_frame pack) (filter (\<lambda>m. m_to m = i) ms))))"
  using assms unfolding transport_send_def
proof (induction ms arbitrary: t)
  case (Cons m ms)
  obtain t1 where t1: "send_one pack m t = Inr t1"
    "\<forall>i p. map_of (tr_peers t1) i = Some p \<longrightarrow> peer_room p (length (concat (map (msg_frame pack) ms)))"
    "\<forall>i p. i \<noteq> 0 \<longrightarrow> map_of (tr_peers t) i = Some p \<longrightarrow>
        (\<exists>p'. map_of (tr_peers t1) i = Some p' \<and> peer_content p' = peer_content p @ (if m_to m = i then msg_frame pack m else []))"
    using send_one_ok [of t pack m "length (concat (map (msg_frame pack) ms))"] Cons.prems by auto
  obtain t' where t': "loop_r (send_one pack) ms t1 = Inr t'" "\<forall>i p. i \<noteq> 0 \<longrightarrow> map_of (tr_peers t1) i = Some p \<longrightarrow>
     (\<exists>p'. map_of (tr_peers t') i = Some p' \<and>
       peer_content p' = peer_content p @ concat (map (msg_frame pack) (filter (\<lambda>m. m_to m = i) ms)))"
    using Cons.IH [OF t1(2)] by blast
  have "\<exists>p'. map_of (tr_peers t') i = Some p' \<and>
       peer_content p' = peer_content p @ concat (map (msg_frame pack) (filter (\<lambda>m. m_to m = i) (m # ms)))"
    if i: "i \<noteq> 0" "map_of (tr_peers t) i = Some p" for i p
  proof -
    from t1(3) i obtain p1 where p1: "map_of (tr_peers t1) i = Some p1"
      "peer_content p1 = peer_content p @ (if m_to m = i then msg_frame pack m else [])" by blast
    from t'(2) i(1) p1 show ?thesis by fastforce
  qed
  with t1(1) t'(1) show ?case by simp
qed simp

section \<open>Cutting the stream\<close>

definition sendable :: "(Message \<Rightarrow> bytes) \<Rightarrow> (bytes \<Rightarrow> Message option) \<Rightarrow> Message \<Rightarrow> bool" where
  "sendable pack unpack m \<longleftrightarrow> 0 < length (pack m) \<and> length (pack m) < 2 ^ 32 \<and> unpack (pack m) = Some m"

lemma bytes_meta_bytes [simp]: "bytes_meta (meta_bytes m) = m"
  by (simp add: bytes_meta_def meta_bytes_def)

lemma serve_frame:
  assumes "sendable pack unpack m"
  shows "serve unpack ServerSession_new (msg_frame pack m @ rest) =
     bind_r (serve unpack ServerSession_new rest) (\<lambda>(outs, s, rest). Inr (m # outs, s, rest))"
proof -
  let ?s = "on_meta (meta_bytes \<lparr>tm_type = TransportTypeStream, tm_len = of_nat (length (pack m))\<rparr>) ServerSession_new"
  have len: "unat (of_nat (length (pack m)) :: u32) = length (pack m)"
    using assms by (intro unat_length32) (simp add: sendable_def)
  have "serve unpack ServerSession_new (msg_frame pack m @ rest) = serve unpack ?s (pack m @ rest)"
    by (subst serve.simps) (simp add: ServerSession_new_def start_read_meta_def msg_frame_def)
  also have "\<dots> = bind_r (serve unpack ServerSession_new rest) (\<lambda>(outs, s, rest). Inr (m # outs, s, rest))"
    using assms len
    by (subst serve.simps)
      (simp add: on_meta_def ServerSession_new_def on_message_def decode_message_def sendable_def start_read_meta_def
        TransportTypeDebug_def TransportTypeStream_def split_beta')
  finally show ?thesis .
qed

lemma serve_part:
  assumes "sendable pack unpack m" and "k < length (msg_frame pack m)"
  shows "\<exists>s rest. serve unpack ServerSession_new (take k (msg_frame pack m)) = Inr ([], s, rest)"
proof (cases "k < meta_size")
  case True
  then show ?thesis using assms(2) by (subst serve.simps) (simp add: ServerSession_new_def start_read_meta_def min_def)
next
  case False
  let ?s = "on_meta (meta_bytes \<lparr>tm_type = TransportTypeStream, tm_len = of_nat (length (pack m))\<rparr>) ServerSession_new"
  have len: "unat (of_nat (length (pack m)) :: u32) = length (pack m)"
    using assms by (intro unat_length32) (simp add: sendable_def)
  have "serve unpack ServerSession_new (take k (msg_frame pack m)) = serve unpack ?s (take (k - meta_size) (pack m))"
    using False by (subst serve.simps) (simp add: ServerSession_new_def start_read_meta_def msg_frame_def)
  also have "\<dots> = Inr ([], ?s, take (k - meta_size) (pack m))"
  proof -
    have "k - meta_size < length (pack m)" using assms(2) False by (simp add: msg_frame_def)
    then show ?thesis using len by (subst serve.simps) (simp add: on_meta_def Let_def)
  qed
  finally show ?thesis by blast
qed

lemma serve_frames:
  assumes "\<forall>m \<in> set ms. sendable pack unpack m" and "\<exists>s rest. serve unpack ServerSession_new tail = Inr ([], s, rest)"
  shows "\<exists>s rest. serve unpack ServerSession_new (concat (map (msg_frame pack) ms) @ tail) = Inr (ms, s, rest)"
  using assms(1)
proof (induction ms)
  case (Cons m ms)
  then show ?case using serve_frame [of pack unpack m "concat (map (msg_frame pack) ms) @ tail"] by auto
qed (use assms(2) in simp)

lemma serve_prefix:
  assumes "\<forall>m \<in> set ms. sendable pack unpack m"
  shows "\<exists>j \<le> length ms. \<exists>s rest. serve unpack ServerSession_new (take n (concat (map (msg_frame pack) ms))) = Inr (take j ms, s, rest) \<and>
     (length (concat (map (msg_frame pack) ms)) \<le> n \<longrightarrow> j = length ms)"
proof -
  obtain j k where j: "j \<le> length ms" and t: "take n (concat (map (msg_frame pack) ms)) =
      concat (map (msg_frame pack) (take j ms)) @ (if j < length ms then take k (msg_frame pack (ms ! j)) else [])"
    and k: "j < length ms \<longrightarrow> k < length (msg_frame pack (ms ! j))"
    using take_concat_blocks by blast
  have e: "\<exists>s rest. serve unpack ServerSession_new [] = Inr ([], s, rest)"
    by (subst serve.simps) (simp add: ServerSession_new_def start_read_meta_def meta_size_def)
  have "\<exists>s rest. serve unpack ServerSession_new (if j < length ms then take k (msg_frame pack (ms ! j)) else []) = Inr ([], s, rest)"
    using assms k e serve_part [of pack unpack "ms ! j" k] by auto
  then have s: "\<exists>s rest. serve unpack ServerSession_new (take n (concat (map (msg_frame pack) ms))) = Inr (take j ms, s, rest)"
    unfolding t using assms by (intro serve_frames) (auto dest: in_set_takeD)
  show ?thesis
  proof (cases "length (concat (map (msg_frame pack) ms)) \<le> n")
    case True
    then show ?thesis using serve_frames [OF assms e] by auto
  next
    case False
    then show ?thesis using s j by blast
  qed
qed

text \<open>
  Messages arrive: sending a list of messages succeeds, and a peer to which nothing was queued gets exactly
  the messages addressed to it, in order: whatever prefix of the queued bytes has reached the
  other side, its session delivers a prefix of these messages, and all of them once all bytes are there.
\<close>

lemma transport_round_trip:
  assumes "\<forall>i p. map_of (tr_peers t) i = Some p \<longrightarrow> peer_room p (length (concat (map (msg_frame pack) ms)))"
    and "\<forall>m \<in> set ms. sendable pack unpack m" and "to \<noteq> 0" and "map_of (tr_peers t) to = Some p" and "peer_content p = []"
  shows "\<exists>t' p'. transport_send pack ms t = Inr t' \<and> map_of (tr_peers t') to = Some p' \<and>
     (\<forall>n. \<exists>j s rest. serve unpack ServerSession_new (take n (peer_content p')) = Inr (take j (filter (\<lambda>m. m_to m = to) ms), s, rest) \<and>
        (length (peer_content p') \<le> n \<longrightarrow> take j (filter (\<lambda>m. m_to m = to) ms) = filter (\<lambda>m. m_to m = to) ms))"
proof -
  let ?ms = "filter (\<lambda>m. m_to m = to) ms"
  obtain t' p' where t': "transport_send pack ms t = Inr t'" "map_of (tr_peers t') to = Some p'"
    "peer_content p' = concat (map (msg_frame pack) ?ms)"
    using transport_send_ok [OF assms(1)] assms(3-5) by fastforce
  have "\<forall>m \<in> set ?ms. sendable pack unpack m" using assms(2) by simp
  from serve_prefix [OF this] t' show ?thesis by (metis order_refl take_all)
qed

definition example_messages :: "Message list" where
  "example_messages = [Message_default\<lparr>m_to := 2, m_term := 5\<rparr>, Message_default\<lparr>m_to := 3\<rparr>, Message_default\<lparr>m_to := 2, m_term := 6\<rparr>]"

definition example_transport :: TransportImpl where
  "example_transport = \<lparr>tr_peers = [(2, \<lparr>pe_session = None, pe_connects = 0\<rparr>)], tr_tick = 0\<rparr>"

definition example_pack :: "Message \<Rightarrow> bytes" where
  "example_pack m = [ucast (m_to m), ucast (m_term m)]"

definition example_unpack :: "bytes \<Rightarrow> Message option" where
  "example_unpack bs = (if length bs = 2 then Some (Message_default\<lparr>m_to := ucast (bs ! 0), m_term := ucast (bs ! 1)\<rparr>) else None)"

end
