(* ===== verification/Server.thy ===== *)
theory Server
  imports Raw_Node Snapshotter Redis_Session Transport
begin

text \<open>
  \<^verbatim>\<open>RaftNode\<close> of \<^verbatim>\<open>server/raft_node\<close>: the server that drives the consensus core, saves what it has to in the write-ahead
  log, the snapshot files and the storage, hands messages to the transport and committed entries to
  the store. All of it runs in one thread. What is posted to the store's thread is applied at once: its queue
  is first in, first out, and the server reads nothing back from it but the snapshot, for which it waits.
  \<^verbatim>\<open>transport_->send\<close> posts too; \<open>nd_outbox\<close> collects the messages. The storage is shared with the core: it is
  the storage of the node's log. Codecs, the file system's answers and random numbers are the environment.
\<close>

section \<open>State\<close>

record Server_Env =
  sx_wal :: Wal_Codec
  sx_snap :: Snap_Codec
  sx_store :: Store_Codec
  sx_pack_cc :: "ConfChange \<Rightarrow> bytes"
  sx_unpack_cc :: "bytes \<Rightarrow> ConfChange option"
  sx_ext :: "string \<Rightarrow> string"
  sx_disk :: "string \<Rightarrow> nat option"
  sx_pos :: "string \<Rightarrow> int"
  sx_seq :: "nat \<Rightarrow> u32"

record RaftNode =
  nd_id :: u64
  nd_peers :: "string list"
  nd_last_index :: u64
  nd_conf_state :: ConfState
  nd_snapshot_index :: u64
  nd_applied_index :: u64
  nd_node :: RawNode
  nd_transport :: TransportImpl
  nd_redis_server :: "nat RedisStore option"
  nd_snap_data :: bytes
  nd_snap_dir :: string
  nd_snap_count :: u64
  nd_snaps :: directory
  nd_wal :: WAL
  nd_outbox :: "Message list"
  nd_replies :: "(nat \<times> Status) list"

definition defaultSnapCount :: u64 where "defaultSnapCount = 100000"
definition snapshotCatchUpEntriesN :: u64 where "snapshotCatchUpEntriesN = 100000"

definition nd_storage :: "RaftNode \<Rightarrow> MemoryStorage" where
  "nd_storage f = rl_storage (rn_log (nd_node f))"

definition set_storage :: "MemoryStorage \<Rightarrow> RaftNode \<Rightarrow> RaftNode" where
  "set_storage s f = f\<lparr>nd_node := with_storage s (nd_node f)\<rparr>"

text \<open>A call into the store; what it replies is collected.\<close>

definition on_store :: "(nat RedisStore \<Rightarrow> fault + (nat RedisStore \<times> (nat \<times> Status) list)) \<Rightarrow> RaftNode \<Rightarrow> fault + RaftNode" where
  "on_store g f =
     bind_r (deref_r (nd_redis_server f)) (\<lambda>s.
     bind_r (g s) (\<lambda>(s, replies). Inr (f\<lparr>nd_redis_server := Some s, nd_replies := nd_replies f @ replies\<rparr>)))"

section \<open>Start\<close>

text \<open>What \<^verbatim>\<open>replay_WAL\<close> leaves in the members; \<open>rx_ents\<close> is its local vector of entries.\<close>

record Replayed =
  rx_storage :: MemoryStorage
  rx_snaps :: directory
  rx_wal :: WAL
  rx_ents :: "Entry list"
  rx_last_index :: u64
  rx_snap_data :: bytes

text \<open>\<open>walo\<close> is the directory of the write-ahead log, if it exists.\<close>

definition open_WAL :: "Server_Env \<Rightarrow> directory option \<Rightarrow> Snapshot \<Rightarrow> fault + WAL" where
  "open_WAL env walo snap =
     bind_r (case walo of None \<Rightarrow> wal_create (sx_wal env) (sx_pos env (wal_name 0 0)) [] | Some dir \<Rightarrow> Inr dir) (\<lambda>dir.
     wal_open (sx_ext env) (sx_pos env) dir \<lparr>ws_index = sm_index (s_metadata snap), ws_term = sm_term (s_metadata snap)\<rparr>)"

text \<open>An entry pointer that is null is dereferenced by the storage.\<close>

primrec deref_all :: "'a option list \<Rightarrow> fault + 'a list" where
  "deref_all [] = Inr []"
| "deref_all (p # ps) = bind_r (deref_r p) (\<lambda>x. bind_r (deref_all ps) (\<lambda>xs. Inr (x # xs)))"

definition replay_WAL :: "Server_Env \<Rightarrow> string \<Rightarrow> directory \<Rightarrow> directory option \<Rightarrow> MemoryStorage \<Rightarrow> fault + Replayed" where
  "replay_WAL env dir snaps walo storage =
     bind_r (snap_load (sx_ext env) (sx_snap env) dir snaps) (\<lambda>(status, loaded, snaps).
     bind_r (if \<not> is_ok status
             then if is_not_found status then Inr (Snapshot_default, storage) else Inl (Fatal ''error loading snapshot'')
             else (case loaded of
                     Some snapshot \<Rightarrow> Inr (snapshot, snd (ms_apply_snapshot snapshot storage))
                   | None \<Rightarrow> Inr (Snapshot_default, snd (ms_apply_snapshot Snapshot_default storage)))) (\<lambda>(snapshot, storage).
     bind_r (open_WAL env walo snapshot) (\<lambda>wal.
     bind_r (wal_read_all (sx_wal env) HardState_default [] wal) (\<lambda>(hs, ptrs, wal).
     bind_r (deref_all ptrs) (\<lambda>ents.
     bind_r (ms_append ents (ms_set_hard_state hs storage)) (\<lambda>(_, storage).
     Inr \<lparr>rx_storage = storage, rx_snaps = snaps, rx_wal = wal, rx_ents = ents,
          rx_last_index = (if ents \<noteq> [] then e_index (last ents) else 0),
          rx_snap_data = (if ents \<noteq> [] then [] else s_data snapshot)\<rparr>))))))"

definition server_config :: "u64 \<Rightarrow> MemoryStorage \<Rightarrow> Config" where
  "server_config i storage = Config_default\<lparr>c_id := i, c_election_tick := 10, c_heartbeat_tick := 1,
     c_storage := Some storage, c_applied := 0, c_max_size_per_msg := 1024 * 1024,
     c_max_committed_size_per_ready := 0, c_max_uncommitted_entries_size := push_bit 30 1,
     c_max_inflight_msgs := 256, c_check_quorum := True, c_pre_vote := True,
     c_read_only_option := ReadOnlySafe, c_disable_proposal_forwarding := False\<rparr>"

definition snap_dir_of :: "u64 \<Rightarrow> string" where
  "snap_dir_of i = ''node_'' @ map (\<lambda>b. char_of (unat b)) (decimal (unat i)) @ ''/snap''"

text \<open>The constructor, with the peers behind \<^verbatim>\<open>boost::split\<close>.\<close>

definition RaftNode_new :: "Server_Env \<Rightarrow> u64 \<Rightarrow> string list \<Rightarrow> directory \<Rightarrow> directory option \<Rightarrow> fault + RaftNode" where
  "RaftNode_new env i peers snaps walo =
     (if peers = [] then Inl (Fatal ''invalid args'')
      else
        bind_r (replay_WAL env (snap_dir_of i) snaps walo MemoryStorage_new) (\<lambda>rx.
        case validate (server_config i (rx_storage rx)) of (status, c) \<Rightarrow>
        if \<not> is_ok status then Inl (Fatal ''invalid configure'')
        else
          bind_r (if walo \<noteq> None then RawNode_restart c (sx_seq env)
                  else RawNode_start (sx_pack_cc env) c (sx_seq env)
                    (map (\<lambda>k. \<lparr>pc_id = of_nat k + 1, pc_context = []\<rparr>) [0..<length peers])) (\<lambda>node.
          Inr \<lparr>nd_id = i, nd_peers = peers, nd_last_index = rx_last_index rx,
               nd_conf_state = \<lparr>cs_nodes = [], cs_learners = []\<rparr>, nd_snapshot_index = 0, nd_applied_index = 0,
               nd_node = node, nd_transport = \<lparr>tr_peers = [], tr_tick = 0\<rparr>, nd_redis_server = None,
               nd_snap_data = rx_snap_data rx, nd_snap_dir = snap_dir_of i, nd_snap_count = defaultSnapCount,
               nd_snaps = rx_snaps rx, nd_wal = rx_wal rx, nd_outbox = [], nd_replies = []\<rparr>)))"

text \<open>\<^verbatim>\<open>schedule\<close> up to the event loop.\<close>

definition schedule :: "Server_Env \<Rightarrow> RaftNode \<Rightarrow> fault + RaftNode" where
  "schedule env f =
     (let snap = ms_snapshot (nd_storage f);
          f = f\<lparr>nd_conf_state := sm_conf_state (s_metadata snap), nd_snapshot_index := sm_index (s_metadata snap),
                nd_applied_index := sm_index (s_metadata snap)\<rparr> in
      bind_r (RedisStore_new (sx_store env) (nd_id f) (nd_snap_data f)) (\<lambda>s.
      Inr (f\<lparr>nd_redis_server := Some s, nd_snap_data := []\<rparr>)))"

definition add_peers :: "RaftNode \<Rightarrow> fault + RaftNode" where
  "add_peers f =
     loop_r (\<lambda>k f. if of_nat k + 1 = nd_id f then Inr f
                   else bind_r (add_peer (of_nat k + 1) (nd_transport f)) (\<lambda>t. Inr (f\<lparr>nd_transport := t\<rparr>)))
       [0..<length (nd_peers f)] f"

definition server_main :: "Server_Env \<Rightarrow> u64 \<Rightarrow> string list \<Rightarrow> directory \<Rightarrow> directory option \<Rightarrow> fault + RaftNode" where
  "server_main env i peers snaps walo =
     bind_r (RaftNode_new env i peers snaps walo) (\<lambda>f.
     bind_r (nth_r (nd_peers f) (unat (i - 1))) (\<lambda>host.
     bind_r (add_peers f) (schedule env)))"

section \<open>Snapshots\<close>

definition server_save_snap :: "Server_Env \<Rightarrow> Snapshot \<Rightarrow> RaftNode \<Rightarrow> fault + (Status \<times> RaftNode)" where
  "server_save_snap env snap f =
     bind_r (save_snapshot (sx_wal env) \<lparr>ws_index = sm_index (s_metadata snap), ws_term = sm_term (s_metadata snap)\<rparr> (nd_wal f)) (\<lambda>wal.
     case save_snap (sx_snap env) (nd_snap_dir f) (sx_disk env) snap (nd_snaps f) of (status, snaps) \<Rightarrow>
     if \<not> is_ok status then Inl (Fatal ''save snapshot error'')
     else Inr (status, f\<lparr>nd_wal := wal, nd_snaps := snaps\<rparr>))"

definition publish_snapshot :: "Server_Env \<Rightarrow> Snapshot \<Rightarrow> RaftNode \<Rightarrow> fault + RaftNode" where
  "publish_snapshot env snap f =
     (if snapshot_is_empty snap then Inr f
      else if sm_index (s_metadata snap) \<le> nd_applied_index f
      then Inl (Fatal ''snapshot index should > progress.appliedIndex'')
      else
        on_store (\<lambda>s. bind_r (recover_from_snapshot (sx_store env) (s_data snap) s) (\<lambda>(status, s).
            if \<not> is_ok status then Inl (Fatal ''recover from snapshot error'') else Inr (s, [])))
          (f\<lparr>nd_conf_state := sm_conf_state (s_metadata snap), nd_snapshot_index := sm_index (s_metadata snap),
             nd_applied_index := sm_index (s_metadata snap)\<rparr>))"

definition maybe_trigger_snapshot :: "Server_Env \<Rightarrow> RaftNode \<Rightarrow> fault + RaftNode" where
  "maybe_trigger_snapshot env f =
     (if nd_applied_index f - nd_snapshot_index f \<le> nd_snap_count f then Inr f
      else
        bind_r (deref_r (nd_redis_server f)) (\<lambda>s.
        bind_r (ms_create_snapshot (nd_applied_index f) (Some (nd_conf_state f)) (get_snapshot (sx_store env) s) (nd_storage f))
          (\<lambda>(status, snap, storage).
        if \<not> is_ok status then Inl (Fatal ''create snapshot error'')
        else
          bind_r (server_save_snap env snap (set_storage storage f)) (\<lambda>(status, f).
          let compactIndex = (if nd_applied_index f > snapshotCatchUpEntriesN
                              then nd_applied_index f - snapshotCatchUpEntriesN else 1) in
          bind_r (ms_compact compactIndex (nd_storage f)) (\<lambda>(status, storage).
          if \<not> is_ok status then Inl (Fatal ''compact error'')
          else Inr (set_storage storage (f\<lparr>nd_snapshot_index := nd_applied_index f\<rparr>)))))))"

section \<open>Committed entries\<close>

definition entries_to_apply :: "Entry list \<Rightarrow> RaftNode \<Rightarrow> fault + Entry list" where
  "entries_to_apply entries f =
     (if entries = [] then Inr []
      else
        let first = e_index (entries ! 0) in
        if first > nd_applied_index f + 1 then Inl (Fatal ''first index of committed entry should <= progress.appliedIndex + 1'')
        else if nd_applied_index f - first + 1 < of_nat (length entries)
        then Inr (drop (unat (nd_applied_index f - first + 1)) entries)
        else Inr [])"

text \<open>\<^verbatim>\<open>continue\<close> skips the update of the applied index, \<^verbatim>\<open>return false\<close> the rest.\<close>

primrec publish_entries :: "Server_Env \<Rightarrow> Entry list \<Rightarrow> RaftNode \<Rightarrow> fault + (bool \<times> RaftNode)" where
  "publish_entries env [] f = Inr (True, f)"
| "publish_entries env (entry # entries) f =
     (case e_type entry of
        EntryNormal \<Rightarrow>
          bind_r (if e_data entry = [] then Inr f else on_store (read_commit (sx_store env) entry) f) (\<lambda>f.
          publish_entries env entries (f\<lparr>nd_applied_index := e_index entry\<rparr>))
      | EntryConfChange \<Rightarrow>
          (case sx_unpack_cc env (e_data entry) of
             None \<Rightarrow> publish_entries env entries f
           | Some cc \<Rightarrow>
               bind_r (rn_apply_conf_change cc (nd_node f)) (\<lambda>(cs, node).
               let f = f\<lparr>nd_conf_state := cs, nd_node := node\<rparr> in
               case cc_type cc of
                 ConfChangeAddNode \<Rightarrow>
                   bind_r (if cc_context cc \<noteq> [] then add_peer (cc_node_id cc) (nd_transport f) else Inr (nd_transport f)) (\<lambda>t.
                   publish_entries env entries (f\<lparr>nd_transport := t, nd_applied_index := e_index entry\<rparr>))
               | ConfChangeRemoveNode \<Rightarrow>
                   if cc_node_id cc = nd_id f then Inr (False, f)
                   else publish_entries env entries (f\<lparr>nd_applied_index := e_index entry\<rparr>)
               | _ \<Rightarrow> publish_entries env entries (f\<lparr>nd_applied_index := e_index entry\<rparr>)))
      | EntryOther _ \<Rightarrow> Inl (Fatal ''unknown type''))"

section \<open>The event loop\<close>

text \<open>The three parts of a turn that change the server's own state.\<close>

definition save_ready_snapshot :: "Server_Env \<Rightarrow> Snapshot \<Rightarrow> RaftNode \<Rightarrow> fault + RaftNode" where
  "save_ready_snapshot env snap f =
     (if \<not> snapshot_is_empty snap
      then
        bind_r (server_save_snap env snap f) (\<lambda>(status, f).
        if \<not> is_ok status then Inl (Fatal ''save snapshot error'')
        else publish_snapshot env snap (set_storage (snd (ms_apply_snapshot snap (nd_storage f))) f))
      else Inr f)"

definition append_ready :: "Entry list \<Rightarrow> RaftNode \<Rightarrow> fault + RaftNode" where
  "append_ready entries f =
     (if entries \<noteq> [] then bind_r (ms_append entries (nd_storage f)) (\<lambda>(_, s). Inr (set_storage s f)) else Inr f)"

definition apply_committed :: "Server_Env \<Rightarrow> Entry list \<Rightarrow> RaftNode \<Rightarrow> fault + RaftNode" where
  "apply_committed env committed f =
     (if committed \<noteq> []
      then
        bind_r (entries_to_apply committed f) (\<lambda>ents.
        if ents \<noteq> [] then bind_r (publish_entries env ents f) (\<lambda>(_, f). Inr f) else Inr f)
      else Inr f)"

text \<open>One turn of the loop of \<^verbatim>\<open>pull_ready_events\<close>; \<open>False\<close> is its \<^verbatim>\<open>return\<close>.\<close>

definition pull_ready_once :: "Server_Env \<Rightarrow> RaftNode \<Rightarrow> fault + (bool \<times> RaftNode)" where
  "pull_ready_once env f =
     bind_r (rn_ready (nd_node f)) (\<lambda>(rd, node).
     let f = f\<lparr>nd_node := node\<rparr> in
     if \<not> contains_updates rd then Inr (False, f)
     else
       bind_r (wal_save (sx_wal env) (rd_hard_state rd) (rd_entries rd) (nd_wal f)) (\<lambda>wal.
       let f = f\<lparr>nd_wal := wal\<rparr> in
       bind_r (save_ready_snapshot env (rd_snapshot rd) f) (\<lambda>f.
       bind_r (append_ready (rd_entries rd) f) (\<lambda>f.
       let f = (if rd_messages rd \<noteq> [] then f\<lparr>nd_outbox := nd_outbox f @ rd_messages rd\<rparr> else f) in
       bind_r (apply_committed env (rd_committed_entries rd) f) (\<lambda>f.
       bind_r (maybe_trigger_snapshot env f) (\<lambda>f.
       bind_r (rn_advance rd (nd_node f)) (\<lambda>node. Inr (True, f\<lparr>nd_node := node\<rparr>))))))))"

text \<open>The loop; not returning is \<open>None\<close>.\<close>

partial_function (option) pull_ready_events :: "Server_Env \<Rightarrow> RaftNode \<Rightarrow> (fault + RaftNode) option" where
  "pull_ready_events env f =
     (if \<not> rn_has_ready (nd_node f) then Some (Inr f)
      else case pull_ready_once env f of
        Inl e \<Rightarrow> Some (Inl e)
      | Inr (again, f) \<Rightarrow> if again then pull_ready_events env f else Some (Inr f))"

declare pull_ready_events.simps [code]

definition on_timer :: "Server_Env \<Rightarrow> RaftNode \<Rightarrow> (fault + RaftNode) option" where
  "on_timer env f =
     (case rn_tick (nd_node f) of
        Inl e \<Rightarrow> Some (Inl e)
      | Inr node \<Rightarrow> pull_ready_events env (f\<lparr>nd_node := node\<rparr>))"

text \<open>\<open>cmd\<close> and \<open>commit_id\<close> say which callback of the store gets the status of the proposal.\<close>

definition server_propose :: "Server_Env \<Rightarrow> Command \<times> u32 \<times> bytes \<Rightarrow> RaftNode \<Rightarrow> (fault + RaftNode) option" where
  "server_propose env req f =
     (case req of (cmd, commit_id, data) \<Rightarrow>
      case bind_r (rn_propose data (nd_node f)) (\<lambda>(status, node).
             on_store (\<lambda>s. Inr (if cmd = Set then set_proposed commit_id status s else del_proposed commit_id status s))
               (f\<lparr>nd_node := node\<rparr>)) of
        Inl e \<Rightarrow> Some (Inl e)
      | Inr f \<Rightarrow> pull_ready_events env f)"

definition server_process :: "Server_Env \<Rightarrow> Message \<Rightarrow> RaftNode \<Rightarrow> (fault + RaftNode) option" where
  "server_process env msg f =
     (case rn_step msg (nd_node f) of
        Inl e \<Rightarrow> Some (Inl e)
      | Inr (_, node) \<Rightarrow> pull_ready_events env (f\<lparr>nd_node := node\<rparr>))"

section \<open>What a restart restores\<close>

lemma loop_r_keeps:
  assumes "loop_r g xs s = Inr s'" and "\<And>x s s'. g x s = Inr s' \<Longrightarrow> h s' = h s"
  shows "h s' = h s"
  using assms(1)
proof (induction xs arbitrary: s)
  case (Cons x xs)
  then show ?case using assms(2) by (auto simp: bind_r_eq_Inr)
qed simp

lemma Raft_new_storage:
  assumes "Raft_new c seq = Inr r"
  shows "Some (rl_storage (r_raft_log r)) = c_storage c"
proof -
  from assms obtain st peers learners r1 r2 r3 where c: "c_storage c = Some st"
    and p: "loop_r init_peer peers (Raft_init c st seq) = Inr r1" and l: "loop_r init_learner learners r1 = Inr r2"
    and h: "(if \<not> is_empty_state (ms_hard st) then load_state (ms_hard st) r2 else Inr r2) = Inr r3"
    and b: "(let q = (if c_applied c > 0 then r3\<lparr>r_raft_log := applied_to (c_applied c) (r_raft_log r3)\<rparr> else r3)
         in become_follower (r_term q) 0 q) = Inr r"
    by (auto simp: Raft_new_def Let_def ms_initial_state_def)
  have "r_raft_log r1 = r_raft_log (Raft_init c st seq)" by (rule loop_r_keeps [OF p]) (auto simp: init_peer_def)
  moreover have "r_raft_log r2 = r_raft_log r1" by (rule loop_r_keeps [OF l]) (auto simp: init_learner_def Let_def split: if_splits)
  moreover have "rl_storage (r_raft_log r3) = rl_storage (r_raft_log r2)" using h by (auto simp: load_state_def split: if_splits)
  moreover have "rl_storage (r_raft_log r) = rl_storage (r_raft_log r3)"
    using b by (auto simp: Let_def applied_to_def split: if_splits dest: become_follower_facts(4))
  ultimately show ?thesis using c by (simp add: Raft_init_def RaftLog_new_def)
qed

lemma validate_storage: "c_storage (snd (validate c)) = c_storage c"
  by (simp add: validate_def Let_def)

text \<open>A node that restarts: its storage and the data for the store are what the replay has left.\<close>

lemma RaftNode_new_restart:
  assumes "RaftNode_new env i peers snaps (Some wal) = Inr f"
  obtains rx where "replay_WAL env (snap_dir_of i) snaps (Some wal) MemoryStorage_new = Inr rx"
    and "nd_storage f = rx_storage rx" and "nd_snap_data f = rx_snap_data rx"
proof -
  obtain rx c node where rx: "replay_WAL env (snap_dir_of i) snaps (Some wal) MemoryStorage_new = Inr rx"
    and c: "c = snd (validate (server_config i (rx_storage rx)))" and n: "RawNode_restart c (sx_seq env) = Inr node"
    and f: "nd_node f = node" "nd_snap_data f = rx_snap_data rx"
    using assms by (auto simp: RaftNode_new_def bind_r_eq_Inr split_beta' split: if_splits)
  obtain r where "Raft_new c (sx_seq env) = Inr r" "rn_raft node = r"
    using n by (auto simp: RawNode_restart_def bind_r_eq_Inr with_prev_def)
  then have "Some (nd_storage f) = c_storage c" using Raft_new_storage f(1) by (simp add: nd_storage_def)
  then have "nd_storage f = rx_storage rx" by (simp add: c validate_storage server_config_def)
  then show thesis using that rx f(2) by blast
qed

lemma replay_snap:
  assumes "replay_WAL env dir snaps walo MemoryStorage_new = Inr rx"
    and "snap_load (sx_ext env) (sx_snap env) dir snaps = Inr (OK, Some snap, snaps')" and "0 < sm_index (s_metadata snap)"
  shows "ms_snap (rx_storage rx) = snap" and "rx_snap_data rx = (if rx_ents rx \<noteq> [] then [] else s_data snap)"
proof -
  let ?s = "snd (ms_apply_snapshot snap MemoryStorage_new)"
  have "ms_snap ?s = snap"
    using assms(3) by (simp add: ms_apply_snapshot_def MemoryStorage_new_def Snapshot_default_def not_le)
  moreover obtain hs ents st where "ms_append ents (ms_set_hard_state hs ?s) = Inr (st, rx_storage rx)"
    and "rx_snap_data rx = (if rx_ents rx \<noteq> [] then [] else s_data snap)"
    using assms(1,2) by (auto simp: replay_WAL_def bind_r_eq_Inr is_ok_def)
  ultimately show "ms_snap (rx_storage rx) = snap" "rx_snap_data rx = (if rx_ents rx \<noteq> [] then [] else s_data snap)"
    using ms_append_snap by (fastforce simp: ms_set_hard_state_def)+
qed

text \<open>
  C21. A restart with a snapshot and at least one later entry in the write-ahead log loses the snapshot:
  the applied index starts at the snapshot, so that nothing before it is applied again, but the store starts
  empty. Only when the log holds no later entry does the store start with the contents of the snapshot.
\<close>

theorem restart_loses_snapshot:
  assumes main: "server_main env i peers snaps (Some wal) = Inr f"
    and rx: "replay_WAL env (snap_dir_of i) snaps (Some wal) MemoryStorage_new = Inr rx"
    and load: "snap_load (sx_ext env) (sx_snap env) (snap_dir_of i) snaps = Inr (OK, Some snap, snaps')"
    and pos: "0 < sm_index (s_metadata snap)"
  shows "nd_applied_index f = sm_index (s_metadata snap) \<and>
     (\<exists>s. nd_redis_server f = Some s \<and> (rx_ents rx \<noteq> [] \<longrightarrow> rs_key_values s = []) \<and>
       (\<forall>kv. rx_ents rx = [] \<and> s_data snap \<noteq> [] \<and> sc_unpack_kv (sx_store env) (s_data snap) = Unpacked kv \<longrightarrow> rs_key_values s = kv))"
proof -
  obtain f0 f1 where f: "RaftNode_new env i peers snaps (Some wal) = Inr f0" "add_peers f0 = Inr f1" "schedule env f1 = Inr f"
    using main by (auto simp: server_main_def bind_r_eq_Inr)
  have keep: "(nd_node f1, nd_snap_data f1) = (nd_node f0, nd_snap_data f0)"
    using f(2) unfolding add_peers_def by (rule loop_r_keeps) (auto simp: bind_r_eq_Inr split: if_splits)
  have s: "nd_storage f1 = rx_storage rx" "nd_snap_data f1 = rx_snap_data rx"
    using RaftNode_new_restart [OF f(1)] rx keep by (auto simp: nd_storage_def)
  note R = replay_snap [OF rx load pos]
  show ?thesis
    using f(3) R s by (auto simp: schedule_def Let_def ms_snapshot_def RedisStore_new_def bind_r_eq_Inr split: if_splits)
qed

definition example_env :: Server_Env where
  "example_env = \<lparr>sx_wal = example_codec,
     sx_snap = \<lparr>sc_crc = (\<lambda>d. of_nat (length d)), sc_pack = (\<lambda>s. ucast (sm_index (s_metadata s)) # s_data s),
       sc_unpack = (\<lambda>d. Some \<lparr>s_data = tl d, s_metadata = \<lparr>sm_conf_state = \<lparr>cs_nodes = [1], cs_learners = []\<rparr>, sm_index = ucast (hd d), sm_term = 0\<rparr>\<rparr>)\<rparr>,
     sx_store = example_store_codec, sx_pack_cc = (\<lambda>_. []), sx_unpack_cc = (\<lambda>_. None), sx_ext = dot_suffix,
     sx_disk = (\<lambda>_. Some 1000), sx_pos = (\<lambda>_. 0), sx_seq = (\<lambda>_. 3)\<rparr>"

definition example_snap_5 :: Snapshot where
  "example_snap_5 = \<lparr>s_data = [1, 65, 1, 7], s_metadata = \<lparr>sm_conf_state = \<lparr>cs_nodes = [1], cs_learners = []\<rparr>, sm_index = 5, sm_term = 0\<rparr>\<rparr>"

definition example_snaps :: directory where
  "example_snaps = [(snap_path (snap_dir_of 1) (snap_name 0 5), snap_record (sx_snap example_env) example_snap_5)]"

definition example_wal_dir :: directory where
  "example_wal_dir = [(wal_name 0 0, concat (map (frame example_codec) [(wal_snapshot_Type, [5, 0]), (wal_EntryType, [6, 1])]))]"


definition example_rx :: Replayed where
  "example_rx = \<lparr>rx_storage = snd (projr (ms_append [example_entry 6 1] (snd (ms_apply_snapshot example_snap_5 MemoryStorage_new)))),
     rx_snaps = example_snaps,
     rx_wal = \<lparr>w_state = HardState_default, w_start = \<lparr>ws_index = 5, ws_term = 0\<rparr>, w_enti = 6,
       w_files = [\<lparr>wf_buffer = [], wf_seq = 0, wf_size = 0, wf_stream = snd (hd example_wal_dir)\<rparr>]\<rparr>,
     rx_ents = [example_entry 6 1], rx_last_index = 6, rx_snap_data = []\<rparr>"

lemma example_snap_names: "get_snap_names dot_suffix (snap_dir_of 1) example_snaps = [snap_name 0 5]"
  using snap_name_chars(1) [of 0 5] snap_name_chars(2) [OF dot_suffix_law, of 0 5]
  by (simp add: get_snap_names_def example_snaps_def snap_path_def)

lemma example_load:
  "snap_load dot_suffix (sx_snap example_env) (snap_dir_of 1) example_snaps = Inr (OK, Some example_snap_5, example_snaps)"
proof -
  have "decode_snap (sx_snap example_env) (snap_record (sx_snap example_env) example_snap_5) = Some example_snap_5" by code_simp
  then show ?thesis by (simp add: snap_load_def example_snap_names load_snap_def is_ok_def) (simp add: example_snaps_def)
qed

lemma example_open:
  "wal_open dot_suffix (\<lambda>_. 0) example_wal_dir \<lparr>ws_index = 5, ws_term = 0\<rparr> =
     Inr \<lparr>w_state = HardState_default, w_start = \<lparr>ws_index = 5, ws_term = 0\<rparr>, w_enti = 0,
       w_files = [\<lparr>wf_buffer = [], wf_seq = 0, wf_size = 0, wf_stream = snd (hd example_wal_dir)\<rparr>]\<rparr>"
proof -
  note p = wal_name_parses [OF dot_suffix_law, of 0 0]
  have "dot_suffix (wal_name 0 0) = ''.wal''" using p by (auto simp: parse_wal_name_def split: if_splits)
  then have "get_wal_names dot_suffix example_wal_dir = [wal_name 0 0]" by (simp add: get_wal_names_def example_wal_dir_def)
  then show ?thesis using p
    by (simp add: wal_open_def search_index_def search_index_loop.simps is_valid_seq_def nth_r_def WAL_File_new_def Let_def)
      (simp add: example_wal_dir_def)
qed

lemma example_replayed: "replay_WAL example_env (snap_dir_of 1) example_snaps (Some example_wal_dir) MemoryStorage_new = Inr example_rx"
proof -
  let ?f = "\<lparr>wf_buffer = [], wf_seq = 0, wf_size = 0, wf_stream = snd (hd example_wal_dir)\<rparr>"
  let ?w = "\<lparr>w_state = HardState_default, w_start = \<lparr>ws_index = 5, ws_term = 0\<rparr>, w_enti = 0, w_files = [?f]\<rparr>"
  have r: "wal_read_all example_codec HardState_default [] ?w = Inr (HardState_default, [Some (example_entry 6 1)], ?w\<lparr>w_enti := 6\<rparr>)"
    by code_simp
  have a: "\<not> isl (ms_append [example_entry 6 1] (snd (ms_apply_snapshot example_snap_5 MemoryStorage_new)))" by code_simp
  have h: "ms_set_hard_state HardState_default (snd (ms_apply_snapshot example_snap_5 MemoryStorage_new)) = snd (ms_apply_snapshot example_snap_5 MemoryStorage_new)"
    by code_simp
  have e: "sx_ext example_env = dot_suffix" "sx_pos example_env = (\<lambda>_. 0)" "sx_wal example_env = example_codec" by (simp_all add: example_env_def)
  have s: "sm_index (s_metadata example_snap_5) = 5" "sm_term (s_metadata example_snap_5) = 0" by code_simp+
  obtain st x where "ms_append [example_entry 6 1] (snd (ms_apply_snapshot example_snap_5 MemoryStorage_new)) = Inr (st, x)"
    using a by (cases "ms_append [example_entry 6 1] (snd (ms_apply_snapshot example_snap_5 MemoryStorage_new))") auto
  moreover have "e_index (example_entry 6 1) = 6" by (simp add: example_entry_def)
  ultimately show ?thesis using r h
    by (simp add: replay_WAL_def e example_load is_ok_def open_WAL_def s example_open example_rx_def)
qed

theorem restart_loses_snapshot_witness:
  "\<exists>f s. server_main example_env 1 [''a''] example_snaps (Some example_wal_dir) = Inr f \<and> nd_applied_index f = 5 \<and>
     nd_redis_server f = Some s \<and> rs_key_values s = [] \<and>
     sc_unpack_kv (sx_store example_env) (s_data example_snap_5) = Unpacked [([65], [7])]"
proof -
  let ?m = "server_main example_env 1 [''a''] example_snaps (Some example_wal_dir)"
  let ?v = "validate (server_config 1 (rx_storage example_rx))"
  have v: "is_ok (fst ?v)" by code_simp
  have "\<not> isl (RawNode_restart (snd ?v) (sx_seq example_env))" by code_simp
  then obtain node where n: "RawNode_restart (snd ?v) (sx_seq example_env) = Inr node" by (auto dest: Inr_projr)
  have d: "rx_snap_data example_rx = []" by (simp add: example_rx_def)
  have "\<exists>f. ?m = Inr f"
    using v n by (simp add: server_main_def RaftNode_new_def example_replayed split_beta' nth_r_def add_peers_def schedule_def
        RedisStore_new_def Let_def d)
  then obtain f where m: "?m = Inr f" by blast
  have l: "snap_load (sx_ext example_env) (sx_snap example_env) (snap_dir_of 1) example_snaps = Inr (OK, Some example_snap_5, example_snaps)"
    using example_load by (simp add: example_env_def)
  have i: "sm_index (s_metadata example_snap_5) = 5" and ne: "rx_ents example_rx \<noteq> []" by (simp_all add: example_snap_5_def example_rx_def)
  have u: "sc_unpack_kv (sx_store example_env) (s_data example_snap_5) = Unpacked [([65], [7])]" by code_simp
  have "0 < sm_index (s_metadata example_snap_5)" by (simp add: i)
  from restart_loses_snapshot [OF m example_replayed l this] m i ne u show ?thesis by auto
qed

section \<open>Committed entries are applied once\<close>

lemma contiguous_drop_filter: "contiguous n es \<Longrightarrow> drop k es = filter (\<lambda>e. n + k \<le> unat (e_index e)) es"
proof (induction es arbitrary: n k)
  case (Cons e es)
  show ?case
  proof (cases k)
    case 0
    have "filter (\<lambda>x. Suc n \<le> unat (e_index x)) es = es" using Cons.IH [of "Suc n" 0] Cons.prems by simp
    then have "filter (\<lambda>x. n \<le> unat (e_index x)) es = es" by (fastforce simp: filter_id_conv)
    then show ?thesis using 0 Cons.prems by simp
  next
    case (Suc j)
    then show ?thesis using Cons.IH [of "Suc n" j] Cons.prems by simp
  qed
qed simp

lemma entries_to_apply_eq:
  assumes ct: "contiguous n es" and ne: "es \<noteq> []" and n: "n \<le> unat (nd_applied_index f) + 1"
    and len: "n + length es < 2 ^ 64" and a: "unat (nd_applied_index f) < 2 ^ 64 - 1"
  shows "entries_to_apply es f = Inr (filter (\<lambda>e. nd_applied_index f < e_index e) es)"
proof -
  let ?a = "nd_applied_index f" and ?first = "e_index (es ! 0)"
  have first: "unat ?first = n" using contiguous_nth [OF ct, of 0] ne by simp
  have a1: "unat (?a + 1) = unat ?a + 1" using a by (intro unat_succ64) simp
  have "?a - ?first + 1 = ?a + 1 - ?first" by simp
  then have d: "unat (?a - ?first + 1) = unat ?a + 1 - n" using a1 first n by (metis unat_sub_le word_le_nat_alt)
  have l: "unat (of_nat (length es) :: u64) = length es" using len by (intro unat_of_nat_small) simp
  have g: "\<not> ?first > ?a + 1" using first a1 n by (simp add: word_less_nat_alt)
  have f: "drop (unat ?a + 1 - n) es = filter (\<lambda>e. ?a < e_index e) es"
    using contiguous_drop_filter [OF ct, of "unat ?a + 1 - n"] n by (simp add: word_less_nat_alt Suc_le_eq)
  show ?thesis
  proof (cases "?a - ?first + 1 < of_nat (length es)")
    case True
    then show ?thesis using ne g d f by (simp add: entries_to_apply_def Let_def)
  next
    case False
    then have "length es \<le> unat ?a + 1 - n" using d l by (simp add: word_less_nat_alt)
    then have "filter (\<lambda>e. ?a < e_index e) es = []" using f by simp
    then show ?thesis using False ne g by (simp add: entries_to_apply_def Let_def)
  qed
qed

text \<open>The entries that carry commands.\<close>

definition commands_in :: "Entry list \<Rightarrow> Entry list" where
  "commands_in = filter (\<lambda>e. e_type e = EntryNormal \<and> e_data e \<noteq> [])"

lemma commands_in_simps [simp]:
  "commands_in [] = []" "commands_in (e # es) = (if e_type e = EntryNormal \<and> e_data e \<noteq> [] then e # commands_in es else commands_in es)"
  by (simp_all add: commands_in_def)

text \<open>What can be applied: commands the store can run, and configuration changes that are readable and remove nobody.\<close>

definition applicable :: "Server_Env \<Rightarrow> Entry \<Rightarrow> bool" where
  "applicable env e \<longleftrightarrow>
     (case e_type e of
        EntryNormal \<Rightarrow> well_formed (sx_store env) e
      | EntryConfChange \<Rightarrow>
          (case sx_unpack_cc env (e_data e) of
             None \<Rightarrow> False
           | Some cc \<Rightarrow> cc_type cc = ConfChangeAddNode \<or> cc_type cc = ConfChangeAddLearnerNode \<or> cc_type cc = ConfChangeUpdateNode)
      | EntryOther _ \<Rightarrow> False)"

lemma conf_change_total:
  assumes "cc_type cc = ConfChangeAddNode \<or> cc_type cc = ConfChangeAddLearnerNode \<or> cc_type cc = ConfChangeUpdateNode"
  shows "\<exists>cs n'. rn_apply_conf_change cc n = Inr (cs, n')"
proof -
  obtain r r' where "add_node_or_learner (cc_node_id cc) False (rn_raft n) = Inr r" "add_node_or_learner (cc_node_id cc) True (rn_raft n) = Inr r'"
    using add_node_total by blast
  then show ?thesis using assms by (auto simp: rn_apply_conf_change_def on_raft_def)
qed

text \<open>One entry: its effect on the store, and the members of the server it may change.\<close>

lemma publish_one:
  assumes "applicable env e" and f: "nd_redis_server f = Some s" and s: "umap_ok (rs_key_values s)"
  shows "\<exists>s' replies cs n t. (\<forall>es. publish_entries env (e # es) f = publish_entries env es (f\<lparr>nd_redis_server := Some s',
       nd_replies := replies, nd_conf_state := cs, nd_node := n, nd_transport := t, nd_applied_index := e_index e\<rparr>)) \<and>
     map_of (rs_key_values s') = fold (entry_effect (sx_store env)) (commands_in [e]) (map_of (rs_key_values s)) \<and> umap_ok (rs_key_values s') \<and>
     (e_type e = EntryNormal \<longrightarrow> cs = nd_conf_state f \<and> n = nd_node f \<and> t = nd_transport f)"
proof -
  have same: "f\<lparr>nd_redis_server := Some s, nd_replies := nd_replies f, nd_conf_state := cs, nd_node := n, nd_transport := t,
      nd_applied_index := i\<rparr> = f\<lparr>nd_conf_state := cs, nd_node := n, nd_transport := t, nd_applied_index := i\<rparr>" for cs n t i
    using f by (cases f) simp
  have idle: "f\<lparr>nd_redis_server := Some s, nd_applied_index := i\<rparr> = f\<lparr>nd_applied_index := i\<rparr>" for i using f by (cases f) simp
  show ?thesis
  proof (cases "e_type e")
    case EntryNormal
    then have w: "well_formed (sx_store env) e" using assms(1) by (simp add: applicable_def)
    show ?thesis
    proof (cases "e_data e = []")
      case True
      then show ?thesis using EntryNormal f s by (intro exI [of _ s] exI [of _ "nd_replies f"] exI) (auto simp: idle)
    next
      case False
      obtain s1 out where "read_commit (sx_store env) e s = Inr (s1, out)" "umap_ok (rs_key_values s1)"
        "map_of (rs_key_values s1) = entry_effect (sx_store env) e (map_of (rs_key_values s))"
        using store.exec_effect [OF s w] by blast
      then show ?thesis
        using EntryNormal False f by (intro exI [of _ s1] exI [of _ "nd_replies f @ out"] exI) (auto simp: on_store_def)
    qed
  next
    case EntryConfChange
    then obtain cc where cc: "sx_unpack_cc env (e_data e) = Some cc"
      "cc_type cc = ConfChangeAddNode \<or> cc_type cc = ConfChangeAddLearnerNode \<or> cc_type cc = ConfChangeUpdateNode"
      using assms(1) by (auto simp: applicable_def split: option.splits)
    obtain cs n where n: "rn_apply_conf_change cc (nd_node f) = Inr (cs, n)" using conf_change_total [OF cc(2)] by blast
    obtain t where t: "(if cc_type cc = ConfChangeAddNode \<and> cc_context cc \<noteq> [] then add_peer (cc_node_id cc) (nd_transport f)
        else Inr (nd_transport f)) = Inr t" using add_peer_total by (metis (full_types))
    have p: "publish_entries env (e # es) f = publish_entries env es (f\<lparr>nd_redis_server := Some s, nd_replies := nd_replies f,
        nd_conf_state := cs, nd_node := n, nd_transport := t, nd_applied_index := e_index e\<rparr>)" for es
      unfolding same using EntryConfChange cc n t by (auto split: if_splits)
    show ?thesis
      by (intro exI [of _ s] exI [of _ "nd_replies f"] exI [of _ cs] exI [of _ n] exI [of _ t] conjI allI)
        (rule p, use EntryConfChange s in simp_all)
  qed (use assms(1) in \<open>simp add: applicable_def\<close>)
qed

lemma publish_applicable:
  assumes "\<forall>e \<in> set es. applicable env e" and "nd_redis_server f = Some s" and "umap_ok (rs_key_values s)"
  shows "\<exists>s' replies cs n t. publish_entries env es f = Inr (True, f\<lparr>nd_redis_server := Some s', nd_replies := replies,
       nd_conf_state := cs, nd_node := n, nd_transport := t,
       nd_applied_index := (if es = [] then nd_applied_index f else e_index (last es))\<rparr>) \<and>
     map_of (rs_key_values s') = fold (entry_effect (sx_store env)) (commands_in es) (map_of (rs_key_values s)) \<and>
     umap_ok (rs_key_values s') \<and>
     ((\<forall>e \<in> set es. e_type e = EntryNormal) \<longrightarrow> cs = nd_conf_state f \<and> n = nd_node f \<and> t = nd_transport f)"
  using assms
proof (induction es arbitrary: f s)
  case Nil
  then show ?case by (cases f) auto
next
  case (Cons e es)
  have e: "applicable env e" using Cons.prems(1) by simp
  obtain s1 replies1 cs1 n1 t1 where 1: "\<And>es. publish_entries env (e # es) f = publish_entries env es (f\<lparr>nd_redis_server := Some s1,
       nd_replies := replies1, nd_conf_state := cs1, nd_node := n1, nd_transport := t1, nd_applied_index := e_index e\<rparr>)"
    "map_of (rs_key_values s1) = fold (entry_effect (sx_store env)) (commands_in [e]) (map_of (rs_key_values s))" "umap_ok (rs_key_values s1)"
    "e_type e = EntryNormal \<longrightarrow> cs1 = nd_conf_state f \<and> n1 = nd_node f \<and> t1 = nd_transport f"
    using publish_one [OF e Cons.prems(2,3)] by blast
  let ?f = "f\<lparr>nd_redis_server := Some s1, nd_replies := replies1, nd_conf_state := cs1, nd_node := n1, nd_transport := t1, nd_applied_index := e_index e\<rparr>"
  have I: "\<forall>e \<in> set es. applicable env e" "nd_redis_server ?f = Some s1" using Cons.prems(1) by simp_all
  obtain s' replies cs n t where 2: "publish_entries env es ?f = Inr (True, ?f\<lparr>nd_redis_server := Some s', nd_replies := replies,
       nd_conf_state := cs, nd_node := n, nd_transport := t, nd_applied_index := (if es = [] then nd_applied_index ?f else e_index (last es))\<rparr>)"
    "map_of (rs_key_values s') = fold (entry_effect (sx_store env)) (commands_in es) (map_of (rs_key_values s1))" "umap_ok (rs_key_values s')"
    "(\<forall>e \<in> set es. e_type e = EntryNormal) \<longrightarrow> cs = nd_conf_state ?f \<and> n = nd_node ?f \<and> t = nd_transport ?f"
    using Cons.IH [OF I 1(3)] by blast
  have "fold (entry_effect (sx_store env)) (commands_in (e # es)) m = fold (entry_effect (sx_store env)) (commands_in es) (fold (entry_effect (sx_store env)) (commands_in [e]) m)" for m
    by simp
  moreover have "cs = nd_conf_state f \<and> n = nd_node f \<and> t = nd_transport f" if "\<forall>x \<in> set (e # es). e_type x = EntryNormal"
    using that 1(4) 2(4) by simp
  ultimately show ?case
    using 1(1,2) 2(1-3)
    by (intro exI [of _ s'] exI [of _ replies] exI [of _ cs] exI [of _ n] exI [of _ t]) (simp del: publish_entries.simps commands_in_simps)
qed

lemma publish_normal:
  assumes "\<forall>e \<in> set es. e_type e = EntryNormal \<and> well_formed (sx_store env) e"
    and "nd_redis_server f = Some s" and "umap_ok (rs_key_values s)"
  shows "\<exists>s' replies. publish_entries env es f = Inr (True, f\<lparr>nd_redis_server := Some s', nd_replies := replies,
       nd_applied_index := (if es = [] then nd_applied_index f else e_index (last es))\<rparr>) \<and>
     map_of (rs_key_values s') = fold (entry_effect (sx_store env)) (filter (\<lambda>e. e_data e \<noteq> []) es) (map_of (rs_key_values s)) \<and>
     umap_ok (rs_key_values s')"
proof -
  have "\<forall>e \<in> set es. applicable env e" using assms(1) by (simp add: applicable_def)
  moreover have "commands_in es = filter (\<lambda>e. e_data e \<noteq> []) es" using assms(1) by (auto simp: commands_in_def intro: filter_cong)
  moreover have "f\<lparr>nd_redis_server := x, nd_replies := y, nd_conf_state := nd_conf_state f, nd_node := nd_node f, nd_transport := nd_transport f,
      nd_applied_index := i\<rparr> = f\<lparr>nd_redis_server := x, nd_replies := y, nd_applied_index := i\<rparr>" for x y i by simp
  ultimately show ?thesis using publish_applicable [of es env f s] assms by metis
qed


lemma unreadable_change_not_counted:
  "e_type e = EntryConfChange \<Longrightarrow> sx_unpack_cc env (e_data e) = None \<Longrightarrow> publish_entries env [e] f = Inr (True, f)"
  by simp

definition example_node :: RaftNode where
  "example_node = \<lparr>nd_id = 1, nd_peers = [], nd_last_index = 0, nd_conf_state = \<lparr>cs_nodes = [], cs_learners = []\<rparr>,
     nd_snapshot_index = 0, nd_applied_index = 4, nd_node = raw_example, nd_transport = example_transport,
     nd_redis_server = Some (example_store 1), nd_snap_data = [], nd_snap_dir = [], nd_snap_count = 100, nd_snaps = [],
     nd_wal = example_wal, nd_outbox = [], nd_replies = []\<rparr>"

definition example_change :: Entry where
  "example_change = \<lparr>e_type = EntryConfChange, e_term = 1, e_index = 5, e_data = [7]\<rparr>"

definition changing_env :: Server_Env where
  "changing_env = example_env\<lparr>sx_unpack_cc := (\<lambda>_. Some \<lparr>cc_id = 0, cc_type = ConfChangeAddNode, cc_node_id = 4, cc_context = [1]\<rparr>)\<rparr>"


end
