(* ===== verification/Event_Loop.thy ===== *)
theory Event_Loop
  imports Server
begin

text \<open>
  The event loop of the server, \<^verbatim>\<open>pull_ready_events\<close> of \<^verbatim>\<open>server/raft_node.cpp\<close>: what one turn does to the
  write-ahead log, the storage, the transport and the store, and that the loop returns, with everything
  committed applied and nothing left to do.
\<close>

section \<open>A turn of the event loop\<close>

text \<open>The committed entries of a \<open>Ready\<close> follow the applied position directly.\<close>

lemma next_entries_contiguous:
  assumes inv: "log_inv l" and c: "next_entries l = Inr es" and base: "log_base l \<le> unat (rl_applied l)"
  shows "contiguous (unat (rl_applied l) + 1) es" and "unat (rl_applied l) + length es \<le> unat (rl_committed l)"
proof -
  note I = log_invD [OF inv]
  have off: "max (unat (rl_applied l) + 1) (log_first l) = unat (rl_applied l) + 1" using base by (simp add: log_first_def)
  have es: "es = entry_limit_size (rl_max_next_ents_size l) (seg (log_at l) (unat (rl_applied l) + 1) (unat (rl_committed l) + 1))"
    using next_entries_eq [OF inv] c off by simp
  show "contiguous (unat (rl_applied l) + 1) es" unfolding es
    using I base by (intro contiguous_entry_limit_size rl.contiguous_seg) (auto simp: log_first_def)
  have "length es \<le> unat (rl_committed l) + 1 - (unat (rl_applied l) + 1)"
    unfolding es using length_entry_limit_size [of _ "seg (log_at l) (unat (rl_applied l) + 1) (unat (rl_committed l) + 1)"] by (simp only: length_seg)
  then show "unat (rl_applied l) + length es \<le> unat (rl_committed l)" using I(4) by simp
qed

lemma apply_committed_ok:
  assumes ct: "contiguous (unat (nd_applied_index f) + 1) es" and len: "unat (nd_applied_index f) + length es < 2 ^ 64 - 1"
    and normal: "\<forall>e \<in> set es. e_type e = EntryNormal \<and> well_formed (sx_store env) e"
    and s: "nd_redis_server f = Some s" "umap_ok (rs_key_values s)"
  shows "\<exists>s' replies. apply_committed env es f = Inr (f\<lparr>nd_redis_server := Some s', nd_replies := replies,
       nd_applied_index := (if es = [] then nd_applied_index f else e_index (last es))\<rparr>) \<and>
     map_of (rs_key_values s') = fold (entry_effect (sx_store env)) (filter (\<lambda>e. e_data e \<noteq> []) es) (map_of (rs_key_values s)) \<and>
     umap_ok (rs_key_values s')"
proof (cases "es = []")
  case True
  then show ?thesis using s by (cases f) (auto simp: apply_committed_def)
next
  case ne: False
  have "entries_to_apply es f = Inr (filter (\<lambda>e. nd_applied_index f < e_index e) es)"
    by (rule entries_to_apply_eq [OF ct ne]) (use len in simp_all)
  moreover have "filter (\<lambda>e. nd_applied_index f < e_index e) es = es"
    using contiguous_drop_filter [OF ct, of 0] by (simp add: word_less_nat_alt Suc_le_eq)
  ultimately have e: "entries_to_apply es f = Inr es" by simp
  obtain s' replies where p: "publish_entries env es f = Inr (True, f\<lparr>nd_redis_server := Some s', nd_replies := replies,
       nd_applied_index := (if es = [] then nd_applied_index f else e_index (last es))\<rparr>)"
    "map_of (rs_key_values s') = fold (entry_effect (sx_store env)) (filter (\<lambda>e. e_data e \<noteq> []) es) (map_of (rs_key_values s))" "umap_ok (rs_key_values s')"
    using publish_normal [OF normal s] by blast
  show ?thesis using ne e p by (intro exI [of _ s'] exI [of _ replies]) (simp add: apply_committed_def)
qed

lemma append_ready_persist:
  assumes "persist rd (nd_storage f) = Inr s" and "snapshot_is_empty (rd_snapshot rd)"
  shows "append_ready (rd_entries rd) f = Inr (set_storage s f)"
proof (cases "rd_entries rd = []")
  case True
  then have "s = nd_storage f" using assms by (simp add: persist_def)
  then show ?thesis using True by (simp add: append_ready_def set_storage_def with_storage_def nd_storage_def)
next
  case False
  then show ?thesis using assms by (auto simp: persist_def append_ready_def bind_r_eq_Inr)
qed

lemma no_trigger:
  assumes "nd_snapshot_index f \<le> nd_applied_index f" and "unat (nd_applied_index f) \<le> unat (nd_snapshot_index f) + unat (nd_snap_count f)"
  shows "maybe_trigger_snapshot env f = Inr f"
proof -
  have "unat (nd_applied_index f - nd_snapshot_index f) = unat (nd_applied_index f) - unat (nd_snapshot_index f)"
    using assms(1) by (intro unat_sub_le) (simp add: word_le_nat_alt)
  then have "nd_applied_index f - nd_snapshot_index f \<le> nd_snap_count f" using assms(2) unfolding word_le_nat_alt by linarith
  then show ?thesis by (simp add: maybe_trigger_snapshot_def)
qed

text \<open>Where \<^verbatim>\<open>advance\<close> puts the applied position when no snapshot came.\<close>

lemma applied_position:
  assumes inv: "log_inv l" and c: "next_entries l = Inr (rd_committed_entries rd)" and base: "log_base l \<le> unat (rl_applied l)"
    and snap: "rd_snapshot rd = Snapshot_default"
  defines "a \<equiv> (if applied_cursor rd > 0 then applied_cursor rd else rl_applied l)"
  shows "a = (if rd_committed_entries rd = [] then rl_applied l else e_index (last (rd_committed_entries rd)))"
    and "unat (rl_applied l) \<le> unat a" and "unat a \<le> unat (rl_committed l)"
proof -
  let ?cs = "rd_committed_entries rd"
  note N = next_entries_contiguous [OF inv c base]
  have none: "a = rl_applied l" if "?cs = []" using that snap by (simp add: a_def applied_cursor_def Snapshot_default_def)
  have some: "a = e_index (last ?cs) \<and> unat a = unat (rl_applied l) + length ?cs" if ne: "?cs \<noteq> []"
  proof -
    have u: "unat (e_index (last ?cs)) = unat (rl_applied l) + length ?cs" using contiguous_last [OF N(1) ne] by simp
    then have "0 < e_index (last ?cs)" using ne by (simp add: word_less_nat_alt)
    then show ?thesis using u ne by (simp add: a_def applied_cursor_def)
  qed
  show "a = (if ?cs = [] then rl_applied l else e_index (last ?cs))" using none some by simp
  show "unat (rl_applied l) \<le> unat a" "unat a \<le> unat (rl_committed l)"
    using none some N(2) log_invD(4) [OF inv] by (cases "?cs = []"; simp)+
qed

text \<open>The hard state a \<open>Ready\<close> carries, and a node that has nothing new but perhaps committed entries.\<close>

definition new_hard_state :: "RawNode \<Rightarrow> HardState" where
  "new_hard_state n =
     (if hard_state_equal (hard_state (rn_raft n)) (rn_prev_hard_state n) then HardState_default else hard_state (rn_raft n))"

definition settled :: "RawNode \<Rightarrow> bool" where
  "settled n \<longleftrightarrow> soft_state (rn_raft n) = rn_prev_soft_state n \<and> is_empty_state (new_hard_state n) \<and>
     u_entries (rl_unstable (rn_log n)) = [] \<and> r_msgs (rn_raft n) = []"

lemma hard_state_equal_refl [simp]: "hard_state_equal h h"
  by (simp add: hard_state_equal_def)

lemma is_empty_default [simp]: "is_empty_state HardState_default"
  by (simp add: is_empty_state_def HardState_default_def)

lemma round_settles:
  assumes "rn_ready n = Inr (rd, n1)" and "rn_advance rd (with_storage st n1) = Inr n'"
    and "rl_committed (rn_log n') = rl_committed (rn_log n)"
  shows "rd_hard_state rd = new_hard_state n" and "rd_read_states rd = r_read_states (rn_raft n)"
    and "soft_state (rn_raft n') = rn_prev_soft_state n'" and "is_empty_state (new_hard_state n')"
    and "r_read_states (rn_raft n') = []" and "hard_state (rn_raft n') = hard_state (rn_raft n)"
    and "rn_prev_hard_state n' = (if is_empty_state (new_hard_state n) then rn_prev_hard_state n else new_hard_state n)"
proof -
  obtain es where es: "next_entries (r_raft_log (rn_raft n)) = Inr es" using assms(1) by (auto simp: rn_ready_def Ready_new_def bind_r_eq_Inr)
  then show 1: "rd_hard_state rd = new_hard_state n" and 2: "rd_read_states rd = r_read_states (rn_raft n)"
    using assms(1) by (auto simp: rn_ready_def Ready_new_def new_hard_state_def Let_def)
  have r1: "soft_state (rn_raft n1) = soft_state (rn_raft n)" "r_term (rn_raft n1) = r_term (rn_raft n)" "r_vote (rn_raft n1) = r_vote (rn_raft n)"
    "r_read_states (rn_raft n1) = r_read_states (rn_raft n)" "rn_prev_soft_state n1 = rn_prev_soft_state n" "rn_prev_hard_state n1 = rn_prev_hard_state n"
    "rd_soft_state rd = (if soft_state (rn_raft n) \<noteq> rn_prev_soft_state n then Some (soft_state (rn_raft n)) else None)"
    using assms(1) es by (auto simp: rn_ready_def Ready_new_def soft_state_def reduce_uncommitted_size_def Let_def)
  have n': "soft_state (rn_raft n') = soft_state (rn_raft n1)" "r_term (rn_raft n') = r_term (rn_raft n1)" "r_vote (rn_raft n') = r_vote (rn_raft n1)"
    "rn_prev_soft_state n' = (case rd_soft_state rd of Some x \<Rightarrow> x | None \<Rightarrow> rn_prev_soft_state n1)"
    "rn_prev_hard_state n' = (if is_empty_state (rd_hard_state rd) then rn_prev_hard_state n1 else rd_hard_state rd)"
    "r_read_states (rn_raft n') = (if rd_read_states rd \<noteq> [] then [] else r_read_states (rn_raft n1))"
    using assms(2) by (auto simp: rn_advance_def with_storage_def soft_state_def Let_def bind_r_eq_Inr split: option.splits)
  show "soft_state (rn_raft n') = rn_prev_soft_state n'" using n'(1,4) r1(1,5,7) by simp
  show "r_read_states (rn_raft n') = []" using n'(6) 2 r1(4) by simp
  show h: "hard_state (rn_raft n') = hard_state (rn_raft n)" using n'(2,3) r1(2,3) assms(3) by (simp add: hard_state_def)
  show "rn_prev_hard_state n' = (if is_empty_state (new_hard_state n) then rn_prev_hard_state n else new_hard_state n)"
    using n'(5) 1 r1(6) by simp
  show "is_empty_state (new_hard_state n')" using h n'(5) 1 r1(6) by (auto simp: new_hard_state_def)
qed

section \<open>A turn\<close>

text \<open>The committed entries the server has not applied, and the contents of the store.\<close>

definition unapplied :: "RaftNode \<Rightarrow> Entry list" where
  "unapplied f = (let l = rn_log (nd_node f) in seg (log_at l) (unat (rl_applied l) + 1) (unat (rl_committed l) + 1))"

definition kv_map :: "RaftNode \<Rightarrow> bytes \<rightharpoonup> bytes" where
  "kv_map f = (case nd_redis_server f of None \<Rightarrow> Map.empty | Some s \<Rightarrow> map_of (rs_key_values s))"

text \<open>
  The state in which the loop is entered: the log is well formed, no snapshot has come and none is due, server
  and core agree on the applied index, and what is to be applied are commands the store can decode.
\<close>

definition loop_ok :: "Server_Env \<Rightarrow> RaftNode \<Rightarrow> bool" where
  "loop_ok env f \<longleftrightarrow>
     (let l = rn_log (nd_node f) in
      log_inv l \<and> u_snapshot (rl_unstable l) = None \<and> length (w_files (nd_wal f)) = 1 \<and>
      nd_applied_index f = rl_applied l \<and> log_base l \<le> unat (rl_applied l) \<and>
      list_all (\<lambda>e. e_type e = EntryNormal \<and> well_formed (sx_store env) e) (unapplied f) \<and>
      (case nd_redis_server f of None \<Rightarrow> False | Some s \<Rightarrow> umap_ok (rs_key_values s)) \<and>
      nd_snapshot_index f \<le> rl_applied l \<and> unat (rl_committed l) \<le> unat (nd_snapshot_index f) + unat (nd_snap_count f) \<and>
      r_read_states (rn_raft (nd_node f)) = [])"

lemma loop_okD:
  assumes "loop_ok env f"
  shows "log_inv (rn_log (nd_node f))" "u_snapshot (rl_unstable (rn_log (nd_node f))) = None" "\<exists>file. w_files (nd_wal f) = [file]"
    "nd_applied_index f = rl_applied (rn_log (nd_node f))" "log_base (rn_log (nd_node f)) \<le> unat (rl_applied (rn_log (nd_node f)))"
    "\<forall>e \<in> set (unapplied f). e_type e = EntryNormal \<and> well_formed (sx_store env) e"
    "\<exists>s. nd_redis_server f = Some s \<and> umap_ok (rs_key_values s)" "nd_snapshot_index f \<le> rl_applied (rn_log (nd_node f))"
    "unat (rl_committed (rn_log (nd_node f))) \<le> unat (nd_snapshot_index f) + unat (nd_snap_count f)"
    "r_read_states (rn_raft (nd_node f)) = []"
  using assms by (auto simp: loop_ok_def Let_def list_all_iff length_Suc_conv split: option.splits)

text \<open>A \<open>Ready\<close> hands out a prefix of them, and not an empty one.\<close>

lemma handed_out:
  assumes "loop_ok env f" and "next_entries (rn_log (nd_node f)) = Inr es"
  shows "\<exists>n \<le> length (unapplied f). es = take n (unapplied f) \<and> (unapplied f \<noteq> [] \<longrightarrow> 0 < n)"
proof -
  note L = loop_okD [OF assms(1)]
  have "max (unat (rl_applied (rn_log (nd_node f))) + 1) (log_first (rn_log (nd_node f))) = unat (rl_applied (rn_log (nd_node f))) + 1"
    using L(5) by (simp add: log_first_def)
  then have es: "es = entry_limit_size (rl_max_next_ents_size (rn_log (nd_node f))) (unapplied f)"
    using next_entries_eq [OF L(1)] assms(2) by (simp add: unapplied_def Let_def)
  show ?thesis
  proof (cases "unapplied f")
    case Nil
    then show ?thesis using es by (simp add: entry_limit_size_def)
  next
    case (Cons e fs)
    obtain n where n: "es = take n (unapplied f)" "n \<le> length (unapplied f)" using entry_limit_size_prefix es by metis
    moreover have "es \<noteq> []" using es Cons by (simp add: entry_limit_size_def)
    ultimately show ?thesis by (intro exI [of _ n]) auto
  qed
qed

lemma drop_seg: "drop n (seg at lo hi) = seg at (lo + n) hi"
  by (simp add: seg_def drop_map drop_upt)

text \<open>What the core does in a turn.\<close>

lemma turn_node:
  assumes ok: "loop_ok env f" and rd: "rn_ready (nd_node f) = Inr (rd, n1)"
  shows "\<exists>st n' n. persist rd (rl_storage (rn_log (nd_node f))) = Inr st \<and> rn_advance rd (with_storage st n1) = Inr n' \<and> settled n' \<and>
     log_inv (rn_log n') \<and> u_snapshot (rl_unstable (rn_log n')) = None \<and> log_at (rn_log n') = log_at (rn_log (nd_node f)) \<and> log_base (rn_log n') = log_base (rn_log (nd_node f)) \<and>
     rl_committed (rn_log n') = rl_committed (rn_log (nd_node f)) \<and> ms_at (rl_storage (rn_log n')) = log_at (rn_log (nd_node f)) \<and> r_read_states (rn_raft n') = [] \<and>
     n \<le> length (unapplied f) \<and> (unapplied f \<noteq> [] \<longrightarrow> 0 < n) \<and> rd_committed_entries rd = take n (unapplied f) \<and>
     unat (rl_applied (rn_log n')) = unat (rl_applied (rn_log (nd_node f))) + n \<and>
     rl_applied (rn_log n') = (if rd_committed_entries rd = [] then rl_applied (rn_log (nd_node f)) else e_index (last (rd_committed_entries rd)))"
proof -
  let ?l = "rn_log (nd_node f)"
  note L = loop_okD [OF ok]
  have nw: "snap_newer ?l" by (simp add: snap_newer_def L(2))
  note F = rn_ready_fields [OF rd]
  obtain st n' where R: "persist rd (rl_storage ?l) = Inr st" "rn_advance rd (with_storage st n1) = Inr n'"
    "log_inv (rn_log n')" "log_at (rn_log n') = log_at ?l" "log_base (rn_log n') = log_base ?l" "rl_committed (rn_log n') = rl_committed ?l"
    "u_entries (rl_unstable (rn_log n')) = []" "u_snapshot (rl_unstable (rn_log n')) = None" "rl_storage (rn_log n') = st" "ms_at st = log_at ?l"
    "r_msgs (rn_raft n') = []" "next_entries ?l = Inr (rd_committed_entries rd)"
    "rl_applied (rn_log n') = (if applied_cursor rd > 0 then applied_cursor rd else rl_applied ?l)"
    using persist_round [OF loop_okD(1) [OF ok]] rd nw F(2) by auto
  note S = round_settles [OF rd R(2,6)]
  obtain n where n: "n \<le> length (unapplied f)" "rd_committed_entries rd = take n (unapplied f)" "unapplied f \<noteq> [] \<longrightarrow> 0 < n"
    using handed_out [OF ok R(12)] by auto
  have "rd_snapshot rd = Snapshot_default" using F(4) L(2) by simp
  note P = applied_position [OF L(1) R(12) L(5) this, folded R(13)]
  have "unat (rl_applied (rn_log n')) = unat (rl_applied ?l) + n"
    using P(1) n(1,2) contiguous_last [OF next_entries_contiguous(1) [OF L(1) R(12) L(5)]] by (cases "rd_committed_entries rd = []") auto
  then show ?thesis using R P(1) S(3,4,5) n by (intro exI [of _ st] exI [of _ n'] exI [of _ n]) (simp add: settled_def)
qed

text \<open>What the server does with it.\<close>

lemma turn_server:
  assumes ok: "loop_ok env f" and s: "nd_redis_server f = Some s" and rd: "rn_ready (nd_node f) = Inr (rd, n1)"
    and w: "wal_save (sx_wal env) (rd_hard_state rd) (rd_entries rd) (nd_wal f) = Inr w"
    and st: "persist rd (rl_storage (rn_log (nd_node f))) = Inr st" and adv: "rn_advance rd (with_storage st n1) = Inr n'"
    and cs: "rd_committed_entries rd = take n (unapplied f)" and com: "rl_committed (rn_log n') = rl_committed (rn_log (nd_node f))"
    and a: "rl_applied (rn_log n') = (if rd_committed_entries rd = [] then nd_applied_index f else e_index (last (rd_committed_entries rd)))"
      "unat (rl_applied (rn_log n')) = unat (rl_applied (rn_log (nd_node f))) + n" "unat (rl_applied (rn_log n')) \<le> unat (rl_committed (rn_log n'))"
  shows "\<exists>s' replies. pull_ready_once env f = Inr (True, f\<lparr>nd_node := n', nd_wal := w, nd_outbox := nd_outbox f @ rd_messages rd,
       nd_redis_server := Some s', nd_replies := replies, nd_applied_index := rl_applied (rn_log n')\<rparr>) \<and>
     map_of (rs_key_values s') = fold (entry_effect (sx_store env)) (filter (\<lambda>e. e_data e \<noteq> []) (take n (unapplied f))) (map_of (rs_key_values s)) \<and>
     umap_ok (rs_key_values s')"
proof -
  let ?cs = "rd_committed_entries rd"
  note L = loop_okD [OF ok] and F = rn_ready_fields [OF rd]
  have empty: "rd_snapshot rd = Snapshot_default" using F(4) L(2) by simp
  have upd: "contains_updates rd" using round_settles(2) [OF rd adv com] L(10) by (simp add: contains_updates_def)
  define f1 where "f1 = f\<lparr>nd_node := n1, nd_wal := w\<rparr>"
  define f2 where "f2 = (set_storage st f1)\<lparr>nd_outbox := nd_outbox f @ rd_messages rd\<rparr>"
  have 1: "append_ready (rd_entries rd) f1 = Inr (set_storage st f1)"
    by (rule append_ready_persist) (use st F(2) empty in \<open>simp_all add: f1_def nd_storage_def snapshot_is_empty_def Snapshot_default_def\<close>)
  have 2: "(if rd_messages rd \<noteq> [] then (set_storage st f1)\<lparr>nd_outbox := nd_outbox (set_storage st f1) @ rd_messages rd\<rparr>
      else set_storage st f1) = f2"
    by (simp add: f2_def f1_def set_storage_def)
  have a2: "nd_applied_index f2 = rl_applied (rn_log (nd_node f))" "nd_redis_server f2 = Some s" using L(4) s by (simp_all add: f2_def f1_def set_storage_def)
  have N: "next_entries (rn_log (nd_node f)) = Inr ?cs" using rd by (auto simp: rn_ready_def Ready_new_def Let_def bind_r_eq_Inr)
  note C = next_entries_contiguous [OF L(1) N L(5)]
  have "unat (rl_applied (rn_log (nd_node f))) + length ?cs < 2 ^ 64 - 1"
    using C(2) log_invD(3) [OF L(1)] rl.last_bound [OF log_invD(1) [OF L(1)]] by linarith
  moreover have "\<forall>e \<in> set ?cs. e_type e = EntryNormal \<and> well_formed (sx_store env) e" using L(6) cs by (auto dest: in_set_takeD)
  moreover have "umap_ok (rs_key_values s)" using L(7) s by simp
  ultimately obtain s' replies where A: "apply_committed env ?cs f2 = Inr (f2\<lparr>nd_redis_server := Some s', nd_replies := replies,
       nd_applied_index := (if ?cs = [] then nd_applied_index f2 else e_index (last ?cs))\<rparr>)"
    "map_of (rs_key_values s') = fold (entry_effect (sx_store env)) (filter (\<lambda>e. e_data e \<noteq> []) ?cs) (map_of (rs_key_values s))"
    "umap_ok (rs_key_values s')"
    using apply_committed_ok [OF _ _ _ a2(2)] C(1) a2(1) by metis
  define f3 where "f3 = f2\<lparr>nd_redis_server := Some s', nd_replies := replies, nd_applied_index := rl_applied (rn_log n')\<rparr>"
  have 3: "apply_committed env ?cs f2 = Inr f3" using A(1) a(1) a2(1) L(4) by (simp add: f3_def)
  have 4: "maybe_trigger_snapshot env f3 = Inr f3"
    using L(4,8,9) a com by (intro no_trigger) (simp_all add: f3_def f2_def f1_def set_storage_def word_le_nat_alt)
  have "nd_node f3 = with_storage st n1" by (simp add: f3_def f2_def f1_def set_storage_def)
  then have "pull_ready_once env f = Inr (True, f3\<lparr>nd_node := n'\<rparr>)"
    using 1 2 3 4 rd upd w adv empty
    by (simp add: pull_ready_once_def Let_def save_ready_snapshot_def snapshot_is_empty_def Snapshot_default_def f1_def [symmetric])
  then show ?thesis using A(2,3) cs by (intro exI [of _ s'] exI [of _ replies]) (simp add: f3_def f2_def f1_def set_storage_def)
qed

text \<open>A turn as a whole.\<close>

lemma turn:
  assumes ok: "loop_ok env f"
  shows "\<exists>f' n. pull_ready_once env f = Inr (True, f') \<and> loop_ok env f' \<and> settled (nd_node f') \<and>
     n \<le> length (unapplied f) \<and> (unapplied f \<noteq> [] \<longrightarrow> 0 < n) \<and> unapplied f' = drop n (unapplied f) \<and>
     kv_map f' = fold (entry_effect (sx_store env)) (filter (\<lambda>e. e_data e \<noteq> []) (take n (unapplied f))) (kv_map f) \<and>
     log_at (rn_log (nd_node f')) = log_at (rn_log (nd_node f)) \<and> rl_committed (rn_log (nd_node f')) = rl_committed (rn_log (nd_node f)) \<and>
     ms_at (nd_storage f') = log_at (rn_log (nd_node f)) \<and> nd_outbox f' = nd_outbox f @ r_msgs (rn_raft (nd_node f)) \<and>
     wal_save (sx_wal env) (new_hard_state (nd_node f)) (u_entries (rl_unstable (rn_log (nd_node f)))) (nd_wal f) = Inr (nd_wal f') \<and>
     adds (sx_wal env) (save_records (sx_wal env) (new_hard_state (nd_node f)) (u_entries (rl_unstable (rn_log (nd_node f))))) (nd_wal f) (nd_wal f') \<and>
     log_base (rn_log (nd_node f')) = log_base (rn_log (nd_node f)) \<and>
     hard_state (rn_raft (nd_node f')) = hard_state (rn_raft (nd_node f)) \<and>
     rn_prev_hard_state (nd_node f') =
       (if is_empty_state (new_hard_state (nd_node f)) then rn_prev_hard_state (nd_node f) else new_hard_state (nd_node f))"
proof -
  let ?l = "rn_log (nd_node f)"
  note L = loop_okD [OF ok]
  obtain s where s: "nd_redis_server f = Some s" "umap_ok (rs_key_values s)" using L(7) by blast
  obtain rd n1 where rd: "rn_ready (nd_node f) = Inr (rd, n1)" using rn_ready_eq [OF L(1)] by metis
  note F = rn_ready_fields [OF rd]
  obtain st n' n where R: "persist rd (rl_storage ?l) = Inr st" "rn_advance rd (with_storage st n1) = Inr n'" "settled n'"
    "log_inv (rn_log n')" "u_snapshot (rl_unstable (rn_log n')) = None" "log_at (rn_log n') = log_at ?l" "log_base (rn_log n') = log_base ?l"
    "rl_committed (rn_log n') = rl_committed ?l" "ms_at (rl_storage (rn_log n')) = log_at ?l" "r_read_states (rn_raft n') = []"
    and n: "n \<le> length (unapplied f)" "unapplied f \<noteq> [] \<longrightarrow> 0 < n" "rd_committed_entries rd = take n (unapplied f)"
    and a: "unat (rl_applied (rn_log n')) = unat (rl_applied ?l) + n"
      "rl_applied (rn_log n') = (if rd_committed_entries rd = [] then rl_applied ?l else e_index (last (rd_committed_entries rd)))"
    using turn_node [OF ok rd] by blast
  note S = round_settles [OF rd R(2,8)]
  obtain w where w: "wal_save (sx_wal env) (rd_hard_state rd) (rd_entries rd) (nd_wal f) = Inr w"
    "adds (sx_wal env) (save_records (sx_wal env) (rd_hard_state rd) (rd_entries rd)) (nd_wal f) w"
    using wal_save_adds L(3) by blast
  have a': "rl_applied (rn_log n') = (if rd_committed_entries rd = [] then nd_applied_index f else e_index (last (rd_committed_entries rd)))"
    using a(2) L(4) by simp
  have com: "unat (rl_applied (rn_log n')) \<le> unat (rl_committed (rn_log n'))" using log_invD(4) [OF R(4)] .
  obtain s' replies where A: "pull_ready_once env f = Inr (True, f\<lparr>nd_node := n', nd_wal := w, nd_outbox := nd_outbox f @ rd_messages rd,
       nd_redis_server := Some s', nd_replies := replies, nd_applied_index := rl_applied (rn_log n')\<rparr>)"
    "map_of (rs_key_values s') = fold (entry_effect (sx_store env)) (filter (\<lambda>e. e_data e \<noteq> []) (take n (unapplied f))) (map_of (rs_key_values s))"
    "umap_ok (rs_key_values s')"
    using turn_server [OF ok s(1) rd w(1) R(1,2) n(3) R(8) a' a(1) com] by blast
  define f' where "f' = f\<lparr>nd_node := n', nd_wal := w, nd_outbox := nd_outbox f @ rd_messages rd,
       nd_redis_server := Some s', nd_replies := replies, nd_applied_index := rl_applied (rn_log n')\<rparr>"
  have rest: "unapplied f' = drop n (unapplied f)" using R(6,8) a(1) by (simp add: f'_def unapplied_def Let_def drop_seg)
  have "list_all (\<lambda>e. e_type e = EntryNormal \<and> well_formed (sx_store env) e) (unapplied f')"
    using L(6) by (auto simp: rest list_all_iff dest: in_set_dropD)
  moreover have "length (w_files w) = 1" using w(2) by (auto simp: adds_def)
  moreover have "nd_snapshot_index f \<le> rl_applied (rn_log n')" using L(8) a(1) by (simp add: word_le_nat_alt)
  moreover have "log_base ?l \<le> unat (rl_applied (rn_log n'))" using L(5) a(1) by simp
  ultimately have "loop_ok env f'" using R A(3) L(9) by (simp add: loop_ok_def f'_def)
  then show ?thesis
    using A(1,2) R n(1,2) rest w F(1,3) S(1,6,7) s(1)
    by (intro exI [of _ f'] exI [of _ n]) (simp add: f'_def kv_map_def nd_storage_def)
qed

section \<open>The loop\<close>

lemma has_ready_unless:
  assumes "\<not> rn_has_ready n"
  shows "settled n"
  using assms by (auto simp: rn_has_ready_def settled_def new_hard_state_def Let_def split: if_splits)

lemma settled_ready:
  assumes "loop_ok env f" and "settled (nd_node f)"
  shows "rn_has_ready (nd_node f) \<longleftrightarrow> unapplied f \<noteq> []"
proof -
  note L = loop_okD [OF assms(1)]
  obtain es where es: "next_entries (rn_log (nd_node f)) = Inr es" "has_next_entries (rn_log (nd_node f)) \<longleftrightarrow> es \<noteq> []"
    using next_entries_eq [OF L(1)] by auto
  obtain n where "n \<le> length (unapplied f)" "es = take n (unapplied f)" "unapplied f \<noteq> [] \<longrightarrow> 0 < n" using handed_out [OF assms(1) es(1)] by blast
  then have "has_next_entries (rn_log (nd_node f)) \<longleftrightarrow> unapplied f \<noteq> []" using es(2) by auto
  then show ?thesis
    using assms(2) L(2,10) by (auto simp: rn_has_ready_def settled_def new_hard_state_def Let_def split: if_splits)
qed

lemma settled_saves_nothing: "settled n \<Longrightarrow> save_records c (new_hard_state n) (u_entries (rl_unstable (rn_log n))) = []"
  by (simp add: settled_def save_records_def)

text \<open>The loop returns, and keeps what every turn keeps.\<close>

lemma loop_keeps:
  assumes "loop_ok env f" and "P f" and turn_P: "\<And>f f'. loop_ok env f \<Longrightarrow> P f \<Longrightarrow> pull_ready_once env f = Inr (True, f') \<Longrightarrow> P f'"
  shows "\<exists>f'. pull_ready_events env f = Some (Inr f') \<and> P f' \<and> loop_ok env f' \<and> settled (nd_node f') \<and> unapplied f' = []"
  using assms(1,2)
proof (induction "length (unapplied f) + of_bool (\<not> settled (nd_node f))" arbitrary: f rule: less_induct)
  case less
  show ?case
  proof (cases "rn_has_ready (nd_node f)")
    case False
    then have "settled (nd_node f)" by (rule has_ready_unless)
    then show ?thesis using less.prems False settled_ready [OF less.prems(1)] by (subst pull_ready_events.simps) simp
  next
    case True
    obtain g n where T: "pull_ready_once env f = Inr (True, g)" "loop_ok env g" "settled (nd_node g)" "n \<le> length (unapplied f)"
      "unapplied f \<noteq> [] \<longrightarrow> 0 < n" "unapplied g = drop n (unapplied f)" using turn [OF less.prems(1)] by blast
    have "\<not> settled (nd_node f) \<or> unapplied f \<noteq> []" using True settled_ready [OF less.prems(1)] by blast
    then have "length (unapplied g) + of_bool (\<not> settled (nd_node g)) < length (unapplied f) + of_bool (\<not> settled (nd_node f))"
      using T(3,4,5,6) by (cases "unapplied f = []") auto
    from less.hyps [OF this T(2) turn_P [OF less.prems T(1)]] show ?thesis
      using True T(1) by (subst pull_ready_events.simps) simp
  qed
qed

text \<open>What a state reached in the loop has of the state it was entered in.\<close>

definition loop_rel :: "Server_Env \<Rightarrow> RaftNode \<Rightarrow> RaftNode \<Rightarrow> bool" where
  "loop_rel env f g \<longleftrightarrow>
     log_at (rn_log (nd_node g)) = log_at (rn_log (nd_node f)) \<and> rl_committed (rn_log (nd_node g)) = rl_committed (rn_log (nd_node f)) \<and>
     fold (entry_effect (sx_store env)) (filter (\<lambda>e. e_data e \<noteq> []) (unapplied g)) (kv_map g) =
       fold (entry_effect (sx_store env)) (filter (\<lambda>e. e_data e \<noteq> []) (unapplied f)) (kv_map f) \<and>
     nd_outbox g @ r_msgs (rn_raft (nd_node g)) = nd_outbox f @ r_msgs (rn_raft (nd_node f)) \<and>
     (g = f \<or> settled (nd_node g) \<and>
       adds (sx_wal env) (save_records (sx_wal env) (new_hard_state (nd_node f)) (u_entries (rl_unstable (rn_log (nd_node f)))))
         (nd_wal f) (nd_wal g))"

lemma refl_loop_rel: "loop_rel env f f"
  by (simp add: loop_rel_def)

lemma turn_loop_rel:
  assumes "loop_ok env g" and "loop_rel env f g" and "pull_ready_once env g = Inr (True, h)"
  shows "loop_rel env f h"
proof -
  let ?r = "\<lambda>n. save_records (sx_wal env) (new_hard_state n) (u_entries (rl_unstable (rn_log n)))"
  obtain n where T: "settled (nd_node h)" "unapplied h = drop n (unapplied g)"
    "kv_map h = fold (entry_effect (sx_store env)) (filter (\<lambda>e. e_data e \<noteq> []) (take n (unapplied g))) (kv_map g)"
    "log_at (rn_log (nd_node h)) = log_at (rn_log (nd_node g))" "rl_committed (rn_log (nd_node h)) = rl_committed (rn_log (nd_node g))"
    "nd_outbox h = nd_outbox g @ r_msgs (rn_raft (nd_node g))" "adds (sx_wal env) (?r (nd_node g)) (nd_wal g) (nd_wal h)"
    using turn [OF assms(1)] assms(3) by auto
  have "filter (\<lambda>e. e_data e \<noteq> []) (take n (unapplied g)) @ filter (\<lambda>e. e_data e \<noteq> []) (unapplied h) = filter (\<lambda>e. e_data e \<noteq> []) (unapplied g)"
    using T(2) by (simp flip: filter_append)
  then have "fold (entry_effect (sx_store env)) (filter (\<lambda>e. e_data e \<noteq> []) (unapplied h)) (kv_map h) =
      fold (entry_effect (sx_store env)) (filter (\<lambda>e. e_data e \<noteq> []) (unapplied g)) (kv_map g)"
    using T(3) fold_append by (metis comp_apply)
  moreover have "adds (sx_wal env) (?r (nd_node f)) (nd_wal f) (nd_wal h)"
    using assms(2) T(7) adds_trans [of "sx_wal env" "?r (nd_node f)" "nd_wal f" "nd_wal g" "?r (nd_node g)"] settled_saves_nothing [of "nd_node g"]
    by (auto simp: loop_rel_def)
  moreover have "r_msgs (rn_raft (nd_node h)) = []" using T(1) by (simp add: settled_def)
  ultimately show ?thesis using assms(2) T by (simp add: loop_rel_def)
qed

text \<open>
  C13. The event loop returns: entered in a node whose log is well formed, that has not received a snapshot, is
  not due to take one, has no read states, and whose unapplied committed entries are commands the store can
  decode, \<^verbatim>\<open>pull_ready_events\<close> ends without a fault. Then nothing is left to do; the hard state, if it is new,
  and the new entries are in the write-ahead log, the log has not changed and is all in the storage, the messages
  have been handed to the transport once and in order, the store has run every committed command once and
  in order, and the applied index of server and core is the commit index.
\<close>

theorem event_loop_returns:
  assumes "loop_ok env f"
  shows "\<exists>f'. pull_ready_events env f = Some (Inr f') \<and> \<not> rn_has_ready (nd_node f') \<and>
     adds (sx_wal env) (save_records (sx_wal env) (new_hard_state (nd_node f)) (u_entries (rl_unstable (rn_log (nd_node f)))))
       (nd_wal f) (nd_wal f') \<and>
     log_inv (rn_log (nd_node f')) \<and> log_at (rn_log (nd_node f')) = log_at (rn_log (nd_node f)) \<and>
     u_entries (rl_unstable (rn_log (nd_node f'))) = [] \<and> rl_committed (rn_log (nd_node f')) = rl_committed (rn_log (nd_node f)) \<and>
     nd_outbox f' = nd_outbox f @ r_msgs (rn_raft (nd_node f)) \<and>
     kv_map f' = fold (entry_effect (sx_store env)) (filter (\<lambda>e. e_data e \<noteq> []) (unapplied f)) (kv_map f) \<and>
     nd_applied_index f' = rl_committed (rn_log (nd_node f)) \<and> rl_applied (rn_log (nd_node f')) = rl_committed (rn_log (nd_node f))"
proof -
  have "\<exists>f'. pull_ready_events env f = Some (Inr f') \<and> loop_rel env f f' \<and> loop_ok env f' \<and> settled (nd_node f') \<and> unapplied f' = []"
    by (rule loop_keeps [OF assms refl_loop_rel]) (rule turn_loop_rel)
  then obtain f' where f': "pull_ready_events env f = Some (Inr f')" "loop_rel env f f'" "loop_ok env f'" "settled (nd_node f')" "unapplied f' = []"
    by blast
  have "length (unapplied f') = unat (rl_committed (rn_log (nd_node f'))) - unat (rl_applied (rn_log (nd_node f')))"
    by (simp add: unapplied_def Let_def)
  then have a: "rl_applied (rn_log (nd_node f')) = rl_committed (rn_log (nd_node f'))"
    using f'(5) log_invD(4) [OF loop_okD(1) [OF f'(3)]] by (simp add: word_unat_eq_iff)
  have "adds (sx_wal env) [] (nd_wal f) (nd_wal f)" using loop_okD(3) [OF assms] by (auto simp: adds_def)
  then have "adds (sx_wal env) (save_records (sx_wal env) (new_hard_state (nd_node f)) (u_entries (rl_unstable (rn_log (nd_node f)))))
       (nd_wal f) (nd_wal f')"
    using f'(2,4) settled_saves_nothing [of "nd_node f"] by (auto simp: loop_rel_def)
  then show ?thesis
    using f' a settled_ready [OF f'(3,4)] loop_okD(1,4) [OF f'(3)] by (intro exI [of _ f']) (simp add: settled_def loop_rel_def)
qed

theorem event_loop_returns_witness:
  "\<exists>f'. pull_ready_events example_env (example_node\<lparr>nd_applied_index := 5\<rparr>) = Some (Inr f') \<and> \<not> rn_has_ready (nd_node f') \<and>
     nd_applied_index f' = 6 \<and> log_at (rn_log (nd_node f')) = log_at log_example"
proof -
  let ?f = "example_node\<lparr>nd_applied_index := 5\<rparr>"
  have n: "rn_log (nd_node ?f) = log_example" by (simp add: example_node_def raw_example_def)
  have l: "u_snapshot (rl_unstable log_example) = None" "rl_applied log_example = 5" "rl_committed log_example = 6"
    by (simp_all add: log_example_def)
  have "list_all (\<lambda>e. e_type e = EntryNormal \<and> well_formed (sx_store example_env) e) (unapplied ?f)" by code_simp
  moreover have "umap_ok (rs_key_values (example_store 1))" by code_simp
  moreover have "length (w_files (nd_wal ?f)) = 1" "r_read_states (rn_raft (nd_node ?f)) = []" by code_simp+
  ultimately have "loop_ok example_env ?f"
    unfolding loop_ok_def Let_def n using log_example_inv log_example_values l by (simp add: example_node_def)
  then show ?thesis using event_loop_returns [of example_env ?f, unfolded n] l by auto
qed

end
