(* ===== verification/Recovery.thy ===== *)
theory Recovery
  imports Event_Loop
begin

text \<open>
  What a node remembers when its process ends and starts again. The invariant \<open>journal\<close> ties the bytes in the file of
  the write-ahead log to the node: they are the saves the server has made, the log they describe is the one in
  the storage, and what is still in the buffer of the file differs from it only in the commit index. A turn of
  the event loop keeps it, and the constructor of the server, run on the bytes in the file, rebuilds term,
  vote and log. No snapshot has been taken: the log starts at index 1.
\<close>

section \<open>What the saves describe\<close>

definition start0 :: WAL_Snapshot where
  "start0 = \<lparr>ws_index = 0, ws_term = 0\<rparr>"

type_synonym saves = "(HardState \<times> Entry list) list"

definition all_records :: "Wal_Codec \<Rightarrow> saves \<Rightarrow> (u8 \<times> bytes) list" where
  "all_records c ss = concat (map (\<lambda>(hs, es). save_records c hs es) ss)"

definition saved_log :: "saves \<Rightarrow> Entry list" where
  "saved_log ss = foldl (overwrite 0) [] (concat (map snd ss))"

definition saved_state :: "saves \<Rightarrow> HardState" where
  "saved_state ss = last_state HardState_default (map fst ss)"

definition list_at :: "Entry list \<Rightarrow> nat \<Rightarrow> Entry option" where
  "list_at g i = (if 0 < i \<and> i \<le> length g then Some (g ! (i - 1)) else None)"

lemma all_records_append [simp]: "all_records c (ss @ ts) = all_records c ss @ all_records c ts"
  by (simp add: all_records_def)

lemma saved_state_snoc [simp]: "saved_state (ss @ [(hs, es)]) = (if is_empty_state hs then saved_state ss else hs)"
  by (simp add: saved_state_def last_state_def)

lemma saved_state_Nil [simp]: "saved_state [] = HardState_default"
  by (simp add: saved_state_def last_state_def)

lemma saved_log_append: "saved_log (ss @ ts) = foldl (overwrite 0) (saved_log ss) (concat (map snd ts))"
  by (simp add: saved_log_def)

text \<open>A batch that follows on an entry of the log replaces the rest of it.\<close>

lemma overwrite_batch:
  assumes "contiguous b es" and "0 < b" and "b \<le> length g + 1"
  shows "gapless 0 g es \<and> foldl (overwrite 0) g es = (if es = [] then g else take (b - 1) g @ es)"
  using assms
proof (induction es arbitrary: b g)
  case (Cons e es)
  have b: "unat (e_index e) = b" "contiguous (Suc b) es" using Cons.prems(1) by simp_all
  let ?g = "take (b - 1) g @ [e]"
  have "e_index e > 0" using b(1) Cons.prems(2) by (simp add: word_less_nat_alt)
  then have o: "overwrite 0 g e = ?g" using b(1) by (simp add: overwrite_def)
  have "length ?g = b" using Cons.prems(2,3) by simp
  then have "gapless 0 ?g es \<and> foldl (overwrite 0) ?g es = (if es = [] then ?g else take b ?g @ es)" "take b ?g = ?g"
    using Cons.IH [OF b(2), of ?g] by simp_all
  then show ?case using o b(1) Cons.prems(3) by auto
qed simp

lemma list_at_batch:
  assumes "0 < b" and "b \<le> length g + 1"
  shows "list_at (take (b - 1) g @ es) i = (if b \<le> i then if i < b + length es then Some (es ! (i - b)) else None else list_at g i)"
proof -
  have "length (take (b - 1) g) = b - 1" using assms by simp
  then show ?thesis using assms by (auto simp: list_at_def nth_append)
qed

lemma list_at_inject: "list_at g = list_at h \<Longrightarrow> g = h"
proof -
  assume a: "list_at g = list_at h"
  have s: "list_at g (Suc i) = (if i < length g then Some (g ! i) else None)" for g i by (simp add: list_at_def Suc_le_eq)
  have "i < length g \<longleftrightarrow> i < length h" for i using s [of g i] s [of h i] a by (auto split: if_splits)
  then have "length g = length h" by (metis linorder_neqE_nat nat_neq_iff)
  then show "g = h" using s a by (intro nth_equalityI) (auto dest: fun_cong split: if_splits, metis option.inject)
qed

text \<open>A storage without a snapshot as a list.\<close>

lemma storage_list:
  assumes "ms_inv s" and "ms_offset s = 0" and "ms_at s = list_at g"
  shows "ms_last s = length g" and "g = tl (ms_ents s)" and "contiguous 1 g" and "length g < 2 ^ 64 - 1"
proof -
  note D = ms_invD [OF assms(1)]
  obtain d t where e: "ms_ents s = d # t" using D(1) by (cases "ms_ents s") auto
  have "ms_at s = list_at t" by (auto simp: ms_at_def list_at_def ms_first_def ms_last_def assms(2) e nth_Cons' fun_eq_iff)
  then have g: "g = t" using assms(3) list_at_inject by metis
  then show "g = tl (ms_ents s)" "ms_last s = length g" using e assms(2) by (simp_all add: ms_last_def)
  show "contiguous 1 g" "length g < 2 ^ 64 - 1" using D(2,3) e g assms(2) by simp_all
qed

section \<open>The invariant\<close>

text \<open>
  \<open>ss\<close> are the saves in the file, \<open>ts\<close> those in its buffer, which have no entries and change neither term nor vote.
\<close>

definition file_holds :: "Wal_Codec \<Rightarrow> WAL \<Rightarrow> saves \<Rightarrow> saves \<Rightarrow> bool" where
  "file_holds c w ss ts \<longleftrightarrow> w_start w = start0 \<and>
     (\<exists>x. w_files w = [x] \<and>
        wf_stream x = concat (map (frame c) ((wal_snapshot_Type, wc_pack_snap c start0) # all_records c ss)) \<and>
        wf_buffer x = concat (map (frame c) (all_records c ts)))"

definition only_commit :: "saves \<Rightarrow> HardState \<times> Entry list \<Rightarrow> bool" where
  "only_commit ss = (\<lambda>(hs, es). es = [] \<and> (is_empty_state hs \<or> hs_term hs = hs_term (saved_state ss) \<and> hs_vote hs = hs_vote (saved_state ss)))"

definition saves_ok :: "Wal_Codec \<Rightarrow> saves \<Rightarrow> saves \<Rightarrow> bool" where
  "saves_ok c ss ts \<longleftrightarrow> (\<forall>s \<in> set (ss @ ts). codec_inverts c s) \<and> gapless 0 [] (concat (map snd ss)) \<and>
     (\<forall>s \<in> set ts. only_commit ss s) \<and> unat (hs_commit (saved_state ss)) \<le> length (saved_log ss)"

text \<open>
  The hard state the core has handed out last is the one saved last, unless the node has just been started on an
  empty log; the log in the file is the one in the storage.
\<close>

definition journal :: "Server_Env \<Rightarrow> RaftNode \<Rightarrow> saves \<Rightarrow> saves \<Rightarrow> bool" where
  "journal env f ss ts \<longleftrightarrow> file_holds (sx_wal env) (nd_wal f) ss ts \<and> saves_ok (sx_wal env) ss ts \<and>
     (w_state (nd_wal f) = saved_state (ss @ ts) \<or> w_state (nd_wal f) = HardState_default) \<and>
     (rn_prev_hard_state (nd_node f) = saved_state (ss @ ts) \<or> rn_prev_hard_state (nd_node f) = HardState_default) \<and>
     ms_at (nd_storage f) = list_at (saved_log ss) \<and> ms_offset (nd_storage f) = 0"

lemma buffered_state:
  assumes "\<forall>s \<in> set ts. only_commit ss s"
  shows "hs_term (saved_state (ss @ ts)) = hs_term (saved_state ss)" and "hs_vote (saved_state (ss @ ts)) = hs_vote (saved_state ss)"
    and "concat (map snd ts) = []"
proof -
  have "hs_term (saved_state (ss @ ts)) = hs_term (saved_state ss) \<and> hs_vote (saved_state (ss @ ts)) = hs_vote (saved_state ss) \<and>
      concat (map snd ts) = []"
    using assms
  proof (induction ts rule: rev_induct)
    case (snoc x ts)
    obtain hs es where "x = (hs, es)" by fastforce
    then show ?case using snoc by (auto simp: only_commit_def simp flip: append_assoc)
  qed simp
  then show "hs_term (saved_state (ss @ ts)) = hs_term (saved_state ss)" "hs_vote (saved_state (ss @ ts)) = hs_vote (saved_state ss)"
    "concat (map snd ts) = []" by blast+
qed

text \<open>A save goes to the file together with what was buffered, or to the buffer.\<close>

lemma save_file:
  assumes "file_holds c w ss ts" and "wal_save c hs es w = Inr w'"
  shows "w_state w' = (if is_empty_state hs then w_state w else hs)"
    and "file_holds c w' (ss @ ts @ [(hs, es)]) [] \<or>
      file_holds c w' ss (ts @ [(hs, es)]) \<and> es = [] \<and> (is_empty_state hs \<or> \<not> is_must_sync hs (w_state w) 0)"
proof -
  obtain x where x: "w_files w = [x]" "w_start w = start0"
    "wf_stream x = concat (map (frame c) ((wal_snapshot_Type, wc_pack_snap c start0) # all_records c ss))"
    "wf_buffer x = concat (map (frame c) (all_records c ts))" using assms(1) by (auto simp: file_holds_def)
  obtain y where y: "w_files w' = [y]" "w_start w' = w_start w" "w_state w' = (if is_empty_state hs then w_state w else hs)"
    "wf_stream y = pending x @ concat (map (frame c) (save_records c hs es)) \<and> wf_buffer y = [] \<or>
     wf_stream y = wf_stream x \<and> wf_buffer y = wf_buffer x @ concat (map (frame c) (save_records c hs es)) \<and>
        es = [] \<and> (is_empty_state hs \<or> \<not> is_must_sync hs (w_state w) 0)"
    using wal_save_exact [OF x(1), of c hs es] assms(2) by auto
  have "all_records c [(hs, es)] = save_records c hs es" "all_records c [] = []" by (simp_all add: all_records_def)
  then show "w_state w' = (if is_empty_state hs then w_state w else hs)"
    "file_holds c w' (ss @ ts @ [(hs, es)]) [] \<or>
      file_holds c w' ss (ts @ [(hs, es)]) \<and> es = [] \<and> (is_empty_state hs \<or> \<not> is_must_sync hs (w_state w) 0)"
    using y x by (auto simp: file_holds_def pending_def)
qed

lemma saves_ok_sync:
  assumes "saves_ok c ss ts" and "codec_inverts c (hs, es)" and "gapless 0 (saved_log ss) es"
    and "unat (hs_commit (saved_state (ss @ ts @ [(hs, es)]))) \<le> length (foldl (overwrite 0) (saved_log ss) es)"
  shows "saved_log (ss @ ts @ [(hs, es)]) = foldl (overwrite 0) (saved_log ss) es" and "saves_ok c (ss @ ts @ [(hs, es)]) []"
proof -
  have "concat (map snd ts) = []" using buffered_state(3) assms(1) unfolding saves_ok_def by blast
  then have c: "concat (map snd (ts @ [(hs, es)])) = es" unfolding map_append concat_append by simp
  then show l: "saved_log (ss @ ts @ [(hs, es)]) = foldl (overwrite 0) (saved_log ss) es" by (simp only: saved_log_append)
  have "gapless 0 [] (concat (map snd (ss @ ts @ [(hs, es)])))"
    unfolding map_append [of snd ss] concat_append [of "map snd ss"] c using assms(1,3) by (simp add: gapless_append saves_ok_def saved_log_def)
  then show "saves_ok c (ss @ ts @ [(hs, es)]) []" using assms l unfolding saves_ok_def by auto
qed

lemma saves_ok_buffer:
  assumes "saves_ok c ss ts" and "codec_inverts c s" and "only_commit ss s"
  shows "saves_ok c ss (ts @ [s])"
  using assms by (auto simp: saves_ok_def)

text \<open>A hard state that need not be synchronised has the term and the vote saved before.\<close>

lemma unsynced_state:
  assumes "saves_ok c ss ts" and "w = saved_state (ss @ ts) \<or> w = HardState_default"
    and "is_empty_state hs \<or> \<not> is_must_sync hs w 0" and "\<not> is_empty_state hs \<Longrightarrow> hs_term hs \<noteq> 0"
  shows "only_commit ss (hs, [])"
proof (cases "is_empty_state hs")
  case False
  have "w \<noteq> HardState_default" using False assms(3,4) by (auto simp: is_must_sync_def HardState_default_def)
  then show ?thesis
    using False assms(1-3) buffered_state(1,2) [of ts ss] by (auto simp: only_commit_def is_must_sync_def saves_ok_def)
qed (simp add: only_commit_def)

lemma hard_state_equal_eq: "hard_state_equal a b \<longleftrightarrow> a = b"
  by (cases a; cases b) (auto simp: hard_state_equal_def)

text \<open>The hard state of a node in a term is saved by a turn.\<close>

lemma turn_saves_state:
  assumes "r_term (rn_raft n) \<noteq> 0" and "p = saved_state ss \<or> p = HardState_default" and "rn_prev_hard_state n = p"
  shows "saved_state (ss @ [(new_hard_state n, es)]) = hard_state (rn_raft n)"
    and "(if is_empty_state (new_hard_state n) then p else new_hard_state n) = hard_state (rn_raft n)"
    and "is_empty_state (new_hard_state n) \<longleftrightarrow> hard_state (rn_raft n) = p"
proof -
  have ne: "\<not> is_empty_state (hard_state (rn_raft n))" using assms(1) by (simp add: is_empty_state_def hard_state_def)
  then have "hard_state (rn_raft n) \<noteq> HardState_default" by auto
  then show "saved_state (ss @ [(new_hard_state n, es)]) = hard_state (rn_raft n)"
    "(if is_empty_state (new_hard_state n) then p else new_hard_state n) = hard_state (rn_raft n)"
    "is_empty_state (new_hard_state n) \<longleftrightarrow> hard_state (rn_raft n) = p"
    using ne assms(2,3) by (auto simp: new_hard_state_def hard_state_equal_eq)
qed

text \<open>The log of the node is what the storage has, overwritten by the entries that are not stable.\<close>

lemma log_from_storage:
  assumes inv: "log_inv l" and none: "u_snapshot (rl_unstable l) = None" and base: "ms_offset (rl_storage l) = 0"
    and at: "ms_at (rl_storage l) = list_at g"
  defines "es \<equiv> u_entries (rl_unstable l)"
  shows "gapless 0 g es" and "log_at l = list_at (foldl (overwrite 0) g es)" and "log_last l = length (foldl (overwrite 0) g es)"
proof -
  have wf: "log_wf l" using log_invD(1) [OF inv] .
  note W = log_wfD [OF wf] and G = storage_list [OF log_wfD(1) [OF wf] base at]
  have lb: "log_base l = 0" using none base by (simp add: log_base_def)
  have off: "0 < log_off l" "log_off l \<le> length g + 1" using W(3,4) none lb G(1) by simp_all
  have ct: "contiguous (log_off l) es" using u_invD [OF W(2)] by (auto simp: es_def log_off_def)
  note O = overwrite_batch [OF ct off]
  show "gapless 0 g es" using O by simp
  let ?h = "foldl (overwrite 0) g es"
  have e: "u_end (rl_unstable l) = log_off l + length es" by (simp add: u_end_log es_def)
  have h: "?h = take (log_off l - 1) g @ es"
    using O W(5) none G(1) by (cases "es = []") (auto simp: es_def)
  have "log_at l i = list_at ?h i" for i
    unfolding h list_at_batch [OF off] by (simp add: log_at_def e lb at) (auto simp: es_def list_at_def)
  then show "log_at l = list_at ?h" by (rule ext)
  show "log_last l = length ?h" using off by (simp add: log_last_def e h)
qed

text \<open>A turn keeps the invariant and saves the hard state.\<close>

lemma turn_journal:
  assumes ok: "loop_ok env f" and J: "journal env f ss ts" and tm: "r_term (rn_raft (nd_node f)) \<noteq> 0"
    and inv: "codec_inverts (sx_wal env) (new_hard_state (nd_node f), u_entries (rl_unstable (rn_log (nd_node f))))"
    and once: "pull_ready_once env f = Inr (True, f')"
  shows "\<exists>ss' ts'. journal env f' ss' ts' \<and> saved_state (ss' @ ts') = hard_state (rn_raft (nd_node f))"
proof -
  define c hs es where "c = sx_wal env" and "hs = new_hard_state (nd_node f)" and "es = u_entries (rl_unstable (rn_log (nd_node f)))"
  note L = loop_okD [OF ok]
  have J': "file_holds c (nd_wal f) ss ts" "saves_ok c ss ts" "w_state (nd_wal f) = saved_state (ss @ ts) \<or> w_state (nd_wal f) = HardState_default"
    "rn_prev_hard_state (nd_node f) = saved_state (ss @ ts) \<or> rn_prev_hard_state (nd_node f) = HardState_default"
    "ms_at (rl_storage (rn_log (nd_node f))) = list_at (saved_log ss)" "ms_offset (rl_storage (rn_log (nd_node f))) = 0"
    using J by (auto simp: journal_def c_def nd_storage_def)
  have T: "loop_ok env f'" "ms_at (nd_storage f') = log_at (rn_log (nd_node f))" "wal_save c hs es (nd_wal f) = Inr (nd_wal f')"
    "log_base (rn_log (nd_node f')) = log_base (rn_log (nd_node f))"
    "rn_prev_hard_state (nd_node f') = (if is_empty_state hs then rn_prev_hard_state (nd_node f) else hs)"
    using turn [OF ok] once by (auto simp: c_def hs_def es_def)
  note S = turn_saves_state [OF tm J'(4) refl, folded hs_def] and G = log_from_storage [OF L(1,2) J'(6,5), folded es_def]
    and W = save_file [OF J'(1) T(3)]
  have st: "ms_offset (nd_storage f') = 0" using loop_okD(2) [OF T(1)] T(4) L(2) J'(6) by (simp add: nd_storage_def log_base_def)
  have p: "rn_prev_hard_state (nd_node f') = hard_state (rn_raft (nd_node f))" using T(5) S(2) by simp
  have s: "saved_state (ss @ ts @ [(hs, es)]) = hard_state (rn_raft (nd_node f))" using S(1) [of es] by simp
  have ws: "w_state (nd_wal f') = saved_state (ss @ ts @ [(hs, es)]) \<or> w_state (nd_wal f') = HardState_default"
    using W(1) J'(3) saved_state_snoc [of "ss @ ts" hs es] by auto
  show ?thesis
    using W(2)
  proof
    assume a: "file_holds c (nd_wal f') (ss @ ts @ [(hs, es)]) []"
    have "unat (hs_commit (hard_state (rn_raft (nd_node f)))) \<le> length (foldl (overwrite 0) (saved_log ss) es)"
      using log_invD(3) [OF L(1)] G(3) by (simp add: hard_state_def)
    then have "saved_log (ss @ ts @ [(hs, es)]) = foldl (overwrite 0) (saved_log ss) es" "saves_ok c (ss @ ts @ [(hs, es)]) []"
      using saves_ok_sync [OF J'(2) _ G(1)] inv s by (simp_all add: c_def hs_def es_def)
    then have "journal env f' (ss @ ts @ [(hs, es)]) []" using a T(2) G(2) st p s ws by (simp add: journal_def c_def)
    then show ?thesis using s by force
  next
    assume b: "file_holds c (nd_wal f') ss (ts @ [(hs, es)]) \<and> es = [] \<and> (is_empty_state hs \<or> \<not> is_must_sync hs (w_state (nd_wal f)) 0)"
    have "hs_term hs \<noteq> 0" if "\<not> is_empty_state hs" using S(2) tm that by (auto simp: hard_state_def)
    then have "only_commit ss (hs, es)" using unsynced_state [OF J'(2,3), of hs] b by blast
    then have "saves_ok c ss (ts @ [(hs, es)])" using saves_ok_buffer [OF J'(2)] inv by (simp add: c_def hs_def es_def)
    then have "journal env f' ss (ts @ [(hs, es)])" using b T(2) G(2) st p s ws by (auto simp: journal_def c_def)
    then show ?thesis using s by force
  qed
qed

section \<open>The loop\<close>

lemma settled_state:
  assumes "settled (nd_node f)" and "journal env f ss ts" and "r_term (rn_raft (nd_node f)) \<noteq> 0"
  shows "new_hard_state (nd_node f) = HardState_default" and "saved_state (ss @ ts) = hard_state (rn_raft (nd_node f))"
proof -
  have p: "rn_prev_hard_state (nd_node f) = saved_state (ss @ ts) \<or> rn_prev_hard_state (nd_node f) = HardState_default"
    using assms(2) by (simp add: journal_def)
  have e: "is_empty_state (new_hard_state (nd_node f))" using assms(1) by (simp add: settled_def)
  then have "hard_state (rn_raft (nd_node f)) = rn_prev_hard_state (nd_node f)" using turn_saves_state(3) [OF assms(3) p refl] by simp
  then show "new_hard_state (nd_node f) = HardState_default" "saved_state (ss @ ts) = hard_state (rn_raft (nd_node f))"
    using p assms(3) by (auto simp: new_hard_state_def hard_state_equal_eq hard_state_def HardState_default_def)
qed

lemma loop_journal:
  assumes ok: "loop_ok env f" and J: "\<exists>ss ts. journal env f ss ts" and tm: "r_term (rn_raft (nd_node f)) \<noteq> 0"
    and inv: "codec_inverts (sx_wal env) (new_hard_state (nd_node f), u_entries (rl_unstable (rn_log (nd_node f))))"
      "codec_inverts (sx_wal env) (HardState_default, [])"
  shows "\<exists>f' ss ts. pull_ready_events env f = Some (Inr f') \<and> loop_ok env f' \<and> journal env f' ss ts \<and>
     saved_state (ss @ ts) = hard_state (rn_raft (nd_node f)) \<and> list_at (saved_log ss) = log_at (rn_log (nd_node f))"
proof -
  define P where "P g \<longleftrightarrow> hard_state (rn_raft (nd_node g)) = hard_state (rn_raft (nd_node f)) \<and> log_at (rn_log (nd_node g)) = log_at (rn_log (nd_node f)) \<and>
      (\<exists>ss ts. journal env g ss ts) \<and> (g = f \<or> settled (nd_node g))" for g
  have step: "P h" if g: "loop_ok env g" "P g" "pull_ready_once env g = Inr (True, h)" for g h
  proof -
    have T: "settled (nd_node h)" "log_at (rn_log (nd_node h)) = log_at (rn_log (nd_node g))"
      "hard_state (rn_raft (nd_node h)) = hard_state (rn_raft (nd_node g))" using turn [OF g(1)] g(3) by auto
    obtain ss ts where j: "journal env g ss ts" using g(2) by (auto simp: P_def)
    have t: "r_term (rn_raft (nd_node g)) \<noteq> 0" using g(2) tm by (simp add: P_def hard_state_def)
    have "codec_inverts (sx_wal env) (new_hard_state (nd_node g), u_entries (rl_unstable (rn_log (nd_node g))))"
      using g(2) inv settled_state(1) [OF _ j t] by (auto simp: P_def settled_def)
    then show ?thesis using turn_journal [OF g(1) j t _ g(3)] T g(2) by (auto simp: P_def)
  qed
  have "\<exists>f'. pull_ready_events env f = Some (Inr f') \<and> P f' \<and> loop_ok env f' \<and> settled (nd_node f') \<and> unapplied f' = []"
    by (rule loop_keeps [OF ok]) (use J in \<open>simp add: P_def\<close>, rule step)
  then obtain f' where f': "pull_ready_events env f = Some (Inr f')" "P f'" "loop_ok env f'" "settled (nd_node f')" by blast
  then obtain ss ts where j: "journal env f' ss ts" unfolding P_def by blast
  have t: "r_term (rn_raft (nd_node f')) \<noteq> 0" using f'(2) tm by (simp add: P_def hard_state_def)
  have "log_at (rn_log (nd_node f')) = list_at (saved_log ss)"
    using log_from_storage(2) [OF loop_okD(1,2) [OF f'(3)], of "saved_log ss"] f'(4) j by (simp add: journal_def nd_storage_def settled_def)
  then show ?thesis using f' j settled_state(2) [OF f'(4) j t] unfolding P_def by auto
qed

section \<open>The restart\<close>

text \<open>The directory of the write-ahead log as it is when the process has ended: what is in the file, without the buffer.\<close>

definition disk :: "RaftNode \<Rightarrow> directory" where
  "disk f = [(wal_name 0 0, wf_stream (last (w_files (nd_wal f))))]"

lemma open_single:
  assumes "extension_law ext" and "pos (wal_name 0 0) \<noteq> - 1"
  shows "wal_open ext pos [(wal_name 0 0, bs)] start0 =
     Inr \<lparr>w_state = HardState_default, w_start = start0, w_enti = 0,
       w_files = [\<lparr>wf_buffer = [], wf_seq = 0, wf_size = pos (wal_name 0 0), wf_stream = bs\<rparr>]\<rparr>"
proof -
  note p = wal_name_parses [OF assms(1), of 0 0]
  have "ext (wal_name 0 0) = ''.wal''" using p by (auto simp: parse_wal_name_def split: if_splits)
  then have "get_wal_names ext [(wal_name 0 0, bs)] = [wal_name 0 0]" by (simp add: get_wal_names_def)
  then show ?thesis using p assms(2)
    by (simp add: wal_open_def search_index_def search_index_loop.simps is_valid_seq_def nth_r_def WAL_File_new_def start0_def Let_def)
qed

lemma deref_all_Some: "deref_all (map Some xs) = Inr xs"
  by (induction xs) simp_all

text \<open>A list of entries appended to a storage without any.\<close>

lemma append_to_new:
  assumes "contiguous 1 g" and "length g < 2 ^ 64 - 1"
  shows "\<exists>s. ms_append g (ms_set_hard_state h MemoryStorage_new) = Inr (OK, s) \<and> ms_inv s \<and> ms_offset s = 0 \<and> ms_at s = list_at g \<and>
     ms_hard s = h \<and> ms_snap s = Snapshot_default"
proof -
  have "ms_append g (ms_set_hard_state h MemoryStorage_new) =
      Inr (OK, \<lparr>ms_hard = h, ms_snap = Snapshot_default, ms_ents = Entry_default # g\<rparr>)"
  proof (cases g)
    case (Cons e es)
    have e: "e_index e = 1" using assms(1) Cons by (simp add: word_unat_eq_iff)
    have "unat (of_nat (length g) :: u64) = length g" using assms(2) by (intro unat_of_nat_small) simp
    then have "\<not> (1 :: u64) + of_nat (length g) - 1 < 1" using Cons by (simp add: word_less_nat_alt)
    then show ?thesis
      using Cons e by (simp add: ms_append_def ms_set_hard_state_def MemoryStorage_new_def ms_first_index_def Entry_default_def nth_r_def Let_def)
  qed (simp add: ms_append_def ms_set_hard_state_def MemoryStorage_new_def)
  moreover have "ms_inv \<lparr>ms_hard = h, ms_snap = Snapshot_default, ms_ents = Entry_default # g\<rparr>"
    using assms by (simp add: ms_inv_def ms_offset_def Entry_default_def)
  moreover have "ms_at \<lparr>ms_hard = h, ms_snap = Snapshot_default, ms_ents = Entry_default # g\<rparr> = list_at g"
    by (auto simp: ms_at_def list_at_def ms_first_def ms_last_def ms_offset_def Entry_default_def nth_Cons' fun_eq_iff)
  ultimately show ?thesis by (simp add: ms_offset_def Entry_default_def)
qed

lemma replay_restart:
  assumes fh: "file_holds (sx_wal env) (nd_wal f) ss ts" and ok: "saves_ok (sx_wal env) ss ts"
    and g: "contiguous 1 (saved_log ss)" "length (saved_log ss) < 2 ^ 64 - 1"
    and sys: "extension_law (sx_ext env)" "sx_pos env (wal_name 0 0) \<noteq> - 1"
    and snap: "wc_unpack_snap (sx_wal env) (wc_pack_snap (sx_wal env) start0) = Some start0" "length (wc_pack_snap (sx_wal env) start0) \<le> 0xFFFFFF"
  shows "\<exists>rx. replay_WAL env dir [] (Some (disk f)) MemoryStorage_new = Inr rx \<and> ms_inv (rx_storage rx) \<and> ms_offset (rx_storage rx) = 0 \<and>
     ms_at (rx_storage rx) = list_at (saved_log ss) \<and> ms_hard (rx_storage rx) = saved_state ss \<and> ms_snap (rx_storage rx) = Snapshot_default \<and>
     file_holds (sx_wal env) (rx_wal rx) ss [] \<and> w_state (rx_wal rx) = HardState_default"
proof -
  obtain x where x: "w_files (nd_wal f) = [x]"
    "wf_stream x = concat (map (frame (sx_wal env)) ((wal_snapshot_Type, wc_pack_snap (sx_wal env) start0) # all_records (sx_wal env) ss))"
    using fh by (auto simp: file_holds_def)
  define y where "y = \<lparr>wf_buffer = [], wf_seq = 0, wf_size = sx_pos env (wal_name 0 0), wf_stream = wf_stream x\<rparr>"
  define w where "w = \<lparr>w_state = HardState_default, w_start = start0, w_enti = 0, w_files = [y]\<rparr>"
  have "wal_open (sx_ext env) (sx_pos env) (disk f) start0 = Inr w"
    using open_single [where pos = "sx_pos env", OF sys] x(1) by (simp add: disk_def w_def y_def)
  moreover have "open_WAL env (Some (disk f)) Snapshot_default = wal_open (sx_ext env) (sx_pos env) (disk f) start0"
    by (simp add: open_WAL_def Snapshot_default_def start0_def)
  moreover have "\<exists>i. wal_read_all (sx_wal env) HardState_default [] w = Inr (saved_state ss, map Some (saved_log ss), w\<lparr>w_enti := i\<rparr>)"
    using read_saved [of w y "sx_wal env" ss] x(2) snap ok
    by (simp add: w_def y_def start0_def all_records_def saves_ok_def saved_state_def saved_log_def)
  moreover have "snap_load (sx_ext env) (sx_snap env) dir [] = Inr (NotFound ''snap not found'', None, [])"
    by (simp add: snap_load_def get_snap_names_def)
  moreover have "file_holds (sx_wal env) (w\<lparr>w_enti := i\<rparr>) ss []" for i using x(2) by (simp add: file_holds_def w_def y_def all_records_def)
  ultimately show ?thesis
    using append_to_new [OF g, of "saved_state ss"]
    by (auto simp: replay_WAL_def is_ok_def is_not_found_def deref_all_Some w_def)
qed

text \<open>The core on a storage without a snapshot.\<close>

lemma Raft_new_restart:
  assumes c: "c_storage conf = Some s" "c_peers conf = []" "c_learners conf = []" "c_applied conf = 0" "unat (c_election_tick conf) < 2 ^ 31"
    and s: "ms_inv s" "ms_offset s = 0" "ms_snap s = Snapshot_default" "unat (hs_commit (ms_hard s)) \<le> ms_last s"
  shows "\<exists>r. Raft_new conf seq = Inr r \<and> hard_state r = ms_hard s \<and> rl_storage (r_raft_log r) = s \<and> log_inv (r_raft_log r) \<and>
     log_at (r_raft_log r) = ms_at s"
proof -
  let ?l = "RaftLog_new s (c_max_committed_size_per_ready conf)" and ?q = "Raft_init conf s seq"
  define l where "l = ?l\<lparr>rl_committed := hs_commit (ms_hard s)\<rparr>"
  note N = RaftLog_new_inv [OF s(1), of "c_max_committed_size_per_ready conf"]
  have "e_index (ms_ents s ! 0) = 0" using s(2) by (simp add: ms_offset_def word_unat_eq_iff)
  then have z: "rl_committed ?l = 0" "rl_applied ?l = 0" "u_snapshot (rl_unstable ?l) = None"
    by (simp_all add: RaftLog_new_def Unstable_new_def ms_first_index_def)
  have l: "log_inv l" "log_at l = ms_at s" "rl_storage l = s"
    using N s(4) z by (simp_all add: l_def log_inv_def log_wf_def log_base_def log_off_def log_last_def log_at_def fun_eq_iff)
      (simp add: RaftLog_new_def)
  define q where "q = ?q\<lparr>r_raft_log := l, r_term := hs_term (ms_hard s), r_vote := hs_vote (ms_hard s)\<rparr>"
  have load: "(if \<not> is_empty_state (ms_hard s) then load_state (ms_hard s) ?q else Inr ?q) = Inr q"
  proof (cases "is_empty_state (ms_hard s)")
    case True
    then have "ms_hard s = HardState_default" by (cases "ms_hard s") (simp add: is_empty_state_def HardState_default_def)
    then show ?thesis using True z(1) by (simp add: q_def l_def Raft_init_def HardState_default_def)
  next
    case False
    have "last_index ?l = ms_last_index s" using unat_last_index [OF log_invD(1) [OF N(1)]] N(3) unat_ms_last_index [OF s(1)] by (simp add: word_unat_eq_iff)
    then show ?thesis using False s(1,4) z(1)
      by (simp add: load_state_def Raft_init_def q_def l_def word_less_nat_alt)
  qed
  have "timer_ok q" using c(5) by (simp add: timer_ok_def q_def Raft_init_def)
  then obtain r where r: "become_follower (r_term q) 0 q = Inr r" using become_follower_total by blast
  note F = become_follower_facts [OF r]
  have "last_term (r_raft_log r) = Inr (term_at l (log_last l))" using F(4) last_term_eq [OF log_invD(1) [OF l(1)]] by (simp add: q_def)
  then have "Raft_new conf seq = Inr r"
    using c(1-4) s(3) load r by (simp add: Raft_new_def ms_initial_state_def Snapshot_default_def Let_def q_def)
  moreover have "hard_state r = ms_hard s" using F(2-4) by (simp add: hard_state_def q_def l_def)
  ultimately show ?thesis using F(4) l by (simp add: q_def)
qed

lemma server_config_ok:
  assumes "i \<noteq> 0"
  shows "fst (validate (server_config i s)) = OK" and "c_storage (snd (validate (server_config i s))) = Some s"
    and "c_peers (snd (validate (server_config i s))) = []" and "c_learners (snd (validate (server_config i s))) = []"
    and "c_applied (snd (validate (server_config i s))) = 0" and "unat (c_election_tick (snd (validate (server_config i s)))) < 2 ^ 31"
  using assms by (simp_all add: validate_def server_config_def Config_default_def Let_def word_le_nat_alt)

lemma node_restart:
  assumes J: "journal env f ss ts" and inv: "ms_inv (nd_storage f)" and i: "i \<noteq> 0" "peers \<noteq> []"
    and sys: "extension_law (sx_ext env)" "sx_pos env (wal_name 0 0) \<noteq> - 1"
    and snap: "wc_unpack_snap (sx_wal env) (wc_pack_snap (sx_wal env) start0) = Some start0" "length (wc_pack_snap (sx_wal env) start0) \<le> 0xFFFFFF"
  shows "\<exists>g. RaftNode_new env i peers [] (Some (disk f)) = Inr g \<and> journal env g ss [] \<and> hard_state (rn_raft (nd_node g)) = saved_state ss \<and>
     log_inv (rn_log (nd_node g)) \<and> log_at (rn_log (nd_node g)) = list_at (saved_log ss)"
proof -
  have j: "file_holds (sx_wal env) (nd_wal f) ss ts" "saves_ok (sx_wal env) ss ts" "ms_at (nd_storage f) = list_at (saved_log ss)" "ms_offset (nd_storage f) = 0"
    using J by (simp_all add: journal_def)
  note G = storage_list [OF inv j(4,3)]
  obtain rx where rx: "replay_WAL env (snap_dir_of i) [] (Some (disk f)) MemoryStorage_new = Inr rx" "ms_inv (rx_storage rx)"
    "ms_offset (rx_storage rx) = 0" "ms_at (rx_storage rx) = list_at (saved_log ss)" "ms_hard (rx_storage rx) = saved_state ss"
    "ms_snap (rx_storage rx) = Snapshot_default" "file_holds (sx_wal env) (rx_wal rx) ss []" "w_state (rx_wal rx) = HardState_default"
    using replay_restart [OF j(1,2) G(3,4) sys snap] by blast
  let ?c = "snd (validate (server_config i (rx_storage rx)))"
  note V = server_config_ok [OF i(1), of "rx_storage rx"] and G' = storage_list [OF rx(2-4)]
  have "unat (hs_commit (ms_hard (rx_storage rx))) \<le> ms_last (rx_storage rx)" using j(2) G'(1) rx(5) by (simp add: saves_ok_def)
  then obtain r where r: "Raft_new ?c (sx_seq env) = Inr r" "hard_state r = saved_state ss" "rl_storage (r_raft_log r) = rx_storage rx"
    "log_inv (r_raft_log r)" "log_at (r_raft_log r) = list_at (saved_log ss)"
    using Raft_new_restart [OF V(2-6) rx(2,3,6)] rx(4,5) by metis
  define n where "n = with_prev (ms_last_index (rx_storage rx)) r"
  have "RawNode_restart ?c (sx_seq env) = Inr n" using V(2) r(1) by (simp add: RawNode_restart_def n_def)
  then obtain g where g: "RaftNode_new env i peers [] (Some (disk f)) = Inr g" "nd_node g = n" "nd_wal g = rx_wal rx"
    using i(2) rx(1) V(1) by (simp add: RaftNode_new_def is_ok_def split_beta')
  have "saves_ok (sx_wal env) ss []" using j(2) by (auto simp: saves_ok_def)
  moreover have "rn_prev_hard_state n = saved_state ss \<or> rn_prev_hard_state n = HardState_default" "rn_raft n = r"
    using r(2) by (simp_all add: n_def with_prev_def)
  ultimately show ?thesis
    using g rx(3,4,7,8) r by (intro exI [of _ g]) (simp add: journal_def nd_storage_def)
qed


text \<open>A follower that has just received its first entry.\<close>

definition first_append :: Message where
  "first_append = Message_default\<lparr>m_type := MsgApp, m_from := 2, m_to := 1, m_term := 3, m_entries := [example_entry 1 3]\<rparr>"

definition example_follower :: RaftNode where
  "example_follower = example_node\<lparr>nd_applied_index := 0,
     nd_node := snd (projr (rn_step first_append (with_prev 0 (projr (Raft_new (server_config 1 MemoryStorage_new) (\<lambda>_. 3)))))),
     nd_wal := \<lparr>w_state = HardState_default, w_start = start0, w_enti = 0,
       w_files = [\<lparr>wf_buffer = [], wf_seq = 0, wf_size = 0,
         wf_stream = frame example_codec (wal_snapshot_Type, wc_pack_snap example_codec start0)\<rparr>]\<rparr>\<rparr>"

lemma example_follower_log: "rn_log (nd_node example_follower) =
    \<lparr>rl_storage = MemoryStorage_new, rl_unstable = \<lparr>u_snapshot = None, u_entries = [example_entry 1 3], u_offset = 1\<rparr>,
     rl_committed = 0, rl_applied = 0, rl_max_next_ents_size = 0\<rparr>"
  by code_simp

lemma example_follower_ok: "loop_ok example_env example_follower"
proof -
  have "contiguous 1 [example_entry 1 3]" by (simp add: example_entry_def)
  then have "log_inv (rn_log (nd_node example_follower))"
    by (simp add: example_follower_log log_inv_def log_wf_def ms_inv_new u_inv_def log_off_def log_base_def log_last_def u_end_def
        ms_first_def ms_last_def ms_offset_def MemoryStorage_new_def Entry_default_def ms_inv_def)
  moreover have "unapplied example_follower = []" by (simp add: unapplied_def example_follower_log)
  moreover have "umap_ok (rs_key_values (example_store 1))" "r_read_states (rn_raft (nd_node example_follower)) = []" by code_simp+
  ultimately show ?thesis
    unfolding loop_ok_def Let_def example_follower_log
    by (simp add: example_follower_def example_node_def log_base_def ms_offset_def MemoryStorage_new_def Entry_default_def)
qed

lemma example_follower_journal: "journal example_env example_follower [] []"
proof -
  have "sx_wal example_env = example_codec" by (simp add: example_env_def)
  moreover have "ms_at MemoryStorage_new = list_at []" "ms_offset MemoryStorage_new = 0"
    by (auto simp: fun_eq_iff ms_at_def list_at_def ms_first_def ms_last_def ms_offset_def MemoryStorage_new_def Entry_default_def)
  moreover have "rn_prev_hard_state (nd_node example_follower) = HardState_default" by code_simp
  ultimately show ?thesis
    by (simp add: journal_def file_holds_def saves_ok_def all_records_def saved_log_def nd_storage_def example_follower_log HardState_default_def)
      (simp add: example_follower_def HardState_default_def)
qed


end
