(* ===== verification/Kv_Main.thy ===== *)
theory Kv_Main
  imports Recovery
begin

text \<open>
  The outer parts of the program: where the servers listen (\<^verbatim>\<open>AsioServer\<close> of \<^verbatim>\<open>transport/raft_server.cpp\<close>, \<^verbatim>\<open>PeerImpl\<close>'s
  address, the acceptor of \<^verbatim>\<open>server/redis_store.cpp\<close>), what the receiving server does with a connection, stopping,
  and \<^verbatim>\<open>main\<close> of \<^verbatim>\<open>raft-kv.cpp\<close>. Splitting a string and reading an IP address (boost) and parsing the command line
  (glib) are arguments. It is shown that the messages a transport has queued for a peer reach \<^verbatim>\<open>RaftNode::process\<close>
  of that peer, all of them and in order, in whatever pieces the network delivers the bytes.
\<close>

section \<open>Addresses\<close>

text \<open>\<open>nx_split c s\<close> is \<^verbatim>\<open>boost::split\<close> at the character \<open>c\<close>; \<open>nx_address\<close> is \<^verbatim>\<open>address::from_string\<close>, \<open>None\<close> when it throws.\<close>

record 'a Net_Env =
  nx_split :: "char \<Rightarrow> string \<Rightarrow> string list"
  nx_address :: "string \<Rightarrow> 'a option"

text \<open>\<^verbatim>\<open>std::atoi\<close>: white space, a sign, digits; undefined when the number is not an \<^verbatim>\<open>int\<close>.\<close>

definition digit :: "char \<Rightarrow> bool" where
  "digit c \<longleftrightarrow> 48 \<le> (of_char c :: nat) \<and> (of_char c :: nat) \<le> 57"

definition digits_value :: "string \<Rightarrow> int" where
  "digits_value ds = foldl (\<lambda>a d. 10 * a + (of_char d - 48)) 0 ds"

definition atoi :: "string \<Rightarrow> fault + int" where
  "atoi str =
     (let s = dropWhile is_space str;
          neg = (s \<noteq> [] \<and> hd s = CHR ''-'');
          s = (if s \<noteq> [] \<and> (hd s = CHR ''-'' \<or> hd s = CHR ''+'') then tl s else s);
          n = digits_value (takeWhile digit s);
          v = (if neg then - n else n)
      in if - (2 ^ 31) \<le> v \<and> v < 2 ^ 31 then Inr v else Inl (Undefined ''atoi''))"

text \<open>
  The endpoint of a host and port. \<open>None\<close> is \<^verbatim>\<open>exit(0)\<close>; the port of an endpoint is an \<^verbatim>\<open>unsigned short\<close>, to which the
  \<^verbatim>\<open>int\<close> is converted; the exception of an address that cannot be read is caught nowhere.
\<close>

definition endpoint_of :: "'a Net_Env \<Rightarrow> string \<Rightarrow> fault + ('a \<times> 16 word) option" where
  "endpoint_of nx host =
     (case nx_split nx CHR '':'' host of
        [h, p] \<Rightarrow>
          (case nx_address nx h of
             None \<Rightarrow> Inl (Fatal ''address::from_string'')
           | Some a \<Rightarrow> bind_r (atoi p) (\<lambda>port. Inr (Some (a, of_int port))))
      | _ \<Rightarrow> Inr None)"

section \<open>Accepting\<close>

text \<open>
  Both servers accept alike: \<open>ac_armed\<close> says that an \<^verbatim>\<open>async_accept\<close> is under way. Its handler returns at once after an
  error, and otherwise starts the next one before the session.
\<close>

record 's Acceptor =
  ac_armed :: bool
  ac_sessions :: "'s list"

definition start_accept :: "'s Acceptor \<Rightarrow> 's Acceptor" where
  "start_accept a = a\<lparr>ac_armed := True\<rparr>"

definition on_accept :: "bool \<Rightarrow> 's \<Rightarrow> 's Acceptor \<Rightarrow> 's Acceptor" where
  "on_accept error session a =
     (let a = a\<lparr>ac_armed := False\<rparr> in
      if error then a
      else let a = start_accept a in a\<lparr>ac_sessions := ac_sessions a @ [session]\<rparr>)"

text \<open>The session of the transport with the bytes no read has taken, and the session of a client of the store.\<close>

definition asio_accept :: "bool \<Rightarrow> (ServerSession \<times> bytes) Acceptor \<Rightarrow> (ServerSession \<times> bytes) Acceptor" where
  "asio_accept error = on_accept error (ServerSession_new, [])"

definition redis_accept :: "bool \<Rightarrow> 'r \<Rightarrow> 'r RedisSession Acceptor \<Rightarrow> 'r RedisSession Acceptor" where
  "redis_accept error reader = on_accept error (session_start (RedisSession_new reader))"

text \<open>After the first error nobody is accepted any more: no handler is left to be called.\<close>

definition on_connection :: "bool \<Rightarrow> 's \<Rightarrow> 's Acceptor \<Rightarrow> 's Acceptor" where
  "on_connection error session a = (if ac_armed a then on_accept error session a else a)"

lemma accept_error_is_final: "fold (\<lambda>(e, s). on_connection e s) xs (on_connection True t a) = on_connection True t a"
  by (induction xs) (auto simp: on_connection_def on_accept_def Let_def)

section \<open>Receiving\<close>

text \<open>Bytes arrive on the \<open>k\<close>th connection; the messages are handed to \<^verbatim>\<open>RaftNode::process\<close>.\<close>

definition on_bytes ::
  "(bytes \<Rightarrow> Message option) \<Rightarrow> nat \<Rightarrow> bytes \<Rightarrow> (ServerSession \<times> bytes) Acceptor \<Rightarrow> fault + (Message list \<times> (ServerSession \<times> bytes) Acceptor)"
where
  "on_bytes unpack k bs a =
     bind_r (nth_r (ac_sessions a) k) (\<lambda>(s, rest).
     bind_r (serve unpack s (rest @ bs)) (\<lambda>(ms, s, rest).
     Inr (ms, a\<lparr>ac_sessions := (ac_sessions a)[k := (s, rest)]\<rparr>)))"

primrec process_all :: "Server_Env \<Rightarrow> Message list \<Rightarrow> RaftNode \<Rightarrow> (fault + RaftNode) option" where
  "process_all env [] f = Some (Inr f)"
| "process_all env (m # ms) f =
     (case server_process env m f of None \<Rightarrow> None | Some (Inl e) \<Rightarrow> Some (Inl e) | Some (Inr f) \<Rightarrow> process_all env ms f)"

definition on_receive ::
  "Server_Env \<Rightarrow> (bytes \<Rightarrow> Message option) \<Rightarrow> nat \<Rightarrow> bytes \<Rightarrow> (ServerSession \<times> bytes) Acceptor \<times> RaftNode
     \<Rightarrow> (fault + (ServerSession \<times> bytes) Acceptor \<times> RaftNode) option"
where
  "on_receive env unpack k bs = (\<lambda>(a, f).
     case on_bytes unpack k bs a of
       Inl e \<Rightarrow> Some (Inl e)
     | Inr (ms, a) \<Rightarrow>
         (case process_all env ms f of None \<Rightarrow> None | Some (Inl e) \<Rightarrow> Some (Inl e) | Some (Inr f) \<Rightarrow> Some (Inr (a, f))))"

primrec receive_all ::
  "Server_Env \<Rightarrow> (bytes \<Rightarrow> Message option) \<Rightarrow> nat \<Rightarrow> bytes list \<Rightarrow> (ServerSession \<times> bytes) Acceptor \<times> RaftNode
     \<Rightarrow> (fault + (ServerSession \<times> bytes) Acceptor \<times> RaftNode) option"
where
  "receive_all env unpack k [] x = Some (Inr x)"
| "receive_all env unpack k (bs # bss) x =
     (case on_receive env unpack k bs x of None \<Rightarrow> None | Some (Inl e) \<Rightarrow> Some (Inl e) | Some (Inr x) \<Rightarrow> receive_all env unpack k bss x)"

section \<open>Stopping\<close>

text \<open>
  What is running: the two event loops and the pointer to the transport. \<^verbatim>\<open>stop\<close> goes through the pointer to the
  store, which is null until \<^verbatim>\<open>schedule\<close> has set it. \<open>g_node\<close> is the global pointer the signal handler looks at.
\<close>

record Running =
  ru_node :: RaftNode
  ru_transport :: bool
  ru_store_loop :: bool
  ru_loop :: bool

definition server_stop :: "Running \<Rightarrow> fault + Running" where
  "server_stop r =
     bind_r (deref_r (nd_redis_server (ru_node r))) (\<lambda>_.
     Inr (r\<lparr>ru_store_loop := False, ru_transport := False, ru_loop := False\<rparr>))"

definition on_signal :: "Running option \<Rightarrow> fault + Running option" where
  "on_signal g_node =
     (case g_node of None \<Rightarrow> Inr None | Some r \<Rightarrow> bind_r (server_stop r) (\<lambda>r. Inr (Some r)))"

definition is_id_removed :: "u64 \<Rightarrow> (bool \<Rightarrow> 'b) \<Rightarrow> 'b" where
  "is_id_removed i callback = callback False"

text \<open>A signal before \<^verbatim>\<open>schedule\<close> dereferences a null pointer.\<close>

lemma early_signal: "nd_redis_server (ru_node r) = None \<Longrightarrow> on_signal (Some r) = Inl (Undefined ''null pointer'')"
  by (simp add: on_signal_def server_stop_def deref_r_def)

section \<open>The program\<close>

text \<open>
  \<open>opts\<close> is what \<^verbatim>\<open>g_option_context_parse\<close> leaves in the variables, \<open>None\<close> when it fails: the number given for the id,
  the cluster, and the number given for the port, of which \<^verbatim>\<open>g_port\<close> has room for 16 bits. \<^verbatim>\<open>std::string\<close> of a null
  pointer is undefined.
\<close>

datatype exit = Exit_Failure | Exit_Success | Running_Server RaftNode

text \<open>
  \<^verbatim>\<open>RaftNode::main\<close> with the addresses: the constructors of \<^verbatim>\<open>AsioServer\<close> and \<^verbatim>\<open>PeerImpl\<close> call \<^verbatim>\<open>exit(0)\<close> on a host that is not
  of the form address and port (\<open>None\<close> below).
\<close>

primrec connect_peers :: "'a Net_Env \<Rightarrow> nat list \<Rightarrow> RaftNode \<Rightarrow> fault + RaftNode option" where
  "connect_peers nx [] f = Inr (Some f)"
| "connect_peers nx (k # ks) f =
     (if of_nat k + 1 = nd_id f \<or> map_of (tr_peers (nd_transport f)) (of_nat k + 1) \<noteq> None then connect_peers nx ks f
      else
        bind_r (nth_r (nd_peers f) k) (\<lambda>host.
        bind_r (endpoint_of nx host) (\<lambda>ep.
        case ep of
          None \<Rightarrow> Inr None
        | Some _ \<Rightarrow> bind_r (add_peer (of_nat k + 1) (nd_transport f)) (\<lambda>t. connect_peers nx ks (f\<lparr>nd_transport := t\<rparr>)))))"

definition kv_start :: "Server_Env \<Rightarrow> 'a Net_Env \<Rightarrow> u64 \<Rightarrow> string list \<Rightarrow> directory \<Rightarrow> directory option \<Rightarrow> fault + exit" where
  "kv_start env nx i peers snaps walo =
     bind_r (RaftNode_new env i peers snaps walo) (\<lambda>f.
     bind_r (nth_r (nd_peers f) (unat (i - 1))) (\<lambda>host.
     bind_r (endpoint_of nx host) (\<lambda>ep.
     case ep of
       None \<Rightarrow> Inr Exit_Success
     | Some _ \<Rightarrow>
         bind_r (connect_peers nx [0..<length (nd_peers f)] f) (\<lambda>fo.
         case fo of None \<Rightarrow> Inr Exit_Success | Some f \<Rightarrow> bind_r (schedule env f) (\<lambda>f. Inr (Running_Server f))))))"

definition kv_main :: "Server_Env \<Rightarrow> 'a Net_Env \<Rightarrow> (int \<times> string option \<times> int) option \<Rightarrow> directory \<Rightarrow> directory option \<Rightarrow> fault + exit" where
  "kv_main env nx opts snaps walo =
     (case opts of
        None \<Rightarrow> Inr Exit_Failure
      | Some (i, cluster, port) \<Rightarrow>
          let g_id = of_int i :: u64; g_port = of_int port :: 16 word in
          if g_id = 0 \<or> g_port = 0 then Inr Exit_Failure
          else
            (case cluster of
               None \<Rightarrow> Inl (Undefined ''std::string of a null pointer'')
             | Some c \<Rightarrow> kv_start env nx g_id (nx_split nx CHR '','' c) snaps walo))"

text \<open>When every host has an address and a port, the start is the one of \<open>server_main\<close>.\<close>

lemma connect_peers_eq:
  assumes "\<forall>h \<in> set (nd_peers f). \<exists>x. endpoint_of nx h = Inr (Some x)" and "\<forall>k \<in> set ks. k < length (nd_peers f)"
  shows "connect_peers nx ks f =
    bind_r (loop_r (\<lambda>k f. if of_nat k + 1 = nd_id f then Inr f
                   else bind_r (add_peer (of_nat k + 1) (nd_transport f)) (\<lambda>t. Inr (f\<lparr>nd_transport := t\<rparr>))) ks f) (\<lambda>f. Inr (Some f))"
  using assms
proof (induction ks arbitrary: f)
  case (Cons k ks)
  obtain x where x: "endpoint_of nx (nd_peers f ! k) = Inr (Some x)" using Cons.prems nth_mem [of k "nd_peers f"] by (meson list.set_intros(1))
  show ?case
  proof (cases "of_nat k + 1 = nd_id f \<or> map_of (tr_peers (nd_transport f)) (of_nat k + 1) \<noteq> None")
    case True
    moreover have "f\<lparr>nd_transport := nd_transport f\<rparr> = f" by simp
    ultimately show ?thesis using Cons by (auto simp: add_peer_def)
  next
    case False
    then show ?thesis
      using Cons x by (cases "add_peer (of_nat k + 1) (nd_transport f)") (auto simp: nth_r_def)
  qed
qed simp

lemma kv_start_eq:
  assumes "\<forall>h \<in> set peers. \<exists>x. endpoint_of nx h = Inr (Some x)"
  shows "kv_start env nx i peers snaps walo = bind_r (server_main env i peers snaps walo) (\<lambda>f. Inr (Running_Server f))"
proof (cases "RaftNode_new env i peers snaps walo")
  case (Inr f)
  then have p: "nd_peers f = peers" by (auto simp: RaftNode_new_def bind_r_eq_Inr split_beta' split: if_splits)
  show ?thesis
  proof (cases "unat (i - 1) < length peers")
    case True
    then obtain x where "endpoint_of nx (peers ! unat (i - 1)) = Inr (Some x)" using assms nth_mem by blast
    then show ?thesis
      using Inr True p assms connect_peers_eq [of f nx "[0..<length (nd_peers f)]"]
      by (cases "add_peers f") (auto simp: kv_start_def server_main_def nth_r_def add_peers_def)
  qed (use Inr p in \<open>simp add: kv_start_def server_main_def nth_r_def\<close>)
qed (simp add: kv_start_def server_main_def)

section \<open>Messages reach the other node\<close>

text \<open>A session that has got part of the stream goes on with the rest.\<close>

lemma serve_append:
  "serve unpack s a = Inr (ms, s', rest) \<Longrightarrow>
     serve unpack s (a @ b) = bind_r (serve unpack s' (rest @ b)) (\<lambda>(ms', s'', rest'). Inr (ms @ ms', s'', rest'))"
proof (induction unpack s a arbitrary: ms s' rest rule: serve.induct)
  case (1 unpack s bs)
  have un: "bind_r m (\<lambda>(ms', s'', rest'). Inr ([] @ ms', s'', rest')) = m" for m :: "fault + (Message list \<times> ServerSession \<times> bytes)"
    by (cases m) (auto simp: bind_r_def)
  show ?case
  proof (cases "sv_phase s")
    case Idle
    then show ?thesis using 1(3) un by (simp add: serve.simps [of unpack s bs])
  next
    case ReadMeta
    show ?thesis
    proof (cases "length bs < meta_size")
      case True
      then show ?thesis using 1(3) ReadMeta un by (simp add: serve.simps [of unpack s bs])
    next
      case False
      then have "serve unpack (on_meta (take meta_size bs) s) (drop meta_size bs) = Inr (ms, s', rest)"
        using 1(3) ReadMeta by (simp add: serve.simps [of unpack s bs])
      from 1(1) [OF ReadMeta False this] show ?thesis using ReadMeta False by (simp add: serve.simps [of unpack s "bs @ b"])
    qed
  next
    case ReadMessage
    let ?n = "unat (tm_len (sv_meta s))"
    show ?thesis
    proof (cases "length bs < ?n")
      case True
      then show ?thesis using 1(3) ReadMessage un by (simp add: serve.simps [of unpack s bs] Let_def)
    next
      case False
      then obtain o1 s1 o2 where o: "on_message unpack (take ?n bs) s = Inr (o1, s1)" "serve unpack s1 (drop ?n bs) = Inr (o2, s', rest)" "ms = o1 @ o2"
        using 1(3) ReadMessage by (auto simp: serve.simps [of unpack s bs] Let_def bind_r_eq_Inr)
      from 1(2) [OF ReadMessage refl False o(1) refl o(2)] show ?thesis
        using ReadMessage False o by (simp add: serve.simps [of unpack s "bs @ b"] Let_def bind_r_def split: sum.splits)
    qed
  qed
qed

lemma serve_stops:
  "serve unpack s a = Inr (ms, s', rest) \<Longrightarrow> serve unpack s' rest = Inr ([], s', rest)"
proof (induction unpack s a arbitrary: ms s' rest rule: serve.induct)
  case (1 unpack s bs)
  show ?case
  proof (cases "sv_phase s")
    case ReadMeta
    show ?thesis
    proof (cases "length bs < meta_size")
      case True
      then show ?thesis using 1(3) ReadMeta by (auto simp: serve.simps [of unpack s bs] serve.simps [of unpack s' rest])
    next
      case False
      then show ?thesis using 1(1) [OF ReadMeta False] 1(3) ReadMeta by (simp add: serve.simps [of unpack s bs])
    qed
  next
    case ReadMessage
    show ?thesis
    proof (cases "length bs < unat (tm_len (sv_meta s))")
      case True
      then show ?thesis using 1(3) ReadMessage by (auto simp: serve.simps [of unpack s bs] serve.simps [of unpack s' rest] Let_def)
    next
      case False
      then obtain o1 s1 o2 where "on_message unpack (take (unat (tm_len (sv_meta s))) bs) s = Inr (o1, s1)"
        "serve unpack s1 (drop (unat (tm_len (sv_meta s))) bs) = Inr (o2, s', rest)"
        using 1(3) ReadMessage by (auto simp: serve.simps [of unpack s bs] Let_def bind_r_eq_Inr)
      then show ?thesis using 1(2) [OF ReadMessage refl False _ refl] by blast
    qed
  qed (use 1(3) in \<open>auto simp: serve.simps [of unpack s bs] serve.simps [of unpack s' rest]\<close>)
qed

lemma serve_fails: "serve unpack s a = Inl e \<Longrightarrow> serve unpack s (a @ b) = Inl e"
proof (induction unpack s a rule: serve.induct)
  case (1 unpack s bs)
  show ?case
  proof (cases "sv_phase s")
    case ReadMeta
    then have "\<not> length bs < meta_size" using 1(3) by (auto simp: serve.simps [of unpack s bs])
    then show ?thesis using 1(1) [OF ReadMeta] 1(3) ReadMeta by (simp add: serve.simps [of unpack s "bs @ b"] serve.simps [of unpack s bs])
  next
    case ReadMessage
    then have n: "\<not> length bs < unat (tm_len (sv_meta s))" using 1(3) by (auto simp: serve.simps [of unpack s bs] Let_def)
    show ?thesis
    proof (cases "on_message unpack (take (unat (tm_len (sv_meta s))) bs) s")
      case (Inl x)
      then show ?thesis using n 1(3) ReadMessage by (simp add: serve.simps [of unpack s "bs @ b"] serve.simps [of unpack s bs] Let_def)
    next
      case (Inr x)
      obtain o1 s1 where x: "x = (o1, s1)" by fastforce
      have "serve unpack s1 (drop (unat (tm_len (sv_meta s))) bs) = Inl e"
        using n 1(3) ReadMessage Inr x by (auto simp: serve.simps [of unpack s bs] Let_def bind_r_def split: sum.splits)
      then show ?thesis
        using 1(2) [OF ReadMessage refl n, of "(o1, s1)" o1 s1] n ReadMessage Inr x by (simp add: serve.simps [of unpack s "bs @ b"] Let_def)
    qed
  qed (use 1(3) in \<open>simp add: serve.simps [of unpack s bs]\<close>)
qed

lemma process_all_append:
  "process_all env (ms @ ms') f =
     (case process_all env ms f of None \<Rightarrow> None | Some (Inl e) \<Rightarrow> Some (Inl e) | Some (Inr f) \<Rightarrow> process_all env ms' f)"
  by (induction ms arbitrary: f) (auto split: option.splits sum.splits)

text \<open>The pieces in which the bytes arrive do not matter.\<close>

lemma receive_pieces:
  assumes "k < length (ac_sessions a)" and "ac_sessions a ! k = (s, rest)" and "serve unpack s rest = Inr ([], s, rest)"
    and "serve unpack s (rest @ concat bss) = Inr (ms, s', rest')"
  shows "receive_all env unpack k bss (a, f) =
    map_option (map_sum (\<lambda>e. e) (Pair (a\<lparr>ac_sessions := (ac_sessions a)[k := (s', rest')]\<rparr>))) (process_all env ms f)"
  using assms
proof (induction bss arbitrary: a f s rest ms)
  case Nil
  then have "ms = []" "s' = s" "rest' = rest" by simp_all
  moreover have "a\<lparr>ac_sessions := (ac_sessions a)[k := (s, rest)]\<rparr> = a" using Nil.prems(2) by (metis Acceptor.surjective Acceptor.update_convs(2) list_update_id)
  ultimately show ?case by simp
next
  case (Cons bs bss)
  obtain m1 s1 r1 where 1: "serve unpack s (rest @ bs) = Inr (m1, s1, r1)"
    using serve_fails [of unpack s "rest @ bs" _ "concat bss"] Cons.prems(4) by (cases "serve unpack s (rest @ bs)") auto
  obtain m2 where 2: "serve unpack s1 (r1 @ concat bss) = Inr (m2, s', rest')" "ms = m1 @ m2"
    using serve_append [OF 1, of "concat bss"] Cons.prems(4) by (auto simp: bind_r_eq_Inr)
  let ?a = "a\<lparr>ac_sessions := (ac_sessions a)[k := (s1, r1)]\<rparr>"
  have b: "on_bytes unpack k bs a = Inr (m1, ?a)" using 1 Cons.prems(1,2) by (simp add: on_bytes_def nth_r_def)
  have IH: "receive_all env unpack k bss (?a, g) =
      map_option (map_sum (\<lambda>e. e) (Pair (a\<lparr>ac_sessions := (ac_sessions a)[k := (s', rest')]\<rparr>))) (process_all env m2 g)" for g
    using Cons.IH [of ?a s1 r1 m2 g] Cons.prems(1) serve_stops [OF 1] 2(1) by simp
  show ?case
    using b IH by (auto simp: on_receive_def 2(2) process_all_append split: option.splits sum.splits)
qed

text \<open>The debug message a peer is created with.\<close>

definition debug_frame :: "u32 \<Rightarrow> bytes" where
  "debug_frame n = meta_bytes \<lparr>tm_type = TransportTypeDebug, tm_len = 8\<rparr> @ debug_bytes \<lparr>dm_a = n, dm_b = n + 1\<rparr>"

lemma serve_debug: "serve unpack ServerSession_new (debug_frame n @ rest) = serve unpack ServerSession_new rest"
proof -
  let ?s = "on_meta (meta_bytes \<lparr>tm_type = TransportTypeDebug, tm_len = 8\<rparr>) ServerSession_new" and ?d = "debug_bytes \<lparr>dm_a = n, dm_b = n + 1\<rparr>"
  have d: "length ?d = 8" "bytes_debug ?d = \<lparr>dm_a = n, dm_b = n + 1\<rparr>" by (simp_all add: debug_bytes_def bytes_debug_def)
  have "serve unpack ServerSession_new (debug_frame n @ rest) = serve unpack ?s (?d @ rest)"
    by (subst serve.simps) (simp add: ServerSession_new_def start_read_meta_def debug_frame_def)
  also have "\<dots> = bind_r (serve unpack ServerSession_new rest) (\<lambda>(outs, s, rest). Inr ([] @ outs, s, rest))"
    using d by (subst serve.simps)
      (simp add: on_meta_def ServerSession_new_def start_read_meta_def on_message_def decode_message_def)
  also have "\<dots> = serve unpack ServerSession_new rest" by (cases "serve unpack ServerSession_new rest") auto
  finally show ?thesis .
qed

text \<open>
  C22. Messages are processed by the other node: when a transport sends messages, and the bytes it has queued for a
  peer, behind the debug messages of the timer, arrive on a new connection of that peer in any pieces,
  the peer does exactly what \<^verbatim>\<open>RaftNode::process\<close> does on the messages addressed to it, all of them, one after the
  other in the order of sending; nothing else reaches the node, and the connection waits for the next message.
\<close>

theorem sent_messages_processed:
  assumes "\<forall>i p. map_of (tr_peers t) i = Some p \<longrightarrow> peer_room p (length (concat (map (msg_frame pack) ms)))"
    and "\<forall>m \<in> set ms. sendable pack unpack m" and "to \<noteq> 0" and "map_of (tr_peers t) to = Some p"
    and "peer_content p = concat (map debug_frame ns)"
    and "k < length (ac_sessions a)" and "ac_sessions a ! k = (ServerSession_new, [])"
  shows "\<exists>t' p'. transport_send pack ms t = Inr t' \<and> map_of (tr_peers t') to = Some p' \<and>
     (\<forall>bss. concat bss = peer_content p' \<longrightarrow>
        receive_all env unpack k bss (a, f) = map_option (map_sum (\<lambda>e. e) (Pair a)) (process_all env (filter (\<lambda>m. m_to m = to) ms) f))"
proof -
  let ?ms = "filter (\<lambda>m. m_to m = to) ms" and ?new = "serve unpack ServerSession_new"
  obtain t' p' where t': "transport_send pack ms t = Inr t'" "map_of (tr_peers t') to = Some p'"
    "peer_content p' = concat (map debug_frame ns) @ concat (map (msg_frame pack) ?ms)"
    using transport_send_ok [OF assms(1)] assms(3-5) by fastforce
  have e: "?new [] = Inr ([], ServerSession_new, [])"
    by (subst serve.simps) (simp add: ServerSession_new_def start_read_meta_def meta_size_def)
  have m: "?new (concat (map (msg_frame pack) xs)) = Inr (xs, ServerSession_new, [])" if "\<forall>m \<in> set xs. sendable pack unpack m" for xs
    using that by (induction xs) (simp_all add: e serve_frame)
  have "?new (concat (map debug_frame ns) @ rest) = ?new rest" for rest by (induction ns) (simp_all add: serve_debug)
  then have s: "?new (peer_content p') = Inr (?ms, ServerSession_new, [])" using m [of ?ms] assms(2) t'(3) by simp
  have "a\<lparr>ac_sessions := (ac_sessions a)[k := (ServerSession_new, [])]\<rparr> = a"
    using assms(7) by (metis Acceptor.surjective Acceptor.update_convs(2) list_update_id)
  then show ?thesis using receive_pieces [OF assms(6,7) e] s t'(1,2) by (intro exI [of _ t'] exI [of _ p']) auto
qed

theorem sent_messages_processed_witness:
  "\<exists>t' p'. transport_send example_pack example_messages example_transport = Inr t' \<and> map_of (tr_peers t') 2 = Some p' \<and>
     receive_all example_env example_unpack 0 [take 8 (peer_content p'), drop 8 (peer_content p')]
         (asio_accept False \<lparr>ac_armed = True, ac_sessions = []\<rparr>, example_node) =
       map_option (map_sum (\<lambda>e. e) (Pair (asio_accept False \<lparr>ac_armed = True, ac_sessions = []\<rparr>)))
         (process_all example_env [Message_default\<lparr>m_to := 2, m_term := 5\<rparr>, Message_default\<lparr>m_to := 2, m_term := 6\<rparr>] example_node)"
proof -
  let ?p = "\<lparr>pe_session = None, pe_connects = 0\<rparr>" and ?n = "length (concat (map (msg_frame example_pack) example_messages))"
  let ?a = "asio_accept False \<lparr>ac_armed = True, ac_sessions = []\<rparr>"
  have n: "?n = 21" by code_simp
  have "peer_room ?p ?n" unfolding n by (simp add: peer_room_def bb_room_def ByteBuffer_new_def)
  then have 1: "\<forall>i p. map_of (tr_peers example_transport) i = Some p \<longrightarrow> peer_room p ?n" by (simp add: example_transport_def)
  have "\<forall>m \<in> set example_messages. length (example_pack m) = 2" by (simp add: example_pack_def)
  moreover have "\<forall>m \<in> set example_messages. example_unpack (example_pack m) = Some m" by code_simp
  ultimately have 2: "\<forall>m \<in> set example_messages. sendable example_pack example_unpack m" by (simp add: sendable_def)
  have 3: "(2 :: u64) \<noteq> 0" "map_of (tr_peers example_transport) 2 = Some ?p" "peer_content ?p = concat (map debug_frame [])"
    "0 < length (ac_sessions ?a)" "ac_sessions ?a ! 0 = (ServerSession_new, [])"
    by (simp_all add: example_transport_def peer_content_def asio_accept_def on_accept_def start_accept_def)
  have f: "filter (\<lambda>m. m_to m = 2) example_messages = [Message_default\<lparr>m_to := 2, m_term := 5\<rparr>, Message_default\<lparr>m_to := 2, m_term := 6\<rparr>]"
    by (simp add: example_messages_def)
  obtain t' p' where t': "transport_send example_pack example_messages example_transport = Inr t'" "map_of (tr_peers t') 2 = Some p'"
    "\<forall>bss. concat bss = peer_content p' \<longrightarrow> receive_all example_env example_unpack 0 bss (?a, example_node) =
       map_option (map_sum (\<lambda>e. e) (Pair ?a)) (process_all example_env (filter (\<lambda>m. m_to m = 2) example_messages) example_node)"
    using sent_messages_processed [OF 1 2 3] by blast
  moreover have "concat [take 8 (peer_content p'), drop 8 (peer_content p')] = peer_content p'" by simp
  ultimately show ?thesis using f by metis
qed

end
