(* ===== verification/Status_Heap.thy ===== *)
theory Status_Heap
  imports Proto Byte_Codec
begin

text \<open>
  \<^verbatim>\<open>Status\<close> of \<^verbatim>\<open>common/status.cpp\<close> as it lies in memory: a null pointer for success, otherwise a block
  from \<^verbatim>\<open>malloc\<close> with the length of the message, the code and the message. The heap is explicit, so that
  reading a freed block, writing behind a block, a double \<^verbatim>\<open>free\<close> and a leak can be stated. The class is
  shown to implement the datatype \<open>Status\<close>, which the other theories use: as long as no object is
  assigned to itself, every object has its own block, there is no other block, and objects behave as values.
\<close>

section \<open>The heap\<close>

text \<open>A block is a list of bytes; \<open>None\<close> is a byte that has not been written.\<close>

record Heap =
  hp_block :: "nat \<Rightarrow> u8 option list option"
  hp_next :: nat

definition malloc :: "nat \<Rightarrow> Heap \<Rightarrow> nat \<times> Heap" where
  "malloc n h = (hp_next h, h\<lparr>hp_block := (hp_block h)(hp_next h \<mapsto> replicate n None), hp_next := Suc (hp_next h)\<rparr>)"

definition free :: "nat \<Rightarrow> Heap \<Rightarrow> fault + Heap" where
  "free p h =
     (if hp_block h p = None then Inl (Undefined ''free of a block that is not allocated'')
      else Inr (h\<lparr>hp_block := (hp_block h)(p := None)\<rparr>))"

text \<open>\<^verbatim>\<open>memcpy\<close> into and out of a block.\<close>

definition copy_in :: "nat \<Rightarrow> nat \<Rightarrow> bytes \<Rightarrow> Heap \<Rightarrow> fault + Heap" where
  "copy_in p off bs h =
     (case hp_block h p of
        None \<Rightarrow> Inl (Undefined ''write to a block that is not allocated'')
      | Some b \<Rightarrow>
          if off + length bs \<le> length b
          then Inr (h\<lparr>hp_block := (hp_block h)(p \<mapsto> take off b @ map Some bs @ drop (off + length bs) b)\<rparr>)
          else Inl (Undefined ''write behind the block''))"

definition copy_out :: "nat \<Rightarrow> nat \<Rightarrow> nat \<Rightarrow> Heap \<Rightarrow> fault + bytes" where
  "copy_out p off n h =
     (case hp_block h p of
        None \<Rightarrow> Inl (Undefined ''read of a block that is not allocated'')
      | Some b \<Rightarrow>
          if off + n \<le> length b \<and> None \<notin> set (take n (drop off b)) then Inr (map the (take n (drop off b)))
          else Inl (Undefined ''read behind the block''))"

section \<open>The class\<close>

datatype Code = Code_OK | Code_NotFound | Code_NotSupported | Code_InvalidArgument | Code_IOError

primrec code_value :: "Code \<Rightarrow> u8" where
  "code_value Code_OK = 0"
| "code_value Code_NotFound = 1"
| "code_value Code_NotSupported = 2"
| "code_value Code_InvalidArgument = 3"
| "code_value Code_IOError = 4"

text \<open>A \<^verbatim>\<open>const char*\<close> that is not null, up to its first NUL.\<close>

definition c_chars :: "string \<Rightarrow> bytes" where
  "c_chars m = takeWhile (\<lambda>b. b \<noteq> 0) (map of_char m)"

definition Status_new :: "Code \<Rightarrow> string option \<Rightarrow> Heap \<Rightarrow> fault + (nat option \<times> Heap)" where
  "Status_new code msg h =
     (let text = (case msg of None \<Rightarrow> [] | Some m \<Rightarrow> c_chars m);
          len = of_nat (length text) :: u32;
          (p, h) = malloc (unat (len + 5)) h in
      bind_r (copy_in p 0 (le32 len) h) (\<lambda>h.
      bind_r (copy_in p 4 [code_value code] h) (\<lambda>h.
      bind_r (copy_in p 5 (take (unat len) text) h) (\<lambda>h. Inr (Some p, h)))))"

definition status_copy :: "nat option \<Rightarrow> Heap \<Rightarrow> fault + (nat option \<times> Heap)" where
  "status_copy s h =
     (case s of
        None \<Rightarrow> Inr (None, h)
      | Some q \<Rightarrow>
          bind_r (copy_out q 0 4 h) (\<lambda>b.
          let len = un_le32 b; (p, h) = malloc (unat (len + 5)) h in
          bind_r (copy_out q 0 (unat (len + 5)) h) (\<lambda>bs.
          bind_r (copy_in p 0 bs h) (\<lambda>h. Inr (Some p, h)))))"

definition status_code :: "nat option \<Rightarrow> Heap \<Rightarrow> fault + u8" where
  "status_code s h =
     (case s of None \<Rightarrow> Inr (code_value Code_OK) | Some p \<Rightarrow> bind_r (copy_out p 4 1 h) (\<lambda>b. Inr (hd b)))"

definition status_has_code :: "Code \<Rightarrow> nat option \<Rightarrow> Heap \<Rightarrow> fault + bool" where
  "status_has_code c s h = bind_r (status_code s h) (\<lambda>b. Inr (b = code_value c))"

text \<open>
  The name of a code; \<^verbatim>\<open>%d\<close> prints it. The text for an unknown code always fits the 30 bytes of the
  local array.
\<close>

definition print_code :: "u8 \<Rightarrow> string" where
  "print_code c = (let n = unat c in map (\<lambda>d. char_of (48 + d)) (if n < 10 then [n] else if n < 100 then [n div 10, n mod 10]
     else [n div 100, n div 10 mod 10, n mod 10]))"

definition code_text :: "u8 \<Rightarrow> string" where
  "code_text c =
     (if c = 0 then ''ok''
      else if c = 1 then ''not found:''
      else if c = 2 then ''not supported:''
      else if c = 3 then ''invalid argument:''
      else if c = 4 then ''io error:''
      else ''Unknown code('' @ print_code c @ ''):'')"

definition status_to_string :: "nat option \<Rightarrow> Heap \<Rightarrow> fault + string" where
  "status_to_string s h =
     (case s of
        None \<Rightarrow> Inr ''ok''
      | Some p \<Rightarrow>
          bind_r (status_code s h) (\<lambda>c.
          bind_r (copy_out p 0 4 h) (\<lambda>b.
          let len = un_le32 b; ret = code_text c in
          if len > 0 then bind_r (copy_out p 5 (unat len) h) (\<lambda>bs. Inr (ret @ map (\<lambda>b. char_of (unat b)) bs))
          else Inr (butlast ret))))"

text \<open>
  Objects of the class by their address, with their member \<^verbatim>\<open>status_\<close>; an object that is not alive has a null
  pointer here. The copy constructor, the assignment operator and the destructor.
\<close>

record Status_Objects =
  so_heap :: Heap
  so_status :: "nat \<Rightarrow> nat option"

definition set_status :: "nat \<Rightarrow> Status_Objects \<Rightarrow> nat option \<times> Heap \<Rightarrow> Status_Objects" where
  "set_status a S x = \<lparr>so_heap = snd x, so_status = (so_status S)(a := fst x)\<rparr>"

definition construct :: "nat \<Rightarrow> Code \<Rightarrow> string option \<Rightarrow> Status_Objects \<Rightarrow> fault + Status_Objects" where
  "construct a code msg S = bind_r (Status_new code msg (so_heap S)) (\<lambda>x. Inr (set_status a S x))"

definition copy_construct :: "nat \<Rightarrow> nat \<Rightarrow> Status_Objects \<Rightarrow> fault + Status_Objects" where
  "copy_construct a b S = bind_r (status_copy (so_status S b) (so_heap S)) (\<lambda>x. Inr (set_status a S x))"

definition assign :: "nat \<Rightarrow> nat \<Rightarrow> Status_Objects \<Rightarrow> fault + Status_Objects" where
  "assign a b S =
     bind_r (case so_status S a of None \<Rightarrow> Inr (so_heap S) | Some p \<Rightarrow> free p (so_heap S)) (\<lambda>h.
     bind_r (status_copy (so_status S b) h) (\<lambda>x. Inr (set_status a S x)))"

definition destruct :: "nat \<Rightarrow> Status_Objects \<Rightarrow> fault + Status_Objects" where
  "destruct a S =
     bind_r (case so_status S a of None \<Rightarrow> Inr (so_heap S) | Some p \<Rightarrow> free p (so_heap S)) (\<lambda>h.
     Inr (set_status a S (None, h)))"

section \<open>Objects as values\<close>

text \<open>What a block holds, and which value an object has. A message is a C string whose block size fits 32 bits.\<close>

primrec status_of :: "Code \<Rightarrow> string \<Rightarrow> Status" where
  "status_of Code_OK m = OK"
| "status_of Code_NotFound m = NotFound m"
| "status_of Code_NotSupported m = NotSupported m"
| "status_of Code_InvalidArgument m = InvalidArgument m"
| "status_of Code_IOError m = IOError m"

definition message_ok :: "string \<Rightarrow> bool" where
  "message_ok m \<longleftrightarrow> CHR 0x00 \<notin> set m \<and> length m < 2 ^ 32 - 5"

definition block_of :: "Code \<Rightarrow> string \<Rightarrow> bytes" where
  "block_of c m = le32 (of_nat (length m)) @ [code_value c] @ map of_char m"

definition status_rep :: "Heap \<Rightarrow> nat option \<Rightarrow> Status \<Rightarrow> bool" where
  "status_rep h s v =
     (case s of None \<Rightarrow> v = OK
      | Some p \<Rightarrow> \<exists>c m. c \<noteq> Code_OK \<and> message_ok m \<and> v = status_of c m \<and> hp_block h p = Some (map Some (block_of c m)))"

definition objects_view :: "Status_Objects \<Rightarrow> (nat \<Rightarrow> Status) \<Rightarrow> bool" where
  "objects_view S v \<longleftrightarrow>
     (\<forall>p. hp_block (so_heap S) p \<noteq> None \<longrightarrow> p < hp_next (so_heap S) \<and> (\<exists>a. so_status S a = Some p)) \<and>
     (\<forall>a b p. so_status S a = Some p \<longrightarrow> so_status S b = Some p \<longrightarrow> a = b) \<and>
     (\<forall>a. status_rep (so_heap S) (so_status S a) (v a))"

lemma objects_viewD:
  assumes "objects_view S v"
  shows "status_rep (so_heap S) (so_status S a) (v a)" "so_status S a = Some p \<Longrightarrow> so_status S b = Some p \<Longrightarrow> a = b"
    "hp_block (so_heap S) p \<noteq> None \<Longrightarrow> p < hp_next (so_heap S) \<and> (\<exists>a. so_status S a = Some p)"
  using assms unfolding objects_view_def by blast+

lemma objects_viewI:
  assumes "\<And>a. status_rep (so_heap S) (so_status S a) (v a)"
    and "\<And>a b p. so_status S a = Some p \<Longrightarrow> so_status S b = Some p \<Longrightarrow> a = b"
    and "\<And>p. hp_block (so_heap S) p \<noteq> None \<Longrightarrow> p < hp_next (so_heap S)"
    and "\<And>p. hp_block (so_heap S) p \<noteq> None \<Longrightarrow> \<exists>a. so_status S a = Some p"
  shows "objects_view S v"
  using assms unfolding objects_view_def by blast

lemma status_rep_simps [simp]:
  "status_rep h None v \<longleftrightarrow> v = OK"
  "status_rep h (Some p) v \<longleftrightarrow>
     (\<exists>c m. c \<noteq> Code_OK \<and> message_ok m \<and> v = status_of c m \<and> hp_block h p = Some (map Some (block_of c m)))"
  by (simp_all add: status_rep_def)

lemma status_rep_elsewhere: "status_rep h s v \<Longrightarrow> (\<And>p. s = Some p \<Longrightarrow> hp_block h' p = hp_block h p) \<Longrightarrow> status_rep h' s v"
  by (cases s) simp_all

lemma char_of_unat_of_char: "char_of (unat (of_char c :: u8)) = c"
proof -
  have "unat (of_nat (of_char c) :: u8) = (of_char c :: nat)" by (intro unat_of_nat_small) simp
  then show ?thesis by (simp only: of_nat_of_char char_of_char)
qed

lemma of_char_zero: "(of_char c :: u8) = 0 \<longleftrightarrow> c = CHR 0x00"
proof
  assume "(of_char c :: u8) = 0"
  then have "c = char_of (unat (0 :: u8))" using char_of_unat_of_char [of c] by simp
  then show "c = CHR 0x00" by (simp add: char_of_def)
qed simp

lemma c_chars_ok: "message_ok m \<Longrightarrow> c_chars m = map of_char m"
  by (auto simp: c_chars_def message_ok_def takeWhile_eq_all_conv of_char_zero)

lemma length_block_of [simp]: "length (block_of c m) = 5 + length m"
  by (simp add: block_of_def)

lemma unat_message_length:
  assumes "message_ok m"
  shows "unat (of_nat (length m) :: u32) = length m" and "unat (of_nat (length m) + 5 :: u32) = 5 + length m"
proof -
  have "unat (of_nat (length m + 5) :: u32) = length m + 5"
    using assms unfolding message_ok_def by (intro unat_of_nat_small) simp
  then show "unat (of_nat (length m) + 5 :: u32) = 5 + length m" by (simp add: add.commute)
  show "unat (of_nat (length m) :: u32) = length m"
    using assms unfolding message_ok_def by (intro unat_of_nat_small) simp
qed

lemma copy_out_written:
  assumes "hp_block h p = Some (map Some bs)" and "off + n \<le> length bs"
  shows "copy_out p off n h = Inr (take n (drop off bs))"
  using assms by (auto simp: copy_out_def drop_map take_map comp_def)

lemma block_parts:
  "take 4 (block_of c m) = le32 (of_nat (length m))" "hd (drop 4 (block_of c m)) = code_value c"
  "take (length m) (drop 5 (block_of c m)) = map of_char m"
  by (simp_all add: block_of_def)

text \<open>A new block with the given bytes.\<close>

definition with_block :: "bytes \<Rightarrow> Heap \<Rightarrow> Heap" where
  "with_block bs h = h\<lparr>hp_block := (hp_block h)(hp_next h \<mapsto> map Some bs), hp_next := Suc (hp_next h)\<rparr>"

lemma Status_new_ok:
  assumes "message_ok m"
  shows "Status_new c (Some m) h = Inr (Some (hp_next h), with_block (block_of c m) h)"
  using unat_message_length [OF assms]
  by (simp add: Status_new_def Let_def c_chars_ok [OF assms] malloc_def copy_in_def block_of_def with_block_def)

lemma status_copy_ok:
  assumes "hp_block h p = Some (map Some (block_of c m))" and "message_ok m" and "p < hp_next h"
  shows "status_copy (Some p) h = Inr (Some (hp_next h), with_block (block_of c m) h)"
proof -
  note u = unat_message_length [OF assms(2)]
  have "copy_out p 0 4 h = Inr (le32 (of_nat (length m)))" using copy_out_written [OF assms(1), of 0 4] by (simp add: block_parts)
  moreover let ?h = "snd (malloc (5 + length m) h)"
  have "hp_block ?h p = Some (map Some (block_of c m))" using assms(1,3) by (simp add: malloc_def)
  then have "copy_out p 0 (5 + length m) ?h = Inr (block_of c m)" using copy_out_written [of ?h p _ 0 "5 + length m"] by simp
  ultimately show ?thesis
    by (simp add: status_copy_def Let_def u malloc_def copy_in_def with_block_def)
qed

lemma to_string_ok:
  assumes "status_rep h s v"
  shows "status_to_string s h = Inr (Status_to_string v)"
proof (cases s)
  case None
  then show ?thesis using assms by (simp add: status_rep_def status_to_string_def)
next
  case (Some p)
  then obtain c m where r: "c \<noteq> Code_OK" "message_ok m" "v = status_of c m" "hp_block h p = Some (map Some (block_of c m))"
    using assms by (auto simp: status_rep_def)
  note out = copy_out_written [OF r(4)] and u = unat_message_length [OF r(2)]
  have "code_text (code_value c) = (case c of Code_NotFound \<Rightarrow> ''not found:'' | Code_NotSupported \<Rightarrow> ''not supported:''
      | Code_InvalidArgument \<Rightarrow> ''invalid argument:'' | Code_IOError \<Rightarrow> ''io error:'')"
    using r(1) by (cases c) (simp_all add: code_text_def)
  moreover have "(of_nat (length m) :: u32) > 0 \<longleftrightarrow> m \<noteq> []" using u(1) by (simp add: word_less_nat_alt)
  moreover have "map (\<lambda>b. char_of (unat b)) (map of_char m :: bytes) = m" by (simp add: comp_def char_of_unat_of_char)
  ultimately show ?thesis
    using r(1) Some out [of 0 4] out [of 4 1] out [of 5 "length m"]
    by (cases c) (simp_all add: status_to_string_def status_code_def block_parts r(3) u status_text_def)
qed

text \<open>The two changes of the heap: a block for an object that has none, and the end of the block of an object.\<close>

lemma view_new:
  assumes "objects_view S v" and "so_status S a = None" and "c \<noteq> Code_OK" and "message_ok m"
  shows "objects_view (set_status a S (Some (hp_next (so_heap S)), with_block (block_of c m) (so_heap S))) (v(a := status_of c m))"
proof -
  let ?n = "hp_next (so_heap S)"
  have fresh: "so_status S b \<noteq> Some ?n" for b
  proof
    assume b: "so_status S b = Some ?n"
    then have "hp_block (so_heap S) ?n \<noteq> None" using objects_viewD(1) [OF assms(1), of b] by auto
    then show False using objects_viewD(3) [OF assms(1)] by blast
  qed
  have "status_rep (with_block (block_of c m) (so_heap S)) (so_status S b) (v b)" for b
    using fresh [of b] by (intro status_rep_elsewhere [OF objects_viewD(1) [OF assms(1), of b]]) (auto simp: with_block_def)
  moreover have "status_rep (with_block (block_of c m) (so_heap S)) (Some ?n) (status_of c m)"
    using assms(3,4) by (auto simp: with_block_def)
  moreover have own: "p < ?n \<and> (\<exists>b. b \<noteq> a \<and> so_status S b = Some p)" if "hp_block (so_heap S) p = Some y" for p y
    using objects_viewD(3) [OF assms(1), of p] that assms(2) by force
  ultimately show ?thesis
    using objects_viewD(2) [OF assms(1)] fresh
    by (intro objects_viewI) (auto simp: set_status_def with_block_def less_Suc_eq simp del: status_rep_simps split: if_splits dest!: own)
qed

lemma view_destruct:
  assumes "objects_view S v"
  shows "\<exists>S'. destruct a S = Inr S' \<and> objects_view S' (v(a := OK)) \<and> so_status S' a = None \<and>
    (\<forall>b. b \<noteq> a \<longrightarrow> so_status S' b = so_status S b)"
proof (cases "so_status S a")
  case None
  then have "v a = OK" using objects_viewD(1) [OF assms, of a] by simp
  then show ?thesis using None assms by (cases S) (simp add: destruct_def set_status_def fun_upd_idem)
next
  case (Some p)
  have other: "so_status S b \<noteq> Some p" if "b \<noteq> a" for b using assms Some that by (auto simp: objects_view_def)
  have "hp_block (so_heap S) p \<noteq> None" using objects_viewD(1) [OF assms, of a] Some by auto
  then have d: "destruct a S = Inr (set_status a S (None, (so_heap S)\<lparr>hp_block := (hp_block (so_heap S))(p := None)\<rparr>))"
    using Some by (simp add: destruct_def free_def)
  have "status_rep ((so_heap S)\<lparr>hp_block := (hp_block (so_heap S))(p := None)\<rparr>) (so_status S b) (v b)" if "b \<noteq> a" for b
    using other [OF that] by (intro status_rep_elsewhere [OF objects_viewD(1) [OF assms, of b]]) auto
  moreover have own: "q < hp_next (so_heap S) \<and> (\<exists>b. b \<noteq> a \<and> so_status S b = Some q)" if "hp_block (so_heap S) q = Some y" "q \<noteq> p" for q y
    using objects_viewD(3) [OF assms, of q] that Some by force
  ultimately have "objects_view (set_status a S (None, (so_heap S)\<lparr>hp_block := (hp_block (so_heap S))(p := None)\<rparr>)) (v(a := OK))"
    using objects_viewD(2) [OF assms] Some
    by (intro objects_viewI) (auto simp: set_status_def simp del: status_rep_simps(2) split: if_splits dest!: own)
  then show ?thesis using d by (simp add: set_status_def)
qed

lemma view_copy:
  assumes "objects_view S v" and "so_status S a = None"
  shows "\<exists>S'. copy_construct a b S = Inr S' \<and> objects_view S' (v(a := v b))"
proof (cases "so_status S b")
  case None
  then have "v b = OK" "v a = OK" using objects_viewD(1) [OF assms(1), of a] objects_viewD(1) [OF assms(1), of b] assms(2) by simp_all
  then show ?thesis using None assms by (cases S) (simp add: copy_construct_def status_copy_def set_status_def fun_upd_idem)
next
  case (Some p)
  then obtain c m where r: "c \<noteq> Code_OK" "message_ok m" "v b = status_of c m" "hp_block (so_heap S) p = Some (map Some (block_of c m))"
    using objects_viewD(1) [OF assms(1), of b] by auto
  have "p < hp_next (so_heap S)" using objects_viewD(3) [OF assms(1)] r(4) by auto
  then show ?thesis using status_copy_ok [OF r(4,2)] view_new [OF assms r(1,2)] Some r(3) by (simp add: copy_construct_def)
qed

lemma assign_other: "a \<noteq> b \<Longrightarrow> assign a b S = bind_r (destruct a S) (copy_construct a b)"
  by (auto simp: assign_def destruct_def copy_construct_def set_status_def bind_r_def split: sum.splits option.splits)

section \<open>Programs\<close>

text \<open>
  What a program does with its objects. A constructor runs where no object with a block lives; assigning an
  object to itself is excluded, and the messages are C strings that fit. The meaning on values.
\<close>

datatype status_op = Construct nat Code string | Copy_Construct nat nat | Assign nat nat | Destruct nat

primrec status_step :: "status_op \<Rightarrow> Status_Objects \<Rightarrow> fault + Status_Objects" where
  "status_step (Construct a c m) S = construct a c (Some m) S"
| "status_step (Copy_Construct a b) S = copy_construct a b S"
| "status_step (Assign a b) S = assign a b S"
| "status_step (Destruct a) S = destruct a S"

primrec value_step :: "status_op \<Rightarrow> (nat \<Rightarrow> Status) \<Rightarrow> nat \<Rightarrow> Status" where
  "value_step (Construct a c m) v = v(a := status_of c m)"
| "value_step (Copy_Construct a b) v = v(a := v b)"
| "value_step (Assign a b) v = v(a := v b)"
| "value_step (Destruct a) v = v(a := OK)"

primrec op_allowed :: "status_op \<Rightarrow> (nat \<Rightarrow> Status) \<Rightarrow> bool" where
  "op_allowed (Construct a c m) v \<longleftrightarrow> v a = OK \<and> c \<noteq> Code_OK \<and> message_ok m"
| "op_allowed (Copy_Construct a b) v \<longleftrightarrow> v a = OK"
| "op_allowed (Assign a b) v \<longleftrightarrow> a \<noteq> b"
| "op_allowed (Destruct a) v \<longleftrightarrow> True"

primrec ops_allowed :: "status_op list \<Rightarrow> (nat \<Rightarrow> Status) \<Rightarrow> bool" where
  "ops_allowed [] v \<longleftrightarrow> True"
| "ops_allowed (x # xs) v \<longleftrightarrow> op_allowed x v \<and> ops_allowed xs (value_step x v)"

definition no_objects :: Status_Objects where
  "no_objects = \<lparr>so_heap = \<lparr>hp_block = (\<lambda>_. None), hp_next = 0\<rparr>, so_status = (\<lambda>_. None)\<rparr>"

lemma status_of_not_OK: "c \<noteq> Code_OK \<Longrightarrow> status_of c m \<noteq> OK"
  by (cases c) simp_all

lemma view_null: "objects_view S v \<Longrightarrow> v a = OK \<longleftrightarrow> so_status S a = None"
  using objects_viewD(1) [of S v a] by (cases "so_status S a") (auto dest: status_of_not_OK [THEN not_sym])

lemma status_step_view:
  assumes "objects_view S v" and "op_allowed x v"
  shows "\<exists>S'. status_step x S = Inr S' \<and> objects_view S' (value_step x v)"
proof (cases x)
  case (Construct a c m)
  then show ?thesis
    using view_new [OF assms(1), of a c m] assms view_null [OF assms(1), of a] by (simp add: construct_def Status_new_ok)
next
  case (Assign a b)
  obtain S' where S': "destruct a S = Inr S'" "objects_view S' (v(a := OK))" "so_status S' a = None" using view_destruct [OF assms(1)] by blast
  then show ?thesis using view_copy [OF S'(2,3), of b] Assign assms(2) by (auto simp: assign_other)
next
  case (Copy_Construct a b)
  then show ?thesis using view_copy [OF assms(1), of a b] view_null [OF assms(1), of a] assms(2) by simp
next
  case (Destruct a)
  then show ?thesis using view_destruct [OF assms(1), of a] by auto
qed

lemma status_run_view:
  assumes "objects_view S v" and "ops_allowed ops v"
  shows "\<exists>S'. loop_r status_step ops S = Inr S' \<and> objects_view S' (fold value_step ops v)"
  using assms
proof (induction ops arbitrary: S v)
  case (Cons x xs)
  then obtain S' where "status_step x S = Inr S'" "objects_view S' (value_step x v)" using status_step_view [of S v x] by auto
  then show ?case using Cons.IH [of S' "value_step x v"] Cons.prems(2) by simp
qed simp

text \<open>
  C32. \<^verbatim>\<open>Status\<close> objects are values: a program that builds, copies, assigns and destroys them, and assigns
  none to itself, never reads or frees a block that is not allocated and never writes behind one; afterwards
  every object prints as the value the same program gives it, no two objects share a block, and there is no
  block without an object.
\<close>

theorem status_objects_are_values:
  assumes "ops_allowed ops (\<lambda>_. OK)"
  shows "\<exists>S. loop_r status_step ops no_objects = Inr S \<and>
     (\<forall>a. status_to_string (so_status S a) (so_heap S) = Inr (Status_to_string (fold value_step ops (\<lambda>_. OK) a))) \<and>
     (\<forall>a b p. so_status S a = Some p \<and> so_status S b = Some p \<longrightarrow> a = b) \<and>
     (\<forall>p. hp_block (so_heap S) p \<noteq> None \<longrightarrow> (\<exists>a. so_status S a = Some p))"
proof -
  have "objects_view no_objects (\<lambda>_. OK)" by (simp add: objects_view_def no_objects_def)
  then obtain S where S: "loop_r status_step ops no_objects = Inr S" "objects_view S (fold value_step ops (\<lambda>_. OK))"
    using status_run_view assms by blast
  then show ?thesis using to_string_ok [OF objects_viewD(1) [OF S(2)]] objects_viewD(2,3) [OF S(2)] by blast
qed

theorem status_objects_are_values_witness:
  "\<exists>S. loop_r status_step [Construct 1 Code_IOError ''disk'', Copy_Construct 2 1, Construct 3 Code_NotFound '''', Assign 1 3, Destruct 3]
       no_objects = Inr S \<and>
     status_to_string (so_status S 1) (so_heap S) = Inr ''not found'' \<and>
     status_to_string (so_status S 2) (so_heap S) = Inr ''io error:disk'' \<and>
     status_to_string (so_status S 3) (so_heap S) = Inr ''ok''"
  using status_objects_are_values [of "[Construct 1 Code_IOError ''disk'', Copy_Construct 2 1, Construct 3 Code_NotFound '''', Assign 1 3, Destruct 3]"]
  by (auto simp: message_ok_def status_text_def)

text \<open>
  The assignment operator frees before it copies and does not compare the objects: assigning an object that is
  not a success to itself reads the freed block.
\<close>

lemma self_assignment:
  assumes "objects_view S v" and "v a \<noteq> OK"
  shows "assign a a S = Inl (Undefined ''read of a block that is not allocated'')"
proof -
  obtain p where p: "so_status S a = Some p" using view_null [OF assms(1), of a] assms(2) by auto
  then have "hp_block (so_heap S) p \<noteq> None" using objects_viewD(1) [OF assms(1), of a] by auto
  then show ?thesis using p by (simp add: assign_def free_def status_copy_def copy_out_def)
qed

text \<open>
  The size of the block is computed in 32 bits: a message whose length is one of the last five numbers below
  2^32 gets a block too small for it.
\<close>

lemma long_message_overflows:
  assumes "length (c_chars m) < 2 ^ 32" and "2 ^ 32 - 5 \<le> length (c_chars m)"
  shows "\<exists>e. Status_new c (Some m) h = Inl (Undefined e)"
proof -
  let ?n = "length (c_chars m)"
  have "unat (of_nat ?n + 5 :: u32) = unat (of_nat (?n + 5) :: u32)" by simp
  also have "\<dots> = (?n + 5) mod 2 ^ 32" using unat_of_nat [where 'a = 32, of "?n + 5"] by simp
  also have "\<dots> < 5" using assms by (simp add: mod_if) linarith
  finally have "unat (of_nat (length (c_chars m)) + 5 :: u32) < 5" .
  then show ?thesis by (auto simp: Status_new_def Let_def malloc_def copy_in_def)
qed

end
