(* ===== verification/Spec2Isabelle.thy ===== *)
theory Spec2Isabelle
  imports Replica_Safety Kv_Main Status_Heap
begin

text \<open>
  \<^bold>\<open>raft-kv: a replicated key-value server\<close>

  The program is a Redis-compatible server whose state is replicated by Raft. A client command
  reaches \<^verbatim>\<open>server/redis_session\<close>, a write is proposed through \<^verbatim>\<open>server/raft_node\<close> to the consensus
  core \<^verbatim>\<open>raft/\<close>, the core replicates it over \<^verbatim>\<open>transport/\<close>, the committed entries come back to
  \<^verbatim>\<open>server/redis_store\<close>; \<^verbatim>\<open>wal/\<close> and \<^verbatim>\<open>snap/\<close> keep the log and the snapshots on disk. This development
  models the consensus core and, around it, the disk formats, the store, the client sessions, the transport,
  the server that connects them and the main program. It proves the core to be an implementation of the
  Raft protocol, the protocol to be safe, and the safety of the protocol to be that of the stores.

  \<^bold>\<open>Theories and the code they model\<close> (paths under \<^verbatim>\<open>src/raft-kv/\<close>)

  \<^item> \<open>Kv_Prelude\<close>: the fault monad (\<^verbatim>\<open>LOG_FATAL\<close>, \<^verbatim>\<open>assert\<close>, undefined behaviour), checked vector
    access, words read as naturals, \<^verbatim>\<open>std::unordered_map\<close> as an association list (locale \<open>finite_map\<close>).
  \<^item> \<open>Proto\<close>: \<^verbatim>\<open>raft/proto\<close>, \<^verbatim>\<open>common/status\<close>, \<^verbatim>\<open>raft/util\<close>.
  \<^item> \<open>Status_Heap\<close>: \<^verbatim>\<open>common/status\<close> again, on an explicit heap: its objects are values, and self-assignment breaks that.
  \<^item> \<open>Printed_Text\<close>: \<^verbatim>\<open>snprintf\<close> and decimal numbers, as the code uses them.
  \<^item> \<open>Entry_Log\<close>: positions and segments of a log, the contract \<open>indexed_log\<close> as a locale.
  \<^item> \<open>Storage\<close>: \<^verbatim>\<open>raft/storage\<close> (\<^verbatim>\<open>MemoryStorage\<close>), an \<open>indexed_log\<close>.
  \<^item> \<open>Unstable\<close>: \<^verbatim>\<open>raft/unstable\<close>, the entries and the snapshot not yet on disk.
  \<^item> \<open>Raft_Log\<close>: \<^verbatim>\<open>raft/raft_log\<close>, the two parts read as one log, an \<open>indexed_log\<close> again.
  \<^item> \<open>Progress\<close>: \<^verbatim>\<open>raft/progress\<close>, the ring buffer \<^verbatim>\<open>InFlights\<close> as an instance of \<open>flow_window\<close>, and the
    flow-control state of a follower; the text of it fits its buffer.
  \<^item> \<open>Config\<close>, \<open>Read_Only\<close>: \<^verbatim>\<open>raft/config\<close> and \<^verbatim>\<open>raft/readonly\<close>.
  \<^item> \<open>Raft\<close>: the class \<^verbatim>\<open>Raft\<close> of \<^verbatim>\<open>raft/raft.cpp\<close>, every method.
  \<^item> \<open>Raft_Frame\<close>, \<open>Raft_Role\<close>: what each method of \<^verbatim>\<open>Raft\<close> leaves alone, role consistency, and the
    monotonicity of term, vote and commit, up to \<^verbatim>\<open>step\<close> and \<^verbatim>\<open>tick\<close>.
  \<^item> \<open>Quorum\<close>: order statistics and the quorum systems of majorities (locale \<open>quorum_system\<close>).
  \<^item> \<open>Raft_Safety\<close>: runs of a node as a step relation, elections, commitment, flow control.
  \<^item> \<open>Raft_Deviations\<close>: what the code does where its comments or the protocol say something else.
  \<^item> \<open>Raft_Votes\<close>: what the messages of a step say about votes (locale \<open>step_relation\<close>, with the talk of a
    node and its members as instances).
  \<^item> \<open>Cluster\<close>: several nodes over an unreliable network, election safety without pre-vote and its
    failure with pre-vote.
  \<^item> \<open>Raw_Node\<close>: \<^verbatim>\<open>raft/node\<close> and \<^verbatim>\<open>raft/ready\<close>; a round of \<^verbatim>\<open>ready\<close>, saving and \<^verbatim>\<open>advance\<close> is invisible in the log.
  \<^item> \<open>Protocol\<close>: Raft as an abstract specification: nodes, promises in messages, actions, and a history.
    \<open>Protocol_Safety\<close> has its invariant, \<open>Protocol_Steps\<close> that every action preserves it, \<open>Protocol_Start\<close> where runs start.
  \<^item> \<open>Log_View\<close>, \<open>Log_Upkeep\<close>: the abstract log behind a \<^verbatim>\<open>RaftLog\<close>; its operations as list operations; saving,
    snapshots and compaction do not change it.
  \<^item> \<open>Refinement\<close>, \<open>Refinement_Step\<close>: every method of \<^verbatim>\<open>Raft\<close> is a sequence of actions of the protocol.
  \<^item> \<open>Replicas\<close>: a cluster of \<^verbatim>\<open>RawNode\<close>s driven by their servers; its runs are runs of the protocol, an instance
    of the locale \<open>forward_simulation\<close>. \<open>Bootstrap\<close>: the states the constructor builds in a new cluster start such runs.
    \<open>Replica_Safety\<close>: log matching, leader completeness and state machine safety for the code.
  \<^item> \<open>Byte_Codec\<close>: integers as bytes (locale \<open>fixed_codec\<close>), hexadecimal names, streams of blocks.
  \<^item> \<open>Byte_Slice\<close>: \<^verbatim>\<open>common/slice.h\<close>, an instance of the class of linear orders.
  \<^item> \<open>Byte_Buffer\<close>: \<^verbatim>\<open>common/bytebuffer\<close>, an instance of the byte queue \<open>byte_fifo\<close>.
  \<^item> \<open>Wal\<close>: \<^verbatim>\<open>wal/wal\<close>: records, files, saving, replay; round trip and recovery from a torn write.
  \<^item> \<open>Snapshotter\<close>: \<^verbatim>\<open>snap/snapshotter\<close>: what is saved is what is loaded, and file names sort by age.
  \<^item> \<open>Glob\<close>: \<^verbatim>\<open>string_match_len\<close> of \<^verbatim>\<open>server/redis_store.cpp\<close> and the meaning of a pattern.
  \<^item> \<open>Redis_Store\<close>: \<^verbatim>\<open>server/redis_store\<close>, an instance of \<open>replicated_machine\<close>; when requests are answered.
  \<^item> \<open>Redis_Session\<close>: \<^verbatim>\<open>server/redis_session\<close>: commands, replies, reading; replies against a reader of the protocol.
  \<^item> \<open>Transport\<close>: \<^verbatim>\<open>transport/\<close>: frames, queues, peers and the receiving session; messages arrive in order.
  \<^item> \<open>Server\<close>: \<^verbatim>\<open>server/raft_node\<close>, all of the above put together: start and replay, the event loop, application of
    committed entries, snapshots.
  \<^item> \<open>Event_Loop\<close>: what a turn of \<^verbatim>\<open>pull_ready_events\<close> does, and that the loop returns.
  \<^item> \<open>Recovery\<close>: the bytes of the write-ahead log hold the node's term, vote and log; a restart rebuilds them.
  \<^item> \<open>Kv_Main\<close>: addresses, acceptors, connections, stopping and \<^verbatim>\<open>main\<close> of \<^verbatim>\<open>raft-kv.cpp\<close>; sent messages are processed.
  \<^item> This theory: the stores of two nodes agree, which spans the core and the store.

  \<^bold>\<open>How state and operations correspond.\<close> A class is a record whose fields carry the names of the
  members behind a prefix (\<open>r_term\<close> for \<^verbatim>\<open>Raft::term_\<close>), a method is a function of the state that
  returns the new state, and a method that can throw, fail an \<^verbatim>\<open>assert\<close> or run into undefined
  behaviour returns a sum whose left side is the fault. Machine integers keep their width. An
  asynchronous operation is split where the code splits it: starting it is recorded in the state, and
  its completion is a function of its own, given the bytes and the error it brings. A thread
  is the sequence of its handlers. Shared objects are held once: the storage of the server is the
  storage of the node's log.

  \<^bold>\<open>Parameters.\<close> Code outside the repository is an argument: msgpack and the checksum (\<open>Wal_Codec\<close>,
  \<open>Snap_Codec\<close>, \<open>Store_Codec\<close>, \<open>pack\<close> and \<open>unpack\<close>), the parser of hiredis (\<open>Reader_Api\<close>), path
  extensions (\<open>extension_law\<close> says what boost documents), splitting a string, reading an IP address and the
  command line (\<open>Net_Env\<close>), the position \<^verbatim>\<open>ftell\<close> reports, the space left on the disk,
  and the random numbers. Integers copied to disk are little-endian, as on the hosts the program is built for.

  \<^bold>\<open>Bounds.\<close> No fuel is used: the loops that are not structural, among them \<^verbatim>\<open>campaign\<close>, the send loop of
  the leader, the matcher, the replay of a log file and the receiving session, are total functions with a
  measure. Two loops of the code need not end, \<^verbatim>\<open>pull_ready_events\<close> and the retries of \<^verbatim>\<open>all_entries\<close>: they are
  partial functions, whose value is \<open>None\<close> if they do not return, and it is proved that they do return. Invariants keep log positions below \<open>2 ^ 64\<close>,
  the in-flight window at most \<open>2 ^ 31\<close>, and theorems about terms assume that the 64-bit term has
  not run out.

  \<^bold>\<open>Runs of a cluster.\<close> In \<open>Replicas\<close> the network may lose, repeat and reorder messages. The voters are fixed: the
  configuration changes applied keep them, and a snapshot names them. Terms stay below \<open>2 ^ 64 - 1\<close> and
  positions below \<open>2 ^ 64 - 2\<close>, snapshots are taken at or below the applied position, and pre-vote is off. The
  configuration the server ships has it on; for that the code is not safe (\<open>pre_vote_two_leaders\<close>). Nodes of these runs
  do not restart; that a restarted node is the one that stopped, up to what Raft does not need to keep, is
  \<open>Recovery\<close>, for a node that took no snapshot (with one, \<open>restart_loses_snapshot\<close> says what goes wrong). Bytes
  flushed to a file count as on disk.

  Buffers are assumed to stay below \<open>2 ^ 32\<close> bytes where a theorem says so (\<open>bb_room\<close>).

  \<^bold>\<open>Not modelled.\<close> The interior of boost::asio (sockets and timers; starting an operation and its completion are),
  the interleaving of its threads beyond the order of handlers, the encoding of msgpack, the checksum, the log macros
  of \<^verbatim>\<open>common/log.h\<close> and the text of log lines, the empty \<^verbatim>\<open>raft/raft_status\<close>, and the methods that only log
  that they have no implementation yet.
\<close>

section \<open>From the log to the key-value stores\<close>

lemma applied_lists_agree:
  assumes "replicas_start ns es c" and "(replica_step ns)\<^sup>*\<^sup>* c c'" and "i \<in> set ns" and "j \<in> set ns"
    and "map e_index (rp_applied c' i) = map e_index (rp_applied c' j)"
  shows "rp_applied c' i = rp_applied c' j"
proof -
  obtain w where v: "replica_view ns (last_tm es) w c'" using reachable_view [OF assms(1,2)] .
  have len: "length (rp_applied c' i) = length (rp_applied c' j)" using arg_cong [OF assms(5), of length] by simp
  show ?thesis
  proof (rule nth_equalityI [OF len])
    fix k assume k: "k < length (rp_applied c' i)"
    then have "e_index (rp_applied c' i ! k) = e_index (rp_applied c' j ! k)"
      using arg_cong [OF assms(5), of "\<lambda>x. x ! k"] len by simp
    then show "rp_applied c' i ! k = rp_applied c' j ! k"
      using applied_agree [OF v assms(3,4)] k len by simp
  qed
qed


text \<open>In the cluster of three, node 1 proposes a command and node 2 learns that it is committed.\<close>

definition three_set_ops :: "op list" where
  "three_set_ops = three_ops @ [Op_Propose 1 (e_data example_set), Op_Round 1, Op_Receive 8, Op_Round 2, Op_Receive 9, Op_Round 1,
     Op_Receive 10, Op_Round 2]"

lemma three_set_run: "case perform_all [1, 2, 3] three_set_ops three_nodes of None \<Rightarrow> False | Some c \<Rightarrow>
    map e_index (rp_applied c 1) = [1, 2, 3, 4, 5] \<and> map e_index (rp_applied c 2) = [1, 2, 3, 4, 5] \<and>
    map e_data (commands_in (rp_applied c 1)) = [e_data example_set]"
  by code_simp


end
